(* ===== verification/Prelude.thy ===== *)
theory Prelude
  imports Main "HOL-Library.Monad_Syntax"
begin

text \<open>
  What every component shares.  Pointers are integers and \<open>0\<close> is the null pointer.
  A computation that may fail an assertion, dereference a null or unmapped pointer, leave
  the bounds of an array or not return is a value of an \<open>option\<close> type: \<open>None\<close> is that
  failure, and the bind of \<open>Monad_Syntax\<close> sequences such computations as the statements
  of a C body do.  Error values that the code itself returns (a null result, \<open>-1\<close>,
  \<open>false\<close>) stay values.  The fixed-width conversions of C are written out here once:
  \<open>u64\<close> is the conversion to \<open>size_t\<close>, \<open>s32\<close> the conversion to \<open>int\<close>, \<open>bf31\<close> and
  \<open>bf1\<close> the assignments to signed bit fields of 31 and of 1 bit; \<open>cint\<close> is a signed result
  that must not overflow.
\<close>

type_synonym ptr = int

abbreviation NULL :: ptr where "NULL \<equiv> 0"

definition assert_c :: "bool \<Rightarrow> unit option" where
  "assert_c b = (if b then Some () else None)"

lemma assert_c_Some [simp]: "(assert_c b = Some u) = b"
  by (simp add: assert_c_def)

lemma assert_c_True [simp]: "assert_c True = Some ()"
  by (simp add: assert_c_def)

lemma assert_c_False [simp]: "assert_c False = None"
  by (simp add: assert_c_def)

subsection \<open>Conversions between the integer types of C\<close>

definition u64 :: "int \<Rightarrow> int" where
  "u64 x = x mod 2 ^ 64"

definition s32 :: "int \<Rightarrow> int" where
  "s32 x = (x + 2 ^ 31) mod 2 ^ 32 - 2 ^ 31"

definition bf31 :: "int \<Rightarrow> int" where
  "bf31 x = (x + 2 ^ 30) mod 2 ^ 31 - 2 ^ 30"

definition bf1 :: "int \<Rightarrow> int" where
  "bf1 x = (x + 1) mod 2 - 1"

text \<open>The result of a signed operation on \<open>int\<close>, whose overflow is undefined.\<close>

definition cint :: "int \<Rightarrow> int option" where
  "cint x = (if - (2 ^ 31) \<le> x \<and> x < 2 ^ 31 then Some x else None)"

lemma cint_Some [simp]: "cint x = Some y \<longleftrightarrow> - (2 ^ 31) \<le> x \<and> x < 2 ^ 31 \<and> y = x"
  by (auto simp: cint_def)

lemma u64_id: "0 \<le> x \<Longrightarrow> x < 2 ^ 64 \<Longrightarrow> u64 x = x"
  by (simp add: u64_def)

lemma u64_range: "0 \<le> u64 x" "u64 x < 2 ^ 64"
  by (simp_all add: u64_def)

lemma s32_id: "- (2 ^ 31) \<le> x \<Longrightarrow> x < 2 ^ 31 \<Longrightarrow> s32 x = x"
  by (simp add: s32_def)

lemma s32_range: "- (2 ^ 31) \<le> s32 x" "s32 x < 2 ^ 31"
  using pos_mod_bound [of "2 ^ 32" "x + 2 ^ 31"] by (simp_all add: s32_def)

lemma bf31_id: "- (2 ^ 30) \<le> x \<Longrightarrow> x < 2 ^ 30 \<Longrightarrow> bf31 x = x"
  by (simp add: bf31_def)

lemma bf1_01 [simp]: "bf1 0 = 0" "bf1 1 = - 1" "bf1 (- 1) = - 1"
  by (simp_all add: bf1_def)

subsection \<open>Lists\<close>

lemma split_at_member: "x \<in> set xs \<Longrightarrow> \<exists>us vs. xs = us @ x # vs \<and> x \<notin> set us"
  by (rule split_list_first)

lemma remove1_split [simp]: "x \<notin> set us \<Longrightarrow> remove1 x (us @ x # vs) = us @ vs"
  by (simp add: remove1_append)

end
