(* ===== verification/Timing.thy ===== *)
theory Timing
  imports Complex_Main Prelude "HOL-Library.Multiset"
begin

text \<open>
  The timing package of \<open>malloclab\<close>: the K-best sampler of \<open>fcyc.c\<close> and the timers of \<open>ftimer.c\<close>.
  The measured function is a state transformer that may fail; the readings of the cycle counter and
  of the clocks are arguments.  A \<open>double\<close> is its exact value, without the rounding of the arithmetic.
\<close>

subsection \<open>The K-best sampler\<close>

record fcyc_state =
  kbest :: int
  maxsamples :: int
  epsilon :: rat
  compensate :: bool
  clear_cache :: bool
  cache_bytes :: int
  cache_block :: int
  cache_buf :: bool
  vals :: "rat list"
  samplecount :: int

definition fcyc_default :: fcyc_state where
  "fcyc_default = \<lparr>kbest = 3, maxsamples = 20, epsilon = 1 / 100, compensate = False, clear_cache = False,
     cache_bytes = 524288, cache_block = 32, cache_buf = False, vals = [], samplecount = 0\<rparr>"

definition init_sampler :: "fcyc_state \<Rightarrow> fcyc_state" where
  "init_sampler c = c\<lparr>vals := replicate (nat (kbest c)) 0, samplecount := 0\<rparr>"

text \<open>The insertion sort of one new value from position \<open>pos\<close> to the left.\<close>

fun sift :: "nat \<Rightarrow> rat list \<Rightarrow> rat list" where
  "sift 0 vs = vs"
| "sift (Suc p) vs =
     (if vs ! p > vs ! Suc p then sift p (vs[p := vs ! Suc p, Suc p := vs ! p]) else vs)"

definition add_sample :: "rat \<Rightarrow> fcyc_state \<Rightarrow> fcyc_state option" where
  "add_sample val c =
     (if samplecount c < kbest c then
        let pos = nat (samplecount c)
        in Some (c\<lparr>vals := sift pos ((vals c)[pos := val]), samplecount := samplecount c + 1\<rparr>)
      else if kbest c \<le> 0 then None
      else if val < vals c ! nat (kbest c - 1) then
        let pos = nat (kbest c - 1)
        in Some (c\<lparr>vals := sift pos ((vals c)[pos := val]), samplecount := samplecount c + 1\<rparr>)
      else Some (c\<lparr>samplecount := samplecount c + 1\<rparr>))"

definition has_converged :: "fcyc_state \<Rightarrow> bool" where
  "has_converged c \<longleftrightarrow> samplecount c \<ge> kbest c \<and> (1 + epsilon c) * vals c ! 0 \<ge> vals c ! nat (kbest c - 1)"

text \<open>The walk over the cache buffer, \<open>ptr\<close> and \<open>cend\<close> in words.\<close>

partial_function (option) clear_loop :: "int \<Rightarrow> int \<Rightarrow> int \<Rightarrow> unit option" where
  "clear_loop incr cptr cend = (if cptr < cend then clear_loop incr (cptr + incr) cend else Some ())"

declare clear_loop.simps [code]

definition clear :: "fcyc_state \<Rightarrow> fcyc_state option" where
  "clear c = do {
     let incr = u64 (cache_block c) div 4;
     clear_loop incr 0 (u64 (cache_bytes c) div 4);
     Some (c\<lparr>cache_buf := True\<rparr>)
   }"

lemma add_sample_fields: "add_sample v c = Some c' \<Longrightarrow>
   samplecount c' = samplecount c + 1 \<and> kbest c' = kbest c \<and> maxsamples c' = maxsamples c \<and> epsilon c' = epsilon c \<and>
   clear_cache c' = clear_cache c \<and> cache_block c' = cache_block c \<and> cache_bytes c' = cache_bytes c"
  by (auto simp: add_sample_def Let_def split: if_splits)

lemma clear_fields: "clear c = Some c' \<Longrightarrow> c' = c\<lparr>cache_buf := True\<rparr>"
  by (auto simp: clear_def Let_def split: Option.bind_splits)

function fcyc_loop ::
    "('s \<Rightarrow> 's option) \<Rightarrow> (int \<Rightarrow> rat) \<Rightarrow> fcyc_state \<Rightarrow> 's \<Rightarrow> (fcyc_state \<times> 's) option" where
  "fcyc_loop f counter c s = do {
     c1 \<leftarrow> (if clear_cache c then clear c else Some c);
     s \<leftarrow> f s;
     c2 \<leftarrow> add_sample (counter (samplecount c1)) c1;
     if \<not> has_converged c2 \<and> samplecount c2 < maxsamples c2 then fcyc_loop f counter c2 s else Some (c2, s)
   }"
  by pat_completeness auto

termination
proof (relation "measure (\<lambda>(f, counter, c, s). nat (maxsamples c - samplecount c))", goal_cases)
  case (2 f counter c s c1 s1 c2)
  then show ?case
    by (cases "clear_cache c") (auto dest!: add_sample_fields clear_fields)
qed simp

declare fcyc_loop.simps [simp del]

definition fcyc :: "('s \<Rightarrow> 's option) \<Rightarrow> (int \<Rightarrow> rat) \<Rightarrow> fcyc_state \<Rightarrow> 's \<Rightarrow> (rat \<times> fcyc_state \<times> 's) option" where
  "fcyc f counter c s = do {
     (c, s) \<leftarrow> fcyc_loop f counter (init_sampler c) s;
     Some (vals c ! 0, c\<lparr>vals := []\<rparr>, s)
   }"

definition set_fcyc_clear_cache :: "bool \<Rightarrow> fcyc_state \<Rightarrow> fcyc_state" where
  "set_fcyc_clear_cache b c = c\<lparr>clear_cache := b\<rparr>"

definition set_fcyc_cache_size :: "int \<Rightarrow> fcyc_state \<Rightarrow> fcyc_state" where
  "set_fcyc_cache_size n c =
     (if n \<noteq> cache_bytes c then c\<lparr>cache_bytes := n, cache_buf := False\<rparr> else c)"

definition set_fcyc_cache_block :: "int \<Rightarrow> fcyc_state \<Rightarrow> fcyc_state" where
  "set_fcyc_cache_block n c = c\<lparr>cache_block := n\<rparr>"

definition set_fcyc_compensate :: "bool \<Rightarrow> fcyc_state \<Rightarrow> fcyc_state" where
  "set_fcyc_compensate b c = c\<lparr>compensate := b\<rparr>"

definition set_fcyc_k :: "int \<Rightarrow> fcyc_state \<Rightarrow> fcyc_state" where
  "set_fcyc_k k c = c\<lparr>kbest := k\<rparr>"

definition set_fcyc_maxsamples :: "int \<Rightarrow> fcyc_state \<Rightarrow> fcyc_state" where
  "set_fcyc_maxsamples n c = c\<lparr>maxsamples := n\<rparr>"

definition set_fcyc_epsilon :: "rat \<Rightarrow> fcyc_state \<Rightarrow> fcyc_state" where
  "set_fcyc_epsilon e c = c\<lparr>epsilon := e\<rparr>"

subsection \<open>The timers\<close>

record timespec =
  tv_sec :: int
  tv_nsec :: int

definition timespec_diff :: "timespec \<Rightarrow> timespec \<Rightarrow> timespec" where
  "timespec_diff start stop =
     (if tv_nsec stop - tv_nsec start < 0
      then \<lparr>tv_sec = tv_sec stop - tv_sec start - 1, tv_nsec = tv_nsec stop - tv_nsec start + 1000000000\<rparr>
      else \<lparr>tv_sec = tv_sec stop - tv_sec start, tv_nsec = tv_nsec stop - tv_nsec start\<rparr>)"

fun runs :: "nat \<Rightarrow> ('s \<Rightarrow> 's option) \<Rightarrow> 's \<Rightarrow> 's option" where
  "runs 0 f s = Some s"
| "runs (Suc n) f s = do { s \<leftarrow> f s; runs n f s }"

definition ftimer_clock ::
    "('s \<Rightarrow> 's option) \<Rightarrow> ('s \<Rightarrow> timespec) \<Rightarrow> int \<Rightarrow> 's \<Rightarrow> (rat \<times> 's) option" where
  "ftimer_clock f clock n s = do {
     let stv = clock s;
     s \<leftarrow> runs (nat n) f s;
     let etv = clock s;
     let diff = timespec_diff stv etv;
     let rdiff = 1000000 * of_int (tv_sec diff) + of_int (tv_nsec diff) / 1000;
     let rdiff = rdiff / of_int n;
     Some (rdiff / 1000000, s)
   }"

record timeval =
  tvl_sec :: int
  tvl_usec :: int

definition ftimer_gettod ::
    "('s \<Rightarrow> 's option) \<Rightarrow> ('s \<Rightarrow> timeval) \<Rightarrow> int \<Rightarrow> 's \<Rightarrow> (rat \<times> 's) option" where
  "ftimer_gettod f clock n s = do {
     let stv = clock s;
     s \<leftarrow> runs (nat n) f s;
     let etv = clock s;
     let diff = 1000 * of_int (tvl_sec etv - tvl_sec stv) + of_int (tvl_usec etv - tvl_usec stv) / 1000;
     let diff = diff / of_int n;
     Some (diff / 1000, s)
   }"

text \<open>\<open>fsecs\<close> with the clock that \<open>config.h\<close> selects.\<close>

definition fsecs :: "('s \<Rightarrow> 's option) \<Rightarrow> ('s \<Rightarrow> timespec) \<Rightarrow> 's \<Rightarrow> (rat \<times> 's) option" where
  "fsecs f clock s = ftimer_clock f clock 10 s"

subsection \<open>Properties of the sampler\<close>

lemma insort_less_snoc: "v < y \<Longrightarrow> insort v (ys @ [y]) = insort v ys @ [y]"
  for v y :: "'a::linorder"
  by (induction ys) auto

lemma sift_insort:
  "sorted ys \<Longrightarrow> sift (length ys) (ys @ v # zs) = insort v ys @ zs"
proof (induction ys arbitrary: zs rule: rev_induct)
  case (snoc y ys)
  then have ys: "sorted ys" "\<forall>x\<in>set ys. x \<le> y" by (auto simp: sorted_append)
  show ?case
  proof (cases "v < y")
    case True
    have "sift (length (ys @ [y])) ((ys @ [y]) @ v # zs) = sift (length ys) (ys @ v # y # zs)"
      using True by (simp add: nth_append list_update_append)
    then show ?thesis using snoc.IH [OF ys(1), of "y # zs"] True by (simp add: insort_less_snoc)
  next
    case False
    then have "insort v (ys @ [y]) = (ys @ [y]) @ [v]"
      using snoc.prems ys by (intro sorted_insort_is_snoc) auto
    then show ?thesis using False by (simp add: nth_append)
  qed
qed simp

lemma take_insort:
  fixes v :: "'a::linorder"
  assumes "sorted ys" "Suc k \<le> length ys"
  shows "take (Suc k) (insort v ys) = (if v < ys ! k then insort v (take k ys) else take (Suc k) ys)"
  using assms
proof (induction ys arbitrary: k)
  case (Cons y ys)
  show ?case
  proof (cases k)
    case (Suc j)
    show ?thesis
    proof (cases "v \<le> y")
      case True
      show ?thesis
      proof (cases "v < (y # ys) ! k")
        case False
        have all: "(y # ys) ! i = v" if "i \<le> k" for i
        proof -
          have "(y # ys) ! 0 \<le> (y # ys) ! i" "(y # ys) ! i \<le> (y # ys) ! k"
            using sorted_nth_mono [OF Cons.prems(1), of 0 i] sorted_nth_mono [OF Cons.prems(1), of i k] that Cons.prems(2)
            by simp_all
          then show ?thesis using \<open>v \<le> y\<close> False by simp
        qed
        have "take (Suc k) (y # ys) = v # take k (y # ys)"
        proof (rule nth_equalityI)
          fix i assume "i < length (take (Suc k) (y # ys))"
          then have "i \<le> k" by simp
          then show "take (Suc k) (y # ys) ! i = (v # take k (y # ys)) ! i"
            using all [of i] all [of "i - 1"] Cons.prems(2) by (cases i) (simp_all add: nth_Cons')
        qed (use Cons.prems(2) in auto)
        then show ?thesis using False \<open>v \<le> y\<close> by simp
      qed (use Suc \<open>v \<le> y\<close> in simp)
    next
      case False
      then show ?thesis using Cons.IH [of j] Cons.prems Suc by auto
    qed
  qed auto
qed simp

text \<open>The state of the sampler after the samples \<open>xs\<close>.\<close>

definition holds :: "fcyc_state \<Rightarrow> rat list \<Rightarrow> bool" where
  "holds c xs \<longleftrightarrow> 0 < kbest c \<and> samplecount c = int (length xs) \<and>
     vals c = take (nat (kbest c)) (sort xs) @ replicate (nat (kbest c) - length xs) 0"

lemma sort_eq_Nil: "sort xs = [] \<longleftrightarrow> xs = []"
  by (metis length_0_conv length_sort)

lemma sort_snoc: "sort (xs @ [v]) = insort v (sort xs)"
  for v :: "'a::linorder"
  by (rule properties_for_sort) (simp_all add: sorted_insort)

lemma add_sample_holds:
  assumes "holds c xs"
  shows "\<exists>c'. add_sample v c = Some c' \<and> holds c' (xs @ [v])"
proof -
  define k where "k = nat (kbest c)"
  have k: "0 < k" "kbest c = int k" using assms by (simp_all add: holds_def k_def)
  have vs: "vals c = take k (sort xs) @ replicate (k - length xs) 0" "samplecount c = int (length xs)"
    using assms by (simp_all add: holds_def k_def)
  show ?thesis
  proof (cases "length xs < k")
    case True
    then have "replicate (k - length xs) 0 = 0 # replicate (k - Suc (length xs)) (0::rat)"
      by (metis Suc_diff_Suc replicate_Suc)
    then have "(vals c)[length xs := v] = sort xs @ v # replicate (k - Suc (length xs)) 0"
      using vs(1) True by (simp add: list_update_append)
    moreover have "take k (insort v (sort xs)) = insort v (sort xs)" using True by simp
    ultimately show ?thesis
      using True k vs(2) sift_insort [of "sort xs" v] by (simp add: add_sample_def holds_def Let_def sort_snoc)
  next
    case False
    obtain j where j: "k = Suc j" using k(1) by (cases k) auto
    have len: "Suc j \<le> length (sort xs)" using False j by simp
    have vs': "vals c = take j (sort xs) @ [sort xs ! j]"
      using vs(1) False j len by (simp add: take_Suc_conv_app_nth)
    have at: "vals c ! j = sort xs ! j" "(vals c)[j := v] = take j (sort xs) @ [v]"
      using vs' len by (simp_all add: nth_append list_update_append)
    have "length (take j (sort xs)) = j" using len by simp
    then have "sift j (take j (sort xs) @ [v]) = insort v (take j (sort xs))"
      using sift_insort [of "take j (sort xs)" v "[]"] by simp
    moreover have "nat (kbest c - 1) = j" "nat (kbest c) = Suc j" using k j by simp_all
    ultimately show ?thesis
      using take_insort [OF sorted_sort len, of v] at k j vs(1,2) False
      by (simp add: add_sample_def holds_def Let_def sort_snoc)
  qed
qed

lemma clear_loop_ends: "0 < incr \<Longrightarrow> clear_loop incr p e = Some ()"
proof (induction "nat (e - p)" arbitrary: p rule: less_induct)
  case less
  then show ?case by (subst clear_loop.simps) simp
qed

lemma clear_ends:
  assumes "4 \<le> cache_block c" "cache_block c < 2 ^ 31"
  shows "clear c = Some (c\<lparr>cache_buf := True\<rparr>)"
proof -
  have "0 < cache_block c div 4" using assms(1) by presburger
  then have "0 < u64 (cache_block c) div 4" using assms by (simp add: u64_id)
  then show ?thesis by (simp add: clear_def clear_loop_ends)
qed

lemma runs_add: "runs (m + n) f s = do { s \<leftarrow> runs m f s; runs n f s }"
  by (induction m arbitrary: s) (auto split: Option.bind_splits)

lemma fcyc_loop_ok:
  assumes "holds c xs" "xs = map counter [0..int (length xs) - 1]" "runs (length xs) f s0 = Some s" "\<And>s. f s \<noteq> None"
    "clear_cache c \<Longrightarrow> 4 \<le> cache_block c \<and> cache_block c < 2 ^ 31" "length xs < nat (max 1 (maxsamples c))"
  shows "\<exists>c' s' n. fcyc_loop f counter c s = Some (c', s') \<and> 1 \<le> n \<and> n \<le> max 1 (maxsamples c) \<and>
    holds c' (map counter [0..n - 1]) \<and> runs (nat n) f s0 = Some s' \<and> epsilon c' = epsilon c \<and> kbest c' = kbest c \<and>
    (n < maxsamples c \<longrightarrow> has_converged c')"
  using assms
proof (induction f counter c s arbitrary: xs rule: fcyc_loop.induct)
  case (1 f counter c s)
  define c1 where "c1 = (if clear_cache c then c\<lparr>cache_buf := True\<rparr> else c)"
  have c1: "(if clear_cache c then clear c else Some c) = Some c1"
    using clear_ends "1.prems"(5) by (simp add: c1_def)
  have f1: "holds c1 xs" "samplecount c1 = int (length xs)" "maxsamples c1 = maxsamples c" "epsilon c1 = epsilon c"
    "kbest c1 = kbest c" "clear_cache c1 = clear_cache c" "cache_block c1 = cache_block c"
    using "1.prems"(1) by (simp_all add: c1_def holds_def)
  obtain s1 where s1: "f s = Some s1" using "1.prems"(4) [of s] by auto
  obtain c2 where c2: "add_sample (counter (samplecount c1)) c1 = Some c2" "holds c2 (xs @ [counter (int (length xs))])"
    using add_sample_holds [OF f1(1)] f1(2) by metis
  have xs': "xs @ [counter (int (length xs))] = map counter [0..int (length xs)]"
    using "1.prems"(2) by (simp add: upto_rec2)
  have r: "runs (Suc (length xs)) f s0 = Some s1"
    using runs_add [of "length xs" 1 f s0] "1.prems"(3) s1 by simp
  note fl = add_sample_fields [OF c2(1)]
  show ?case
  proof (cases "\<not> has_converged c2 \<and> samplecount c2 < maxsamples c2")
    case True
    have "\<exists>c' s' n. fcyc_loop f counter c2 s1 = Some (c', s') \<and> 1 \<le> n \<and> n \<le> max 1 (maxsamples c2) \<and>
      holds c' (map counter [0..n - 1]) \<and> runs (nat n) f s0 = Some s' \<and> epsilon c' = epsilon c2 \<and> kbest c' = kbest c2 \<and>
      (n < maxsamples c2 \<longrightarrow> has_converged c')"
    proof (rule "1.IH" [OF c1 s1 c2(1) True c2(2)])
      show "length (xs @ [counter (int (length xs))]) < nat (max 1 (maxsamples c2))" using True fl f1(2) by auto
      show "xs @ [counter (int (length xs))] = map counter [0..int (length (xs @ [counter (int (length xs))])) - 1]"
        using xs' by simp
      show "runs (length (xs @ [counter (int (length xs))])) f s0 = Some s1" using r by (simp only: length_append_singleton)
    qed (use "1.prems"(4,5) fl f1 in simp_all)
    then show ?thesis
      using True c1 s1 c2(1) fl f1 by (subst fcyc_loop.simps) simp
  next
    case False
    have n: "nat (int (length xs) + 1) = Suc (length xs)" by simp
    show ?thesis
    proof (intro exI conjI)
      show "fcyc_loop f counter c s = Some (c2, s1)"
        using False c1 s1 c2(1) by (subst fcyc_loop.simps) auto
      show "runs (nat (int (length xs) + 1)) f s0 = Some s1" using r by (simp only: n)
      show "holds c2 (map counter [0..int (length xs) + 1 - 1])" using c2(2) xs' by simp
      show "int (length xs) + 1 < maxsamples c \<longrightarrow> has_converged c2" using False fl f1 by auto
    qed (use fl f1 "1.prems"(6) in simp_all)
  qed
qed

text \<open>
  C19: \<open>fcyc\<close> always ends, after at least one and at most \<open>maxsamples\<close> runs of the function, and
  returns the smallest of the measured cycle counts.  When it stops early, the \<open>kbest\<close> smallest
  counts lie within the factor \<open>1 + epsilon\<close>.
\<close>

theorem fcyc_minimum:
  assumes "0 < kbest c" "\<And>s. f s \<noteq> None" "clear_cache c \<Longrightarrow> 4 \<le> cache_block c \<and> cache_block c < 2 ^ 31"
  shows "\<exists>r c' s' n. fcyc f counter c s = Some (r, c', s') \<and> 1 \<le> n \<and> n \<le> max 1 (maxsamples c) \<and>
    r = Min (counter ` {0..<n}) \<and> runs (nat n) f s = Some s' \<and>
    (n < maxsamples c \<longrightarrow> kbest c \<le> n \<and>
      (\<forall>x\<in>set (take (nat (kbest c)) (sort (map counter [0..n - 1]))). x \<le> (1 + epsilon c) * r))"
proof -
  have "holds (init_sampler c) []" using assms(1) by (simp add: holds_def init_sampler_def)
  from fcyc_loop_ok [OF this, of counter f s s] assms(2,3) have
    "\<exists>c' s' n. fcyc_loop f counter (init_sampler c) s = Some (c', s') \<and> 1 \<le> n \<and> n \<le> max 1 (maxsamples c) \<and>
      holds c' (map counter [0..n - 1]) \<and> runs (nat n) f s = Some s' \<and> epsilon c' = epsilon c \<and> kbest c' = kbest c \<and>
      (n < maxsamples c \<longrightarrow> has_converged c')"
    by (simp add: init_sampler_def)
  then obtain c' s' n where L: "fcyc_loop f counter (init_sampler c) s = Some (c', s')" "1 \<le> n" "n \<le> max 1 (maxsamples c)"
    "holds c' (map counter [0..n - 1])" "runs (nat n) f s = Some s'" "epsilon c' = epsilon c" "kbest c' = kbest c"
    "n < maxsamples c \<longrightarrow> has_converged c'"
    by blast
  let ?xs = "map counter [0..n - 1]"
  define k where "k = nat (kbest c)"
  have k: "0 < k" "kbest c = int k" using assms(1) by (simp_all add: k_def)
  have "set [0..n - 1] = {0..<n}" by auto
  then have ne: "sort ?xs \<noteq> []" "set ?xs = counter ` {0..<n}" using L(2) by (simp_all add: sort_eq_Nil)
  have v: "vals c' = take k (sort ?xs) @ replicate (k - nat n) 0"
    using L(4,7) L(2) by (simp add: holds_def k_def)
  have "vals c' ! 0 = hd (sort ?xs)" using v k ne(1) by (cases "sort ?xs"; cases k) auto
  also have "\<dots> = Min (set ?xs)"
  proof (rule Min_eqI [symmetric])
    fix y assume "y \<in> set ?xs"
    then have "y \<in> set (sort ?xs)" by simp
    then show "hd (sort ?xs) \<le> y" using sorted_sort [of ?xs] by (cases "sort ?xs") auto
  next
    show "hd (sort ?xs) \<in> set ?xs" using ne(1) hd_in_set [of "sort ?xs"] by simp
  qed simp
  finally have r: "vals c' ! 0 = Min (counter ` {0..<n})" using ne(2) by simp
  have "kbest c \<le> n \<and> (\<forall>x\<in>set (take k (sort ?xs)). x \<le> (1 + epsilon c) * Min (counter ` {0..<n}))" if "n < maxsamples c"
  proof -
    have "has_converged c'" using L(8) that by simp
    then have c: "kbest c \<le> n" "vals c' ! (k - 1) \<le> (1 + epsilon c) * Min (counter ` {0..<n})"
      using L(2,4,6,7) r k by (auto simp: has_converged_def holds_def nat_diff_distrib)
    have "x \<le> vals c' ! (k - 1)" if x: "x \<in> set (take k (sort ?xs))" for x
    proof -
      obtain i where i: "i < length (take k (sort ?xs))" "take k (sort ?xs) ! i = x"
        using x by (auto simp only: in_set_conv_nth)
      then have "i < k" "i < length (sort ?xs)" "x = sort ?xs ! i" by simp_all
      moreover have "k - 1 < length (sort ?xs)" "vals c' ! (k - 1) = sort ?xs ! (k - 1)"
        using v c(1) k L(2) by (auto simp: nth_append)
      ultimately show ?thesis using sorted_nth_mono [OF sorted_sort, of i "k - 1" ?xs] by simp
    qed
    then show ?thesis using c by force
  qed
  moreover have "fcyc f counter c s = Some (Min (counter ` {0..<n}), c'\<lparr>vals := []\<rparr>, s')"
    using L(1) r by (simp add: fcyc_def)
  ultimately show ?thesis
    using L(2,3,5) unfolding k_def by (intro exI [of _ "Min (counter ` {0..<n})"] exI [of _ "c'\<lparr>vals := []\<rparr>"] exI [of _ s'] exI [of _ n]) simp
qed

theorem fcyc_minimum_witness:
  "\<exists>r c' s' n. fcyc (\<lambda>s::nat. Some (Suc s)) (\<lambda>i. 1000 - of_int i) fcyc_default 0 = Some (r, c', s') \<and>
     1 \<le> n \<and> n \<le> 20 \<and> r = Min ((\<lambda>i. 1000 - of_int i) ` {0..<n})"
  using fcyc_minimum [of fcyc_default "\<lambda>s::nat. Some (Suc s)" "\<lambda>i. 1000 - of_int i" 0]
  by (auto simp: fcyc_default_def)

subsection \<open>Properties of the timers\<close>

definition nanos :: "timespec \<Rightarrow> int" where
  "nanos t = 1000000000 * tv_sec t + tv_nsec t"

definition normal :: "timespec \<Rightarrow> bool" where
  "normal t \<longleftrightarrow> 0 \<le> tv_nsec t \<and> tv_nsec t < 1000000000"

lemma timespec_diff_nanos:
  assumes "normal a" "normal b"
  shows "normal (timespec_diff a b)" "nanos (timespec_diff a b) = nanos b - nanos a"
  using assms by (auto simp: normal_def nanos_def timespec_diff_def)

text \<open>
  \<open>fsecs\<close> runs the function ten times and returns a tenth of the elapsed time in seconds,
  which is exact although the seconds and nanoseconds of the two clock readings are subtracted apart.
\<close>

theorem fsecs_mean:
  assumes "normal (clock s)" "normal (clock s')" "runs 10 f s = Some s'"
  shows "fsecs f clock s = Some (of_int (nanos (clock s') - nanos (clock s)) / 10 ^ 10, s')"
proof -
  let ?d = "timespec_diff (clock s) (clock s')"
  have "nanos ?d = nanos (clock s') - nanos (clock s)" using timespec_diff_nanos(2) [OF assms(1,2)] .
  then have "(of_int (nanos (clock s') - nanos (clock s)) :: rat) = 1000000000 * of_int (tv_sec ?d) + of_int (tv_nsec ?d)"
    by (metis nanos_def of_int_add of_int_mult of_int_numeral)
  then show ?thesis
    using assms(3) by (simp add: fsecs_def ftimer_clock_def Let_def field_simps)
qed

theorem fsecs_mean_witness:
  "fsecs (\<lambda>s. Some (s + 300000000)) (\<lambda>s. \<lparr>tv_sec = s div 1000000000, tv_nsec = s mod 1000000000\<rparr>) 900000000 =
     Some (3 / 10, 3900000000)"
proof -
  have "runs 10 (\<lambda>s. Some (s + 300000000)) (900000000 :: int) = Some 3900000000" by code_simp
  from fsecs_mean [of "\<lambda>s. \<lparr>tv_sec = s div 1000000000, tv_nsec = s mod 1000000000\<rparr>" 900000000 3900000000, OF _ _ this]
  show ?thesis by (simp add: normal_def nanos_def)
qed

end
