(* ===== verification/Clock.thy ===== *)
theory Clock
  imports Timing "HOL-Library.Word"
begin

text \<open>
  The cycle counter of \<open>malloclab/clock.c\<close> on x86, its compensation for timer interrupts, and the
  interval timer of \<open>ftimer.c\<close>.  The readings of the counter and of \<open>times\<close> are arguments, one for each
  call; a \<open>double\<close> is its exact value.
\<close>

subsection \<open>The counter\<close>

record clocks =
  cyc_hi :: "32 word"
  cyc_lo :: "32 word"
  cyc_per_tick :: rat
  start_tick :: int

definition access_counter :: "64 word \<Rightarrow> 32 word \<times> 32 word" where
  "access_counter tsc = (ucast (drop_bit 32 tsc), ucast tsc)"

definition start_counter :: "64 word \<Rightarrow> clocks \<Rightarrow> clocks" where
  "start_counter tsc c = (let (hi, lo) = access_counter tsc in c\<lparr>cyc_hi := hi, cyc_lo := lo\<rparr>)"

definition get_counter :: "clocks \<Rightarrow> 64 word \<Rightarrow> rat" where
  "get_counter c tsc =
     (let (ncyc_hi, ncyc_lo) = access_counter tsc;
          lo = ncyc_lo - cyc_lo c;
          borrow = (if lo > ncyc_lo then 1 else 0);
          hi = ncyc_hi - cyc_hi c - borrow
      in of_nat (unat hi) * 2 ^ 30 * 4 + of_nat (unat lo))"

fun ovhd_loop :: "(64 word \<times> 64 word) list \<Rightarrow> clocks \<Rightarrow> rat \<Rightarrow> rat \<times> clocks" where
  "ovhd_loop [] c result = (result, c)"
| "ovhd_loop ((t0, t1) # ts) c result = (let c = start_counter t0 c in ovhd_loop ts c (get_counter c t1))"

definition ovhd :: "64 word \<times> 64 word \<Rightarrow> 64 word \<times> 64 word \<Rightarrow> clocks \<Rightarrow> rat \<times> clocks" where
  "ovhd r1 r2 c = ovhd_loop [r1, r2] c 0"

definition mhz_full :: "int \<Rightarrow> 64 word \<Rightarrow> 64 word \<Rightarrow> clocks \<Rightarrow> rat \<times> clocks" where
  "mhz_full sleeptime t0 t1 c =
     (let c = start_counter t0 c in (get_counter c t1 / (1000000 * of_int sleeptime), c))"

definition mhz :: "64 word \<Rightarrow> 64 word \<Rightarrow> clocks \<Rightarrow> rat \<times> clocks" where
  "mhz t0 t1 c = mhz_full 2 t0 t1 c"

subsection \<open>Compensation for the timer interrupt\<close>

definition NEVENT :: nat where "NEVENT = 100"
definition THRESHOLD :: rat where "THRESHOLD = 1000"
definition RECORDTHRESH :: rat where "RECORDTHRESH = 3000"

text \<open>
  The loop of \<open>callibrate\<close> with the number of events still to be seen.  Each reading is one of the counter
  with the user time that \<open>times\<close> would give then; \<open>None\<close> means that the readings did not show enough events.
\<close>

fun callibrate_loop :: "clocks \<Rightarrow> nat \<Rightarrow> rat \<Rightarrow> int \<Rightarrow> (64 word \<times> int) list \<Rightarrow> clocks option" where
  "callibrate_loop c 0 oldt oldc rs = Some c"
| "callibrate_loop c (Suc e) oldt oldc [] = None"
| "callibrate_loop c (Suc e) oldt oldc ((tsc, newc) # rs) =
     (let newt = get_counter c tsc
      in if newt - oldt \<ge> THRESHOLD then
           if newc > oldc then
             let cpt = (newt - oldt) / of_int (newc - oldc);
                 c = (if (cyc_per_tick c = 0 \<or> cyc_per_tick c > cpt) \<and> cpt > RECORDTHRESH
                      then c\<lparr>cyc_per_tick := cpt\<rparr> else c)
             in callibrate_loop c e newt newc rs
           else callibrate_loop c (Suc e) newt oldc rs
         else callibrate_loop c (Suc e) oldt oldc rs)"

definition callibrate :: "clocks \<Rightarrow> int \<Rightarrow> 64 word \<Rightarrow> 64 word \<Rightarrow> (64 word \<times> int) list \<Rightarrow> clocks option" where
  "callibrate c utime t0 t1 rs =
     (let oldc = utime; c = start_counter t0 c; oldt = get_counter c t1
      in callibrate_loop c NEVENT oldt oldc rs)"

definition start_comp_counter ::
    "clocks \<Rightarrow> int \<times> 64 word \<times> 64 word \<times> (64 word \<times> int) list \<Rightarrow> int \<Rightarrow> 64 word \<Rightarrow> clocks option" where
  "start_comp_counter c cal utime tsc = do {
     c \<leftarrow> (if cyc_per_tick c = 0 then (case cal of (u, t0, t1, rs) \<Rightarrow> callibrate c u t0 t1 rs) else Some c);
     Some (start_counter tsc (c\<lparr>start_tick := utime\<rparr>))
   }"

definition get_comp_counter :: "clocks \<Rightarrow> 64 word \<Rightarrow> int \<Rightarrow> rat" where
  "get_comp_counter c tsc utime =
     (let time = get_counter c tsc; ticks = utime - start_tick c in time - of_int ticks * cyc_per_tick c)"

subsection \<open>The interval timer\<close>

definition MAX_ETIME :: int where "MAX_ETIME = 86400"

text \<open>What \<open>init_etime\<close> starts the timers with, and the real time elapsed at a reading of the timer.\<close>

definition init_etime :: timeval where
  "init_etime = \<lparr>tvl_sec = MAX_ETIME, tvl_usec = 0\<rparr>"

definition get_etime :: "timeval \<Rightarrow> timeval \<Rightarrow> rat" where
  "get_etime first_p r_curr =
     of_int (tvl_sec first_p - tvl_sec r_curr) + of_int (tvl_usec first_p - tvl_usec r_curr) / 1000000"

definition ftimer_itimer ::
    "('s \<Rightarrow> 's option) \<Rightarrow> (timeval \<Rightarrow> 's \<Rightarrow> timeval) \<Rightarrow> int \<Rightarrow> 's \<Rightarrow> (rat \<times> 's) option" where
  "ftimer_itimer f timer n s = do {
     let first = init_etime;
     let start = get_etime first (timer first s);
     s \<leftarrow> runs (nat n) f s;
     let tmeas = get_etime first (timer first s) - start;
     Some (tmeas / of_int n, s)
   }"

subsection \<open>Properties\<close>

lemma access_counter_parts:
  "uint (fst (access_counter t)) = uint t div 2 ^ 32" "uint (snd (access_counter t)) = uint t mod 2 ^ 32"
proof -
  have "uint t < 2 ^ 64" using uint_bounded [of t] by simp
  then have "uint t div 2 ^ 32 < 2 ^ 32" by simp
  moreover have "0 \<le> uint t div 2 ^ 32" by (simp add: pos_imp_zdiv_nonneg_iff)
  ultimately show "uint (fst (access_counter t)) = uint t div 2 ^ 32"
    by (simp add: access_counter_def unsigned_ucast_eq take_bit_eq_mod unsigned_drop_bit_eq drop_bit_eq_div uint_div)
  show "uint (snd (access_counter t)) = uint t mod 2 ^ 32"
    by (simp add: access_counter_def unsigned_ucast_eq take_bit_eq_mod)
qed

lemma halves_mod:
  fixes a r m :: int
  assumes "0 \<le> r" "r < m"
  shows "(a mod m) * m + r = (a * m + r) mod (m * m)"
  using assms zmod_zmult2_eq [of m "a * m + r" m] by simp

lemma counter_elapsed:
  "get_counter (start_counter t0 c) t1 = of_int (uint (t1 - t0))"
proof -
  define M :: int where "M = 2 ^ 32"
  obtain h0 l0 h1 l1 where p: "access_counter t0 = (h0, l0)" "access_counter t1 = (h1, l1)" by fastforce
  have t: "uint t0 = uint h0 * M + uint l0" "uint t1 = uint h1 * M + uint l1"
    using access_counter_parts [of t0] access_counter_parts [of t1] p by (simp_all add: M_def)
  define lo where "lo = l1 - l0"
  define b where "b = (if lo > l1 then 1 else 0 :: 32 word)"
  define hi where "hi = h1 - h0 - b"
  have l: "0 \<le> uint lo" "uint lo < M" "uint lo = (uint l1 - uint l0) mod M"
    using uint_bounded [of lo] by (simp_all add: lo_def M_def uint_word_ariths)
  have bd: "0 \<le> uint l1" "uint l1 < M" "0 \<le> uint l0" "uint l0 < M"
    using uint_bounded [of l1] uint_bounded [of l0] by (simp_all add: M_def)
  have bor: "uint b = (if uint l1 < uint l0 then 1 else 0) \<and>
      uint lo = uint l1 - uint l0 + (if uint l1 < uint l0 then M else 0)"
  proof (cases "uint l1 < uint l0")
    case True
    have "(uint l1 - uint l0) mod M = (uint l1 - uint l0 + M) mod M" by simp
    also have "\<dots> = uint l1 - uint l0 + M" by (rule mod_pos_pos_trivial) (use True bd in linarith)+
    finally have "uint lo = uint l1 - uint l0 + M" by (simp only: l(3))
    then show ?thesis using True bd by (simp add: b_def word_less_def)
  next
    case False
    have "(uint l1 - uint l0) mod M = uint l1 - uint l0" by (rule mod_pos_pos_trivial) (use bd False in linarith)+
    then have "uint lo = uint l1 - uint l0" by (simp only: l(3))
    then show ?thesis using False bd by (simp add: b_def word_less_def)
  qed
  have h: "uint hi = (uint h1 - uint h0 - uint b) mod M"
    by (simp add: hi_def M_def uint_word_ariths mod_diff_left_eq)
  have sel: "cyc_hi (c\<lparr>cyc_hi := h0, cyc_lo := l0\<rparr>) = h0" "cyc_lo (c\<lparr>cyc_hi := h0, cyc_lo := l0\<rparr>) = l0" by simp_all
  have "get_counter (start_counter t0 c) t1 = of_nat (unat hi) * 2 ^ 30 * 4 + of_nat (unat lo)"
    unfolding hi_def b_def lo_def by (simp only: get_counter_def start_counter_def Let_def p prod.case sel)
  also have "\<dots> = of_int (uint hi * M + uint lo)"
    by (simp only: of_nat_unat M_def of_int_add of_int_mult of_int_power of_int_numeral) simp
  also have "uint hi * M + uint lo = ((uint h1 - uint h0 - uint b) * M + uint lo) mod (M * M)"
    unfolding h using l by (intro halves_mod) auto
  also have "(uint h1 - uint h0 - uint b) * M + uint lo = uint t1 - uint t0"
    using bor t by (auto simp: algebra_simps split: if_splits)
  also have "(uint t1 - uint t0) mod (M * M) = uint (t1 - t0)" by (simp add: M_def uint_word_ariths)
  finally show ?thesis .
qed

text \<open>
  The subtraction in two halves with a borrow gives the number of cycles since the counter was
  started, modulo \<open>2 ^ 64\<close>, for all readings.
\<close>

theorem get_counter_elapsed:
  "get_counter (start_counter t0 c) t1 = of_int (uint (t1 - t0))"
  by (rule counter_elapsed)

text \<open>The ratios of cycles to ticks that \<open>callibrate\<close> sees.\<close>

fun tick_ratios :: "clocks \<Rightarrow> nat \<Rightarrow> rat \<Rightarrow> int \<Rightarrow> (64 word \<times> int) list \<Rightarrow> rat list" where
  "tick_ratios c 0 oldt oldc rs = []"
| "tick_ratios c (Suc e) oldt oldc [] = []"
| "tick_ratios c (Suc e) oldt oldc ((tsc, newc) # rs) =
     (let newt = get_counter c tsc
      in if newt - oldt \<ge> THRESHOLD then
           if newc > oldc then (newt - oldt) / of_int (newc - oldc) # tick_ratios c e newt newc rs
           else tick_ratios c (Suc e) newt oldc rs
         else tick_ratios c (Suc e) oldt oldc rs)"

lemma get_counter_cong: "cyc_hi c = cyc_hi d \<Longrightarrow> cyc_lo c = cyc_lo d \<Longrightarrow> get_counter c = get_counter d"
  by (rule ext) (simp add: get_counter_def)

lemma tick_ratios_cong: "get_counter c = get_counter d \<Longrightarrow> tick_ratios c e oldt oldc rs = tick_ratios d e oldt oldc rs"
  by (induction c e oldt oldc rs rule: tick_ratios.induct) (auto simp: Let_def)

text \<open>The smallest of the numbers above the threshold, or \<open>0\<close>; \<open>lesser\<close> puts one more into it.\<close>

definition lesser :: "rat \<Rightarrow> rat \<Rightarrow> rat" where
  "lesser cpt m = (if (m = 0 \<or> m > cpt) \<and> cpt > RECORDTHRESH then cpt else m)"

lemma callibrate_loop_ratios:
  "callibrate_loop c e oldt oldc rs = Some c' \<Longrightarrow>
    cyc_per_tick c' = fold lesser (tick_ratios c e oldt oldc rs) (cyc_per_tick c) \<and>
    (e = length (tick_ratios c e oldt oldc rs))"
proof (induction c e oldt oldc rs rule: callibrate_loop.induct)
  case (3 c e oldt oldc tsc newc rs)
  let ?newt = "get_counter c tsc" and ?cpt = "(get_counter c tsc - oldt) / of_int (newc - oldc)"
  let ?d = "if (cyc_per_tick c = 0 \<or> cyc_per_tick c > ?cpt) \<and> ?cpt > RECORDTHRESH then c\<lparr>cyc_per_tick := ?cpt\<rparr> else c"
  have d: "get_counter ?d = get_counter c" "cyc_per_tick ?d = lesser ?cpt (cyc_per_tick c)"
    by (auto simp: lesser_def intro: get_counter_cong)
  show ?case
  proof (cases "?newt - oldt \<ge> THRESHOLD \<and> newc > oldc")
    case True
    then have "callibrate_loop c (Suc e) oldt oldc ((tsc, newc) # rs) = callibrate_loop ?d e ?newt newc rs"
      by (simp only: callibrate_loop.simps Let_def if_True simp_thms)
    then have "callibrate_loop ?d e ?newt newc rs = Some c'" using "3.prems" by simp
    then show ?thesis
      using "3.IH"(1) [OF refl _ _ refl refl] True d tick_ratios_cong [OF d(1)] by (simp add: Let_def)
  next
    case False
    then show ?thesis using "3.IH"(2,3) "3.prems" by (auto simp: Let_def split: if_splits)
  qed
qed auto

lemma fold_lesser_Min:
  defines "q \<equiv> \<lambda>xs. {x \<in> set xs. x > RECORDTHRESH}"
  shows "fold lesser xs 0 = (if q xs = {} then 0 else Min (q xs))"
proof (induction xs rule: rev_induct)
  case (snoc x xs)
  have q: "q (xs @ [x]) = (if x > RECORDTHRESH then insert x (q xs) else q xs)" and fin: "finite (q xs)" by (auto simp: q_def)
  show ?case
  proof (cases "q xs = {}")
    case True
    then show ?thesis using snoc q by (simp add: lesser_def)
  next
    case False
    define m where "m = Min (q xs)"
    have "m \<in> q xs" unfolding m_def using fin False by (rule Min_in)
    then have m: "m > 0" by (simp add: q_def RECORDTHRESH_def)
    have "Min (insert x (q xs)) = min x m" using fin False by (simp add: m_def)
    moreover have "fold lesser (xs @ [x]) 0 = lesser x m" using snoc False by (simp add: m_def)
    moreover have "lesser x m = (if x > RECORDTHRESH then min x m else m)" using m by (simp add: lesser_def min_def)
    ultimately show ?thesis using q False by (simp add: m_def [symmetric])
  qed
qed (simp add: q_def)

text \<open>
  The calibration takes as the cost of a tick the smallest of the \<open>NEVENT\<close> ratios of cycles to ticks it
  sees that is above the threshold, and keeps \<open>0\<close> when there is none, in which case it is repeated before
  the next measurement.
\<close>

theorem callibrate_minimum:
  assumes "callibrate c utime t0 t1 rs = Some c'" "cyc_per_tick c = 0"
  shows "let xs = tick_ratios (start_counter t0 c) NEVENT (get_counter (start_counter t0 c) t1) utime rs;
      q = {x \<in> set xs. x > RECORDTHRESH}
    in length xs = NEVENT \<and> cyc_per_tick c' = (if q = {} then 0 else Min q)"
proof -
  have "cyc_per_tick (start_counter t0 c) = 0" using assms(2) by (simp add: start_counter_def access_counter_def)
  then show ?thesis
    using callibrate_loop_ratios [of "start_counter t0 c" NEVENT "get_counter (start_counter t0 c) t1" utime rs c'] assms(1)
    by (simp add: callibrate_def Let_def fold_lesser_Min)
qed

text \<open>A reading of the compensated counter: the cycles elapsed without the cost of the ticks.\<close>

lemma comp_counter_elapsed:
  assumes "start_comp_counter c cal u0 t0 = Some c'"
  shows "get_comp_counter c' t1 u1 = of_int (uint (t1 - t0)) - of_int (u1 - u0) * cyc_per_tick c'"
  using assms
  by (auto simp: start_comp_counter_def bind_eq_Some_conv get_comp_counter_def Let_def counter_elapsed)
    (simp_all add: start_counter_def access_counter_def)

end
