(* ===== verification/Scan.thy ===== *)
theory Scan
  imports Prelude
begin

text \<open>
  The conversions of \<open>fscanf\<close> that \<open>mdriver.c\<close> and \<open>fcyc.c\<close> use, on the characters that are still
  unread: \<open>%d\<close>, \<open>%u\<close> and \<open>%s\<close>.  \<open>None\<close> of the two numeric conversions is a matching failure or a
  number that the target type cannot hold (undefined in C); \<open>None\<close> of \<open>%s\<close> is the end of the file.
  The decimal printer is their inverse.
\<close>

definition isspace :: "char \<Rightarrow> bool" where
  "isspace c = (let n = (of_char c :: nat) in n = 32 \<or> 9 \<le> n \<and> n \<le> 13)"

definition isdigit :: "char \<Rightarrow> bool" where
  "isdigit c = (let n = (of_char c :: nat) in 48 \<le> n \<and> n \<le> 57)"

definition digit_val :: "char \<Rightarrow> int" where
  "digit_val c = int (of_char c) - 48"

definition num_of :: "string \<Rightarrow> int" where
  "num_of ds = foldl (\<lambda>n c. 10 * n + digit_val c) 0 ds"

definition skip_ws :: "string \<Rightarrow> string" where
  "skip_ws s = dropWhile isspace s"

definition scan_sign :: "string \<Rightarrow> bool \<times> string" where
  "scan_sign s =
     (case s of [] \<Rightarrow> (False, [])
      | c # cs \<Rightarrow> if c = CHR ''-'' then (True, cs) else if c = CHR ''+'' then (False, cs) else (False, s))"

definition scan_num :: "string \<Rightarrow> (int \<times> string) option" where
  "scan_num s =
     (let (neg, s) = scan_sign (skip_ws s); ds = takeWhile isdigit s
      in if ds = [] then None
         else Some ((if neg then - num_of ds else num_of ds), dropWhile isdigit s))"

definition fscanf_d :: "string \<Rightarrow> (int \<times> string) option" where
  "fscanf_d s = do {
     (n, s) \<leftarrow> scan_num s;
     if - (2 ^ 31) \<le> n \<and> n < 2 ^ 31 then Some (n, s) else None
   }"

definition fscanf_u :: "string \<Rightarrow> (int \<times> string) option" where
  "fscanf_u s = do {
     (n, s) \<leftarrow> scan_num s;
     if - (2 ^ 32) < n \<and> n < 2 ^ 32 then Some (n mod 2 ^ 32, s) else None
   }"

definition fscanf_s :: "string \<Rightarrow> (string \<times> string) option" where
  "fscanf_s s =
     (let s = skip_ws s
      in if s = [] then None else Some (takeWhile (\<lambda>c. \<not> isspace c) s, dropWhile (\<lambda>c. \<not> isspace c) s))"

subsection \<open>Decimal notation\<close>

definition digit :: "nat \<Rightarrow> char" where
  "digit d = char_of (48 + d)"

fun show_nat :: "nat \<Rightarrow> string" where
  "show_nat n = (if n < 10 then [digit n] else show_nat (n div 10) @ [digit (n mod 10)])"

declare show_nat.simps [simp del]

lemma digit_props: "d < 10 \<Longrightarrow> isdigit (digit d) \<and> digit_val (digit d) = int d \<and> \<not> isspace (digit d) \<and>
    digit d \<noteq> CHR ''-'' \<and> digit d \<noteq> CHR ''+''"
proof -
  assume d: "d < 10"
  have v: "(of_char (digit d) :: nat) = 48 + d" using d by (simp add: digit_def)
  have "(of_char CHR ''-'' :: nat) = 45" "(of_char CHR ''+'' :: nat) = 43" by simp_all
  then have "digit d \<noteq> CHR ''-''" "digit d \<noteq> CHR ''+''" using v by auto
  then show ?thesis using d v by (simp add: isdigit_def isspace_def digit_val_def)
qed

lemma show_nat_digits: "set (show_nat n) \<subseteq> digit ` {..<10}"
proof (induction n rule: show_nat.induct)
  case (1 n)
  then show ?case by (subst show_nat.simps) auto
qed

lemma show_nat_nonempty: "show_nat n \<noteq> []"
  by (subst show_nat.simps) simp

lemma num_of_snoc: "num_of (ds @ [c]) = 10 * num_of ds + digit_val c"
  by (simp add: num_of_def)

lemma num_of_show: "num_of (show_nat n) = int n"
proof (induction n rule: show_nat.induct)
  case (1 n)
  show ?case
  proof (cases "n < 10")
    case True
    then show ?thesis by (subst show_nat.simps) (simp add: num_of_def digit_props)
  next
    case False
    have "digit_val (digit (n mod 10)) = int (n mod 10)" using digit_props [of "n mod 10"] by simp
    moreover have "10 * int (n div 10) + int (n mod 10) = int n"
      by (metis mult_div_mod_eq of_nat_add of_nat_mult of_nat_numeral)
    ultimately show ?thesis using False 1 by (subst show_nat.simps) (simp add: num_of_snoc)
  qed
qed

text \<open>A printed number is read back, whatever follows it that is no digit.\<close>

definition starts_with :: "(char \<Rightarrow> bool) \<Rightarrow> string \<Rightarrow> bool" where
  "starts_with P s \<longleftrightarrow> (\<exists>c cs. s = c # cs \<and> P c)"

lemma show_nat_chars: "c \<in> set (show_nat n) \<Longrightarrow> isdigit c \<and> \<not> isspace c \<and> c \<noteq> CHR ''-'' \<and> c \<noteq> CHR ''+''"
proof -
  assume "c \<in> set (show_nat n)"
  then obtain d where "c = digit d" "d < 10" using show_nat_digits [of n] by auto
  then show ?thesis using digit_props [of d] by simp
qed

lemma takeWhile_show:
  assumes "\<forall>c\<in>set ds. P c" "\<not> starts_with P s"
  shows "takeWhile P (ds @ s) = ds \<and> dropWhile P (ds @ s) = s"
proof -
  have "takeWhile P s = [] \<and> dropWhile P s = s" using assms(2) by (cases s) (simp_all add: starts_with_def)
  with assms(1) show ?thesis by (induction ds) auto
qed

lemma scan_num_show:
  assumes "set ws \<subseteq> {c. isspace c}" "\<not> starts_with isdigit s"
  shows "scan_num (ws @ show_nat n @ s) = Some (int n, s)"
proof -
  obtain c cs where c: "show_nat n = c # cs" using show_nat_nonempty [of n] by (cases "show_nat n") auto
  have "skip_ws (ws @ show_nat n @ s) = show_nat n @ s"
    using assms(1) show_nat_chars [of c n] c by (auto simp: skip_ws_def subset_iff)
  moreover have "scan_sign (show_nat n @ s) = (False, show_nat n @ s)"
    using show_nat_chars [of c n] c by (simp add: scan_sign_def)
  moreover have "takeWhile isdigit (show_nat n @ s) = show_nat n \<and> dropWhile isdigit (show_nat n @ s) = s"
    using takeWhile_show [of "show_nat n" isdigit s] show_nat_chars assms(2) by blast
  ultimately show ?thesis by (simp add: scan_num_def show_nat_nonempty num_of_show)
qed

lemma fscanf_d_show:
  assumes "set ws \<subseteq> {c. isspace c}" "\<not> starts_with isdigit s" "n < 2 ^ 31"
  shows "fscanf_d (ws @ show_nat n @ s) = Some (int n, s)"
  using assms by (simp add: fscanf_d_def scan_num_show)

lemma fscanf_u_show:
  assumes "set ws \<subseteq> {c. isspace c}" "\<not> starts_with isdigit s" "n < 2 ^ 32"
  shows "fscanf_u (ws @ show_nat n @ s) = Some (int n, s)"
  using assms by (simp add: fscanf_u_def scan_num_show)

lemma fscanf_s_word:
  assumes "set ws \<subseteq> {c. isspace c}" "w \<noteq> []" "\<forall>c\<in>set w. \<not> isspace c" "starts_with isspace s"
  shows "fscanf_s (ws @ w @ s) = Some (w, s)"
proof -
  have "skip_ws (ws @ w @ s) = w @ s"
    using assms(1-3) by (cases w) (auto simp: skip_ws_def subset_iff)
  moreover have "takeWhile (\<lambda>c. \<not> isspace c) (w @ s) = w \<and> dropWhile (\<lambda>c. \<not> isspace c) (w @ s) = s"
    using assms(3,4) by (intro takeWhile_show) (auto simp: starts_with_def)
  ultimately show ?thesis using assms(2) by (simp add: fscanf_s_def Let_def)
qed

lemma fscanf_s_end: "set ws \<subseteq> {c. isspace c} \<Longrightarrow> fscanf_s ws = None"
  by (auto simp: fscanf_s_def skip_ws_def Let_def subset_iff)

text \<open>Every conversion leaves fewer characters.\<close>

lemma scan_sign_length: "length (snd (scan_sign s)) \<le> length s"
  by (cases s) (auto simp: scan_sign_def)

lemma scan_num_length: "scan_num s = Some (n, r) \<Longrightarrow> length r < length s"
proof -
  assume a: "scan_num s = Some (n, r)"
  obtain neg t where t: "scan_sign (skip_ws s) = (neg, t)" by force
  have "length t \<le> length (skip_ws s)"
    using t scan_sign_length [of "skip_ws s"] by simp
  moreover have "length (skip_ws s) \<le> length s" by (simp add: skip_ws_def length_dropWhile_le)
  moreover have "length r < length t"
  proof -
    have "r = dropWhile isdigit t" "takeWhile isdigit t \<noteq> []"
      using a t by (auto simp: scan_num_def Let_def split: if_splits)
    moreover have "length t = length (takeWhile isdigit t) + length (dropWhile isdigit t)"
      by (metis length_append takeWhile_dropWhile_id)
    ultimately show ?thesis by simp
  qed
  ultimately show ?thesis by simp
qed

lemma fscanf_u_length: "fscanf_u s = Some (n, r) \<Longrightarrow> length r < length s"
  using scan_num_length by (auto simp: fscanf_u_def split: Option.bind_splits if_splits)

lemma fscanf_s_length: "fscanf_s s = Some (w, r) \<Longrightarrow> length r < length s"
proof -
  assume a: "fscanf_s s = Some (w, r)"
  let ?t = "skip_ws s"
  have "?t \<noteq> []" using a by (auto simp: fscanf_s_def Let_def)
  then have "\<not> isspace (hd ?t)" using hd_dropWhile [of isspace s] by (auto simp: skip_ws_def)
  then have "length r < length ?t"
    using a \<open>?t \<noteq> []\<close> by (cases ?t) (auto simp: fscanf_s_def Let_def le_imp_less_Suc length_dropWhile_le)
  also have "\<dots> \<le> length s" by (simp add: skip_ws_def length_dropWhile_le)
  finally show ?thesis .
qed

end
