(* ===== verification/CStr.thy ===== *)
theory CStr
  imports Scan
begin

text \<open>
  Strings of C in a block of memory: a list of bytes, \<open>None\<close> for one that has not been written.
  A string starts at an offset and ends before the first null byte; reading it is undefined
  (\<open>None\<close>) when it runs into a byte that is not written or out of the block.  The functions of
  \<open>string.h\<close> are those the web server uses.
\<close>

type_synonym mem = "char option list"

abbreviation NUL :: char where "NUL \<equiv> CHR 0x00"

fun cstr :: "mem \<Rightarrow> string option" where
  "cstr [] = None"
| "cstr (None # m) = None"
| "cstr (Some c # m) = (if c = NUL then Some [] else do { s \<leftarrow> cstr m; Some (c # s) })"

definition cstr_at :: "mem \<Rightarrow> nat \<Rightarrow> string option" where
  "cstr_at m i = cstr (drop i m)"

definition poke :: "mem \<Rightarrow> nat \<Rightarrow> char \<Rightarrow> mem option" where
  "poke m i c = (if i < length m then Some (m[i := Some c]) else None)"

text \<open>The token (its offset, if there is one), the offset kept in \<open>endptr\<close>, and the block.\<close>

definition strtok_r :: "mem \<Rightarrow> nat \<Rightarrow> string \<Rightarrow> (nat option \<times> nat \<times> mem) option" where
  "strtok_r m start delims = do {
     s \<leftarrow> cstr_at m start;
     let pre = length (takeWhile (\<lambda>c. c \<in> set delims) s);
     let t = drop pre s;
     if t = [] then Some (None, start + length s, m)
     else do {
       let e = start + pre + length (takeWhile (\<lambda>c. c \<notin> set delims) t);
       if e = start + length s then Some (Some (start + pre), e, m)
       else do {
         m \<leftarrow> poke m e NUL;
         Some (Some (start + pre), e + 1, m)
       }
     }
   }"

definition tolower :: "char \<Rightarrow> char" where
  "tolower c = (let n = (of_char c :: nat) in if 65 \<le> n \<and> n \<le> 90 then char_of (n + 32) else c)"

definition same_nocase :: "string \<Rightarrow> string \<Rightarrow> bool" where
  "same_nocase s t \<longleftrightarrow> map tolower s = map tolower t"

definition starts_with_nocase :: "string \<Rightarrow> string \<Rightarrow> bool" where
  "starts_with_nocase s header = same_nocase (take (length header) s) header"

fun strstr :: "string \<Rightarrow> string \<Rightarrow> bool" where
  "strstr [] n = (n = [])"
| "strstr (c # s) n = (take (length n) (c # s) = n \<or> strstr s n)"

fun strrchr :: "string \<Rightarrow> char \<Rightarrow> string option" where
  "strrchr [] c = None"
| "strrchr (d # s) c = (case strrchr s c of None \<Rightarrow> if d = c then Some (d # s) else None | Some t \<Rightarrow> Some t)"

definition atoi_c :: "string \<Rightarrow> int option" where
  "atoi_c s = (case scan_num s of None \<Rightarrow> Some 0 | Some (n, _) \<Rightarrow> cint n)"

definition show_int :: "int \<Rightarrow> string" where
  "show_int n = (if n < 0 then CHR ''-'' # show_nat (nat (- n)) else show_nat (nat n))"

lemma cstr_word: "NUL \<notin> set w \<Longrightarrow> cstr (map Some w @ Some NUL # m) = Some w"
  by (induction w) auto

lemma cstr_Some: "cstr m = Some w \<Longrightarrow> NUL \<notin> set w \<and> (\<exists>r. m = map Some w @ Some NUL # r)"
proof (induction m arbitrary: w rule: cstr.induct)
  case (3 c m)
  show ?case
  proof (cases "c = NUL")
    case False
    then obtain s where "cstr m = Some s" "w = c # s" using 3(2) by (auto split: Option.bind_splits)
    then show ?thesis using 3(1) [OF False] False by auto
  qed (use 3(2) in auto)
qed auto

lemma cstr_at_word:
  "NUL \<notin> set w \<Longrightarrow> cstr_at (us @ map Some w @ Some NUL # vs) (length us) = Some w"
  by (simp add: cstr_at_def cstr_word)

text \<open>The two ways a token ends: at a delimiter, which is overwritten, or at the end of the string.\<close>

lemma strtok_r_delim:
  assumes "NUL \<notin> set (w @ r)" "w \<noteq> []" "set w \<inter> set ds = {}" "d \<in> set ds" "d \<noteq> NUL"
  shows "strtok_r (us @ map Some (w @ d # r) @ Some NUL # vs) (length us) ds =
    Some (Some (length us), length us + length w + 1, us @ map Some w @ Some NUL # map Some r @ Some NUL # vs)"
proof -
  have c: "cstr_at (us @ map Some (w @ d # r) @ Some NUL # vs) (length us) = Some (w @ d # r)"
    using assms(1,5) by (intro cstr_at_word) auto
  have h: "takeWhile (\<lambda>c. c \<in> set ds) (w @ d # r) = []"
    using assms(2,3) by (cases w) auto
  have t: "takeWhile (\<lambda>c. c \<notin> set ds) (w @ d # r) = w"
    using assms(3,4) by (subst takeWhile_append2) auto
  show ?thesis
    using assms(2) unfolding strtok_r_def c by (simp add: h t poke_def list_update_append)
qed

lemma strtok_r_last:
  assumes "NUL \<notin> set w" "w \<noteq> []" "set w \<inter> set ds = {}"
  shows "strtok_r (us @ map Some w @ Some NUL # vs) (length us) ds =
    Some (Some (length us), length us + length w, us @ map Some w @ Some NUL # vs)"
proof -
  have h: "takeWhile (\<lambda>c. c \<in> set ds) w = []" using assms(2,3) by (cases w) auto
  have t: "takeWhile (\<lambda>c. c \<notin> set ds) w = w" using assms(3) by auto
  show ?thesis
    using assms(2) unfolding strtok_r_def cstr_at_word [OF assms(1)] by (simp add: h t)
qed

lemma strstr_iff: "strstr s n \<longleftrightarrow> (\<exists>us vs. s = us @ n @ vs)"
proof (induction s)
  case (Cons c s)
  show ?case
  proof
    assume "strstr (c # s) n"
    then consider "take (length n) (c # s) = n" | "strstr s n" by auto
    then show "\<exists>us vs. c # s = us @ n @ vs"
    proof cases
      case 1
      then have "c # s = [] @ n @ drop (length n) (c # s)" by (metis append_Nil append_take_drop_id)
      then show ?thesis by blast
    next
      case 2
      then obtain us vs where "s = us @ n @ vs" using Cons by blast
      then have "c # s = (c # us) @ n @ vs" by simp
      then show ?thesis by blast
    qed
  next
    assume "\<exists>us vs. c # s = us @ n @ vs"
    then obtain us vs where "c # s = us @ n @ vs" by blast
    then show "strstr (c # s) n"
    proof (cases us)
      case Nil
      then have "take (length n) (c # s) = n" using \<open>c # s = us @ n @ vs\<close> by simp
      then show ?thesis by simp
    qed (use Cons in auto)
  qed
qed auto

end
