(* ===== verification/Term.thy ===== *)
theory Term
  imports CStr
begin

text \<open>
  What the shell \<open>cush\<close> rests on: the syntax trees of \<open>cush/src/shell-ast.c\<close>, the signal mask of
  \<open>signal_support.c\<close> and the terminal of \<open>termstate_management.c\<close>.  A computation that may end the
  process is \<open>Inl\<close> of its exit code; \<open>andthen\<close> sequences such computations.  Settings of a terminal
  are numbers.
\<close>

definition andthen :: "('e + 'a) option \<Rightarrow> ('a \<Rightarrow> ('e + 'b) option) \<Rightarrow> ('e + 'b) option" where
  "andthen m f = do { r \<leftarrow> m; case r of Inl e \<Rightarrow> Some (Inl e) | Inr x \<Rightarrow> f x }"

lemma andthen_simps [simp]:
  "andthen None f = None" "andthen (Some (Inl e)) f = Some (Inl e)" "andthen (Some (Inr x)) f = f x"
  by (simp_all add: andthen_def)

lemma andthen_Inr:
  "andthen m f = Some (Inr y) \<longleftrightarrow> (\<exists>x. m = Some (Inr x) \<and> f x = Some (Inr y))"
  by (cases m; cases "the m") (auto simp: andthen_def)

subsection \<open>Errors\<close>

text \<open>\<open>cush/src/utils.c\<close>: \<open>utils_fatal_error\<close> prints a message and ends the process with \<open>EXIT_FAILURE\<close>.
  \<open>utils_set_cloexec\<close> is given the flags of the descriptor, as \<open>fcntl\<close> returns them, and the answer of
  \<open>fcntl\<close> to the setting of new flags; \<open>FD_CLOEXEC\<close> is \<open>1\<close>.\<close>

definition utils_fatal_error :: "(int + 'a) option" where
  "utils_fatal_error = Some (Inl 1)"

lemma utils_fatal_error_simps [simp]:
  "utils_fatal_error \<noteq> None" "utils_fatal_error \<noteq> Some (Inr x)" "andthen utils_fatal_error f = utils_fatal_error"
  by (simp_all add: utils_fatal_error_def)

definition utils_set_cloexec :: "int \<Rightarrow> (int \<Rightarrow> int) \<Rightarrow> int" where
  "utils_set_cloexec oldflags setfd =
     (if oldflags < 0 then oldflags else setfd (or oldflags 1))"

subsection \<open>Syntax trees\<close>

record ast_command =
  argv :: "string list"
  dup_stderr_to_stdout :: bool

record ast_pipeline =
  commands :: "ast_command list"
  iored_input :: "string option"
  iored_output :: "string option"
  append_to_output :: bool
  bg_job :: bool

type_synonym ast_command_line = "ast_pipeline list"

definition ast_command_create :: "string list \<Rightarrow> bool \<Rightarrow> ast_command" where
  "ast_command_create args dup = \<lparr>argv = args, dup_stderr_to_stdout = dup\<rparr>"

definition ast_pipeline_create :: "string option \<Rightarrow> string option \<Rightarrow> bool \<Rightarrow> ast_pipeline" where
  "ast_pipeline_create inp out app =
     \<lparr>commands = [], iored_input = inp, iored_output = out, append_to_output = app, bg_job = False\<rparr>"

definition ast_pipeline_add_command :: "ast_pipeline \<Rightarrow> ast_command \<Rightarrow> ast_pipeline" where
  "ast_pipeline_add_command pipe cmd = pipe\<lparr>commands := commands pipe @ [cmd]\<rparr>"

definition ast_command_line_create_empty :: ast_command_line where
  "ast_command_line_create_empty = []"

definition ast_command_line_create :: "ast_pipeline \<Rightarrow> ast_command_line" where
  "ast_command_line_create pipe = ast_command_line_create_empty @ [pipe]"

abbreviation NL :: string where "NL \<equiv> [CHR 0x0A]"
abbreviation TAB :: string where "TAB \<equiv> [CHR 0x09]"

definition ast_command_print :: "ast_command \<Rightarrow> string" where
  "ast_command_print cmd = ''  Command:'' @ concat (map (\<lambda>w. '' '' @ w) (argv cmd)) @ NL @
     (if dup_stderr_to_stdout cmd then ''  stderr shall also be redirected'' @ NL else [])"

fun print_numbered :: "nat \<Rightarrow> ast_command list \<Rightarrow> string" where
  "print_numbered i [] = []"
| "print_numbered i (c # cs) = '' '' @ show_nat i @ ''. '' @ ast_command_print c @ print_numbered (Suc i) cs"

definition ast_pipeline_print :: "ast_pipeline \<Rightarrow> string" where
  "ast_pipeline_print pipe =
     '' Pipeline consists of '' @ show_nat (length (commands pipe)) @ '' commands'' @ NL @
     print_numbered 1 (commands pipe) @
     (case iored_output pipe of
        None \<Rightarrow> []
      | Some f \<Rightarrow> ''  the stdout of the last command '' @ (if append_to_output pipe then ''append'' else ''write'') @
          ''s to '' @ f @ NL) @
     (case iored_input pipe of
        None \<Rightarrow> [] | Some f \<Rightarrow> ''  stdin of the first command reads from '' @ f @ NL) @
     (if bg_job pipe then ''  - is a background job'' @ NL
      else ''  - should be started as a regular foreground job'' @ NL)"

definition ast_command_line_print :: "ast_command_line \<Rightarrow> string" where
  "ast_command_line_print cmdline = ''Command line'' @ NL @
     concat (map (\<lambda>p. '' ------------- '' @ NL @ ast_pipeline_print p) cmdline) @
     ''=========================================='' @ NL"

subsection \<open>Signals\<close>

definition SIGABRT :: int where "SIGABRT = 6"
definition SIGFPE :: int where "SIGFPE = 8"
definition SIGKILL :: int where "SIGKILL = 9"
definition SIGSEGV :: int where "SIGSEGV = 11"
definition SIGTERM :: int where "SIGTERM = 15"
definition SIGCHLD :: int where "SIGCHLD = 17"
definition SIGCONT :: int where "SIGCONT = 18"
definition SIGSTOP :: int where "SIGSTOP = 19"
definition SIGTSTP :: int where "SIGTSTP = 20"
definition SIGTTIN :: int where "SIGTTIN = 21"
definition SIGTTOU :: int where "SIGTTOU = 22"

lemmas signal_defs = SIGABRT_def SIGFPE_def SIGKILL_def SIGSEGV_def SIGTERM_def SIGCHLD_def SIGCONT_def
  SIGSTOP_def SIGTSTP_def SIGTTIN_def SIGTTOU_def

text \<open>
  The process of the shell: its signal mask and caught signals, the terminal (its settings, the
  process group that owns it, and whether the calls on it succeed), the file descriptor, settings and
  process group the shell keeps.
\<close>

record terminal =
  mask :: "int \<Rightarrow> bool"
  caught :: "int \<Rightarrow> bool"
  tty_attr :: nat
  tty_owner :: int
  tty_ok :: bool
  terminal_fd :: int
  shell_tty_state :: nat
  shell_pgrp :: int

definition signal_is_blocked :: "int \<Rightarrow> 'a terminal_scheme \<Rightarrow> bool" where
  "signal_is_blocked sig s = mask s sig"

definition mask_signal :: "int \<Rightarrow> bool \<Rightarrow> 'a terminal_scheme \<Rightarrow> bool \<times> 'a terminal_scheme" where
  "mask_signal sig block s = (mask s sig, s\<lparr>mask := (mask s)(sig := block)\<rparr>)"

definition signal_block :: "int \<Rightarrow> 'a terminal_scheme \<Rightarrow> bool \<times> 'a terminal_scheme" where
  "signal_block sig s = mask_signal sig True s"

definition signal_unblock :: "int \<Rightarrow> 'a terminal_scheme \<Rightarrow> bool \<times> 'a terminal_scheme" where
  "signal_unblock sig s = mask_signal sig False s"

definition signal_set_handler :: "int \<Rightarrow> 'a terminal_scheme \<Rightarrow> 'a terminal_scheme option" where
  "signal_set_handler sig s = do { assert_c (sig = SIGCHLD); Some (s\<lparr>caught := (caught s)(sig := True)\<rparr>) }"

subsection \<open>The terminal\<close>

definition termstate_save :: "'a terminal_scheme \<Rightarrow> (int + nat) option" where
  "termstate_save s = (if tty_ok s then Some (Inr (tty_attr s)) else utils_fatal_error)"

definition termstate_sample :: "'a terminal_scheme \<Rightarrow> (int + 'a terminal_scheme) option" where
  "termstate_sample s = andthen (termstate_save s) (\<lambda>a. Some (Inr (s\<lparr>shell_tty_state := a\<rparr>)))"

text \<open>\<open>fd\<close> is the result of opening the terminal, \<open>flags\<close> and \<open>setfd\<close> the answers to the calls of \<open>fcntl\<close> on
  it, \<open>pgrp\<close> the process group of the shell.\<close>

definition termstate_init ::
    "int \<Rightarrow> int \<Rightarrow> (int \<Rightarrow> int) \<Rightarrow> int \<Rightarrow> 'a terminal_scheme \<Rightarrow> (int + 'a terminal_scheme) option" where
  "termstate_init fd flags setfd pgrp s = do {
     assert_c (terminal_fd s = - 1);
     let s = s\<lparr>terminal_fd := fd\<rparr>;
     if fd = - 1 then utils_fatal_error
     else if utils_set_cloexec flags setfd \<noteq> 0 then utils_fatal_error
     else termstate_sample (s\<lparr>shell_pgrp := pgrp\<rparr>)
   }"

text \<open>\<open>tcsetattr\<close> is repeated while a signal interrupts it; \<open>tty_ok\<close> is its final answer.\<close>

definition termstate_restore :: "nat \<Rightarrow> 'a terminal_scheme \<Rightarrow> (int + 'a terminal_scheme) option" where
  "termstate_restore a s = (if tty_ok s then Some (Inr (s\<lparr>tty_attr := a\<rparr>)) else utils_fatal_error)"

definition termstate_get_tty_fd :: "'a terminal_scheme \<Rightarrow> int option" where
  "termstate_get_tty_fd s = do { assert_c (terminal_fd s \<noteq> - 1); Some (terminal_fd s) }"

text \<open>\<open>ok\<close> tells whether the process group still exists, without which \<open>tcsetpgrp\<close> fails.\<close>

definition termstate_give_terminal_to ::
    "bool \<Rightarrow> nat option \<Rightarrow> int \<Rightarrow> 'a terminal_scheme \<Rightarrow> (int + 'a terminal_scheme) option" where
  "termstate_give_terminal_to ok pg_tty_state pgrp s = do {
     let s = snd (signal_block SIGTTOU s);
     fd \<leftarrow> termstate_get_tty_fd s;
     if \<not> (ok \<and> tty_ok s) then utils_fatal_error
     else andthen
       (case pg_tty_state of
          None \<Rightarrow> Some (Inr (s\<lparr>tty_owner := pgrp\<rparr>))
        | Some a \<Rightarrow> termstate_restore a (s\<lparr>tty_owner := pgrp\<rparr>))
       (\<lambda>s. Some (Inr (snd (signal_unblock SIGTTOU s))))
   }"

definition termstate_give_terminal_back_to_shell :: "'a terminal_scheme \<Rightarrow> (int + 'a terminal_scheme) option" where
  "termstate_give_terminal_back_to_shell s = do {
     assert_c (shell_pgrp s > 0);
     termstate_give_terminal_to True (Some (shell_tty_state s)) (shell_pgrp s) s
   }"

definition termstate_get_current_terminal_owner :: "'a terminal_scheme \<Rightarrow> (int + int) option" where
  "termstate_get_current_terminal_owner s = do {
     fd \<leftarrow> termstate_get_tty_fd s;
     if tty_ok s then Some (Inr (tty_owner s)) else utils_fatal_error
   }"

lemma signal_block_simps [simp]:
  "snd (signal_block sig s) = s\<lparr>mask := (mask s)(sig := True)\<rparr>"
  "snd (signal_unblock sig s) = s\<lparr>mask := (mask s)(sig := False)\<rparr>"
  "signal_is_blocked sig s = mask s sig"
  by (simp_all add: signal_block_def signal_unblock_def mask_signal_def signal_is_blocked_def)

lemma give_terminal_Inr:
  assumes "termstate_give_terminal_to ok (Some a) pg s = Some (Inr s')"
  shows "s' = s\<lparr>mask := (mask s)(SIGTTOU := False), tty_owner := pg, tty_attr := a\<rparr>" "tty_ok s" "terminal_fd s \<noteq> - 1"
  using assms
  by (auto simp: termstate_give_terminal_to_def termstate_get_tty_fd_def termstate_restore_def
      bind_eq_Some_conv Let_def split: if_splits)

end
