(* ===== verification/Grammar.thy ===== *)
theory Grammar
  imports Term
begin

text \<open>
  The command lines of the shell: the tokens of \<open>cush/src/shell-grammar.l\<close> and the grammar of
  \<open>cush/src/shell-grammar.y\<close> with the actions of its productions.  The relations \<open>input_redirect\<close> to \<open>cmd_list\<close>
  are the productions, one rule each, for the derivations whose actions all succeed; \<open>yyparse\<close> reads
  the tokens from left to right with one token of lookahead, reduces where no token can be shifted, and
  ends at the first action that aborts.  An error that no production expects ends without a message,
  unless the parser is behind a \<open>|\<close>, where the production \<open>pipeline '|' error\<close> takes it.  A parse starts
  with an empty scanner buffer; that an aborted parse may leave characters behind for the next line is a
  matter of the generated scanner and is not modelled.
\<close>

subsection \<open>Tokens\<close>

datatype token = WORD string | GREATER_GREATER | GREATER_AMPERSAND | PIPE_AMPERSAND | TOK char

definition blank :: "char \<Rightarrow> bool" where
  "blank c \<longleftrightarrow> c = CHR '' '' \<or> c = CHR 0x09"

definition special :: "char \<Rightarrow> bool" where
  "special c \<longleftrightarrow> c \<in> {CHR ''|'', CHR ''&'', CHR '';'', CHR ''<'', CHR ''>'', CHR 0x0A}"

definition in_word :: "char \<Rightarrow> bool" where
  "in_word c \<longleftrightarrow> \<not> blank c \<and> \<not> special c"

abbreviation QUOTE :: char where "QUOTE \<equiv> CHR 0x22"
abbreviation BACKSLASH :: char where "BACKSLASH \<equiv> CHR 0x5C"

text \<open>The rest of a quoted token behind its opening quote: what it contains, and what follows it.\<close>

fun quoted :: "string \<Rightarrow> (string \<times> string) option" where
  "quoted [] = None"
| "quoted [c] = (if c = QUOTE then Some ([], []) else None)"
| "quoted (c # d # cs) =
     (if c = QUOTE then Some ([], d # cs)
      else if c = BACKSLASH then
        (if d = CHR 0x0A then None else map_option (\<lambda>(w, r). (c # d # w, r)) (quoted cs))
      else map_option (\<lambda>(w, r). (c # w, r)) (quoted (d # cs)))"

lemma quoted_shorter: "quoted s = Some (w, r) \<Longrightarrow> length r \<le> length s"
  by (induction s arbitrary: w rule: quoted.induct) (auto split: if_splits)

text \<open>
  The longest match decides, and the first rule among equally long ones: a quoted token wins over a
  word only if the word does not go on behind the closing quote.
\<close>

definition lex_word :: "char \<Rightarrow> string \<Rightarrow> token \<times> string" where
  "lex_word c cs =
     (let w = c # takeWhile in_word cs; plain = (WORD w, dropWhile in_word cs)
      in if c = QUOTE then
           (case quoted cs of
              None \<Rightarrow> plain
            | Some (q, r) \<Rightarrow> if length w \<le> length q + 2 then (WORD q, r) else plain)
         else plain)"

definition lex_special :: "char \<Rightarrow> string \<Rightarrow> token \<times> string" where
  "lex_special c cs =
     (if c = CHR ''>'' \<and> cs \<noteq> [] \<and> hd cs = CHR ''>'' then (GREATER_GREATER, tl cs)
      else if c = CHR ''>'' \<and> cs \<noteq> [] \<and> hd cs = CHR ''&'' then (GREATER_AMPERSAND, tl cs)
      else if c = CHR ''|'' \<and> cs \<noteq> [] \<and> hd cs = CHR ''&'' then (PIPE_AMPERSAND, tl cs)
      else (TOK c, cs))"

lemma lex_word_shorter: "lex_word c cs = (t, r) \<Longrightarrow> length r \<le> length cs"
  by (auto simp: lex_word_def Let_def length_dropWhile_le dest!: quoted_shorter split: if_splits option.splits)

lemma lex_special_shorter: "lex_special c cs = (t, r) \<Longrightarrow> length r \<le> length cs"
  by (auto simp: lex_special_def split: if_splits)

function yylex :: "string \<Rightarrow> token list" where
  "yylex [] = []"
| "yylex (c # cs) =
     (if blank c then yylex (dropWhile blank cs)
      else let (t, r) = (if special c then lex_special c cs else lex_word c cs) in t # yylex r)"
  by pat_completeness auto
termination
  by (relation "measure length")
    (auto simp: length_dropWhile_le less_Suc_eq_le dest!: lex_word_shorter [OF sym] lex_special_shorter [OF sym] split: if_splits)

subsection \<open>The actions of the productions\<close>

record cmd_helper =
  cmd_words :: "string list"
  cmd_input :: "string option"
  cmd_output :: "string option"
  cmd_append :: bool
  cmd_stderr :: bool

definition MISRED :: string where "MISRED = ''Missing name for redirect.''"
definition INVNUL :: string where "INVNUL = ''Invalid null command.''"
definition AMBINP :: string where "AMBINP = ''Ambiguous input redirect.''"
definition AMBOUT :: string where "AMBOUT = ''Ambiguous output redirect.''"

definition init_cmd :: "string option \<Rightarrow> string option \<Rightarrow> string option \<Rightarrow> bool \<Rightarrow> bool \<Rightarrow> cmd_helper" where
  "init_cmd firstcmd inp out app err =
     \<lparr>cmd_words = (case firstcmd of None \<Rightarrow> [] | Some w \<Rightarrow> [w]), cmd_input = inp, cmd_output = out,
      cmd_append = app, cmd_stderr = err\<rparr>"

definition make_ast_command :: "cmd_helper \<Rightarrow> ast_command option" where
  "make_ast_command cmd =
     (if cmd_words cmd = [] then None else Some (ast_command_create (cmd_words cmd) (cmd_stderr cmd)))"

definition add_to_pipeline :: "cmd_helper list \<Rightarrow> cmd_helper \<Rightarrow> bool \<Rightarrow> string + cmd_helper list" where
  "add_to_pipeline pipe cmd redirect_stderr =
     (if pipe \<noteq> [] \<and> cmd_output (List.last pipe) \<noteq> None then Inl AMBOUT
      else if pipe \<noteq> [] \<and> cmd_input cmd \<noteq> None then Inl AMBINP
      else if cmd_words cmd = [] then Inl INVNUL
      else Inr ((if pipe = [] then [] else butlast pipe @ [List.last pipe\<lparr>cmd_stderr := redirect_stderr\<rparr>]) @ [cmd]))"

fun add_commands :: "ast_pipeline \<Rightarrow> cmd_helper list \<Rightarrow> ast_pipeline option" where
  "add_commands p [] = Some p"
| "add_commands p (c # cs) = do { a \<leftarrow> make_ast_command c; add_commands (ast_pipeline_add_command p a) cs }"

definition make_pipeline :: "cmd_helper list \<Rightarrow> ast_pipeline option" where
  "make_pipeline pipe = do {
     assert_c (pipe \<noteq> []);
     add_commands (ast_pipeline_create (cmd_input (hd pipe)) (cmd_output (List.last pipe)) (cmd_append (List.last pipe))) pipe
   }"

definition add_word :: "cmd_helper \<Rightarrow> string \<Rightarrow> cmd_helper" where
  "add_word cmd w = cmd\<lparr>cmd_words := cmd_words cmd @ [w]\<rparr>"

definition add_input :: "cmd_helper \<Rightarrow> cmd_helper \<Rightarrow> string + cmd_helper" where
  "add_input cmd inp =
     (if cmd_input cmd \<noteq> None then Inl AMBINP else Inr (cmd\<lparr>cmd_input := cmd_input inp\<rparr>))"

definition add_output :: "cmd_helper \<Rightarrow> cmd_helper \<Rightarrow> string + cmd_helper" where
  "add_output cmd out =
     (if cmd_output cmd \<noteq> None then Inl AMBOUT
      else Inr (cmd\<lparr>cmd_output := cmd_output out, cmd_append := cmd_append out, cmd_stderr := cmd_stderr out\<rparr>))"

definition mark_background :: "ast_command_line \<Rightarrow> ast_command_line" where
  "mark_background l = (if l = [] then [] else butlast l @ [List.last l\<lparr>bg_job := True\<rparr>])"

subsection \<open>The productions\<close>

inductive input_redirect :: "token list \<Rightarrow> cmd_helper \<Rightarrow> bool" where
  less_word: "input_redirect [TOK (CHR ''<''), WORD w] (init_cmd None (Some w) None False False)"

inductive output_redirect :: "token list \<Rightarrow> cmd_helper \<Rightarrow> bool" where
  greater: "output_redirect [TOK (CHR ''>''), WORD w] (init_cmd None None (Some w) False False)"
| greater_ampersand: "output_redirect [GREATER_AMPERSAND, WORD w] (init_cmd None None (Some w) False True)"
| greater_greater: "output_redirect [GREATER_GREATER, WORD w] (init_cmd None None (Some w) True False)"

inductive command :: "token list \<Rightarrow> cmd_helper \<Rightarrow> bool" where
  word: "command [WORD w] (init_cmd (Some w) None None False False)"
| in_first: "input_redirect ts c \<Longrightarrow> command ts c"
| out_first: "output_redirect ts c \<Longrightarrow> command ts c"
| more: "command ts c \<Longrightarrow> command (ts @ [WORD w]) (add_word c w)"
| more_in: "command ts c \<Longrightarrow> input_redirect us d \<Longrightarrow> add_input c d = Inr e \<Longrightarrow> command (ts @ us) e"
| more_out: "command ts c \<Longrightarrow> output_redirect us d \<Longrightarrow> add_output c d = Inr e \<Longrightarrow> command (ts @ us) e"

inductive pipeline :: "token list \<Rightarrow> cmd_helper list \<Rightarrow> bool" where
  single: "command ts c \<Longrightarrow> add_to_pipeline [] c False = Inr p \<Longrightarrow> pipeline ts p"
| bar: "pipeline ts p \<Longrightarrow> command us c \<Longrightarrow> add_to_pipeline p c False = Inr q \<Longrightarrow>
    pipeline (ts @ TOK (CHR ''|'') # us) q"
| bar_ampersand: "pipeline ts p \<Longrightarrow> command us c \<Longrightarrow> add_to_pipeline p c True = Inr q \<Longrightarrow>
    pipeline (ts @ PIPE_AMPERSAND # us) q"

inductive ast_pipe :: "token list \<Rightarrow> ast_pipeline \<Rightarrow> bool" where
  pipe: "pipeline ts p \<Longrightarrow> make_pipeline p = Some a \<Longrightarrow> ast_pipe ts a"

inductive cmd_list :: "token list \<Rightarrow> ast_command_line \<Rightarrow> bool" where
  null: "cmd_list [] ast_command_line_create_empty"
| one: "ast_pipe ts a \<Longrightarrow> cmd_list ts (ast_command_line_create a)"
| semi: "cmd_list ts l \<Longrightarrow> cmd_list (ts @ [TOK (CHR '';'')]) l"
| amp: "cmd_list ts l \<Longrightarrow> cmd_list (ts @ [TOK (CHR ''&'')]) (mark_background l)"
| semi_pipe: "cmd_list ts l \<Longrightarrow> ast_pipe us a \<Longrightarrow> cmd_list (ts @ TOK (CHR '';'') # us) (l @ [a])"
| amp_pipe: "cmd_list ts l \<Longrightarrow> ast_pipe us a \<Longrightarrow>
    cmd_list (ts @ TOK (CHR ''&'') # us) (mark_background l @ [a])"

subsection \<open>The parser\<close>

text \<open>How the command that is being read is joined to the pipeline before it.\<close>

datatype joint = First | Bar | Bar_ampersand

text \<open>The message, if any, of an error that only \<open>pipeline '|' error\<close> expects.\<close>

definition unexpected :: "joint \<Rightarrow> string option" where
  "unexpected op = (if op = Bar then Some INVNUL else None)"

text \<open>A redirection: which kind it is, its value and the tokens behind it; \<open>None\<close> if there is none.\<close>

fun redirection :: "joint \<Rightarrow> token list \<Rightarrow> (string option + bool \<times> cmd_helper \<times> token list) option" where
  "redirection op (TOK c # ts) =
     (if c = CHR ''<'' then
        (case ts of WORD w # us \<Rightarrow> Some (Inr (True, init_cmd None (Some w) None False False, us))
         | _ \<Rightarrow> Some (Inl (Some MISRED)))
      else if c = CHR ''>'' then
        (case ts of WORD w # us \<Rightarrow> Some (Inr (False, init_cmd None None (Some w) False False, us))
         | _ \<Rightarrow> Some (Inl (Some MISRED)))
      else None)"
| "redirection op (GREATER_AMPERSAND # ts) =
     (case ts of WORD w # us \<Rightarrow> Some (Inr (False, init_cmd None None (Some w) False True, us))
      | _ \<Rightarrow> Some (Inl (unexpected op)))"
| "redirection op (GREATER_GREATER # ts) =
     (case ts of WORD w # us \<Rightarrow> Some (Inr (False, init_cmd None None (Some w) True False, us))
      | _ \<Rightarrow> Some (Inl (Some MISRED)))"
| "redirection op ts = None"

lemma redirection_shorter: "redirection op ts = Some (Inr (b, c, us)) \<Longrightarrow> length us < length ts"
  by (cases "(op, ts)" rule: redirection.cases)
    (auto split: if_splits list.splits token.splits)

declare redirection.simps [simp del]

fun first_of_command :: "joint \<Rightarrow> token list \<Rightarrow> string option + cmd_helper \<times> token list" where
  "first_of_command op (WORD w # ts) = Inr (init_cmd (Some w) None None False False, ts)"
| "first_of_command op ts =
     (case redirection op ts of
        None \<Rightarrow> Inl (unexpected op)
      | Some (Inl e) \<Rightarrow> Inl e
      | Some (Inr (_, c, us)) \<Rightarrow> Inr (c, us))"

text \<open>The next token or redirection of a command, if it goes on.\<close>

fun rest_of_command :: "joint \<Rightarrow> cmd_helper \<Rightarrow> token list \<Rightarrow> (string option + cmd_helper \<times> token list) option" where
  "rest_of_command op c (WORD w # ts) = Some (Inr (add_word c w, ts))"
| "rest_of_command op c ts =
     (case redirection op ts of
        None \<Rightarrow> None
      | Some (Inl e) \<Rightarrow> Some (Inl e)
      | Some (Inr (inp, d, us)) \<Rightarrow>
          (case (if inp then add_input c d else add_output c d) of
             Inl m \<Rightarrow> Some (Inl (Some m))
           | Inr e \<Rightarrow> Some (Inr (e, us))))"

lemma first_shorter: "first_of_command op ts = Inr (c, us) \<Longrightarrow> length us < length ts"
  by (cases "(op, ts)" rule: first_of_command.cases)
    (auto split: option.splits sum.splits dest!: redirection_shorter)

lemma rest_shorter: "rest_of_command op c ts = Some (Inr (d, us)) \<Longrightarrow> length us < length ts"
  by (cases "(op, c, ts)" rule: rest_of_command.cases)
    (auto split: option.splits sum.splits dest!: redirection_shorter)

text \<open>
  The three positions between tokens: at the start of a pipeline or at the end of the line, in a
  command, and behind a command that has joined its pipeline.
\<close>

function
    parse_line :: "ast_command_line \<Rightarrow> token list \<Rightarrow> (string option + ast_command_line) option"
and parse_command :: "ast_command_line \<Rightarrow> cmd_helper list \<Rightarrow> joint \<Rightarrow> cmd_helper \<Rightarrow> token list \<Rightarrow>
      (string option + ast_command_line) option"
and parse_pipeline :: "ast_command_line \<Rightarrow> cmd_helper list \<Rightarrow> token list \<Rightarrow> (string option + ast_command_line) option"
where
  "parse_line l ts =
     (if ts = [] then Some (Inr l)
      else if hd ts = TOK (CHR '';'') then parse_line l (tl ts)
      else if hd ts = TOK (CHR ''&'') then parse_line (mark_background l) (tl ts)
      else if hd ts = TOK (CHR ''|'') then Some (Inl (Some INVNUL))
      else case first_of_command First ts of
             Inl e \<Rightarrow> Some (Inl e)
           | Inr (c, us) \<Rightarrow> parse_command l [] First c us)"
| "parse_command l p op c ts =
     (case rest_of_command op c ts of
        Some (Inl e) \<Rightarrow> Some (Inl e)
      | Some (Inr (d, us)) \<Rightarrow> parse_command l p op d us
      | None \<Rightarrow>
          (case add_to_pipeline p c (op = Bar_ampersand) of
             Inl m \<Rightarrow> Some (Inl (Some m))
           | Inr q \<Rightarrow> parse_pipeline l q ts))"
| "parse_pipeline l p ts =
     (if ts \<noteq> [] \<and> (hd ts = TOK (CHR ''|'') \<or> hd ts = PIPE_AMPERSAND) then
        (let op = (if hd ts = PIPE_AMPERSAND then Bar_ampersand else Bar)
         in case first_of_command op (tl ts) of
              Inl e \<Rightarrow> Some (Inl e)
            | Inr (c, us) \<Rightarrow> parse_command l p op c us)
      else do { a \<leftarrow> make_pipeline p; parse_line (l @ [a]) ts })"
  by pat_completeness auto
termination
  by (relation "measure (\<lambda>x. case x of
        Inl (l, ts) \<Rightarrow> 3 * length ts
      | Inr (Inl (l, p, op, c, ts)) \<Rightarrow> 3 * length ts + 2
      | Inr (Inr (l, p, ts)) \<Rightarrow> 3 * length ts + 1)")
    (auto dest!: first_shorter rest_shorter)

declare parse_line.simps [simp del] parse_command.simps [simp del] parse_pipeline.simps [simp del]

definition yyparse :: "token list \<Rightarrow> (string option + ast_command_line) option" where
  "yyparse ts = parse_line ast_command_line_create_empty ts"

text \<open>\<open>NULL\<close> for an error, else the tree.\<close>

definition ast_parse_command_line :: "string \<Rightarrow> ast_command_line option option" where
  "ast_parse_command_line line = do {
     r \<leftarrow> yyparse (yylex line);
     Some (case r of Inl e \<Rightarrow> None | Inr l \<Rightarrow> Some l)
   }"

end
