(* ===== verification/Grammar_Spec.thy ===== *)
theory Grammar_Spec
  imports Grammar
begin

text \<open>
  The parser of the shell against its grammar: it always returns, it accepts exactly the lines that the
  productions derive, and every tree it returns can be written as a line that is read back.
\<close>

subsection \<open>The parser follows the productions\<close>

definition starts :: "token list \<Rightarrow> bool" where
  "starts ts \<longleftrightarrow> (case ts of
     WORD w # us \<Rightarrow> True | GREATER_GREATER # us \<Rightarrow> True | GREATER_AMPERSAND # us \<Rightarrow> True
   | TOK c # us \<Rightarrow> c = CHR ''<'' \<or> c = CHR ''>'' | _ \<Rightarrow> False)"

lemma starts_simps [simp]:
  "\<not> starts []" "starts (WORD w # us)" "starts (GREATER_GREATER # us)" "starts (GREATER_AMPERSAND # us)"
  "\<not> starts (PIPE_AMPERSAND # us)" "starts (TOK c # us) \<longleftrightarrow> c = CHR ''<'' \<or> c = CHR ''>''"
  by (simp_all add: starts_def)

inductive_simps input_redirect_iff: "input_redirect ts c"
inductive_simps output_redirect_iff: "output_redirect ts c"

lemma redirection_sound:
  "redirection op ts = Some (Inr (b, d, us)) \<Longrightarrow>
     \<exists>ws. ts = ws @ us \<and> (if b then input_redirect ws d else output_redirect ws d)"
  by (cases "(op, ts)" rule: redirection.cases)
    (auto simp: redirection.simps input_redirect_iff output_redirect_iff split: if_splits list.splits token.splits)

lemma redirection_complete:
  "input_redirect ws d \<Longrightarrow> redirection op (ws @ us) = Some (Inr (True, d, us))"
  "output_redirect ws d \<Longrightarrow> redirection op (ws @ us) = Some (Inr (False, d, us))"
  by (auto simp: redirection.simps input_redirect_iff output_redirect_iff)

lemma redirection_None [simp]: "\<not> starts ts \<Longrightarrow> redirection op ts = None"
  by (cases "(op, ts)" rule: redirection.cases) (auto simp: redirection.simps)

lemma redirection_None_iff: "redirection op ts = None \<longleftrightarrow> \<not> starts ts \<or> (\<exists>w us. ts = WORD w # us)"
  by (cases "(op, ts)" rule: redirection.cases)
    (auto simp: redirection.simps split: list.splits token.splits)

lemma rest_None: "rest_of_command op c ts = None \<longleftrightarrow> \<not> starts ts"
  using redirection_None_iff [of op ts]
  by (cases "(op, c, ts)" rule: rest_of_command.cases) (auto split: option.splits sum.splits)

lemma first_not_starts: "\<not> starts ts \<Longrightarrow> first_of_command op ts = Inl (unexpected op)"
  by (cases "(op, ts)" rule: first_of_command.cases) auto

lemma first_sound:
  "first_of_command op ts = Inr (c, us) \<Longrightarrow> \<exists>ws. ts = ws @ us \<and> command ws c"
  by (cases "(op, ts)" rule: first_of_command.cases)
    (auto intro: command.intros split: option.splits sum.splits if_splits dest!: redirection_sound)

lemma rest_sound:
  assumes "rest_of_command op c ts = Some (Inr (d, us))" "command vs c"
  shows "\<exists>ws. ts = ws @ us \<and> command (vs @ ws) d"
  using assms
  by (cases "(op, c, ts)" rule: rest_of_command.cases)
    (auto intro: command.intros split: option.splits sum.splits if_splits dest!: redirection_sound)

text \<open>The positions at which a pipeline may start, and what is read before a command of a pipeline.\<close>

inductive at_start :: "token list \<Rightarrow> ast_command_line \<Rightarrow> bool" where
  begin_line: "at_start [] []"
| after_semi: "cmd_list ts l \<Longrightarrow> at_start (ts @ [TOK (CHR '';'')]) l"
| after_amp: "cmd_list ts l \<Longrightarrow> at_start (ts @ [TOK (CHR ''&'')]) (mark_background l)"

definition joined :: "cmd_helper list \<Rightarrow> joint \<Rightarrow> token list \<Rightarrow> bool" where
  "joined p op vs \<longleftrightarrow> (case op of
     First \<Rightarrow> p = [] \<and> vs = []
   | Bar \<Rightarrow> \<exists>us. vs = us @ [TOK (CHR ''|'')] \<and> pipeline us p
   | Bar_ampersand \<Rightarrow> \<exists>us. vs = us @ [PIPE_AMPERSAND] \<and> pipeline us p)"

lemma at_start_cmd_list: "at_start us l \<Longrightarrow> cmd_list us l"
  by (induction rule: at_start.induct)
    (use cmd_list.null in \<open>auto intro: cmd_list.semi cmd_list.amp simp: ast_command_line_create_empty_def\<close>)

lemma at_start_pipe: "at_start us l \<Longrightarrow> ast_pipe vs a \<Longrightarrow> cmd_list (us @ vs) (l @ [a])"
proof (induction rule: at_start.induct)
  case begin_line
  then show ?case
    using cmd_list.one [of vs a] by (simp add: ast_command_line_create_def ast_command_line_create_empty_def)
qed (auto intro: cmd_list.semi_pipe cmd_list.amp_pipe)

lemma joined_pipeline:
  assumes "joined p op vs" "command ws c" "add_to_pipeline p c (op = Bar_ampersand) = Inr q"
  shows "pipeline (vs @ ws) q"
  using assms by (cases op) (auto simp: joined_def intro: pipeline.intros)

lemma parse_sound:
  "cmd_list us l \<Longrightarrow> at_start us l \<or> \<not> starts ts \<Longrightarrow> parse_line l ts = Some (Inr r) \<Longrightarrow> cmd_list (us @ ts) r"
  "at_start us l \<Longrightarrow> joined p op vs \<Longrightarrow> command ws c \<Longrightarrow> parse_command l p op c ts = Some (Inr r) \<Longrightarrow>
     cmd_list (us @ vs @ ws @ ts) r"
  "at_start us l \<Longrightarrow> pipeline vs p \<Longrightarrow> \<not> starts ts \<Longrightarrow> parse_pipeline l p ts = Some (Inr r) \<Longrightarrow>
     cmd_list (us @ vs @ ts) r"
proof (induction l ts and l p op c ts and l p ts arbitrary: us r and us vs ws r and us vs r
    rule: parse_line_parse_command_parse_pipeline.induct)
  case (1 l ts)
  show ?case
  proof (cases ts)
    case Nil
    then show ?thesis using 1(4,6) by (simp add: parse_line.simps)
  next
    case (Cons t rest)
    consider "t = TOK (CHR '';'')" | "t = TOK (CHR ''&'')"
      | "t \<noteq> TOK (CHR '';'')" "t \<noteq> TOK (CHR ''&'')" by blast
    then show ?thesis
    proof cases
      case a: 1
      from 1(1) [of "us @ [t]" r] a Cons 1(4,6) show ?thesis
        by (simp add: parse_line.simps [of l "t # rest" for t] at_start.intros cmd_list.intros)
    next
      case a: 2
      from 1(2) [of "us @ [t]" r] a Cons 1(4,6) show ?thesis
        by (simp add: parse_line.simps [of l "t # rest" for t] at_start.intros cmd_list.intros)
    next
      case a: 3
      with 1(6) Cons obtain c vs where f: "first_of_command First ts = Inr (c, vs)"
        and p: "parse_command l [] First c vs = Some (Inr r)" and b: "t \<noteq> TOK (CHR ''|'')"
        by (auto simp: parse_line.simps [of l "t # rest"] split: if_splits sum.splits)
      from first_sound [OF f] obtain ws where ws: "ts = ws @ vs" "command ws c" by blast
      from f have "starts ts" using first_not_starts by force
      with 1(5) have "at_start us l" by simp
      with 1(3) [of "(c, vs)" c vs us "[]" ws r] a b Cons f p ws show ?thesis by (simp add: joined_def)
    qed
  qed
next
  case (2 l p op c ts)
  show ?case
  proof (cases "rest_of_command op c ts")
    case None
    with 2(6) obtain q where q: "add_to_pipeline p c (op = Bar_ampersand) = Inr q"
      and p: "parse_pipeline l q ts = Some (Inr r)"
      by (auto simp: parse_command.simps [of l p op c ts] split: sum.splits)
    from joined_pipeline [OF 2(4,5) q] 2(1) [OF None q, of us "vs @ ws" r] 2(3) p None show ?thesis
      by (simp add: rest_None)
  next
    case (Some x)
    with 2(6) obtain d us' where x: "x = Inr (d, us')" and p: "parse_command l p op d us' = Some (Inr r)"
      by (auto simp: parse_command.simps [of l p op c ts] split: sum.splits)
    from rest_sound [OF Some [unfolded x] 2(5)] obtain v where v: "ts = v @ us'" "command (ws @ v) d" by blast
    from 2(2) [OF Some x refl 2(3,4) v(2) p] v show ?thesis by simp
  qed
next
  case (3 l p ts)
  show ?case
  proof (cases "ts \<noteq> [] \<and> (hd ts = TOK (CHR ''|'') \<or> hd ts = PIPE_AMPERSAND)")
    case True
    define op where "op = (if hd ts = PIPE_AMPERSAND then Bar_ampersand else Bar)"
    from True 3(6) obtain c us' where f: "first_of_command op (tl ts) = Inr (c, us')"
      and p: "parse_command l p op c us' = Some (Inr r)"
      by (auto simp: parse_pipeline.simps [of l p ts] op_def Let_def split: sum.splits if_splits)
    from first_sound [OF f] obtain ws where ws: "tl ts = ws @ us'" "command ws c" by blast
    from True have "joined p op (vs @ [hd ts])" using 3(4) by (auto simp: joined_def op_def)
    from 3(1) [OF True op_def f refl 3(3) this ws(2) p] show ?thesis
      using True ws(1) by (cases ts) auto
  next
    case False
    with 3(6) obtain a where a: "make_pipeline p = Some a" and p: "parse_line (l @ [a]) ts = Some (Inr r)"
      by (auto simp: parse_pipeline.simps [of l p ts] bind_eq_Some_conv)
    from at_start_pipe [OF 3(3) ast_pipe.pipe [OF 3(4) a]] 3(2) [OF False, of a "us @ vs" r] p a 3(5)
    show ?thesis by simp
  qed
qed

text \<open>What is derived is read: each production is followed by the calls of the parser.\<close>

definition start_command :: "ast_command_line \<Rightarrow> cmd_helper list \<Rightarrow> joint \<Rightarrow> token list \<Rightarrow>
    (string option + ast_command_line) option" where
  "start_command l p op ts =
     (case first_of_command op ts of
        Inl e \<Rightarrow> Some (Inl e)
      | Inr (c, us) \<Rightarrow> parse_command l p op c us)"

lemma parse_command_step:
  "rest_of_command op c us = Some (Inr (d, vs)) \<Longrightarrow> parse_command l p op c us = parse_command l p op d vs"
  by (subst parse_command.simps) simp

lemma start_command_complete:
  "command ws c \<Longrightarrow> start_command l p op (ws @ ts) = parse_command l p op c ts"
proof (induction arbitrary: ts rule: command.induct)
  case (word w)
  show ?case by (simp add: start_command_def)
next
  case (in_first us c)
  then show ?case by (auto simp: start_command_def input_redirect_iff redirection.simps)
next
  case (out_first us c)
  then show ?case by (auto simp: start_command_def output_redirect_iff redirection.simps)
next
  case (more us c w)
  then show ?case by (simp add: parse_command_step)
next
  case (more_in us c vs d e)
  have "rest_of_command op c (vs @ ts) = Some (Inr (e, ts))"
    using more_in.hyps(2,3) by (auto simp: input_redirect_iff redirection.simps)
  then show ?case by (simp add: more_in.IH parse_command_step)
next
  case (more_out us c vs d e)
  have "rest_of_command op c (vs @ ts) = Some (Inr (e, ts))"
    using more_out.hyps(2,3) by (auto simp: output_redirect_iff redirection.simps)
  then show ?case by (simp add: more_out.IH parse_command_step)
qed

lemma command_starts: "command ws c \<Longrightarrow> starts (ws @ ts)"
  by (induction arbitrary: ts rule: command.induct) (auto simp: input_redirect_iff output_redirect_iff)

lemma starts_parse_line: "starts ts \<Longrightarrow> parse_line l ts = start_command l [] First ts"
  by (subst parse_line.simps) (auto simp: starts_def start_command_def split: list.splits)

lemma parse_command_end:
  "\<not> starts ts \<Longrightarrow> add_to_pipeline p c (op = Bar_ampersand) = Inr q \<Longrightarrow>
     parse_command l p op c ts = parse_pipeline l q ts"
  by (subst parse_command.simps) (simp add: rest_None [THEN iffD2])

lemma parse_pipeline_bar:
  "parse_pipeline l p (TOK (CHR ''|'') # ts) = start_command l p Bar ts"
  "parse_pipeline l p (PIPE_AMPERSAND # ts) = start_command l p Bar_ampersand ts"
  by (subst parse_pipeline.simps, simp add: start_command_def)+

lemma pipeline_complete:
  "pipeline vs p \<Longrightarrow> \<not> starts ts \<Longrightarrow> parse_line l (vs @ ts) = parse_pipeline l p ts"
proof (induction arbitrary: ts rule: pipeline.induct)
  case (single ws c p)
  then show ?case
    by (simp add: starts_parse_line command_starts start_command_complete parse_command_end)
qed (simp_all add: parse_pipeline_bar start_command_complete parse_command_end)

definition ends :: "token list \<Rightarrow> bool" where
  "ends ts \<longleftrightarrow> ts = [] \<or> hd ts = TOK (CHR '';'') \<or> hd ts = TOK (CHR ''&'')"

lemma ends_not_starts: "ends ts \<Longrightarrow> \<not> starts ts \<and> (ts \<noteq> [] \<longrightarrow> hd ts \<noteq> TOK (CHR ''|'') \<and> hd ts \<noteq> PIPE_AMPERSAND)"
  by (cases ts) (auto simp: ends_def)

lemma ast_pipe_complete:
  assumes "ast_pipe vs a" "ends ts"
  shows "parse_line l (vs @ ts) = parse_line (l @ [a]) ts"
  using assms(1)
proof cases
  case (pipe p)
  then show ?thesis
    using ends_not_starts [OF assms(2)] by (subst pipeline_complete, simp_all) (subst parse_pipeline.simps, auto)
qed

lemma parse_line_separator:
  "parse_line l (TOK (CHR '';'') # ts) = parse_line l ts"
  "parse_line l (TOK (CHR ''&'') # ts) = parse_line (mark_background l) ts"
  by (subst parse_line.simps, simp)+

lemma cmd_list_complete: "cmd_list us l \<Longrightarrow> ends ts \<Longrightarrow> parse_line [] (us @ ts) = parse_line l ts"
  by (induction arbitrary: ts rule: cmd_list.induct)
    (simp_all add: ast_command_line_create_def ast_command_line_create_empty_def ast_pipe_complete
      parse_line_separator ends_def)

subsection \<open>The parser returns\<close>

definition has_words :: "cmd_helper list \<Rightarrow> bool" where
  "has_words p \<longleftrightarrow> (\<forall>c\<in>set p. cmd_words c \<noteq> [])"

lemma has_words_simps [simp]:
  "has_words []" "has_words (c # p) \<longleftrightarrow> cmd_words c \<noteq> [] \<and> has_words p"
  "has_words (p @ q) \<longleftrightarrow> has_words p \<and> has_words q"
  by (auto simp: has_words_def)

lemma has_words_split: "has_words p \<Longrightarrow> p \<noteq> [] \<Longrightarrow> has_words (butlast p) \<and> cmd_words (List.last p) \<noteq> []"
  by (cases p rule: rev_cases) auto

lemma add_to_pipeline_has_words:
  "add_to_pipeline p c b = Inr q \<Longrightarrow> has_words p \<Longrightarrow> has_words q \<and> q \<noteq> []"
  by (auto simp: add_to_pipeline_def has_words_split split: if_splits)

lemma add_commands_total: "has_words p \<Longrightarrow> add_commands a p =
    Some (a\<lparr>commands := commands a @ map (\<lambda>c. ast_command_create (cmd_words c) (cmd_stderr c)) p\<rparr>)"
  by (induction p arbitrary: a) (auto simp: make_ast_command_def ast_pipeline_add_command_def)

lemma make_pipeline_total:
  "has_words p \<Longrightarrow> p \<noteq> [] \<Longrightarrow> make_pipeline p =
     Some \<lparr>commands = map (\<lambda>c. ast_command_create (cmd_words c) (cmd_stderr c)) p, iored_input = cmd_input (hd p),
       iored_output = cmd_output (List.last p), append_to_output = cmd_append (List.last p), bg_job = False\<rparr>"
  by (simp add: make_pipeline_def add_commands_total ast_pipeline_create_def)

lemma parse_total:
  "parse_line l ts \<noteq> None"
  "has_words p \<Longrightarrow> parse_command l p op c ts \<noteq> None"
  "has_words p \<Longrightarrow> p \<noteq> [] \<Longrightarrow> parse_pipeline l p ts \<noteq> None"
proof (induction l ts and l p op c ts and l p ts rule: parse_line_parse_command_parse_pipeline.induct)
  case (1 l ts)
  then show ?case by (subst parse_line.simps) (auto split: sum.splits)
next
  case (2 l p op c ts)
  then show ?case
    using add_to_pipeline_has_words [of p c "op = Bar_ampersand"]
    by (subst parse_command.simps) (auto split: option.splits sum.splits)
next
  case (3 l p ts)
  then show ?case
    by (subst parse_pipeline.simps) (auto simp: make_pipeline_total Let_def split: sum.splits)
qed

text \<open>
  C27: the parser always returns, and it accepts exactly the token sequences that the productions of
  \<open>cmd_list\<close> derive with no aborting action, with the tree they give.
\<close>

theorem yyparse_accepts:
  "yyparse ts \<noteq> None \<and> (yyparse ts = Some (Inr l) \<longleftrightarrow> cmd_list ts l)"
proof -
  have "cmd_list ts l" if "parse_line [] ts = Some (Inr l)"
    using parse_sound(1) [of "[]" "[]" ts l] that cmd_list.null
    by (simp add: at_start.intros ast_command_line_create_empty_def)
  moreover have "parse_line [] ts = Some (Inr l)" if "cmd_list ts l"
    using cmd_list_complete [OF that, of "[]"] by (simp add: ends_def parse_line.simps)
  ultimately show ?thesis
    using parse_total(1) by (auto simp: yyparse_def ast_command_line_create_empty_def)
qed

subsection \<open>Writing a tree as a line\<close>

text \<open>The trees that come out of the parser: see \<open>parsed_shape\<close>.\<close>

definition pipeline_shape :: "ast_pipeline \<Rightarrow> bool" where
  "pipeline_shape p \<longleftrightarrow>
     commands p \<noteq> [] \<and> (\<forall>c\<in>set (commands p). argv c \<noteq> []) \<and>
     (append_to_output p \<longrightarrow> iored_output p \<noteq> None) \<and>
     (dup_stderr_to_stdout (List.last (commands p)) \<longrightarrow> iored_output p \<noteq> None \<and> \<not> append_to_output p)"

definition helper_ok :: "cmd_helper \<Rightarrow> bool" where
  "helper_ok c \<longleftrightarrow> (cmd_append c \<longrightarrow> cmd_output c \<noteq> None) \<and>
     (cmd_stderr c \<longrightarrow> cmd_output c \<noteq> None \<and> \<not> cmd_append c)"

lemma command_helper_ok: "command ts c \<Longrightarrow> helper_ok c"
  by (induction rule: command.induct)
    (auto simp: helper_ok_def init_cmd_def add_word_def add_input_def add_output_def input_redirect_iff
      output_redirect_iff split: if_splits)

lemma pipeline_helpers: "pipeline ts p \<Longrightarrow> has_words p \<and> p \<noteq> [] \<and> helper_ok (List.last p)"
proof (induction rule: pipeline.induct)
  case (single ts c p)
  then show ?case by (auto simp: add_to_pipeline_def command_helper_ok split: if_splits)
next
  case (bar ts p us c q)
  then show ?case
    using add_to_pipeline_has_words [of p c False q] command_helper_ok [of us c]
    by (auto simp: add_to_pipeline_def split: if_splits)
next
  case (bar_ampersand ts p us c q)
  then show ?case
    using add_to_pipeline_has_words [of p c True q] command_helper_ok [of us c]
    by (auto simp: add_to_pipeline_def split: if_splits)
qed

lemma ast_pipe_shape: "ast_pipe ts a \<Longrightarrow> pipeline_shape a"
  by (elim ast_pipe.cases)
    (auto simp: pipeline_shape_def make_pipeline_total has_words_def ast_command_create_def last_map helper_ok_def
      dest!: pipeline_helpers)

lemma mark_background_shape:
  "\<forall>p\<in>set l. pipeline_shape p \<Longrightarrow> \<forall>p\<in>set (mark_background l). pipeline_shape p"
  by (cases l rule: rev_cases) (auto simp: mark_background_def pipeline_shape_def)

lemma cmd_list_shape: "cmd_list ts l \<Longrightarrow> \<forall>p\<in>set l. pipeline_shape p"
proof (induction rule: cmd_list.induct)
  case (amp_pipe ts l us a)
  then show ?case using mark_background_shape [of l] ast_pipe_shape [of us a] by auto
qed (auto simp: ast_command_line_create_def ast_command_line_create_empty_def
    intro: ast_pipe_shape dest: mark_background_shape)

text \<open>The tokens of a tree: the input is named first, the output last, and each pipeline is closed.\<close>

definition input_tokens :: "string option \<Rightarrow> token list" where
  "input_tokens i = (case i of None \<Rightarrow> [] | Some f \<Rightarrow> [TOK (CHR ''<''), WORD f])"

definition output_tokens :: "string option \<Rightarrow> bool \<Rightarrow> bool \<Rightarrow> token list" where
  "output_tokens out app err =
     (case out of
        None \<Rightarrow> []
      | Some f \<Rightarrow> [if app then GREATER_GREATER else if err then GREATER_AMPERSAND else TOK (CHR ''>''), WORD f])"

definition bar_tokens :: "ast_command list \<Rightarrow> token list" where
  "bar_tokens cs =
     concat (map (\<lambda>c. map WORD (argv c) @ [if dup_stderr_to_stdout c then PIPE_AMPERSAND else TOK (CHR ''|'')]) cs)"

definition pipeline_tokens :: "ast_pipeline \<Rightarrow> token list" where
  "pipeline_tokens p =
     (let c = List.last (commands p)
      in input_tokens (iored_input p) @ bar_tokens (butlast (commands p)) @ map WORD (argv c) @
         output_tokens (iored_output p) (append_to_output p) (dup_stderr_to_stdout c))"

definition line_tokens :: "ast_command_line \<Rightarrow> token list" where
  "line_tokens l = concat (map (\<lambda>p. pipeline_tokens p @ [TOK (if bg_job p then CHR ''&'' else CHR '';'')]) l)"

definition helper :: "string option \<Rightarrow> ast_command \<Rightarrow> string option \<Rightarrow> bool \<Rightarrow> bool \<Rightarrow> cmd_helper" where
  "helper i c out app err =
     \<lparr>cmd_words = argv c, cmd_input = i, cmd_output = out, cmd_append = app, cmd_stderr = err\<rparr>"

fun helpers :: "string option \<Rightarrow> ast_command list \<Rightarrow> cmd_helper list" where
  "helpers i [] = []"
| "helpers i (c # cs) = helper i c None False (dup_stderr_to_stdout c) # helpers None cs"

lemma helpers_snoc:
  "helpers i (cs @ [c]) = helpers i cs @ [helper (if cs = [] then i else None) c None False (dup_stderr_to_stdout c)]"
  by (induction cs arbitrary: i) auto

lemma command_words:
  "ws \<noteq> [] \<Longrightarrow> command (input_tokens i @ map WORD ws)
     \<lparr>cmd_words = ws, cmd_input = i, cmd_output = None, cmd_append = False, cmd_stderr = False\<rparr>"
proof (induction ws rule: rev_nonempty_induct)
  case (single w)
  show ?case
  proof (cases i)
    case None
    then show ?thesis using command.word [of w] by (simp add: input_tokens_def init_cmd_def)
  next
    case (Some f)
    then show ?thesis
      using command.more [OF command.in_first [OF input_redirect.less_word], of f w]
      by (simp add: input_tokens_def init_cmd_def add_word_def)
  qed
next
  case (snoc w ws)
  then show ?case using command.more [OF snoc.IH, of w] by (simp add: add_word_def)
qed

lemma output_redirect_tokens:
  "\<not> (app \<and> err) \<Longrightarrow> output_redirect (output_tokens (Some f) app err) (init_cmd None None (Some f) app err)"
  by (auto simp: output_tokens_def intro: output_redirect.intros)

lemma command_tokens:
  assumes "argv c \<noteq> []" "out = None \<longrightarrow> \<not> app \<and> \<not> err" "\<not> (app \<and> err)"
  shows "command (input_tokens i @ map WORD (argv c) @ output_tokens out app err) (helper i c out app err)"
proof (cases out)
  case None
  then show ?thesis using command_words [OF assms(1), of i] assms(2) by (simp add: output_tokens_def helper_def)
next
  case (Some f)
  show ?thesis
    using command.more_out [OF command_words [OF assms(1), of i] output_redirect_tokens [OF assms(3), of f]] Some
    by (simp add: add_output_def init_cmd_def helper_def)
qed

lemma pipeline_bars:
  assumes "\<forall>c\<in>set (cs @ [c]). argv c \<noteq> []" "out = None \<longrightarrow> \<not> app \<and> \<not> err" "\<not> (app \<and> err)"
  shows "pipeline (input_tokens i @ bar_tokens cs @ map WORD (argv c) @ output_tokens out app err)
    (helpers i cs @ [helper (if cs = [] then i else None) c out app err])"
  using assms
proof (induction cs arbitrary: c out app err rule: rev_induct)
  case Nil
  then show ?case
    using pipeline.single [OF command_tokens [of c out app err i]]
    by (simp add: bar_tokens_def add_to_pipeline_def helper_def)
next
  case (snoc d cs)
  have p: "pipeline (input_tokens i @ bar_tokens cs @ map WORD (argv d))
      (helpers i cs @ [helper (if cs = [] then i else None) d None False False])"
    using snoc.IH [of d None False False] snoc.prems(1) by (simp add: output_tokens_def)
  have c: "command (map WORD (argv c) @ output_tokens out app err) (helper None c out app err)"
    using command_tokens [of c out app err None] snoc.prems by (simp add: input_tokens_def)
  have a: "add_to_pipeline (helpers i cs @ [helper (if cs = [] then i else None) d None False False])
      (helper None c out app err) (dup_stderr_to_stdout d) =
      Inr (helpers i (cs @ [d]) @ [helper None c out app err])"
    using snoc.prems(1) by (simp add: add_to_pipeline_def helpers_snoc helper_def)
  show ?case
    using pipeline.bar [OF p c] pipeline.bar_ampersand [OF p c] a
    by (cases "dup_stderr_to_stdout d") (simp_all add: bar_tokens_def)
qed

lemma map_helpers:
  "map (\<lambda>c. ast_command_create (cmd_words c) (cmd_stderr c)) (helpers i cs) = cs"
  by (induction cs arbitrary: i) (auto simp: helper_def ast_command_create_def)

lemma helpers_has_words: "\<forall>c\<in>set cs. argv c \<noteq> [] \<Longrightarrow> has_words (helpers i cs)"
  by (induction cs arbitrary: i) (auto simp: helper_def)

lemma ast_pipe_tokens:
  assumes "pipeline_shape p"
  shows "ast_pipe (pipeline_tokens p) (p\<lparr>bg_job := False\<rparr>)"
proof -
  obtain cs c where cs: "commands p = cs @ [c]" using assms by (cases "commands p" rule: rev_cases) (auto simp: pipeline_shape_def)
  let ?out = "iored_output p" and ?app = "append_to_output p" and ?err = "dup_stderr_to_stdout c"
  let ?hs = "helpers (iored_input p) cs @ [helper (if cs = [] then iored_input p else None) c ?out ?app ?err]"
  have w: "\<forall>c\<in>set (cs @ [c]). argv c \<noteq> []" "?out = None \<longrightarrow> \<not> ?app \<and> \<not> ?err" "\<not> (?app \<and> ?err)"
    using assms by (auto simp: pipeline_shape_def cs)
  have "pipeline (pipeline_tokens p) ?hs"
    using pipeline_bars [OF w] by (simp add: pipeline_tokens_def cs)
  moreover have "make_pipeline ?hs = Some (p\<lparr>bg_job := False\<rparr>)"
  proof -
    have "has_words ?hs" "cmd_input (hd ?hs) = iored_input p"
      using w(1) by (simp add: helpers_has_words helper_def) (cases cs; simp add: helper_def)
    then show ?thesis
      by (cases p) (use cs in \<open>simp add: make_pipeline_total map_helpers [unfolded ast_command_create_def] helper_def ast_command_create_def\<close>)
  qed
  ultimately show ?thesis by (rule ast_pipe.pipe)
qed

lemma at_start_tokens: "\<forall>p\<in>set l. pipeline_shape p \<Longrightarrow> at_start (line_tokens l) l"
proof (induction l rule: rev_induct)
  case Nil
  show ?case by (simp add: line_tokens_def at_start.begin_line)
next
  case (snoc p l)
  then have "cmd_list (line_tokens l @ pipeline_tokens p) (l @ [p\<lparr>bg_job := False\<rparr>])"
    by (simp add: at_start_pipe ast_pipe_tokens)
  from after_semi [OF this] after_amp [OF this] show ?case
    by (cases p; cases "bg_job p") (simp_all add: line_tokens_def mark_background_def)
qed

text \<open>The text of a line: a word is quoted unless it can stand as it is.\<close>

definition plain_word :: "string \<Rightarrow> bool" where
  "plain_word w \<longleftrightarrow> w \<noteq> [] \<and> list_all in_word w \<and> hd w \<noteq> QUOTE"

definition quotable :: "string \<Rightarrow> bool" where
  "quotable w \<longleftrightarrow> quoted (w @ [QUOTE]) = Some (w, [])"

definition word_text :: "string \<Rightarrow> string" where
  "word_text w = (if plain_word w then w else QUOTE # w @ [QUOTE])"

fun token_text :: "token \<Rightarrow> string" where
  "token_text (WORD w) = word_text w"
| "token_text GREATER_GREATER = ''>>''"
| "token_text GREATER_AMPERSAND = ''>&''"
| "token_text PIPE_AMPERSAND = ''|&''"
| "token_text (TOK c) = [c]"

fun token_ok :: "token \<Rightarrow> bool" where
  "token_ok (WORD w) = (plain_word w \<or> quotable w)"
| "token_ok (TOK c) = special c"
| "token_ok t = True"

definition line_text :: "ast_command_line \<Rightarrow> string" where
  "line_text l = concat (map (\<lambda>t. token_text t @ '' '') (line_tokens l))"

lemma quoted_append: "quoted s = Some (w, r) \<Longrightarrow> quoted (s @ t) = Some (w, r @ t)"
proof (induction s arbitrary: w rule: quoted.induct)
  case (2 c)
  then show ?case by (cases t) (auto split: if_splits)
next
  case (3 c d cs)
  then show ?case by (auto split: if_splits)
qed auto

lemma in_word_facts [simp]: "\<not> in_word (CHR '' '')" "in_word QUOTE" "\<not> special QUOTE" "\<not> blank QUOTE"
  "blank (CHR '' '')" "\<not> special (CHR '' '')"
  by (auto simp: in_word_def blank_def special_def)

lemma takeWhile_plain: "list_all in_word w \<Longrightarrow> takeWhile in_word (w @ CHR '' '' # s) = w \<and>
    dropWhile in_word (w @ CHR '' '' # s) = CHR '' '' # s"
  by (induction w) auto

lemma lex_plain: "plain_word (c # w) \<Longrightarrow> lex_word c (w @ CHR '' '' # s) = (WORD (c # w), CHR '' '' # s)"
  using takeWhile_plain [of w s] by (simp add: lex_word_def plain_word_def Let_def)

lemma lex_quoted:
  assumes "quotable w"
  shows "lex_word QUOTE (w @ QUOTE # CHR '' '' # s) = (WORD w, CHR '' '' # s)"
proof -
  have "quoted (w @ QUOTE # CHR '' '' # s) = Some (w, CHR '' '' # s)"
    using quoted_append [of "w @ [QUOTE]" w "[]" "CHR '' '' # s"] assms by (simp add: quotable_def)
  moreover have "length (takeWhile in_word (w @ QUOTE # CHR '' '' # s)) \<le> length w + 1"
    by (induction w) auto
  ultimately show ?thesis by (simp add: lex_word_def Let_def)
qed

lemma yylex_blank: "yylex (CHR '' '' # s) = yylex s"
proof (cases s)
  case (Cons c cs)
  then show ?thesis by (cases "blank c") simp_all
qed simp

lemma yylex_token: "token_ok t \<Longrightarrow> yylex (token_text t @ CHR '' '' # s) = t # yylex s"
proof (cases t)
  case (WORD w)
  assume ok: "token_ok t"
  show ?thesis
  proof (cases "plain_word w")
    case True
    then obtain c v where w: "w = c # v" by (cases w) (auto simp: plain_word_def)
    have "\<not> blank c" "\<not> special c" using True by (auto simp: w plain_word_def in_word_def)
    then show ?thesis
      using lex_plain [of c v s] True WORD by (simp add: word_text_def w yylex_blank del: yylex.simps(2) add: yylex.simps(2) [of c])
  next
    case False
    then show ?thesis
      using ok WORD lex_quoted [of w s]
      by (simp add: word_text_def yylex_blank del: yylex.simps(2) add: yylex.simps(2) [of QUOTE])
  qed
next
  case (TOK c)
  assume "token_ok t"
  then have "special c" "\<not> blank c" using TOK by (auto simp: special_def blank_def)
  then show ?thesis using TOK by (simp add: lex_special_def yylex_blank del: yylex.simps(2) add: yylex.simps(2) [of c])
qed (simp_all add: lex_special_def yylex_blank special_def blank_def
      del: yylex.simps(2) add: yylex.simps(2) [of "CHR ''>''"] yylex.simps(2) [of "CHR ''|''"])

lemma yylex_tokens: "list_all token_ok ts \<Longrightarrow> yylex (concat (map (\<lambda>t. token_text t @ '' '') ts)) = ts"
  by (induction ts) (simp_all add: yylex_token)

text \<open>
  C28: every tree with the shape that the parser produces, whose words can be written, is read back from
  its text: the text is split into the same words, redirections and pipelines.
\<close>

theorem parse_line_text:
  assumes "\<forall>p\<in>set l. pipeline_shape p" "list_all token_ok (line_tokens l)"
  shows "ast_parse_command_line (line_text l) = Some (Some l)"
proof -
  have "cmd_list (line_tokens l) l" using at_start_tokens [OF assms(1)] by (rule at_start_cmd_list)
  then have "yyparse (line_tokens l) = Some (Inr l)"
    using cmd_list_complete [of "line_tokens l" l "[]"]
    by (simp add: yyparse_def ast_command_line_create_empty_def ends_def parse_line.simps)
  then show ?thesis by (simp add: ast_parse_command_line_def line_text_def yylex_tokens [OF assms(2)])
qed

definition sample_line :: ast_command_line where
  "sample_line =
     [\<lparr>commands = [\<lparr>argv = [''sort'', ''my file''], dup_stderr_to_stdout = True\<rparr>,
        \<lparr>argv = [''uniq''], dup_stderr_to_stdout = False\<rparr>],
       iored_input = None, iored_output = Some ''log'', append_to_output = True, bg_job = True\<rparr>]"

lemma sample_line_ok:
  "(\<forall>p\<in>set sample_line. pipeline_shape p) \<and> list_all token_ok (line_tokens sample_line)"
  by (simp add: sample_line_def pipeline_shape_def line_tokens_def pipeline_tokens_def input_tokens_def bar_tokens_def
      output_tokens_def plain_word_def quotable_def in_word_def blank_def special_def)

theorem parse_line_text_witness:
  "ast_parse_command_line (line_text sample_line) = Some (Some sample_line)"
  using parse_line_text [of sample_line] sample_line_ok by blast

text \<open>
  C29: whatever is typed, each pipeline of the tree has a command, each command has a word, and standard
  error joins the output of the last command only where a file takes both.
\<close>

theorem parsed_shape:
  assumes "ast_parse_command_line line = Some (Some l)" "p \<in> set l"
  shows "commands p \<noteq> [] \<and> (\<forall>c\<in>set (commands p). argv c \<noteq> []) \<and>
    (append_to_output p \<longrightarrow> iored_output p \<noteq> None) \<and>
    (dup_stderr_to_stdout (List.last (commands p)) \<longrightarrow> iored_output p \<noteq> None \<and> \<not> append_to_output p)"
proof -
  have "parse_line [] (yylex line) = Some (Inr l)"
    using assms(1)
    by (cases "parse_line [] (yylex line)"; cases "the (parse_line [] (yylex line))")
      (auto simp: ast_parse_command_line_def yyparse_def ast_command_line_create_empty_def)
  then have "cmd_list (yylex line) l"
    using parse_sound(1) [of "[]" "[]"] cmd_list.null
    by (force simp: at_start.intros ast_command_line_create_empty_def)
  with assms(2) show ?thesis using cmd_list_shape by (fastforce simp: pipeline_shape_def)
qed

lemma parse_ls: "ast_parse_command_line ''ls'' =
    Some (Some [\<lparr>commands = [\<lparr>argv = [''ls''], dup_stderr_to_stdout = False\<rparr>], iored_input = None,
      iored_output = None, append_to_output = False, bg_job = False\<rparr>])"
  by code_simp

theorem parsed_shape_witness:
  "argv (hd (commands (hd (the (the (ast_parse_command_line ''ls'')))))) \<noteq> []"
  using parsed_shape [OF parse_ls] parse_ls by simp

end
