(* ===== verification/CList.thy ===== *)
theory CList
  imports Prelude "HOL-Library.Multiset"
begin

text \<open>
  The intrusive doubly linked list of \<open>malloclab/list.c\<close> (also used by the shell and the
  thread pool).  A \<open>struct list_elem\<close> is a pair of pointer fields; the store keeps one map
  per field, from the address of an element to the pointer stored there, and a field that
  was never written cannot be read.  A \<open>struct list\<close> at address \<open>l\<close> is its two sentinels,
  the head at \<open>l\<close> and the tail at \<open>l + 16\<close> (an element is two 8-byte pointers).

  The operations are those of the source with their assertions.  The predicate
  \<open>dll h l xs\<close> says that the list at \<open>l\<close> links exactly the elements \<open>xs\<close>, in both
  directions; the lemmas show what each operation does to \<open>xs\<close> and that the elements of any
  other list are left alone.
\<close>

record lheap =
  prv :: "ptr \<Rightarrow> ptr option"
  nxt :: "ptr \<Rightarrow> ptr option"

definition get_prev :: "lheap \<Rightarrow> ptr \<Rightarrow> ptr option" where
  "get_prev h p = (if p = NULL then None else prv h p)"

definition get_next :: "lheap \<Rightarrow> ptr \<Rightarrow> ptr option" where
  "get_next h p = (if p = NULL then None else nxt h p)"

definition set_prev :: "lheap \<Rightarrow> ptr \<Rightarrow> ptr \<Rightarrow> lheap option" where
  "set_prev h p v = (if p = NULL then None else Some (h\<lparr>prv := (prv h)(p \<mapsto> v)\<rparr>))"

definition set_next :: "lheap \<Rightarrow> ptr \<Rightarrow> ptr \<Rightarrow> lheap option" where
  "set_next h p v = (if p = NULL then None else Some (h\<lparr>nxt := (nxt h)(p \<mapsto> v)\<rparr>))"

subsection \<open>Head, interior and tail elements\<close>

definition is_head :: "lheap \<Rightarrow> ptr \<Rightarrow> bool option" where
  "is_head h elem =
     (if elem = NULL then Some False
      else do {
        p \<leftarrow> get_prev h elem;
        if p = NULL then do { n \<leftarrow> get_next h elem; Some (n \<noteq> NULL) } else Some False
      })"

definition is_interior :: "lheap \<Rightarrow> ptr \<Rightarrow> bool option" where
  "is_interior h elem =
     (if elem = NULL then Some False
      else do {
        p \<leftarrow> get_prev h elem;
        if p \<noteq> NULL then do { n \<leftarrow> get_next h elem; Some (n \<noteq> NULL) } else Some False
      })"

definition is_tail :: "lheap \<Rightarrow> ptr \<Rightarrow> bool option" where
  "is_tail h elem =
     (if elem = NULL then Some False
      else do {
        p \<leftarrow> get_prev h elem;
        if p \<noteq> NULL then do { n \<leftarrow> get_next h elem; Some (n = NULL) } else Some False
      })"

text \<open>The assertions \<open>is_head (e) || is_interior (e)\<close> and \<open>is_interior (e) || is_tail (e)\<close>.\<close>

definition assert_head_or_interior :: "lheap \<Rightarrow> ptr \<Rightarrow> unit option" where
  "assert_head_or_interior h e =
     do { a \<leftarrow> is_head h e; if a then Some () else do { b \<leftarrow> is_interior h e; assert_c b } }"

definition assert_interior_or_tail :: "lheap \<Rightarrow> ptr \<Rightarrow> unit option" where
  "assert_interior_or_tail h e =
     do { a \<leftarrow> is_interior h e; if a then Some () else do { b \<leftarrow> is_tail h e; assert_c b } }"

definition assert_interior :: "lheap \<Rightarrow> ptr \<Rightarrow> unit option" where
  "assert_interior h e = do { a \<leftarrow> is_interior h e; assert_c a }"

subsection \<open>Traversal\<close>

definition list_head :: "ptr \<Rightarrow> ptr option" where
  "list_head l = do { assert_c (l \<noteq> NULL); Some l }"

definition list_tail :: "ptr \<Rightarrow> ptr option" where
  "list_tail l = do { assert_c (l \<noteq> NULL); Some (l + 16) }"

definition list_end :: "ptr \<Rightarrow> ptr option" where
  "list_end l = do { assert_c (l \<noteq> NULL); Some (l + 16) }"

definition list_rend :: "ptr \<Rightarrow> ptr option" where
  "list_rend l = do { assert_c (l \<noteq> NULL); Some l }"

definition list_init :: "lheap \<Rightarrow> ptr \<Rightarrow> lheap option" where
  "list_init h l = do {
     assert_c (l \<noteq> NULL);
     h \<leftarrow> set_prev h l NULL;
     h \<leftarrow> set_next h l (l + 16);
     h \<leftarrow> set_prev h (l + 16) l;
     set_next h (l + 16) NULL
   }"

definition list_begin :: "lheap \<Rightarrow> ptr \<Rightarrow> ptr option" where
  "list_begin h l = do { assert_c (l \<noteq> NULL); get_next h l }"

definition list_next :: "lheap \<Rightarrow> ptr \<Rightarrow> ptr option" where
  "list_next h e = do { assert_head_or_interior h e; get_next h e }"

definition list_rbegin :: "lheap \<Rightarrow> ptr \<Rightarrow> ptr option" where
  "list_rbegin h l = do { assert_c (l \<noteq> NULL); get_prev h (l + 16) }"

definition list_prev :: "lheap \<Rightarrow> ptr \<Rightarrow> ptr option" where
  "list_prev h e = do { assert_interior_or_tail h e; get_prev h e }"

definition list_empty :: "lheap \<Rightarrow> ptr \<Rightarrow> bool option" where
  "list_empty h l = do { b \<leftarrow> list_begin h l; t \<leftarrow> list_end l; Some (b = t) }"

partial_function (option) list_size_loop :: "lheap \<Rightarrow> ptr \<Rightarrow> ptr \<Rightarrow> nat \<Rightarrow> nat option" where
  "list_size_loop h l e cnt = do {
     t \<leftarrow> list_end l;
     if e \<noteq> t then do { e' \<leftarrow> list_next h e; list_size_loop h l e' (Suc cnt) }
     else Some cnt
   }"

definition list_size :: "lheap \<Rightarrow> ptr \<Rightarrow> nat option" where
  "list_size h l = do { b \<leftarrow> list_begin h l; list_size_loop h l b 0 }"

subsection \<open>Insertion and removal\<close>

definition list_insert :: "lheap \<Rightarrow> ptr \<Rightarrow> ptr \<Rightarrow> lheap option" where
  "list_insert h before elem = do {
     assert_interior_or_tail h before;
     assert_c (elem \<noteq> NULL);
     bp \<leftarrow> get_prev h before;
     h \<leftarrow> set_prev h elem bp;
     h \<leftarrow> set_next h elem before;
     bp \<leftarrow> get_prev h before;
     h \<leftarrow> set_next h bp elem;
     set_prev h before elem
   }"

definition list_splice :: "lheap \<Rightarrow> ptr \<Rightarrow> ptr \<Rightarrow> ptr \<Rightarrow> lheap option" where
  "list_splice h before first lst = do {
     assert_interior_or_tail h before;
     if first = lst then Some h
     else do {
       lst \<leftarrow> list_prev h lst;
       assert_interior h first;
       assert_interior h lst;
       fp \<leftarrow> get_prev h first;
       ln \<leftarrow> get_next h lst;
       h \<leftarrow> set_next h fp ln;
       ln \<leftarrow> get_next h lst;
       fp \<leftarrow> get_prev h first;
       h \<leftarrow> set_prev h ln fp;
       bp \<leftarrow> get_prev h before;
       h \<leftarrow> set_prev h first bp;
       h \<leftarrow> set_next h lst before;
       bp \<leftarrow> get_prev h before;
       h \<leftarrow> set_next h bp first;
       set_prev h before lst
     }
   }"

definition list_push_front :: "lheap \<Rightarrow> ptr \<Rightarrow> ptr \<Rightarrow> lheap option" where
  "list_push_front h l elem = do { b \<leftarrow> list_begin h l; list_insert h b elem }"

definition list_push_back :: "lheap \<Rightarrow> ptr \<Rightarrow> ptr \<Rightarrow> lheap option" where
  "list_push_back h l elem = do { t \<leftarrow> list_end l; list_insert h t elem }"

definition list_remove :: "lheap \<Rightarrow> ptr \<Rightarrow> (ptr \<times> lheap) option" where
  "list_remove h elem = do {
     assert_interior h elem;
     p \<leftarrow> get_prev h elem;
     n \<leftarrow> get_next h elem;
     h \<leftarrow> set_next h p n;
     n \<leftarrow> get_next h elem;
     p \<leftarrow> get_prev h elem;
     h \<leftarrow> set_prev h n p;
     n \<leftarrow> get_next h elem;
     Some (n, h)
   }"

definition list_front :: "lheap \<Rightarrow> ptr \<Rightarrow> ptr option" where
  "list_front h l = do { b \<leftarrow> list_empty h l; assert_c (\<not> b); get_next h l }"

definition list_back :: "lheap \<Rightarrow> ptr \<Rightarrow> ptr option" where
  "list_back h l = do { b \<leftarrow> list_empty h l; assert_c (\<not> b); get_prev h (l + 16) }"

definition list_pop_front :: "lheap \<Rightarrow> ptr \<Rightarrow> (ptr \<times> lheap) option" where
  "list_pop_front h l = do { f \<leftarrow> list_front h l; (_, h) \<leftarrow> list_remove h f; Some (f, h) }"

definition list_pop_back :: "lheap \<Rightarrow> ptr \<Rightarrow> (ptr \<times> lheap) option" where
  "list_pop_back h l = do { b \<leftarrow> list_back h l; (_, h) \<leftarrow> list_remove h b; Some (b, h) }"

subsection \<open>Reversal\<close>

text \<open>
  \<open>swap\<close> exchanges the contents of two pointer cells.  Three pairs of cells are swapped in
  \<open>list_reverse\<close>: the two fields of one element, the two inner links of the sentinels, and
  the outer links of the two boundary elements.
\<close>

definition swap_fields :: "lheap \<Rightarrow> ptr \<Rightarrow> lheap option" where
  "swap_fields h e = do {
     p \<leftarrow> get_prev h e;
     n \<leftarrow> get_next h e;
     h \<leftarrow> set_prev h e n;
     set_next h e p
   }"

definition swap_next_prev :: "lheap \<Rightarrow> ptr \<Rightarrow> ptr \<Rightarrow> lheap option" where
  "swap_next_prev h a b = do {
     n \<leftarrow> get_next h a;
     p \<leftarrow> get_prev h b;
     h \<leftarrow> set_next h a p;
     set_prev h b n
   }"

partial_function (option) list_reverse_loop :: "lheap \<Rightarrow> ptr \<Rightarrow> ptr \<Rightarrow> lheap option" where
  "list_reverse_loop h l e = do {
     t \<leftarrow> list_end l;
     if e \<noteq> t then do {
       h \<leftarrow> swap_fields h e;
       e' \<leftarrow> get_prev h e;
       list_reverse_loop h l e'
     } else Some h
   }"

declare list_size_loop.simps [code] list_reverse_loop.simps [code]

definition list_reverse :: "lheap \<Rightarrow> ptr \<Rightarrow> lheap option" where
  "list_reverse h l = do {
     b \<leftarrow> list_empty h l;
     if b then Some h
     else do {
       b \<leftarrow> list_begin h l;
       h \<leftarrow> list_reverse_loop h l b;
       h \<leftarrow> swap_next_prev h l (l + 16);
       hn \<leftarrow> get_next h l;
       tp \<leftarrow> get_prev h (l + 16);
       swap_next_prev h tp hn
     }
   }"

subsection \<open>The linked structure\<close>

text \<open>
  \<open>seg h a xs b\<close>: starting at \<open>a\<close>, the elements \<open>xs\<close> are linked one after the other and
  the last of them to \<open>b\<close>, in both directions.
\<close>

fun seg :: "lheap \<Rightarrow> ptr \<Rightarrow> ptr list \<Rightarrow> ptr \<Rightarrow> bool" where
  "seg h a [] b = (nxt h a = Some b \<and> prv h b = Some a)"
| "seg h a (x # xs) b = (nxt h a = Some x \<and> prv h x = Some a \<and> seg h x xs b)"

definition nodes :: "ptr \<Rightarrow> ptr list \<Rightarrow> ptr set" where
  "nodes l xs = insert l (insert (l + 16) (set xs))"

definition dll :: "lheap \<Rightarrow> ptr \<Rightarrow> ptr list \<Rightarrow> bool" where
  "dll h l xs \<longleftrightarrow>
     l \<noteq> NULL \<and> l + 16 \<noteq> NULL \<and> NULL \<notin> set xs \<and> l \<notin> set xs \<and> l + 16 \<notin> set xs \<and> distinct xs \<and>
     prv h l = Some NULL \<and> nxt h (l + 16) = Some NULL \<and> seg h l xs (l + 16)"

text \<open>\<open>frame S h h'\<close>: the store changed at most at the elements of \<open>S\<close>.\<close>

definition frame :: "ptr set \<Rightarrow> lheap \<Rightarrow> lheap \<Rightarrow> bool" where
  "frame S h h' \<longleftrightarrow> (\<forall>p. p \<notin> S \<longrightarrow> prv h' p = prv h p \<and> nxt h' p = nxt h p)"

lemma frame_refl [simp]: "frame S h h"
  by (simp add: frame_def)

lemma frame_trans: "frame S h h' \<Longrightarrow> frame S h' h'' \<Longrightarrow> frame S h h''"
  by (auto simp: frame_def)

lemma frame_mono: "frame S h h' \<Longrightarrow> S \<subseteq> T \<Longrightarrow> frame T h h'"
  by (auto simp: frame_def)

lemma seg_append:
  "seg h a (us @ vs) b \<longleftrightarrow> seg h a us (hd (vs @ [b])) \<and> seg h (last (a # us)) vs b"
proof (induction us arbitrary: a)
  case Nil
  then show ?case by (cases vs) auto
next
  case (Cons u us)
  then show ?case by simp
qed

lemma seg_cong:
  "(\<And>p. p \<in> set (a # xs) \<Longrightarrow> nxt h' p = nxt h p) \<Longrightarrow>
   (\<And>p. p \<in> set (xs @ [b]) \<Longrightarrow> prv h' p = prv h p) \<Longrightarrow> seg h' a xs b = seg h a xs b"
  by (induction xs arbitrary: a) auto

lemma seg_first: "seg h a xs b \<Longrightarrow> nxt h a = Some (hd (xs @ [b]))"
  by (cases xs) auto

lemma seg_last: "seg h a xs b \<Longrightarrow> prv h b = Some (last (a # xs))"
  by (induction xs arbitrary: a) auto

lemma seg_relink_end:
  assumes "seg h a xs b" "distinct (a # xs)"
    and "\<And>p. p \<in> set (a # xs) \<Longrightarrow> p \<noteq> last (a # xs) \<Longrightarrow> nxt h' p = nxt h p"
    and "\<And>p. p \<in> set xs \<Longrightarrow> prv h' p = prv h p"
    and "nxt h' (last (a # xs)) = Some c" "prv h' c = Some (last (a # xs))"
  shows "seg h' a xs c"
  using assms
proof (induction xs arbitrary: a)
  case Nil
  then show ?case by simp
next
  case (Cons x xs)
  have "seg h' x xs c"
    by (rule Cons.IH) (use Cons.prems in \<open>auto split: if_splits\<close>)
  moreover have "a \<noteq> last (a # x # xs)"
    using Cons.prems(2) by (metis distinct.simps(2) last.simps last_in_set list.distinct(1))
  then have "nxt h' a = nxt h a" using Cons.prems(3) [of a] by simp
  ultimately show ?case using Cons.prems by simp
qed

lemma seg_relink_start:
  assumes "seg h a xs b" "distinct (xs @ [b])"
    and "\<And>p. p \<in> set xs \<Longrightarrow> nxt h' p = nxt h p"
    and "\<And>p. p \<in> set (xs @ [b]) \<Longrightarrow> p \<noteq> hd (xs @ [b]) \<Longrightarrow> prv h' p = prv h p"
    and "nxt h' c = Some (hd (xs @ [b]))" "prv h' (hd (xs @ [b])) = Some c"
  shows "seg h' c xs b"
proof (cases xs)
  case Nil
  with assms show ?thesis by simp
next
  case (Cons x ys)
  with assms(1) have "seg h x ys b" by simp
  moreover have "seg h' x ys b = seg h x ys b"
    by (rule seg_cong) (use Cons assms in auto)
  ultimately show ?thesis using Cons assms by simp
qed

lemma dll_frame: "dll h m ys \<Longrightarrow> frame S h h' \<Longrightarrow> nodes m ys \<inter> S = {} \<Longrightarrow> dll h' m ys"
proof -
  assume d: "dll h m ys" and f: "frame S h h'" and dj: "nodes m ys \<inter> S = {}"
  have same: "p \<in> nodes m ys \<Longrightarrow> prv h' p = prv h p \<and> nxt h' p = nxt h p" for p
    using f dj by (auto simp: frame_def)
  have "seg h' m ys (m + 16) = seg h m ys (m + 16)"
    by (rule seg_cong) (use same in \<open>auto simp: nodes_def\<close>)
  with d same show "dll h' m ys"
    by (auto simp: dll_def nodes_def)
qed

subsection \<open>Reading a list\<close>

lemma dll_nonnull:
  assumes "dll h l xs"
  shows "l \<noteq> NULL" "l + 16 \<noteq> NULL" "NULL \<notin> set xs" "distinct xs" "l \<notin> set xs" "l + 16 \<notin> set xs"
  using assms by (auto simp: dll_def)

lemma nonnull_ends:
  assumes "dll h l (us @ vs)"
  shows "last (l # us) \<noteq> NULL" "hd (vs @ [l + 16]) \<noteq> NULL"
proof -
  have "last (l # us) \<in> set (l # us)" by (rule last_in_set) simp
  moreover have "hd (vs @ [l + 16]) \<in> set (vs @ [l + 16])" by (rule hd_in_set) simp
  moreover have "NULL \<notin> set (l # us)" "NULL \<notin> set (vs @ [l + 16])"
    using dll_nonnull [OF assms] by auto
  ultimately show "last (l # us) \<noteq> NULL" "hd (vs @ [l + 16]) \<noteq> NULL" by metis+
qed

lemma dll_prev_at:
  "dll h l (us @ vs) \<Longrightarrow> get_prev h (hd (vs @ [l + 16])) = Some (last (l # us))"
  using nonnull_ends(2) [of h l us vs]
  by (auto simp: dll_def get_prev_def seg_append dest: seg_last)

lemma dll_next_at:
  "dll h l (us @ vs) \<Longrightarrow> get_next h (last (l # us)) = Some (hd (vs @ [l + 16]))"
  using nonnull_ends(1) [of h l us vs]
  by (auto simp: dll_def get_next_def seg_append dest: seg_first split: if_splits)

lemma dll_tail_next: "dll h l xs \<Longrightarrow> get_next h (l + 16) = Some NULL"
  by (simp add: dll_def get_next_def)

lemma dll_head_prev: "dll h l xs \<Longrightarrow> get_prev h l = Some NULL"
  by (simp add: dll_def get_prev_def)

lemma dll_elem_prev: "dll h l (us @ e # vs) \<Longrightarrow> get_prev h e = Some (last (l # us))"
  using dll_prev_at [of h l us "e # vs"] by simp

lemma dll_elem_next: "dll h l (us @ e # vs) \<Longrightarrow> get_next h e = Some (hd (vs @ [l + 16]))"
  using dll_next_at [of h l "us @ [e]" vs] by simp

lemma dll_interior: "dll h l (us @ e # vs) \<Longrightarrow> is_interior h e = Some True"
  using nonnull_ends(1) [of h l us "e # vs"] nonnull_ends(2) [of h l "us @ [e]" vs]
    dll_elem_prev [of h l us e vs] dll_elem_next [of h l us e vs] dll_nonnull(3) [of h l "us @ e # vs"]
  by (auto simp: is_interior_def)

lemma dll_tail: "dll h l xs \<Longrightarrow> is_interior h (l + 16) = Some False \<and> is_tail h (l + 16) = Some True"
  using nonnull_ends(1) [of h l xs "[]"] dll_prev_at [of h l xs "[]"] dll_tail_next [of h l xs]
  by (auto simp: is_interior_def is_tail_def dll_nonnull)

lemma dll_head: "dll h l xs \<Longrightarrow> is_head h l = Some True"
  using nonnull_ends(2) [of h l "[]" xs] dll_next_at [of h l "[]" xs]
  by (auto simp: is_head_def dll_head_prev dll_nonnull)

lemma dll_interior_not_head: "dll h l (us @ e # vs) \<Longrightarrow> is_head h e = Some False"
  using nonnull_ends(1) [of h l us "e # vs"] dll_elem_prev [of h l us e vs]
    dll_nonnull(3) [of h l "us @ e # vs"]
  by (auto simp: is_head_def)

lemma assert_before: "dll h l (us @ vs) \<Longrightarrow> assert_interior_or_tail h (hd (vs @ [l + 16])) = Some ()"
  by (cases vs) (auto simp: assert_interior_or_tail_def dll_interior dll_tail)

lemma assert_elem: "dll h l (us @ e # vs) \<Longrightarrow> assert_interior h e = Some ()"
  by (simp add: assert_interior_def dll_interior)

lemma assert_after: "dll h l (us @ vs) \<Longrightarrow> assert_head_or_interior h (last (l # us)) = Some ()"
  by (cases us rule: rev_cases)
    (auto simp: assert_head_or_interior_def dll_head dll_interior dll_interior_not_head)

lemma list_begin_dll: "dll h l xs \<Longrightarrow> list_begin h l = Some (hd (xs @ [l + 16]))"
  using dll_next_at [of h l "[]" xs] by (simp add: list_begin_def dll_nonnull)

lemma list_rbegin_dll: "dll h l xs \<Longrightarrow> list_rbegin h l = Some (last (l # xs))"
  using dll_prev_at [of h l xs "[]"] by (simp add: list_rbegin_def dll_nonnull)

lemma list_end_dll: "dll h l xs \<Longrightarrow> list_end l = Some (l + 16)"
  by (simp add: list_end_def dll_nonnull)

lemma list_rend_dll: "dll h l xs \<Longrightarrow> list_rend l = Some l"
  by (simp add: list_rend_def dll_nonnull)

lemma list_next_dll: "dll h l (us @ vs) \<Longrightarrow> list_next h (last (l # us)) = Some (hd (vs @ [l + 16]))"
  using assert_after [of h l us vs] dll_next_at [of h l us vs] by (simp add: list_next_def)

lemma list_next_elem: "dll h l (us @ e # vs) \<Longrightarrow> list_next h e = Some (hd (vs @ [l + 16]))"
  using list_next_dll [of h l "us @ [e]" vs] by simp

lemma list_prev_dll: "dll h l (us @ vs) \<Longrightarrow> list_prev h (hd (vs @ [l + 16])) = Some (last (l # us))"
  using assert_before [of h l us vs] dll_prev_at [of h l us vs] by (simp add: list_prev_def)

lemma list_prev_elem: "dll h l (us @ e # vs) \<Longrightarrow> list_prev h e = Some (last (l # us))"
  using list_prev_dll [of h l us "e # vs"] by simp

lemma list_empty_dll: "dll h l xs \<Longrightarrow> list_empty h l = Some (xs = [])"
  using dll_nonnull [of h l xs]
  by (cases xs) (auto simp: list_empty_def list_begin_dll list_end_dll)

lemma list_front_dll: "dll h l (x # xs) \<Longrightarrow> list_front h l = Some x"
  using dll_next_at [of h l "[]" "x # xs"] by (simp add: list_front_def list_empty_dll)

lemma list_front_nil: "dll h l [] \<Longrightarrow> list_front h l = None"
  by (simp add: list_front_def list_empty_dll)

lemma list_back_dll: "dll h l (xs @ [x]) \<Longrightarrow> list_back h l = Some x"
  using dll_prev_at [of h l "xs @ [x]" "[]"] by (simp add: list_back_def list_empty_dll)

lemma list_back_nil: "dll h l [] \<Longrightarrow> list_back h l = None"
  by (simp add: list_back_def list_empty_dll)

lemma list_size_loop_dll:
  "dll h l (us @ vs) \<Longrightarrow>
   list_size_loop h l (hd (vs @ [l + 16])) cnt = Some (cnt + length vs)"
proof (induction vs arbitrary: us cnt)
  case Nil
  then show ?case by (subst list_size_loop.simps) (simp add: list_end_dll)
next
  case (Cons v vs)
  have "v \<noteq> l + 16" using dll_nonnull [OF Cons.prems] by auto
  moreover have "list_next h v = Some (hd (vs @ [l + 16]))"
    using Cons.prems by (rule list_next_elem)
  moreover have "list_size_loop h l (hd (vs @ [l + 16])) (Suc cnt) = Some (Suc cnt + length vs)"
    using Cons.IH [of "us @ [v]" "Suc cnt"] Cons.prems by simp
  ultimately show ?case
    using Cons.prems by (subst list_size_loop.simps) (simp add: list_end_dll)
qed

lemma list_size_dll: "dll h l xs \<Longrightarrow> list_size h l = Some (length xs)"
  using list_size_loop_dll [of h l "[]" xs 0] by (simp add: list_size_def list_begin_dll)

subsection \<open>Insertion, removal and splicing on the linked structure\<close>

lemma list_init_dll:
  assumes "l \<noteq> NULL" "l + 16 \<noteq> NULL"
  shows "\<exists>h'. list_init h l = Some h' \<and> dll h' l [] \<and> frame (nodes l []) h h'"
  using assms by (auto simp: list_init_def set_prev_def set_next_def dll_def frame_def nodes_def)

lemma seg_distinct_ends:
  assumes "dll h l (us @ vs)"
  shows "distinct (l # us)" "distinct (vs @ [l + 16])" "l \<notin> set vs" "l + 16 \<notin> set us"
    "set us \<inter> set vs = {}" "last (l # us) \<notin> set vs" "last (l # us) \<noteq> l + 16"
    "hd (vs @ [l + 16]) \<notin> set us" "hd (vs @ [l + 16]) \<noteq> l" "last (l # us) \<noteq> hd (vs @ [l + 16])"
proof -
  show d: "distinct (l # us)" "distinct (vs @ [l + 16])" "l \<notin> set vs" "l + 16 \<notin> set us"
    "set us \<inter> set vs = {}"
    using dll_nonnull [OF assms] by auto
  have "last (l # us) \<in> set (l # us)" by (rule last_in_set) simp
  then show "last (l # us) \<notin> set vs" "last (l # us) \<noteq> l + 16" using d by auto
  have "hd (vs @ [l + 16]) \<in> set (vs @ [l + 16])" by (rule hd_in_set) simp
  then show "hd (vs @ [l + 16]) \<notin> set us" "hd (vs @ [l + 16]) \<noteq> l" using d by auto
  show "last (l # us) \<noteq> hd (vs @ [l + 16])"
    using \<open>last (l # us) \<notin> set vs\<close> \<open>last (l # us) \<noteq> l + 16\<close>
      \<open>hd (vs @ [l + 16]) \<in> set (vs @ [l + 16])\<close> by auto
qed

lemma end_nodes:
  "last (l # us) \<in> nodes l (us @ vs)" "hd (vs @ [l + 16]) \<in> nodes l (us @ vs)"
  using last_in_set [of "l # us"] hd_in_set [of "vs @ [l + 16]"] by (auto simp: nodes_def)

lemma list_insert_dll:
  assumes d: "dll h l (us @ vs)" and e: "e \<noteq> NULL" "e \<notin> nodes l (us @ vs)"
  shows "\<exists>h'. list_insert h (hd (vs @ [l + 16])) e = Some h' \<and> dll h' l (us @ e # vs) \<and>
           frame (insert e (nodes l (us @ vs))) h h'"
proof -
  define p where "p = last (l # us)"
  define n where "n = hd (vs @ [l + 16])"
  note ne = nonnull_ends [OF d, folded p_def n_def]
  note dist = seg_distinct_ends [OF d, folded p_def n_def]
  note nds = end_nodes [where l = l and us = us and vs = vs, folded p_def n_def]
  define h' where "h' = \<lparr>prv = (prv h)(e \<mapsto> p, n \<mapsto> e), nxt = (nxt h)(e \<mapsto> n, p \<mapsto> e)\<rparr>"
  have en: "e \<noteq> n" "e \<noteq> p" using e(2) nds by auto
  have prevn: "get_prev h n = Some p" using dll_prev_at [OF d] by (simp add: p_def n_def)
  have run: "list_insert h n e = Some h'"
    using assert_before [OF d, folded n_def] prevn ne e(1) en
    by (simp add: list_insert_def set_prev_def set_next_def get_prev_def h'_def)
  have s: "seg h l us n" "seg h p vs (l + 16)"
    using d by (simp_all only: dll_def seg_append p_def n_def)
  have e': "e \<notin> set us" "e \<notin> set vs" "e \<noteq> l" "e \<noteq> l + 16" using e(2) by (auto simp: nodes_def)
  have s1: "seg h' l us e"
    by (rule seg_relink_end [OF s(1) dist(1), folded p_def])
      (use e' dist en in \<open>auto simp: h'_def\<close>)
  have s2: "seg h' e vs (l + 16)"
    by (rule seg_relink_start [OF s(2) dist(2), folded n_def])
      (use e' dist en in \<open>auto simp: h'_def\<close>)
  from s1 s2 have "seg h' l (us @ e # vs) (l + 16)"
    using seg_last [OF s1] seg_first [OF s2] by (subst seg_append) (auto simp: p_def h'_def)
  moreover have "prv h' l = prv h l" "nxt h' (l + 16) = nxt h (l + 16)"
    using dist e' by (auto simp: h'_def)
  ultimately have "dll h' l (us @ e # vs)"
    using d e(1) e' by (auto simp: dll_def)
  moreover have "frame (insert e (nodes l (us @ vs))) h h'"
    using nds by (auto simp: frame_def h'_def)
  ultimately show ?thesis using run by (auto simp: n_def)
qed

lemma list_push_front_dll:
  "dll h l xs \<Longrightarrow> e \<noteq> NULL \<Longrightarrow> e \<notin> nodes l xs \<Longrightarrow>
   \<exists>h'. list_push_front h l e = Some h' \<and> dll h' l (e # xs) \<and> frame (insert e (nodes l xs)) h h'"
  using list_insert_dll [of h l "[]" xs e] by (simp add: list_push_front_def list_begin_dll)

lemma list_push_back_dll:
  "dll h l xs \<Longrightarrow> e \<noteq> NULL \<Longrightarrow> e \<notin> nodes l xs \<Longrightarrow>
   \<exists>h'. list_push_back h l e = Some h' \<and> dll h' l (xs @ [e]) \<and> frame (insert e (nodes l xs)) h h'"
  using list_insert_dll [of h l xs "[]" e] by (simp add: list_push_back_def list_end_dll)

lemma dll_unlink:
  assumes d: "dll h l (us @ ms @ vs)" and "ms \<noteq> []"
    and h': "h' = \<lparr>prv = (prv h)(hd (vs @ [l + 16]) \<mapsto> last (l # us)),
                 nxt = (nxt h)(last (l # us) \<mapsto> hd (vs @ [l + 16]))\<rparr>"
  shows "dll h' l (us @ vs)"
proof -
  have d1: "dll h l (us @ (ms @ vs))" and d2: "dll h l ((us @ ms) @ vs)" using d by simp_all
  define p where "p = last (l # us)"
  define n where "n = hd (vs @ [l + 16])"
  note dist1 = seg_distinct_ends [OF d1, folded p_def]
  note dist2 = seg_distinct_ends [OF d2, folded n_def]
  have h'': "h' = \<lparr>prv = (prv h)(n \<mapsto> p), nxt = (nxt h)(p \<mapsto> n)\<rparr>"
    by (simp only: h' p_def n_def)
  have s: "seg h l us (hd ((ms @ vs) @ [l + 16]))" "seg h (last (l # us @ ms)) vs (l + 16)"
    using d1 d2 unfolding dll_def by (simp_all only: seg_append [of _ _ us "ms @ vs"]
        seg_append [of _ _ "us @ ms" vs])
  have s1: "seg h' l us n"
    by (rule seg_relink_end [OF s(1) dist1(1), folded p_def]) (use dist2 in \<open>auto simp: h''\<close>)
  have s2: "seg h' p vs (l + 16)"
    by (rule seg_relink_start [OF s(2) dist2(2), folded n_def]) (use dist1 in \<open>auto simp: h''\<close>)
  have "seg h' l (us @ vs) (l + 16)"
    using s1 s2 by (subst seg_append) (simp only: p_def n_def)
  moreover have "prv h' l = prv h l" "nxt h' (l + 16) = nxt h (l + 16)"
    using dist1 dist2 by (auto simp: h'')
  ultimately show ?thesis using d by (auto simp: dll_def)
qed

lemma list_remove_dll:
  assumes d: "dll h l (us @ e # vs)"
  shows "\<exists>h'. list_remove h e = Some (hd (vs @ [l + 16]), h') \<and> dll h' l (us @ vs) \<and>
           frame (nodes l (us @ vs)) h h'"
proof -
  define p where "p = last (l # us)"
  define n where "n = hd (vs @ [l + 16])"
  define h' where "h' = \<lparr>prv = (prv h)(n \<mapsto> p), nxt = (nxt h)(p \<mapsto> n)\<rparr>"
  have d2: "dll h l ((us @ [e]) @ vs)" using d by simp
  note ne = nonnull_ends(1) [OF d, folded p_def] nonnull_ends(2) [OF d2, folded n_def]
  have links: "get_prev h e = Some p" "get_next h e = Some n"
    using dll_elem_prev [OF d] dll_elem_next [OF d] by (simp_all only: p_def n_def)
  have "p \<noteq> e" "n \<noteq> e"
    using seg_distinct_ends(6) [OF d] seg_distinct_ends(8) [OF d2] by (auto simp: p_def n_def)
  then have "list_remove h e = Some (n, h')"
    using links ne assert_elem [OF d]
    by (auto simp: list_remove_def get_prev_def get_next_def set_prev_def set_next_def h'_def
        split: if_splits)
  moreover have "dll h' l (us @ vs)"
    using d by (intro dll_unlink [of h l us "[e]" vs]) (simp_all only: h'_def p_def n_def, simp_all)
  moreover have "frame (nodes l (us @ vs)) h h'"
    using end_nodes [where l = l and us = us and vs = vs, folded p_def n_def]
    by (auto simp: frame_def h'_def)
  ultimately show ?thesis by (auto simp: n_def)
qed

lemma list_pop_front_dll:
  "dll h l (x # xs) \<Longrightarrow>
   \<exists>h'. list_pop_front h l = Some (x, h') \<and> dll h' l xs \<and> frame (nodes l xs) h h'"
  using list_remove_dll [of h l "[]" x xs] by (auto simp: list_pop_front_def list_front_dll)

lemma list_pop_back_dll:
  "dll h l (xs @ [x]) \<Longrightarrow>
   \<exists>h'. list_pop_back h l = Some (x, h') \<and> dll h' l xs \<and> frame (nodes l xs) h h'"
  using list_remove_dll [of h l xs x "[]"] by (auto simp: list_pop_back_def list_back_dll)

definition linked :: "lheap \<Rightarrow> ptr \<Rightarrow> ptr \<Rightarrow> bool" where
  "linked h x y \<longleftrightarrow> nxt h x = Some y \<and> prv h y = Some x"

lemma seg_links: "seg h a xs b = successively (linked h) (a # xs @ [b])"
  by (induction xs arbitrary: a) (auto simp: linked_def)

lemma successively_mem_cong:
  "successively P xs \<Longrightarrow> distinct xs \<Longrightarrow>
   (\<And>x y us vs. xs = us @ x # y # vs \<Longrightarrow> P x y \<Longrightarrow> Q x y) \<Longrightarrow> successively Q xs"
proof (induction xs rule: induct_list012)
  case (3 x y zs)
  have "Q x y" using 3(5) [of "[]" x y zs] 3(3) by simp
  moreover have "successively Q (y # zs)"
  proof (rule 3(2))
    fix a b us vs assume "y # zs = us @ a # b # vs" "P a b"
    then show "Q a b" using 3(5) [of "x # us" a b vs] by simp
  qed (use 3(3,4) in simp_all)
  ultimately show ?case by simp
qed simp_all

lemma successively_join_front:
  "successively P (xs @ [hd ys]) \<Longrightarrow> successively P ys \<Longrightarrow> ys \<noteq> [] \<Longrightarrow> successively P (xs @ ys)"
  by (auto simp: successively_append_iff)

lemma successively_join_back:
  "successively P xs \<Longrightarrow> successively P (last xs # ys) \<Longrightarrow> successively P (xs @ ys)"
  by (cases ys) (auto simp: successively_append_iff successively_Cons)

lemma dll_link:
  assumes d: "dll h l (us @ vs)" and fs: "fs \<noteq> []" "distinct fs" "NULL \<notin> set fs"
    and dj: "set fs \<inter> nodes l (us @ vs) = {}" and inner: "successively (linked h) fs"
    and h': "h' = \<lparr>prv = (prv h)(hd fs \<mapsto> last (l # us), hd (vs @ [l + 16]) \<mapsto> last fs),
                 nxt = (nxt h)(last fs \<mapsto> hd (vs @ [l + 16]), last (l # us) \<mapsto> hd fs)\<rparr>"
  shows "dll h' l (us @ fs @ vs)"
proof -
  define p where "p = last (l # us)"
  define n where "n = hd (vs @ [l + 16])"
  note dist = seg_distinct_ends [OF d, folded p_def n_def]
  note nds = end_nodes [where l = l and us = us and vs = vs, folded p_def n_def]
  have h'': "h' = \<lparr>prv = (prv h)(hd fs \<mapsto> p, n \<mapsto> last fs), nxt = (nxt h)(last fs \<mapsto> n, p \<mapsto> hd fs)\<rparr>"
    by (simp only: h' p_def n_def)
  have ends: "hd fs \<in> set fs" "last fs \<in> set fs" using fs(1) by simp_all
  have out: "hd fs \<notin> nodes l (us @ vs)" "last fs \<notin> nodes l (us @ vs)" using dj ends by auto
  have np: "n \<notin> set fs" "p \<notin> set fs" using dj nds by auto
  have ne: "hd fs \<noteq> n" "last fs \<noteq> p" "hd fs \<noteq> p" "last fs \<noteq> n" using np ends by auto
  have s: "seg h l us n" "seg h p vs (l + 16)"
    using d by (simp_all only: dll_def seg_append p_def n_def)
  have s1: "seg h' l us (hd fs)"
    by (rule seg_relink_end [OF s(1) dist(1), folded p_def])
      (use out dist ne in \<open>auto simp: h'' nodes_def\<close>)
  have s2: "seg h' (last fs) vs (l + 16)"
    by (rule seg_relink_start [OF s(2) dist(2), folded n_def])
      (use out dist ne in \<open>auto simp: h'' nodes_def\<close>)
  have "successively (linked h') fs"
  proof (rule successively_mem_cong [OF inner fs(2)])
    fix x y as bs assume split: "fs = as @ x # y # bs" and "linked h x y"
    have "x \<noteq> last fs" "y \<noteq> hd fs" using fs(2) by (cases as; auto simp: split)+
    moreover have "x \<noteq> p" "y \<noteq> n" using np by (auto simp: split)
    ultimately show "linked h' x y" using \<open>linked h x y\<close> by (auto simp: linked_def h'')
  qed
  then have "seg h' l (us @ fs @ vs) (l + 16)"
    using s1 s2 fs(1) successively_join_front [of "linked h'" "l # us" fs]
      successively_join_back [of "linked h'" "(l # us) @ fs" "vs @ [l + 16]"]
    unfolding seg_links by simp
  moreover have "prv h' l = prv h l" "nxt h' (l + 16) = nxt h (l + 16)"
    using dist out by (auto simp: h'' nodes_def)
  ultimately show ?thesis using d fs dj by (auto simp: dll_def nodes_def)
qed

text \<open>
  The effect of \<open>list_splice\<close> on the store: the segment \<open>fs\<close> is unlinked from the list it
  is in, and linked between \<open>before\<close> and the element that then precedes it.
\<close>

definition unlinked :: "lheap \<Rightarrow> ptr \<Rightarrow> ptr \<Rightarrow> lheap" where
  "unlinked h p n = \<lparr>prv = (prv h)(n \<mapsto> p), nxt = (nxt h)(p \<mapsto> n)\<rparr>"

lemma list_splice_run:
  assumes d: "dll h l (ps @ fs @ qs)" and fs: "fs \<noteq> []"
    and h1: "h1 = unlinked h (last (l # ps)) (hd (qs @ [l + 16]))"
    and b: "assert_interior_or_tail h before = Some ()" "before \<notin> set fs"
    and bp: "get_prev h1 before = Some bp" "bp \<noteq> NULL"
  shows "list_splice h before (hd fs) (hd (qs @ [l + 16])) =
    Some \<lparr>prv = (prv h1)(hd fs \<mapsto> bp, before \<mapsto> last fs),
          nxt = (nxt h1)(last fs \<mapsto> before, bp \<mapsto> hd fs)\<rparr>"
proof -
  have d1: "dll h l (ps @ (fs @ qs))" and d2: "dll h l ((ps @ fs) @ qs)" using d by simp_all
  define p where "p = last (l # ps)"
  define n where "n = hd (qs @ [l + 16])"
  have ends: "hd fs \<in> set fs" "last fs \<in> set fs" using fs by simp_all
  obtain fs1 where f1: "fs = hd fs # fs1" using fs by (cases fs) auto
  obtain fs2 where f2: "fs = fs2 @ [last fs]" using fs by (metis append_butlast_last_id)
  have di: "dll h l (ps @ hd fs # (fs1 @ qs))" using d f1 by (metis append_Cons)
  have dj: "dll h l ((ps @ fs2) @ last fs # qs)" using d f2 by (metis append.assoc append_Cons append_Nil)
  have ends0: "hd fs \<noteq> NULL" "last fs \<noteq> NULL" using dll_nonnull(3) [OF d] ends by auto
  have ne: "hd fs \<noteq> n" "hd fs \<noteq> p" "last fs \<noteq> p" "last fs \<noteq> n"
    using seg_distinct_ends [OF d1, folded p_def] seg_distinct_ends [OF d2, folded n_def] ends
    by auto
  have lp: "list_prev h n = Some (last fs)"
    using list_prev_dll [OF d2, folded n_def] fs by simp
  have ln: "get_prev h (hd fs) = Some p" "get_next h (last fs) = Some n"
    using dll_elem_prev [OF di] dll_elem_next [OF dj] by (simp_all only: p_def n_def)
  note nn = nonnull_ends(1) [OF d1, folded p_def] nonnull_ends(2) [OF d2, folded n_def]
  have b0: "before \<noteq> NULL" using bp(1) by (auto simp: get_prev_def)
  have bne: "before \<noteq> hd fs" "before \<noteq> last fs" using b(2) ends by auto
  have reads: "prv h (hd fs) = Some p" "nxt h (last fs) = Some n"
    using ln ends0 by (auto simp: get_prev_def get_next_def)
  have bp': "((prv h)(n \<mapsto> p)) before = Some bp"
    using bp(1) b0 by (simp add: get_prev_def h1 unlinked_def p_def n_def)
  have h1': "h1 = \<lparr>prv = (prv h)(n \<mapsto> p), nxt = (nxt h)(p \<mapsto> n)\<rparr>"
    by (simp only: h1 unlinked_def p_def n_def)
  have bp'': "before = n \<and> bp = p \<or> before \<noteq> n \<and> prv h before = Some bp"
    using bp' by (auto split: if_splits)
  show ?thesis
    unfolding n_def [symmetric] h1'
    using b(1) lp ne nn bp(2) b0 bne ends0 reads bp''
      assert_elem [OF di] assert_elem [OF dj]
    by (auto simp: list_splice_def get_prev_def get_next_def set_prev_def set_next_def)
qed

lemma dll_links_mid: "dll h l (us @ fs @ vs) \<Longrightarrow> successively (linked h) fs"
  by (simp add: dll_def seg_links successively_append_iff successively_Cons)

lemma dll_unlinked:
  "dll h l (us @ ms @ vs) \<Longrightarrow> ms \<noteq> [] \<Longrightarrow>
   dll (unlinked h (last (l # us)) (hd (vs @ [l + 16]))) l (us @ vs)"
  by (rule dll_unlink [OF _ _ unlinked_def])

lemma links_unlinked:
  assumes "dll h l (us @ fs @ vs)" "fs \<noteq> []"
  shows "successively (linked (unlinked h (last (l # us)) (hd (vs @ [l + 16])))) fs"
proof (rule successively_mem_cong [OF dll_links_mid [OF assms(1)]])
  have d1: "dll h l (us @ (fs @ vs))" and d2: "dll h l ((us @ fs) @ vs)" using assms by simp_all
  show "distinct fs" using dll_nonnull(4) [OF assms(1)] by simp
  fix x y as bs assume "fs = as @ x # y # bs" "linked h x y"
  then show "linked (unlinked h (last (l # us)) (hd (vs @ [l + 16]))) x y"
    using seg_distinct_ends(6) [OF d1] seg_distinct_ends(8) [OF d2]
    by (auto simp: linked_def unlinked_def simp del: last.simps)
qed

lemma frame_splice:
  "frame {p, n, a, b, c, d} h
     \<lparr>prv = (prv (unlinked h p n))(a \<mapsto> v1, b \<mapsto> v2),
      nxt = (nxt (unlinked h p n))(c \<mapsto> v3, d \<mapsto> v4)\<rparr>"
  by (auto simp: frame_def unlinked_def)

text \<open>Splicing within one list: a segment moves towards the front.\<close>

lemma list_splice_same:
  assumes d: "dll h l (us @ ms @ fs @ vs)" and "ms \<noteq> []" "fs \<noteq> []"
  shows "\<exists>h'. list_splice h (hd ms) (hd fs) (hd (vs @ [l + 16])) = Some h' \<and>
           dll h' l (us @ fs @ ms @ vs) \<and> frame (nodes l (us @ ms @ fs @ vs)) h h'"
proof -
  have da: "dll h l ((us @ ms) @ fs @ vs)" using d by simp
  define h1 where "h1 = unlinked h (last (l # us @ ms)) (hd (vs @ [l + 16]))"
  have d1: "dll h1 l (us @ (ms @ vs))"
    using dll_unlinked [OF da \<open>fs \<noteq> []\<close>] by (simp add: h1_def)
  obtain m ms' where ms: "ms = m # ms'" using \<open>ms \<noteq> []\<close> by (cases ms) auto
  have ab: "assert_interior_or_tail h m = Some ()"
    using assert_before [of h l us "ms @ fs @ vs"] d ms by simp
  have bp: "get_prev h1 m = Some (last (l # us))"
    using dll_elem_prev [of h1 l us m "ms' @ vs"] d1 ms by simp
  have fresh: "m \<notin> set fs" using dll_nonnull(4) [OF d] ms by auto
  define h' where "h' = \<lparr>prv = (prv h1)(hd fs \<mapsto> last (l # us), m \<mapsto> last fs),
          nxt = (nxt h1)(last fs \<mapsto> m, last (l # us) \<mapsto> hd fs)\<rparr>"
  have "list_splice h m (hd fs) (hd (vs @ [l + 16])) = Some h'"
    unfolding h'_def
    by (rule list_splice_run [OF da \<open>fs \<noteq> []\<close> h1_def ab fresh bp nonnull_ends(1) [OF d1]])
  moreover have "dll h' l (us @ fs @ (ms @ vs))"
    by (rule dll_link [OF d1 \<open>fs \<noteq> []\<close>])
      (use dll_nonnull [OF d] links_unlinked [OF da \<open>fs \<noteq> []\<close>] in
        \<open>auto simp: nodes_def h1_def h'_def ms\<close>)
  moreover have "frame (nodes l (us @ ms @ fs @ vs)) h h'"
  proof (rule frame_mono)
    show "frame {last (l # us @ ms), hd (vs @ [l + 16]), hd fs, m, last fs, last (l # us)} h h'"
      unfolding h'_def h1_def by (rule frame_splice)
    show "{last (l # us @ ms), hd (vs @ [l + 16]), hd fs, m, last fs, last (l # us)}
          \<subseteq> nodes l (us @ ms @ fs @ vs)"
      using \<open>fs \<noteq> []\<close> ms by (cases vs) (auto simp: nodes_def)
  qed
  ultimately show ?thesis using ms by auto
qed

text \<open>Splicing between two lists.\<close>

lemma list_splice_other:
  assumes d: "dll h l (ps @ fs @ qs)" and e: "dll h m (us @ vs)" and "fs \<noteq> []"
    and dj: "nodes l (ps @ fs @ qs) \<inter> nodes m (us @ vs) = {}"
  shows "\<exists>h'. list_splice h (hd (vs @ [m + 16])) (hd fs) (hd (qs @ [l + 16])) = Some h' \<and>
           dll h' l (ps @ qs) \<and> dll h' m (us @ fs @ vs) \<and>
           frame (nodes l (ps @ fs @ qs) \<union> nodes m (us @ vs)) h h'"
proof -
  define p where "p = last (l # ps)"
  define n where "n = hd (qs @ [l + 16])"
  define q where "q = last (m # us)"
  define b where "b = hd (vs @ [m + 16])"
  define h1 where "h1 = unlinked h p n"
  have pn: "p \<in> nodes l (ps @ fs @ qs)" "n \<in> nodes l (ps @ fs @ qs)"
    using end_nodes(1) [of l ps "fs @ qs", folded p_def]
      end_nodes(2) [of qs l "ps @ fs", folded n_def] by simp_all
  note qb = end_nodes [where l = m and us = us and vs = vs, folded q_def b_def]
  have f1: "frame (nodes l (ps @ fs @ qs)) h h1"
    using pn by (auto simp: frame_def h1_def unlinked_def)
  have d1: "dll h1 l (ps @ qs)" using dll_unlinked [OF d \<open>fs \<noteq> []\<close>] by (simp only: h1_def p_def n_def)
  have e1: "dll h1 m (us @ vs)" by (rule dll_frame [OF e f1]) (use dj in auto)
  have bp: "get_prev h1 b = Some q" unfolding b_def q_def by (rule dll_prev_at [OF e1])
  have fresh: "b \<notin> set fs" using qb dj by (auto simp: nodes_def)
  define h' where "h' = \<lparr>prv = (prv h1)(hd fs \<mapsto> q, b \<mapsto> last fs),
          nxt = (nxt h1)(last fs \<mapsto> b, q \<mapsto> hd fs)\<rparr>"
  have "list_splice h b (hd fs) n = Some h'"
    unfolding h'_def n_def
    by (rule list_splice_run [OF d \<open>fs \<noteq> []\<close> h1_def [unfolded p_def n_def]
          assert_before [OF e, folded b_def] fresh bp nonnull_ends(1) [OF e1, folded q_def]])
  moreover have "dll h' m (us @ fs @ vs)"
  proof (rule dll_link [OF e1 \<open>fs \<noteq> []\<close> _ _ _ _ h'_def [unfolded q_def b_def]])
    show "distinct fs" "NULL \<notin> set fs" using dll_nonnull(3,4) [OF d] by auto
    show "set fs \<inter> nodes m (us @ vs) = {}" using dj by (auto simp: nodes_def)
    show "successively (linked h1) fs"
      unfolding h1_def p_def n_def by (rule links_unlinked [OF d \<open>fs \<noteq> []\<close>])
  qed
  moreover have f2: "frame (set fs \<union> nodes m (us @ vs)) h1 h'"
    using qb \<open>fs \<noteq> []\<close> by (simp add: frame_def h'_def)
  moreover have "dll h' l (ps @ qs)"
  proof (rule dll_frame [OF d1 f2])
    have "nodes l (ps @ qs) \<inter> set fs = {}"
      using dll_nonnull(4-6) [OF d] by (auto simp: nodes_def)
    moreover have "nodes l (ps @ qs) \<subseteq> nodes l (ps @ fs @ qs)" by (auto simp: nodes_def)
    ultimately show "nodes l (ps @ qs) \<inter> (set fs \<union> nodes m (us @ vs)) = {}"
      using dj by blast
  qed
  moreover have "frame (nodes l (ps @ fs @ qs) \<union> nodes m (us @ vs)) h h'"
  proof (rule frame_trans [OF frame_mono [OF f1] frame_mono [OF f2]])
    show "nodes l (ps @ fs @ qs) \<subseteq> nodes l (ps @ fs @ qs) \<union> nodes m (us @ vs)" by blast
    have "set fs \<subseteq> nodes l (ps @ fs @ qs)" by (auto simp: nodes_def)
    then show "set fs \<union> nodes m (us @ vs) \<subseteq> nodes l (ps @ fs @ qs) \<union> nodes m (us @ vs)" by blast
  qed
  ultimately show ?thesis unfolding n_def b_def by blast
qed

subsection \<open>Reversal of the linked structure\<close>

definition swapped_on :: "ptr set \<Rightarrow> lheap \<Rightarrow> lheap" where
  "swapped_on S h = \<lparr>prv = (\<lambda>p. if p \<in> S then nxt h p else prv h p),
                     nxt = (\<lambda>p. if p \<in> S then prv h p else nxt h p)\<rparr>"

lemma swapped_on_empty [simp]: "swapped_on {} h = h"
  by (simp add: swapped_on_def)

lemma swap_fields_swapped:
  assumes "dll h l (us @ e # vs)"
  shows "swap_fields (swapped_on (set us) h) e = Some (swapped_on (set (us @ [e])) h)"
proof -
  have e0: "e \<noteq> NULL" "e \<notin> set us" using dll_nonnull [OF assms] by auto
  obtain p n where "prv h e = Some p" "nxt h e = Some n"
    using dll_elem_prev [OF assms] dll_elem_next [OF assms] e0
    by (auto simp: get_prev_def get_next_def)
  then show ?thesis using e0
    by (auto simp: swap_fields_def get_prev_def get_next_def set_prev_def set_next_def
        swapped_on_def fun_eq_iff)
qed

lemma list_reverse_loop_dll:
  "dll h l (us @ vs) \<Longrightarrow>
   list_reverse_loop (swapped_on (set us) h) l (hd (vs @ [l + 16])) =
   Some (swapped_on (set (us @ vs)) h)"
proof (induction vs arbitrary: us)
  case Nil
  then show ?case by (subst list_reverse_loop.simps) (simp add: list_end_dll)
next
  case (Cons v vs)
  have v: "v \<noteq> l + 16" "v \<noteq> NULL" using dll_nonnull [OF Cons.prems] by auto
  have "get_next h v = Some (hd (vs @ [l + 16]))" by (rule dll_elem_next [OF Cons.prems])
  then have "get_prev (swapped_on (set (us @ [v])) h) v = Some (hd (vs @ [l + 16]))"
    using v by (simp add: get_prev_def get_next_def swapped_on_def)
  moreover have "list_reverse_loop (swapped_on (set (us @ [v])) h) l (hd (vs @ [l + 16])) =
      Some (swapped_on (set (us @ v # vs)) h)"
    using Cons.IH [of "us @ [v]"] Cons.prems by simp
  ultimately show ?case
    using v swap_fields_swapped [OF Cons.prems] list_end_dll [OF Cons.prems]
    by (subst list_reverse_loop.simps) simp
qed

lemma list_reverse_dll:
  assumes d: "dll h l xs"
  shows "\<exists>h'. list_reverse h l = Some h' \<and> dll h' l (rev xs) \<and> frame (nodes l xs) h h'"
proof (cases "xs = []")
  case True
  then show ?thesis using d by (auto simp: list_reverse_def list_empty_dll)
next
  case False
  define a where "a = hd xs"
  define b where "b = last xs"
  let ?t = "l + 16"
  have ab: "a \<in> set xs" "b \<in> set xs" using False by (simp_all add: a_def b_def)
  note nn = dll_nonnull [OF d]
  have ne: "a \<noteq> l" "b \<noteq> l" "a \<noteq> ?t" "b \<noteq> ?t" "a \<noteq> NULL" "b \<noteq> NULL"
    using nn ab by metis+
  have chain: "successively (linked h) (l # xs @ [?t])"
    using d by (simp add: dll_def seg_links)
  then have la: "nxt h l = Some a" "prv h a = Some l"
    using False by (cases xs; simp add: a_def linked_def successively_Cons)+
  have lb: "nxt h b = Some ?t" "prv h ?t = Some b"
    using chain False
    by (simp_all add: b_def linked_def successively_Cons successively_append_iff)
  define h1 where "h1 = swapped_on (set xs) h"
  define h' where "h' = \<lparr>prv = (prv h1)(?t \<mapsto> a, b \<mapsto> l), nxt = (nxt h1)(l \<mapsto> b, a \<mapsto> ?t)\<rparr>"
  have tl: "?t \<noteq> l" "?t \<noteq> NULL" "l \<noteq> NULL" "?t \<notin> set xs" "l \<notin> set xs" using nn by auto
  have run1: "list_reverse_loop h l a = Some h1"
    using list_reverse_loop_dll [of h l "[]" xs] d False by (simp add: h1_def a_def)
  have r1: "nxt h1 l = Some a" "prv h1 ?t = Some b" "nxt h1 a = Some l" "prv h1 b = Some ?t"
    using la lb ab tl by (simp_all add: h1_def swapped_on_def)
  have "list_reverse h l = Some h'"
    using d False run1 r1 tl ne
    by (auto simp: list_reverse_def list_empty_dll list_begin_dll a_def [symmetric]
        swap_next_prev_def get_next_def get_prev_def set_next_def set_prev_def h'_def)
  moreover have "dll h' l (rev xs)"
  proof -
    have mid: "successively (linked h') (rev xs)"
      unfolding successively_rev
    proof (rule successively_mem_cong)
      show "successively (linked h) xs" "distinct xs"
        using chain nn by (simp_all add: successively_Cons successively_append_iff)
      fix x y us vs assume split: "xs = us @ x # y # vs" and lk: "linked h x y"
      have "x \<noteq> b" "y \<noteq> a" "y \<noteq> l" "x \<noteq> ?t"
        using nn split tl by (auto simp: a_def b_def hd_append)
      then show "linked h' y x"
        using lk split tl by (auto simp: linked_def h'_def h1_def swapped_on_def)
    qed
    have "hd (rev xs) = b" "last (rev xs) = a"
      using False by (simp_all add: a_def b_def hd_rev last_rev)
    moreover have "linked h' l b" "linked h' a ?t"
      using ne tl by (auto simp: linked_def h'_def)
    ultimately have "successively (linked h') (l # rev xs @ [?t])"
      using mid False by (auto simp: successively_Cons successively_append_iff)
    moreover have "prv h' l = Some NULL" "nxt h' ?t = Some NULL"
      using d ne tl by (auto simp: dll_def h'_def h1_def swapped_on_def)
    ultimately show ?thesis using nn by (auto simp: dll_def seg_links)
  qed
  moreover have "frame (nodes l xs) h h'"
    using ab by (auto simp: frame_def nodes_def h'_def h1_def swapped_on_def)
  ultimately show ?thesis by blast
qed

subsection \<open>The interface its clients rely on\<close>

text \<open>
  A client keeps several lists over one store (the allocator its ten free lists, the thread
  pool one task list per worker and a global one).  What it relies on is that an operation on
  one list does to that list what a queue operation does, and nothing to the others.  The
  locale states this contract over an abstract store; its lemmas lift it to a family of
  lists with pairwise disjoint footprints.
\<close>

locale elem_lists =
  fixes rep :: "'h \<Rightarrow> ptr \<Rightarrow> ptr list \<Rightarrow> bool"
    and fp :: "ptr \<Rightarrow> ptr list \<Rightarrow> ptr set"
    and unch :: "ptr set \<Rightarrow> 'h \<Rightarrow> 'h \<Rightarrow> bool"
    and push_front :: "'h \<Rightarrow> ptr \<Rightarrow> ptr \<Rightarrow> 'h option"
    and push_back :: "'h \<Rightarrow> ptr \<Rightarrow> ptr \<Rightarrow> 'h option"
    and unlink :: "'h \<Rightarrow> ptr \<Rightarrow> (ptr \<times> 'h) option"
  assumes push_front: "rep h l xs \<Longrightarrow> e \<noteq> NULL \<Longrightarrow> e \<notin> fp l xs \<Longrightarrow>
      \<exists>h'. push_front h l e = Some h' \<and> rep h' l (e # xs) \<and> unch (insert e (fp l xs)) h h'"
    and push_back: "rep h l xs \<Longrightarrow> e \<noteq> NULL \<Longrightarrow> e \<notin> fp l xs \<Longrightarrow>
      \<exists>h'. push_back h l e = Some h' \<and> rep h' l (xs @ [e]) \<and> unch (insert e (fp l xs)) h h'"
    and unlink: "rep h l (us @ e # vs) \<Longrightarrow>
      \<exists>n h'. unlink h e = Some (n, h') \<and> rep h' l (us @ vs) \<and> unch (fp l (us @ e # vs)) h h'"
    and unch_rep: "rep h m ys \<Longrightarrow> unch S h h' \<Longrightarrow> fp m ys \<inter> S = {} \<Longrightarrow> rep h' m ys"
    and fp_set: "fp l xs = fp l [] \<union> set xs"
    and rep_distinct: "rep h l xs \<Longrightarrow> distinct xs \<and> set xs \<inter> fp l [] = {} \<and> NULL \<notin> set xs"
begin

definition family :: "'h \<Rightarrow> ptr set \<Rightarrow> (ptr \<Rightarrow> ptr list) \<Rightarrow> bool" where
  "family h L f \<longleftrightarrow> (\<forall>l\<in>L. rep h l (f l)) \<and>
     (\<forall>l\<in>L. \<forall>m\<in>L. l \<noteq> m \<longrightarrow> fp l (f l) \<inter> fp m (f m) = {})"

lemma family_rep: "family h L f \<Longrightarrow> l \<in> L \<Longrightarrow> rep h l (f l)"
  by (simp add: family_def)

lemma family_disjoint: "family h L f \<Longrightarrow> l \<in> L \<Longrightarrow> m \<in> L \<Longrightarrow> l \<noteq> m \<Longrightarrow> fp l (f l) \<inter> fp m (f m) = {}"
  by (simp add: family_def)

lemma family_upd:
  assumes f: "family h L f" and l: "l \<in> L"
    and r: "rep h' l xs" and u: "unch S h h'" "S \<subseteq> insert e (fp l (f l))" "fp l xs \<subseteq> insert e (fp l (f l))"
    and e: "\<And>m. m \<in> L \<Longrightarrow> m \<noteq> l \<Longrightarrow> e \<notin> fp m (f m)"
  shows "family h' L (f(l := xs))"
proof -
  have "rep h' m (f m)" if "m \<in> L" "m \<noteq> l" for m
    by (rule unch_rep [OF family_rep [OF f that(1)] u(1)])
      (use family_disjoint [OF f l that(1)] e [OF that] u(2) that in blast)
  moreover have "fp l xs \<inter> fp m (f m) = {}" if "m \<in> L" "m \<noteq> l" for m
    using family_disjoint [OF f l that(1)] e [OF that] u(3) that by blast
  ultimately show ?thesis
    using r family_disjoint [OF f] by (auto simp: family_def)
qed

lemma family_push_front:
  assumes "family h L f" "l \<in> L" "e \<noteq> NULL" "\<And>m. m \<in> L \<Longrightarrow> e \<notin> fp m (f m)"
  shows "\<exists>h'. push_front h l e = Some h' \<and> family h' L (f(l := e # f l))"
proof -
  obtain h' where h': "push_front h l e = Some h'" "rep h' l (e # f l)"
      "unch (insert e (fp l (f l))) h h'"
    using push_front [OF family_rep [OF assms(1,2)] assms(3) assms(4) [OF assms(2)]] by blast
  have "family h' L (f(l := e # f l))"
    by (rule family_upd [OF assms(1,2) h'(2,3), of e])
      (use assms(4) fp_set [of l "e # f l"] fp_set [of l "f l"] in auto)
  with h' show ?thesis by blast
qed

lemma family_push_back:
  assumes "family h L f" "l \<in> L" "e \<noteq> NULL" "\<And>m. m \<in> L \<Longrightarrow> e \<notin> fp m (f m)"
  shows "\<exists>h'. push_back h l e = Some h' \<and> family h' L (f(l := f l @ [e]))"
proof -
  obtain h' where h': "push_back h l e = Some h'" "rep h' l (f l @ [e])"
      "unch (insert e (fp l (f l))) h h'"
    using push_back [OF family_rep [OF assms(1,2)] assms(3) assms(4) [OF assms(2)]] by blast
  have "family h' L (f(l := f l @ [e]))"
    by (rule family_upd [OF assms(1,2) h'(2,3), of e])
      (use assms(4) fp_set [of l "f l @ [e]"] fp_set [of l "f l"] in auto)
  with h' show ?thesis by blast
qed

lemma family_unlink:
  assumes "family h L f" "l \<in> L" "e \<in> set (f l)"
  shows "\<exists>n h'. unlink h e = Some (n, h') \<and> family h' L (f(l := remove1 e (f l)))"
proof -
  obtain us vs where uv: "f l = us @ e # vs" "e \<notin> set us"
    using split_list_first [OF assms(3)] by blast
  obtain n h' where h': "unlink h e = Some (n, h')" "rep h' l (us @ vs)"
      "unch (fp l (us @ e # vs)) h h'"
    using unlink family_rep [OF assms(1,2)] uv by metis
  have e: "e \<notin> fp m (f m)" if "m \<in> L" "m \<noteq> l" for m
    using family_disjoint [OF assms(1,2) that(1)] that uv fp_set [of l "f l"] by auto
  have "family h' L (f(l := us @ vs))"
    by (rule family_upd [OF assms(1,2) h'(2,3), of e])
      (use e uv fp_set [of l "us @ vs"] fp_set [of l "f l"] in auto)
  with h' uv show ?thesis by auto
qed

end

interpretation dlls: elem_lists dll nodes frame list_push_front list_push_back list_remove
proof unfold_locales
  fix h l us e vs assume "dll h l (us @ e # vs)"
  from list_remove_dll [OF this]
  show "\<exists>n h'. list_remove h e = Some (n, h') \<and> dll h' l (us @ vs) \<and> frame (nodes l (us @ e # vs)) h h'"
    by (auto simp: nodes_def elim!: frame_mono)
next
  show "nodes l xs = nodes l [] \<union> set xs" for l xs by (auto simp: nodes_def)
  show "dll h l xs \<Longrightarrow> distinct xs \<and> set xs \<inter> nodes l [] = {} \<and> NULL \<notin> set xs" for h l xs
    using dll_nonnull [of h l xs] by (auto simp: nodes_def)
qed (use list_push_front_dll list_push_back_dll dll_frame in blast)+

end
