(* ===== verification/CListOrd.thy ===== *)
theory CListOrd
  imports CList
begin

text \<open>
  The operations of \<open>malloclab/list.c\<close> on lists ordered by a \<open>list_less_func\<close>: the natural
  merge sort \<open>list_sort\<close> with its helpers, ordered insertion, removal of adjacent
  duplicates, minimum and maximum.  The comparison is a parameter \<open>lt\<close> on elements (the
  function pointer together with its auxiliary data).  Each operation is shown to do to the
  linked elements what a function on HOL lists does; the properties are then proved of those
  functions, for a comparison that is a strict weak order.
\<close>

type_synonym less_func = "ptr \<Rightarrow> ptr \<Rightarrow> bool"

partial_function (option) is_sorted_loop :: "lheap \<Rightarrow> ptr \<Rightarrow> ptr \<Rightarrow> less_func \<Rightarrow> bool option" where
  "is_sorted_loop h a b lt = do {
     a' \<leftarrow> list_next h a;
     if a' \<noteq> b then do {
       p \<leftarrow> list_prev h a';
       if lt a' p then Some False else is_sorted_loop h a' b lt
     } else Some True
   }"

definition is_sorted :: "lheap \<Rightarrow> ptr \<Rightarrow> ptr \<Rightarrow> less_func \<Rightarrow> bool option" where
  "is_sorted h a b lt = (if a \<noteq> b then is_sorted_loop h a b lt else Some True)"

partial_function (option) find_end_of_run_loop :: "lheap \<Rightarrow> ptr \<Rightarrow> ptr \<Rightarrow> less_func \<Rightarrow> ptr option" where
  "find_end_of_run_loop h a b lt = do {
     a' \<leftarrow> list_next h a;
     if a' \<noteq> b then do {
       p \<leftarrow> list_prev h a';
       if \<not> lt a' p then find_end_of_run_loop h a' b lt else Some a'
     } else Some a'
   }"

definition find_end_of_run :: "lheap \<Rightarrow> ptr \<Rightarrow> ptr \<Rightarrow> less_func \<Rightarrow> ptr option" where
  "find_end_of_run h a b lt = do {
     assert_c (a \<noteq> NULL);
     assert_c (b \<noteq> NULL);
     assert_c (a \<noteq> b);
     find_end_of_run_loop h a b lt
   }"

partial_function (option) inplace_merge_loop ::
    "lheap \<Rightarrow> ptr \<Rightarrow> ptr \<Rightarrow> ptr \<Rightarrow> less_func \<Rightarrow> lheap option" where
  "inplace_merge_loop h a0 a1b0 b1 lt =
     (if a0 \<noteq> a1b0 \<and> a1b0 \<noteq> b1 then
        if \<not> lt a1b0 a0 then do {
          a0' \<leftarrow> list_next h a0;
          inplace_merge_loop h a0' a1b0 b1 lt
        } else do {
          a1b0' \<leftarrow> list_next h a1b0;
          p \<leftarrow> list_prev h a1b0';
          h \<leftarrow> list_splice h a0 p a1b0';
          inplace_merge_loop h a0 a1b0' b1 lt
        }
      else Some h)"

definition inplace_merge :: "lheap \<Rightarrow> ptr \<Rightarrow> ptr \<Rightarrow> ptr \<Rightarrow> less_func \<Rightarrow> lheap option" where
  "inplace_merge h a0 a1b0 b1 lt = do {
     assert_c (a0 \<noteq> NULL);
     assert_c (a1b0 \<noteq> NULL);
     assert_c (b1 \<noteq> NULL);
     s \<leftarrow> is_sorted h a0 a1b0 lt;
     assert_c s;
     s \<leftarrow> is_sorted h a1b0 b1 lt;
     assert_c s;
     inplace_merge_loop h a0 a1b0 b1 lt
   }"

text \<open>One pass of \<open>list_sort\<close> over the list, from \<open>a0\<close>, with the count of output runs so far.\<close>

partial_function (option) list_sort_pass ::
    "lheap \<Rightarrow> ptr \<Rightarrow> ptr \<Rightarrow> nat \<Rightarrow> less_func \<Rightarrow> (lheap \<times> nat) option" where
  "list_sort_pass h l a0 output_run_cnt lt = do {
     t \<leftarrow> list_end l;
     if a0 \<noteq> t then do {
       a1b0 \<leftarrow> find_end_of_run h a0 t lt;
       if a1b0 = t then Some (h, Suc output_run_cnt)
       else do {
         b1 \<leftarrow> find_end_of_run h a1b0 t lt;
         h \<leftarrow> inplace_merge h a0 a1b0 b1 lt;
         list_sort_pass h l b1 (Suc output_run_cnt) lt
       }
     } else Some (h, output_run_cnt)
   }"

partial_function (option) list_sort_loop :: "lheap \<Rightarrow> ptr \<Rightarrow> less_func \<Rightarrow> lheap option" where
  "list_sort_loop h l lt = do {
     b \<leftarrow> list_begin h l;
     r \<leftarrow> list_sort_pass h l b 0 lt;
     if snd r > 1 then list_sort_loop (fst r) l lt else Some (fst r)
   }"

definition list_sort :: "lheap \<Rightarrow> ptr \<Rightarrow> less_func \<Rightarrow> lheap option" where
  "list_sort h l lt = do {
     assert_c (l \<noteq> NULL);
     h \<leftarrow> list_sort_loop h l lt;
     b \<leftarrow> list_begin h l;
     t \<leftarrow> list_end l;
     s \<leftarrow> is_sorted h b t lt;
     assert_c s;
     Some h
   }"

partial_function (option) insert_ordered_pos :: "lheap \<Rightarrow> ptr \<Rightarrow> ptr \<Rightarrow> ptr \<Rightarrow> less_func \<Rightarrow> ptr option" where
  "insert_ordered_pos h l elem e lt = do {
     t \<leftarrow> list_end l;
     if e \<noteq> t then
       if lt elem e then Some e
       else do { e' \<leftarrow> list_next h e; insert_ordered_pos h l elem e' lt }
     else Some e
   }"

definition list_insert_ordered :: "lheap \<Rightarrow> ptr \<Rightarrow> ptr \<Rightarrow> less_func \<Rightarrow> lheap option" where
  "list_insert_ordered h l elem lt = do {
     assert_c (l \<noteq> NULL);
     assert_c (elem \<noteq> NULL);
     b \<leftarrow> list_begin h l;
     e \<leftarrow> insert_ordered_pos h l elem b lt;
     list_insert h e elem
   }"

partial_function (option) list_unique_loop ::
    "lheap \<Rightarrow> ptr \<Rightarrow> ptr \<Rightarrow> ptr \<Rightarrow> less_func \<Rightarrow> lheap option" where
  "list_unique_loop h l duplicates elem lt = do {
     next \<leftarrow> list_next h elem;
     t \<leftarrow> list_end l;
     if next \<noteq> t then
       if \<not> lt elem next \<and> \<not> lt next elem then do {
         r \<leftarrow> list_remove h next;
         h \<leftarrow> (if duplicates \<noteq> NULL then list_push_back (snd r) duplicates next else Some (snd r));
         list_unique_loop h l duplicates elem lt
       } else list_unique_loop h l duplicates next lt
     else Some h
   }"

definition list_unique :: "lheap \<Rightarrow> ptr \<Rightarrow> ptr \<Rightarrow> less_func \<Rightarrow> lheap option" where
  "list_unique h l duplicates lt = do {
     assert_c (l \<noteq> NULL);
     b \<leftarrow> list_empty h l;
     if b then Some h
     else do { e \<leftarrow> list_begin h l; list_unique_loop h l duplicates e lt }
   }"

partial_function (option) list_max_loop :: "lheap \<Rightarrow> ptr \<Rightarrow> ptr \<Rightarrow> ptr \<Rightarrow> less_func \<Rightarrow> ptr option" where
  "list_max_loop h l mx e lt = do {
     t \<leftarrow> list_end l;
     if e \<noteq> t then do {
       e' \<leftarrow> list_next h e;
       list_max_loop h l (if lt mx e then e else mx) e' lt
     } else Some mx
   }"

definition list_max :: "lheap \<Rightarrow> ptr \<Rightarrow> less_func \<Rightarrow> ptr option" where
  "list_max h l lt = do {
     mx \<leftarrow> list_begin h l;
     t \<leftarrow> list_end l;
     if mx \<noteq> t then do { e \<leftarrow> list_next h mx; list_max_loop h l mx e lt } else Some mx
   }"

partial_function (option) list_min_loop :: "lheap \<Rightarrow> ptr \<Rightarrow> ptr \<Rightarrow> ptr \<Rightarrow> less_func \<Rightarrow> ptr option" where
  "list_min_loop h l mn e lt = do {
     t \<leftarrow> list_end l;
     if e \<noteq> t then do {
       e' \<leftarrow> list_next h e;
       list_min_loop h l (if lt e mn then e else mn) e' lt
     } else Some mn
   }"

declare is_sorted_loop.simps [code] find_end_of_run_loop.simps [code] inplace_merge_loop.simps
  [code] list_sort_pass.simps [code] list_sort_loop.simps [code] insert_ordered_pos.simps [code]
  list_unique_loop.simps [code] list_max_loop.simps [code] list_min_loop.simps [code]

definition list_min :: "lheap \<Rightarrow> ptr \<Rightarrow> less_func \<Rightarrow> ptr option" where
  "list_min h l lt = do {
     mn \<leftarrow> list_begin h l;
     t \<leftarrow> list_end l;
     if mn \<noteq> t then do { e \<leftarrow> list_next h mn; list_min_loop h l mn e lt } else Some mn
   }"

subsection \<open>What the operations do to the list of elements\<close>

definition sorted_by :: "less_func \<Rightarrow> ptr list \<Rightarrow> bool" where
  "sorted_by lt xs = successively (\<lambda>x y. \<not> lt y x) xs"

fun end_run :: "less_func \<Rightarrow> ptr \<Rightarrow> ptr list \<Rightarrow> ptr list \<times> ptr list" where
  "end_run lt x [] = ([x], [])"
| "end_run lt x (y # ys) =
     (if lt y x then ([x], y # ys)
      else (x # fst (end_run lt y ys), snd (end_run lt y ys)))"

fun lmerge :: "less_func \<Rightarrow> ptr list \<Rightarrow> ptr list \<Rightarrow> ptr list" where
  "lmerge lt [] bs = bs"
| "lmerge lt (a # as) [] = a # as"
| "lmerge lt (a # as) (b # bs) =
     (if \<not> lt b a then a # lmerge lt as (b # bs) else b # lmerge lt (a # as) bs)"

lemma end_run_append: "fst (end_run lt x ys) @ snd (end_run lt x ys) = x # ys"
  by (induction lt x ys rule: end_run.induct) auto

lemma end_run_ne [simp]: "fst (end_run lt x ys) \<noteq> []"
  by (induction lt x ys rule: end_run.induct) auto

lemma end_run_length: "length (snd (end_run lt x ys)) \<le> length ys"
  by (induction lt x ys rule: end_run.induct) auto

lemma end_run_hd: "hd (fst (end_run lt x ys)) = x"
  by (cases ys) auto

lemma end_run_sorted: "sorted_by lt (fst (end_run lt x ys))"
proof (induction lt x ys rule: end_run.induct)
  case (2 lt x y ys)
  then show ?case
    using end_run_hd [of lt y ys] end_run_ne [of lt y ys]
    by (cases "fst (end_run lt y ys)") (auto simp: sorted_by_def)
qed (simp add: sorted_by_def)

lemma end_run_boundary:
  "snd (end_run lt x ys) = z # zs \<Longrightarrow> lt z (last (fst (end_run lt x ys)))"
  by (induction lt x ys rule: end_run.induct) (auto split: if_splits)

function sort_pass :: "less_func \<Rightarrow> ptr list \<Rightarrow> ptr list \<times> nat" where
  "sort_pass lt xs = (case xs of [] \<Rightarrow> ([], 0)
     | x # xs' \<Rightarrow>
        (case snd (end_run lt x xs') of [] \<Rightarrow> (xs, 1)
         | y # ys \<Rightarrow>
            (let r = sort_pass lt (snd (end_run lt y ys))
             in (lmerge lt (fst (end_run lt x xs')) (fst (end_run lt y ys)) @ fst r,
                 Suc (snd r)))))"
  by pat_completeness auto
termination
proof (relation "measure (\<lambda>(lt, xs). length xs)", simp, goal_cases)
  case (1 lt xs x xs' y ys)
  have "length (snd (end_run lt y ys)) \<le> length ys" by (rule end_run_length)
  moreover have "length (snd (end_run lt x xs')) \<le> length xs'" by (rule end_run_length)
  ultimately show ?case using 1 by simp
qed

declare sort_pass.simps [simp del]

subsection \<open>The operations on the linked structure refine these functions\<close>

lemma nodes_cong: "set xs = set ys \<Longrightarrow> nodes l xs = nodes l ys"
  by (simp add: nodes_def)

lemma boundary_fresh:
  "dll h l (us @ vs) \<Longrightarrow> x \<in> set us \<Longrightarrow> x \<noteq> hd (vs @ [l + 16])"
  using seg_distinct_ends(8) [of h l us vs] by auto

lemma is_sorted_loop_dll:
  "dll h l (us @ (x # xs) @ vs) \<Longrightarrow>
   is_sorted_loop h x (hd (vs @ [l + 16])) lt = Some (sorted_by lt (x # xs))"
proof (induction xs arbitrary: us x)
  case Nil
  then have "list_next h x = Some (hd (vs @ [l + 16]))" by (intro list_next_elem [of h l us]) simp
  then show ?case by (subst is_sorted_loop.simps) (simp add: sorted_by_def)
next
  case (Cons y ys)
  have nx: "list_next h x = Some y" using list_next_elem [of h l us x "y # ys @ vs"] Cons.prems by simp
  have pv: "list_prev h y = Some x"
    using list_prev_elem [of h l "us @ [x]" y "ys @ vs"] Cons.prems by simp
  have ne: "y \<noteq> hd (vs @ [l + 16])"
    using boundary_fresh [of h l "us @ x # y # ys" vs y] Cons.prems by simp
  have "is_sorted_loop h y (hd (vs @ [l + 16])) lt = Some (sorted_by lt (y # ys))"
    using Cons.IH [of "us @ [x]" y] Cons.prems by simp
  with nx pv ne show ?case
    by (subst is_sorted_loop.simps) (simp add: sorted_by_def)
qed

lemma is_sorted_dll:
  assumes "dll h l (us @ xs @ vs)"
  shows "is_sorted h (hd (xs @ vs @ [l + 16])) (hd (vs @ [l + 16])) lt = Some (sorted_by lt xs)"
proof (cases xs)
  case Nil
  then show ?thesis by (simp add: is_sorted_def sorted_by_def)
next
  case (Cons y ys)
  then have "y \<noteq> hd (vs @ [l + 16])"
    using boundary_fresh [of h l "us @ xs" vs y] assms by simp
  with Cons show ?thesis using is_sorted_loop_dll [of h l us y ys vs lt] assms
    by (simp add: is_sorted_def)
qed

lemma find_end_of_run_loop_dll:
  "dll h l (us @ (x # xs) @ vs) \<Longrightarrow>
   find_end_of_run_loop h x (hd (vs @ [l + 16])) lt =
   Some (hd (snd (end_run lt x xs) @ vs @ [l + 16]))"
proof (induction xs arbitrary: us x)
  case Nil
  then have "list_next h x = Some (hd (vs @ [l + 16]))" by (intro list_next_elem [of h l us]) simp
  then show ?case by (subst find_end_of_run_loop.simps) simp
next
  case (Cons y ys)
  have nx: "list_next h x = Some y" using list_next_elem [of h l us x "y # ys @ vs"] Cons.prems by simp
  have pv: "list_prev h y = Some x"
    using list_prev_elem [of h l "us @ [x]" y "ys @ vs"] Cons.prems by simp
  have ne: "y \<noteq> hd (vs @ [l + 16])"
    using boundary_fresh [of h l "us @ x # y # ys" vs y] Cons.prems by simp
  have "find_end_of_run_loop h y (hd (vs @ [l + 16])) lt =
      Some (hd (snd (end_run lt y ys) @ vs @ [l + 16]))"
    using Cons.IH [of "us @ [x]" y] Cons.prems by simp
  with nx pv ne show ?case
    by (subst find_end_of_run_loop.simps) simp
qed

lemma find_end_of_run_dll:
  assumes d: "dll h l (us @ x # xs)"
  shows "find_end_of_run h x (l + 16) lt = Some (hd (snd (end_run lt x xs) @ [l + 16]))"
proof -
  have "x \<noteq> NULL" "x \<noteq> l + 16" "l + 16 \<noteq> NULL" using dll_nonnull [OF d] by auto
  then show ?thesis using find_end_of_run_loop_dll [of h l us x xs "[]" lt] d
    by (simp add: find_end_of_run_def)
qed

lemma inplace_merge_loop_dll:
  "dll h l (us @ as @ bs @ vs) \<Longrightarrow>
   \<exists>h'. inplace_merge_loop h (hd (as @ bs @ vs @ [l + 16])) (hd (bs @ vs @ [l + 16])) (hd (vs @ [l + 16])) lt
          = Some h' \<and>
        dll h' l (us @ lmerge lt as bs @ vs) \<and> frame (nodes l (us @ as @ bs @ vs)) h h'"
proof (induction lt as bs arbitrary: us h rule: lmerge.induct)
  case (1 lt bs)
  then show ?case by (subst inplace_merge_loop.simps) simp
next
  case (2 lt a as)
  then show ?case by (subst inplace_merge_loop.simps) simp
next
  case (3 lt a as b bs)
  note d = \<open>dll h l (us @ (a # as) @ (b # bs) @ vs)\<close>
  have ab: "a \<noteq> b" "b \<noteq> hd (vs @ [l + 16])"
    using dll_nonnull(4) [OF d] boundary_fresh [of h l "us @ a # as @ b # bs" vs b] d by auto
  show ?case
  proof (cases "lt b a")
    case False
    have nx: "list_next h a = Some (hd (as @ b # bs @ vs @ [l + 16]))"
      using list_next_elem [of h l us a "as @ b # bs @ vs"] d by simp
    obtain h' where h': "inplace_merge_loop h (hd (as @ (b # bs) @ vs @ [l + 16]))
        (hd ((b # bs) @ vs @ [l + 16])) (hd (vs @ [l + 16])) lt = Some h'"
        "dll h' l ((us @ [a]) @ lmerge lt as (b # bs) @ vs)"
        "frame (nodes l ((us @ [a]) @ as @ (b # bs) @ vs)) h h'"
      using "3.IH"(1) [OF False, of h "us @ [a]"] d by auto
    have "inplace_merge_loop h a b (hd (vs @ [l + 16])) lt = Some h'"
      using h'(1) ab False nx by (subst inplace_merge_loop.simps) simp
    then show ?thesis using h'(2,3) False by simp
  next
    case True
    have nx: "list_next h b = Some (hd (bs @ vs @ [l + 16]))"
      using list_next_elem [of h l "us @ a # as" b "bs @ vs"] d by simp
    have pv: "list_prev h (hd (bs @ vs @ [l + 16])) = Some b"
      using list_prev_dll [of h l "us @ a # as @ [b]" "bs @ vs"] d by simp
    obtain h1 where h1: "list_splice h a b (hd (bs @ vs @ [l + 16])) = Some h1"
        "dll h1 l (us @ [b] @ (a # as) @ bs @ vs)"
        "frame (nodes l (us @ (a # as) @ [b] @ bs @ vs)) h h1"
      using list_splice_same [of h l us "a # as" "[b]" "bs @ vs"] d by auto
    obtain h' where h': "inplace_merge_loop h1 (hd ((a # as) @ bs @ vs @ [l + 16]))
        (hd (bs @ vs @ [l + 16])) (hd (vs @ [l + 16])) lt = Some h'"
        "dll h' l ((us @ [b]) @ lmerge lt (a # as) bs @ vs)"
        "frame (nodes l ((us @ [b]) @ (a # as) @ bs @ vs)) h1 h'"
      using "3.IH"(2) [of h1 "us @ [b]"] True h1(2) by auto
    have "inplace_merge_loop h a b (hd (vs @ [l + 16])) lt = Some h'"
      using h'(1) h1(1) ab True nx pv by (subst inplace_merge_loop.simps) simp
    moreover have "frame (nodes l (us @ (a # as) @ (b # bs) @ vs)) h h'"
    proof (rule frame_trans)
      show "frame (nodes l (us @ (a # as) @ (b # bs) @ vs)) h h1" using h1(3) by simp
      have "nodes l ((us @ [b]) @ (a # as) @ bs @ vs) = nodes l (us @ (a # as) @ (b # bs) @ vs)"
        by (rule nodes_cong) auto
      then show "frame (nodes l (us @ (a # as) @ (b # bs) @ vs)) h1 h'" using h'(3) by simp
    qed
    ultimately show ?thesis using h'(2) True by auto
  qed
qed

lemma inplace_merge_dll:
  assumes d: "dll h l (us @ as @ bs @ vs)" and "as \<noteq> []" "bs \<noteq> []"
    and "sorted_by lt as" "sorted_by lt bs"
  shows "\<exists>h'. inplace_merge h (hd as) (hd bs) (hd (vs @ [l + 16])) lt = Some h' \<and>
        dll h' l (us @ lmerge lt as bs @ vs) \<and> frame (nodes l (us @ as @ bs @ vs)) h h'"
proof -
  have "hd as \<noteq> NULL" "hd bs \<noteq> NULL" using dll_nonnull(3) [OF d] assms(2,3)
    by (metis Un_iff hd_in_set set_append)+
  moreover have "hd (vs @ [l + 16]) \<noteq> NULL" using nonnull_ends(2) [of h l "us @ as @ bs" vs] d by simp
  moreover have "is_sorted h (hd as) (hd bs) lt = Some True"
    using is_sorted_dll [of h l us as "bs @ vs" lt] d assms by simp
  moreover have "is_sorted h (hd bs) (hd (vs @ [l + 16])) lt = Some True"
    using is_sorted_dll [of h l "us @ as" bs vs lt] d assms by simp
  ultimately show ?thesis
    using inplace_merge_loop_dll [OF d, of lt] assms by (simp add: inplace_merge_def)
qed

lemma set_lmerge: "set (lmerge lt as bs) = set as \<union> set bs"
  by (induction lt as bs rule: lmerge.induct) auto

lemma mset_lmerge: "mset (lmerge lt as bs) = mset as + mset bs"
  by (induction lt as bs rule: lmerge.induct) auto

lemma list_sort_pass_dll:
  "dll h l (us @ xs) \<Longrightarrow>
   \<exists>h'. list_sort_pass h l (hd (xs @ [l + 16])) c lt = Some (h', c + snd (sort_pass lt xs)) \<and>
        dll h' l (us @ fst (sort_pass lt xs)) \<and> frame (nodes l (us @ xs)) h h'"
proof (induction lt xs arbitrary: us h c rule: sort_pass.induct)
  case (1 lt xs)
  show ?case
  proof (cases xs)
    case Nil
    with 1(2) show ?thesis
      by (subst list_sort_pass.simps, subst (1 2) sort_pass.simps) (simp add: list_end_dll)
  next
    case (Cons x xs')
    define r1 where "r1 = fst (end_run lt x xs')"
    have d: "dll h l (us @ x # xs')" using 1(2) Cons by simp
    have ne: "x \<noteq> l + 16" using dll_nonnull [OF d] by auto
    have end1: "find_end_of_run h x (l + 16) lt = Some (hd (snd (end_run lt x xs') @ [l + 16]))"
      by (rule find_end_of_run_dll [OF d])
    show ?thesis
    proof (cases "snd (end_run lt x xs')")
      case Nil
      then show ?thesis using d ne end1 Cons
        by (subst list_sort_pass.simps, subst (1 2) sort_pass.simps) (simp add: list_end_dll)
    next
      case s1: (Cons y ys)
      define r2 where "r2 = fst (end_run lt y ys)"
      define s2 where "s2 = snd (end_run lt y ys)"
      have xs': "x # xs' = r1 @ y # ys" using end_run_append [of lt x xs'] s1 by (simp add: r1_def)
      have ys: "y # ys = r2 @ s2" using end_run_append [of lt y ys] by (simp add: r2_def s2_def)
      have d1: "dll h l ((us @ r1) @ y # ys)" using d xs' by simp
      have d2: "dll h l (us @ r1 @ r2 @ s2)" using d1 ys by simp
      have ney: "y \<noteq> l + 16" using dll_nonnull [OF d1] by auto
      have end2: "find_end_of_run h y (l + 16) lt = Some (hd (s2 @ [l + 16]))"
        unfolding s2_def by (rule find_end_of_run_dll [OF d1])
      have rne: "r1 \<noteq> []" "r2 \<noteq> []" by (simp_all add: r1_def r2_def)
      have hds: "hd r1 = x" "hd r2 = y" by (simp_all add: r1_def r2_def end_run_hd)
      have srt: "sorted_by lt r1" "sorted_by lt r2" by (simp_all add: r1_def r2_def end_run_sorted)
      obtain h1 where h1: "inplace_merge h x y (hd (s2 @ [l + 16])) lt = Some h1"
          "dll h1 l (us @ lmerge lt r1 r2 @ s2)" "frame (nodes l (us @ r1 @ r2 @ s2)) h h1"
        using inplace_merge_dll [OF d2 rne srt] hds by auto
      obtain h' where h': "list_sort_pass h1 l (hd (s2 @ [l + 16])) (Suc c) lt =
            Some (h', Suc c + snd (sort_pass lt s2))"
          "dll h' l ((us @ lmerge lt r1 r2) @ fst (sort_pass lt s2))"
          "frame (nodes l ((us @ lmerge lt r1 r2) @ s2)) h1 h'"
        using 1(1) [OF Cons s1, of h1 "us @ lmerge lt r1 r2" "Suc c", folded s2_def] h1(2) by auto
      have pass: "sort_pass lt xs = (lmerge lt r1 r2 @ fst (sort_pass lt s2), Suc (snd (sort_pass lt s2)))"
        using Cons s1 by (subst sort_pass.simps) (simp add: Let_def r1_def r2_def s2_def)
      have "list_sort_pass h l x c lt = Some (h', c + snd (sort_pass lt xs))"
        using end1 end2 s1 ne ney h1(1) h'(1) d pass
        by (subst list_sort_pass.simps) (simp add: list_end_dll)
      moreover have "nodes l ((us @ lmerge lt r1 r2) @ s2) = nodes l (us @ x # xs')"
        unfolding xs' ys by (rule nodes_cong) (auto simp: set_lmerge)
      moreover have "nodes l (us @ r1 @ r2 @ s2) = nodes l (us @ x # xs')"
        unfolding xs' ys by (rule nodes_cong) auto
      ultimately show ?thesis
        using h1(3) h'(2,3) pass Cons frame_trans [of "nodes l (us @ x # xs')" h h1 h'] by auto
    qed
  qed
qed

subsection \<open>Sorting: order, permutation, stability and the number of passes\<close>

definition strict_weak :: "less_func \<Rightarrow> bool" where
  "strict_weak lt \<longleftrightarrow>
     (\<forall>x y. lt x y \<longrightarrow> \<not> lt y x) \<and> (\<forall>x y z. \<not> lt y x \<longrightarrow> \<not> lt z y \<longrightarrow> \<not> lt z x)"

lemma strict_weakD:
  assumes "strict_weak lt"
  shows "lt x y \<Longrightarrow> \<not> lt y x" "\<not> lt y x \<Longrightarrow> \<not> lt z y \<Longrightarrow> \<not> lt z x" "\<not> lt x x"
  using assms unfolding strict_weak_def by blast+

lemma strict_weak_trans: "strict_weak lt \<Longrightarrow> lt x y \<Longrightarrow> lt y z \<Longrightarrow> lt x z"
  unfolding strict_weak_def by blast

text \<open>\<open>equiv_to lt x\<close>: the elements the comparison does not tell apart from \<open>x\<close>.\<close>

definition equiv_to :: "less_func \<Rightarrow> ptr \<Rightarrow> ptr \<Rightarrow> bool" where
  "equiv_to lt x y \<longleftrightarrow> \<not> lt x y \<and> \<not> lt y x"

fun descents :: "less_func \<Rightarrow> ptr list \<Rightarrow> nat" where
  "descents lt (x # y # zs) = (if lt y x then 1 else 0) + descents lt (y # zs)"
| "descents lt _ = 0"

lemma descents_sorted: "sorted_by lt xs \<longleftrightarrow> descents lt xs = 0"
  by (induction lt xs rule: descents.induct) (auto simp: sorted_by_def)

lemma descents_append:
  "xs \<noteq> [] \<Longrightarrow> ys \<noteq> [] \<Longrightarrow>
   descents lt (xs @ ys) = descents lt xs + (if lt (hd ys) (last xs) then 1 else 0) + descents lt ys"
  by (induction lt xs rule: descents.induct) (cases ys; auto)+

lemma descents_append_le: "descents lt (xs @ ys) \<le> descents lt xs + 1 + descents lt ys"
  by (cases "xs = [] \<or> ys = []") (auto simp: descents_append)

lemma sorted_by_Cons:
  assumes "strict_weak lt"
  shows "sorted_by lt (x # xs) \<longleftrightarrow> (\<forall>y\<in>set xs. \<not> lt y x) \<and> sorted_by lt xs"
proof -
  have "transp (\<lambda>x y. \<not> lt y x)"
    by (rule transpI) (use strict_weakD(2) [OF assms] in blast)
  then show ?thesis by (simp add: sorted_by_def successively_conv_sorted_wrt)
qed

lemma lmerge_sorted:
  "strict_weak lt \<Longrightarrow> sorted_by lt as \<Longrightarrow> sorted_by lt bs \<Longrightarrow> sorted_by lt (lmerge lt as bs)"
proof (induction lt as bs rule: lmerge.induct)
  case (3 lt a as b bs)
  note w = \<open>strict_weak lt\<close> and sa = \<open>sorted_by lt (a # as)\<close> and sb = \<open>sorted_by lt (b # bs)\<close>
  show ?case
  proof (cases "lt b a")
    case False
    then have "\<not> lt y a" if "y \<in> set (as @ b # bs)" for y
      using sa sb that strict_weakD(2) [OF w, of b a y] by (auto simp: sorted_by_Cons [OF w])
    moreover have "sorted_by lt (lmerge lt as (b # bs))"
      using "3.IH"(1) [OF _ w _ sb] False sa by (simp add: sorted_by_Cons [OF w])
    ultimately show ?thesis using False by (auto simp: sorted_by_Cons [OF w] set_lmerge)
  next
    case True
    then have ba: "\<not> lt a b" using strict_weakD(1) [OF w] by blast
    have "\<not> lt y b" if y: "y \<in> set (a # as @ bs)" for y
      using sa sb y ba strict_weakD(2) [OF w, of a b y] by (auto simp: sorted_by_Cons [OF w])
    moreover have "sorted_by lt (lmerge lt (a # as) bs)"
      using "3.IH"(2) [OF _ w sa] True sb by (simp add: sorted_by_Cons [OF w])
    ultimately show ?thesis using True by (auto simp: sorted_by_Cons [OF w] set_lmerge)
  qed
qed auto

lemma lmerge_stable:
  "strict_weak lt \<Longrightarrow> sorted_by lt as \<Longrightarrow> sorted_by lt bs \<Longrightarrow>
   filter (equiv_to lt x) (lmerge lt as bs) = filter (equiv_to lt x) as @ filter (equiv_to lt x) bs"
proof (induction lt as bs rule: lmerge.induct)
  case (3 lt a as b bs)
  note w = \<open>strict_weak lt\<close> and sa = \<open>sorted_by lt (a # as)\<close> and sb = \<open>sorted_by lt (b # bs)\<close>
  show ?case
  proof (cases "lt b a")
    case False
    then show ?thesis using "3.IH"(1) [OF _ w _ sb] sa by (simp add: sorted_by_Cons [OF w])
  next
    case True
    have ih: "filter (equiv_to lt x) (lmerge lt (a # as) bs) =
        filter (equiv_to lt x) (a # as) @ filter (equiv_to lt x) bs"
      using "3.IH"(2) [OF _ w sa] True sb by (simp add: sorted_by_Cons [OF w])
    have "filter (equiv_to lt x) (a # as) = []" if "equiv_to lt x b"
    proof -
      have "\<not> equiv_to lt x y" if "y \<in> set (a # as)" for y
      proof
        assume "equiv_to lt x y"
        then have "\<not> lt b y"
          using \<open>equiv_to lt x b\<close> strict_weakD(2) [OF w, where x = y and y = x and z = b] by (auto simp: equiv_to_def)
        moreover have "\<not> lt y a" using sa that strict_weakD(3) [OF w] by (auto simp: sorted_by_Cons [OF w])
        ultimately show False using True strict_weakD(2) [OF w, where x = a and y = y and z = b] by blast
      qed
      then show ?thesis by (simp add: filter_empty_conv)
    qed
    then show ?thesis using True ih by auto
  qed
qed auto

lemma sort_pass_props:
  "strict_weak lt \<Longrightarrow>
   mset (fst (sort_pass lt xs)) = mset xs \<and>
   filter (equiv_to lt x) (fst (sort_pass lt xs)) = filter (equiv_to lt x) xs \<and>
   descents lt (fst (sort_pass lt xs)) \<le> snd (sort_pass lt xs) - 1 \<and>
   snd (sort_pass lt xs) \<le> Suc (descents lt xs) \<and>
   (1 < snd (sort_pass lt xs) \<longrightarrow> snd (sort_pass lt xs) \<le> descents lt xs) \<and>
   (xs \<noteq> [] \<longrightarrow> 0 < snd (sort_pass lt xs))"
proof (induction lt xs rule: sort_pass.induct)
  case (1 lt xs)
  note w = \<open>strict_weak lt\<close>
  show ?case
  proof (cases xs)
    case Nil
    then show ?thesis by (simp add: sort_pass.simps)
  next
    case (Cons x0 xs')
    note e1 = end_run_append [of lt x0 xs'] and so1 = end_run_sorted [of lt x0 xs']
    show ?thesis
    proof (cases "snd (end_run lt x0 xs')")
      case Nil
      then have "sorted_by lt xs" using e1 so1 Cons by simp
      moreover have "sort_pass lt xs = (xs, 1)"
        using Nil Cons by (subst sort_pass.simps) simp
      ultimately show ?thesis by (simp add: descents_sorted)
    next
      case s1: (Cons y ys)
      define r1 where "r1 = fst (end_run lt x0 xs')"
      define r2 where "r2 = fst (end_run lt y ys)"
      define s2 where "s2 = snd (end_run lt y ys)"
      have xs: "xs = r1 @ r2 @ s2"
        using e1 s1 end_run_append [of lt y ys] Cons by (simp add: r1_def r2_def s2_def)
      have rne: "r1 \<noteq> []" "r2 \<noteq> []" by (simp_all add: r1_def r2_def)
      have srt: "sorted_by lt r1" "sorted_by lt r2"
        using end_run_sorted so1 by (simp_all add: r1_def r2_def)
      define q where "q = sort_pass lt s2"
      have pass: "sort_pass lt xs = (lmerge lt r1 r2 @ fst q, Suc (snd q))"
        using Cons s1 by (subst sort_pass.simps) (simp add: Let_def r1_def r2_def s2_def q_def)
      note ih = "1.IH" [OF Cons s1 w, folded s2_def q_def]
      have "lt (hd (r2 @ s2)) (last r1)"
        using end_run_boundary [OF s1] end_run_hd [of lt y ys] rne by (simp add: r1_def r2_def)
      then have d1: "descents lt xs = 1 + descents lt (r2 @ s2)"
        using srt(1) rne unfolding xs
        by (subst descents_append) (auto simp: descents_sorted)
      have d2: "descents lt (r2 @ s2) = 1 + descents lt s2" if "s2 \<noteq> []"
      proof -
        have "lt (hd s2) (last r2)"
          using end_run_boundary [of lt y ys "hd s2" "tl s2"] that by (simp add: r2_def s2_def)
        then show ?thesis using srt(2) rne that
          by (subst descents_append) (auto simp: descents_sorted)
      qed
      have "descents lt (lmerge lt r1 r2) = 0"
        using lmerge_sorted [OF w srt] by (simp add: descents_sorted)
      then have "descents lt (lmerge lt r1 r2 @ fst q) \<le> snd q"
      proof (cases "s2 = []")
        case True
        then show ?thesis using \<open>descents lt (lmerge lt r1 r2) = 0\<close>
          by (simp add: q_def sort_pass.simps [of lt "[]"])
      next
        case False
        then show ?thesis
          using ih \<open>descents lt (lmerge lt r1 r2) = 0\<close>
            descents_append_le [of lt "lmerge lt r1 r2" "fst q"] by linarith
      qed
      moreover have "snd q = 0" if "s2 = []" using that by (simp add: q_def sort_pass.simps [of lt "[]"])
      ultimately show ?thesis
        using ih d1 d2 pass lmerge_stable [OF w srt, of x]
        by (cases "s2 = []") (auto simp: xs mset_lmerge)
    qed
  qed
qed

lemma list_sort_loop_dll:
  "strict_weak lt \<Longrightarrow> dll h l xs \<Longrightarrow>
   \<exists>h' ys. list_sort_loop h l lt = Some h' \<and> dll h' l ys \<and> frame (nodes l xs) h h' \<and>
     mset ys = mset xs \<and> sorted_by lt ys \<and>
     (\<forall>x. filter (equiv_to lt x) ys = filter (equiv_to lt x) xs)"
proof (induction "descents lt xs" arbitrary: xs h rule: less_induct)
  case less
  note w = \<open>strict_weak lt\<close> and d = \<open>dll h l xs\<close>
  note props = sort_pass_props [OF w, of xs]
  define ys where "ys = fst (sort_pass lt xs)"
  obtain h1 where h1: "list_sort_pass h l (hd (xs @ [l + 16])) 0 lt = Some (h1, snd (sort_pass lt xs))"
      "dll h1 l ys" "frame (nodes l xs) h h1"
    using list_sort_pass_dll [of h l "[]" xs 0 lt] d by (auto simp: ys_def)
  have ms: "mset ys = mset xs" and st: "\<And>x. filter (equiv_to lt x) ys = filter (equiv_to lt x) xs"
    using props sort_pass_props [OF w] by (auto simp: ys_def)
  have nds: "nodes l ys = nodes l xs" by (rule nodes_cong) (rule mset_eq_setD [OF ms])
  show ?case
  proof (cases "1 < snd (sort_pass lt xs)")
    case True
    with props [of 0] have "descents lt ys < descents lt xs" unfolding ys_def by linarith
    then obtain h' zs where h': "list_sort_loop h1 l lt = Some h'" "dll h' l zs"
        "frame (nodes l ys) h1 h'" "mset zs = mset ys" "sorted_by lt zs"
        "\<forall>x. filter (equiv_to lt x) zs = filter (equiv_to lt x) ys"
      using less.hyps [OF _ w h1(2)] by blast
    have "list_sort_loop h l lt = Some h'"
      using list_begin_dll [OF d] h1(1) h'(1) True by (subst list_sort_loop.simps) simp
    moreover have "frame (nodes l xs) h h'"
      using frame_trans [OF h1(3)] h'(3) nds by simp
    ultimately show ?thesis using h' ms st by auto
  next
    case False
    then have "sorted_by lt ys" using props by (simp add: descents_sorted ys_def)
    moreover have "list_sort_loop h l lt = Some h1"
      using list_begin_dll [OF d] h1(1) False by (subst list_sort_loop.simps) simp
    ultimately show ?thesis using h1 ms st by blast
  qed
qed

lemma list_sort_dll:
  assumes w: "strict_weak lt" and d: "dll h l xs"
  shows "\<exists>h' ys. list_sort h l lt = Some h' \<and> dll h' l ys \<and> frame (nodes l xs) h h' \<and>
     mset ys = mset xs \<and> sorted_by lt ys \<and>
     (\<forall>x. filter (equiv_to lt x) ys = filter (equiv_to lt x) xs)"
proof -
  obtain h' ys where h': "list_sort_loop h l lt = Some h'" "dll h' l ys" "frame (nodes l xs) h h'"
      "mset ys = mset xs" "sorted_by lt ys"
      "\<forall>x. filter (equiv_to lt x) ys = filter (equiv_to lt x) xs"
    using list_sort_loop_dll [OF w d] by blast
  moreover have "is_sorted h' (hd (ys @ [l + 16])) (l + 16) lt = Some True"
    using is_sorted_dll [of h' l "[]" ys "[]" lt] h'(2,5) by simp
  ultimately have "list_sort h l lt = Some h'"
    using dll_nonnull(1) [OF d] by (simp add: list_sort_def list_begin_dll list_end_dll)
  with h' show ?thesis by blast
qed

subsection \<open>Ordered insertion\<close>

lemma insert_ordered_pos_dll:
  "dll h l (us @ vs) \<Longrightarrow>
   insert_ordered_pos h l elem (hd (vs @ [l + 16])) lt =
   Some (hd (dropWhile (\<lambda>e. \<not> lt elem e) vs @ [l + 16]))"
proof (induction vs arbitrary: us)
  case Nil
  then show ?case by (subst insert_ordered_pos.simps) (simp add: list_end_dll)
next
  case (Cons v vs)
  have "v \<noteq> l + 16" using dll_nonnull [OF Cons.prems] by auto
  moreover have "list_next h v = Some (hd (vs @ [l + 16]))" by (rule list_next_elem [OF Cons.prems])
  ultimately show ?case
    using Cons.prems Cons.IH [of "us @ [v]"]
    by (subst insert_ordered_pos.simps) (simp add: list_end_dll)
qed

definition insert_ordered :: "less_func \<Rightarrow> ptr \<Rightarrow> ptr list \<Rightarrow> ptr list" where
  "insert_ordered lt e xs =
     takeWhile (\<lambda>x. \<not> lt e x) xs @ e # dropWhile (\<lambda>x. \<not> lt e x) xs"

lemma list_insert_ordered_dll:
  assumes d: "dll h l xs" and e: "e \<noteq> NULL" "e \<notin> nodes l xs"
  shows "\<exists>h'. list_insert_ordered h l e lt = Some h' \<and> dll h' l (insert_ordered lt e xs) \<and>
     frame (insert e (nodes l xs)) h h'"
proof -
  define us where "us = takeWhile (\<lambda>x. \<not> lt e x) xs"
  define vs where "vs = dropWhile (\<lambda>x. \<not> lt e x) xs"
  have xs: "xs = us @ vs" by (simp add: us_def vs_def)
  have "list_insert_ordered h l e lt = list_insert h (hd (vs @ [l + 16])) e"
    using insert_ordered_pos_dll [of h l "[]" xs e lt] d e(1) dll_nonnull(1) [OF d]
    by (simp add: list_insert_ordered_def list_begin_dll vs_def)
  then show ?thesis
    using list_insert_dll [of h l us vs e] d e unfolding insert_ordered_def us_def [symmetric] vs_def [symmetric]
    by (simp add: xs)
qed

lemma insert_ordered_sorted:
  assumes w: "strict_weak lt" and "sorted_by lt xs"
  shows "sorted_by lt (insert_ordered lt e xs)"
  using assms(2)
proof (induction xs)
  case Nil
  then show ?case by (simp add: insert_ordered_def sorted_by_def)
next
  case (Cons x xs)
  show ?case
  proof (cases "lt e x")
    case True
    have "\<not> lt y e" if "y \<in> set (x # xs)" for y
    proof
      assume "lt y e"
      then have "lt y x" using True strict_weak_trans [OF w] by blast
      then show False using that Cons.prems strict_weakD(3) [OF w] by (auto simp: sorted_by_Cons [OF w])
    qed
    with True Cons.prems show ?thesis by (auto simp: insert_ordered_def sorted_by_Cons [OF w])
  next
    case False
    then have "insert_ordered lt e (x # xs) = x # insert_ordered lt e xs"
      by (simp add: insert_ordered_def)
    moreover have "set (insert_ordered lt e xs) = insert e (set xs)"
      using takeWhile_dropWhile_id [of "\<lambda>x. \<not> lt e x" xs, symmetric]
      by (metis insert_ordered_def list.simps(15) set_append Un_insert_right)
    ultimately show ?thesis using False Cons by (simp add: sorted_by_Cons [OF w])
  qed
qed

lemma mset_insert_ordered: "mset (insert_ordered lt e xs) = add_mset e (mset xs)"
proof -
  have "mset (takeWhile (\<lambda>x. \<not> lt e x) xs) + mset (dropWhile (\<lambda>x. \<not> lt e x) xs) = mset xs"
    unfolding mset_append [symmetric] by simp
  then show ?thesis by (simp add: insert_ordered_def)
qed

subsection \<open>Removal of adjacent duplicates\<close>

text \<open>\<open>uniq lt x ys\<close>: the elements kept from \<open>x # ys\<close> and, in order, those removed.\<close>

fun uniq :: "less_func \<Rightarrow> ptr \<Rightarrow> ptr list \<Rightarrow> ptr list \<times> ptr list" where
  "uniq lt x [] = ([x], [])"
| "uniq lt x (y # ys) =
     (if equiv_to lt x y then (fst (uniq lt x ys), y # snd (uniq lt x ys))
      else (x # fst (uniq lt y ys), snd (uniq lt y ys)))"

lemma mset_uniq: "mset (fst (uniq lt x ys)) + mset (snd (uniq lt x ys)) = add_mset x (mset ys)"
  by (induction lt x ys rule: uniq.induct) auto

lemma uniq_ne [simp]: "fst (uniq lt x ys) \<noteq> []"
  by (induction lt x ys rule: uniq.induct) auto

lemma uniq_hd: "hd (fst (uniq lt x ys)) = x"
  by (induction lt x ys rule: uniq.induct) auto

text \<open>
  After the pass no two neighbours are equivalent, every removed element is equivalent to a kept
  one, and the kept elements stay in their order.
\<close>

lemma uniq_no_adjacent:
  "strict_weak lt \<Longrightarrow> successively (\<lambda>x y. \<not> equiv_to lt x y) (fst (uniq lt x ys))"
proof (induction lt x ys rule: uniq.induct)
  case (2 lt x y ys)
  then show ?case
    using uniq_hd [of lt y ys] by (cases "fst (uniq lt y ys)") (auto simp: successively_Cons)
qed simp

lemma uniq_removed: "z \<in> set (snd (uniq lt x ys)) \<Longrightarrow> \<exists>y\<in>set (fst (uniq lt x ys)). equiv_to lt y z"
proof (induction lt x ys rule: uniq.induct)
  case (2 lt x y ys)
  show ?case
  proof (cases "equiv_to lt x y")
    case True
    have "x \<in> set (fst (uniq lt x ys))" using uniq_hd [of lt x ys] hd_in_set [OF uniq_ne] by metis
    with True 2 show ?thesis by auto
  qed (use 2 in auto)
qed simp

lemma set_uniq: "set (fst (uniq lt x ys)) \<union> set (snd (uniq lt x ys)) = insert x (set ys)"
  using arg_cong [OF mset_uniq [of lt x ys], of set_mset] by simp

lemma list_unique_loop_none:
  "dll h l (us @ x # ys) \<Longrightarrow>
   \<exists>h'. list_unique_loop h l NULL x lt = Some h' \<and> dll h' l (us @ fst (uniq lt x ys)) \<and>
     frame (nodes l (us @ x # ys)) h h'"
proof (induction lt x ys arbitrary: us h rule: uniq.induct)
  case (1 lt x)
  then have "list_next h x = Some (l + 16)" using list_next_elem [of h l us x "[]"] by simp
  with 1 show ?case by (subst list_unique_loop.simps) (simp add: list_end_dll)
next
  case (2 lt x y ys)
  note d = \<open>dll h l (us @ x # y # ys)\<close>
  have nx: "list_next h x = Some y" using list_next_elem [OF d] by simp
  have ne: "y \<noteq> l + 16" using dll_nonnull [OF d] by auto
  show ?case
  proof (cases "equiv_to lt x y")
    case True
    obtain n h1 where h1: "list_remove h y = Some (n, h1)" "dll h1 l (us @ x # ys)"
        "frame (nodes l (us @ x # ys)) h h1"
      using list_remove_dll [of h l "us @ [x]" y ys] d by auto
    obtain h' where h': "list_unique_loop h1 l NULL x lt = Some h'"
        "dll h' l (us @ fst (uniq lt x ys))" "frame (nodes l (us @ x # ys)) h1 h'"
      using "2.IH"(1) [OF True h1(2)] by blast
    have "list_unique_loop h l NULL x lt = Some h'"
      using True nx ne h1(1) h'(1) list_end_dll [OF d]
      by (subst list_unique_loop.simps) (simp add: equiv_to_def)
    moreover have "frame (nodes l (us @ x # y # ys)) h h'"
      by (rule frame_mono [OF frame_trans [OF h1(3) h'(3)]]) (auto simp: nodes_def)
    ultimately show ?thesis using h'(2) True by auto
  next
    case False
    obtain h' where h': "list_unique_loop h l NULL y lt = Some h'"
        "dll h' l ((us @ [x]) @ fst (uniq lt y ys))" "frame (nodes l ((us @ [x]) @ y # ys)) h h'"
      using "2.IH"(3) [OF False, of h "us @ [x]"] d by auto
    have "list_unique_loop h l NULL x lt = Some h'"
      using False nx ne h'(1) list_end_dll [OF d]
      by (subst list_unique_loop.simps) (auto simp: equiv_to_def)
    then show ?thesis using h'(2,3) False by auto
  qed
qed

lemma list_unique_loop_dups:
  "dll h l (us @ x # ys) \<Longrightarrow> dll h m zs \<Longrightarrow> nodes l (us @ x # ys) \<inter> nodes m zs = {} \<Longrightarrow>
   \<exists>h'. list_unique_loop h l m x lt = Some h' \<and> dll h' l (us @ fst (uniq lt x ys)) \<and>
     dll h' m (zs @ snd (uniq lt x ys)) \<and>
     frame (nodes l (us @ x # ys) \<union> nodes m zs) h h'"
proof (induction lt x ys arbitrary: us h zs rule: uniq.induct)
  case (1 lt x)
  then have "list_next h x = Some (l + 16)" using list_next_elem [of h l us x "[]"] by simp
  with 1 show ?case by (subst list_unique_loop.simps) (simp add: list_end_dll)
next
  case (2 lt x y ys)
  note d = \<open>dll h l (us @ x # y # ys)\<close> and dm = \<open>dll h m zs\<close>
    and dj = \<open>nodes l (us @ x # y # ys) \<inter> nodes m zs = {}\<close>
  have nx: "list_next h x = Some y" using list_next_elem [OF d] by simp
  have ne: "y \<noteq> l + 16" using dll_nonnull [OF d] by auto
  show ?case
  proof (cases "equiv_to lt x y")
    case True
    let ?S = "nodes l (us @ x # y # ys) \<union> nodes m zs"
    obtain n h1 where h1: "list_remove h y = Some (n, h1)" "dll h1 l (us @ x # ys)"
        "frame (nodes l (us @ x # ys)) h h1"
      using list_remove_dll [of h l "us @ [x]" y ys] d by auto
    have sub: "nodes l (us @ x # ys) \<subseteq> nodes l (us @ x # y # ys)" by (auto simp: nodes_def)
    have dm1: "dll h1 m zs" by (rule dll_frame [OF dm h1(3)]) (use dj sub in blast)
    have y: "y \<noteq> NULL" "y \<notin> nodes m zs" "y \<notin> nodes l (us @ x # ys)"
      using dll_nonnull [OF d] dj by (auto simp: nodes_def)
    obtain h2 where h2: "list_push_back h1 m y = Some h2" "dll h2 m (zs @ [y])"
        "frame (insert y (nodes m zs)) h1 h2"
      using list_push_back_dll [OF dm1 y(1,2)] by blast
    have d2: "dll h2 l (us @ x # ys)"
      by (rule dll_frame [OF h1(2) h2(3)]) (use dj sub y(3) in blast)
    have dj2: "nodes l (us @ x # ys) \<inter> nodes m (zs @ [y]) = {}"
      using dj sub y(3) by (auto simp: nodes_def)
    obtain h' where h': "list_unique_loop h2 l m x lt = Some h'"
        "dll h' l (us @ fst (uniq lt x ys))" "dll h' m ((zs @ [y]) @ snd (uniq lt x ys))"
        "frame (nodes l (us @ x # ys) \<union> nodes m (zs @ [y])) h2 h'"
      using "2.IH"(1) [OF True d2 h2(2) dj2] by blast
    have "list_unique_loop h l m x lt = Some h'"
      using True nx ne h1(1) h2(1) h'(1) list_end_dll [OF d] dll_nonnull(1) [OF dm]
      by (subst list_unique_loop.simps) (simp add: equiv_to_def)
    moreover have "frame ?S h h'"
      by (rule frame_trans [OF frame_mono [OF h1(3)]
            frame_trans [OF frame_mono [OF h2(3)] frame_mono [OF h'(4)]]])
        (auto simp: nodes_def)
    ultimately show ?thesis using h'(2,3) True by auto
  next
    case False
    obtain h' where h': "list_unique_loop h l m y lt = Some h'"
        "dll h' l ((us @ [x]) @ fst (uniq lt y ys))" "dll h' m (zs @ snd (uniq lt y ys))"
        "frame (nodes l ((us @ [x]) @ y # ys) \<union> nodes m zs) h h'"
      using "2.IH"(3) [OF False, of h "us @ [x]" zs] d dm dj by auto
    have "list_unique_loop h l m x lt = Some h'"
      using False nx ne h'(1) list_end_dll [OF d]
      by (subst list_unique_loop.simps) (auto simp: equiv_to_def)
    then show ?thesis using h'(2-4) False by auto
  qed
qed

subsection \<open>Minimum and maximum\<close>

lemma list_max_loop_dll:
  "dll h l (us @ vs) \<Longrightarrow>
   list_max_loop h l mx (hd (vs @ [l + 16])) lt =
   Some (foldl (\<lambda>m e. if lt m e then e else m) mx vs)"
proof (induction vs arbitrary: us mx)
  case Nil
  then show ?case by (subst list_max_loop.simps) (simp add: list_end_dll)
next
  case (Cons v vs)
  have "v \<noteq> l + 16" using dll_nonnull [OF Cons.prems] by auto
  moreover have "list_next h v = Some (hd (vs @ [l + 16]))" by (rule list_next_elem [OF Cons.prems])
  ultimately show ?case
    using Cons.prems Cons.IH [of "us @ [v]"]
    by (subst list_max_loop.simps) (simp add: list_end_dll)
qed

lemma list_min_loop_dll:
  "dll h l (us @ vs) \<Longrightarrow>
   list_min_loop h l mn (hd (vs @ [l + 16])) lt =
   Some (foldl (\<lambda>m e. if lt e m then e else m) mn vs)"
proof (induction vs arbitrary: us mn)
  case Nil
  then show ?case by (subst list_min_loop.simps) (simp add: list_end_dll)
next
  case (Cons v vs)
  have "v \<noteq> l + 16" using dll_nonnull [OF Cons.prems] by auto
  moreover have "list_next h v = Some (hd (vs @ [l + 16]))" by (rule list_next_elem [OF Cons.prems])
  ultimately show ?case
    using Cons.prems Cons.IH [of "us @ [v]"]
    by (subst list_min_loop.simps) (simp add: list_end_dll)
qed

lemma first_extremum:
  assumes w: "strict_weak lt"
  shows "\<exists>us ws. x # xs = us @ foldl (\<lambda>m e. if lt m e then e else m) x xs # ws \<and>
     (\<forall>y\<in>set us. lt y (foldl (\<lambda>m e. if lt m e then e else m) x xs)) \<and>
     (\<forall>y\<in>set ws. \<not> lt (foldl (\<lambda>m e. if lt m e then e else m) x xs) y)"
proof (induction xs rule: rev_induct)
  case Nil
  show ?case by (rule exI [of _ "[]"]) simp
next
  case (snoc e xs)
  let ?m = "foldl (\<lambda>m e. if lt m e then e else m) x xs"
  obtain us ws where ih: "x # xs = us @ ?m # ws" "\<forall>y\<in>set us. lt y ?m" "\<forall>y\<in>set ws. \<not> lt ?m y"
    using snoc.IH by blast
  show ?case
  proof (cases "lt ?m e")
    case True
    have "lt y e" if "y \<in> set (x # xs)" for y
    proof -
      have "lt y ?m \<or> y = ?m \<or> \<not> lt ?m y" using ih that by auto
      then show ?thesis
        using True strict_weak_trans [OF w] strict_weakD(2) [OF w, where x = e and y = y and z = ?m]
          strict_weakD(1) [OF w] by blast
    qed
    moreover have "foldl (\<lambda>m e. if lt m e then e else m) x (xs @ [e]) = e" using True by simp
    ultimately show ?thesis by (intro exI [of _ "x # xs"] exI [of _ "[]"]) simp
  next
    case False
    then have "foldl (\<lambda>m e. if lt m e then e else m) x (xs @ [e]) = ?m" by simp
    moreover have "x # xs @ [e] = us @ ?m # (ws @ [e])" using ih(1) by simp
    ultimately show ?thesis
      using ih(2,3) False by (intro exI [of _ us] exI [of _ "ws @ [e]"]) simp
  qed
qed

lemma list_unique_dll:
  assumes d: "dll h l (x # xs)" and dm: "dll h m zs" and dj: "nodes l (x # xs) \<inter> nodes m zs = {}"
  shows "\<exists>h'. list_unique h l m lt = Some h' \<and> dll h' l (fst (uniq lt x xs)) \<and>
    dll h' m (zs @ snd (uniq lt x xs)) \<and> frame (nodes l (x # xs) \<union> nodes m zs) h h'"
  using list_unique_loop_dups [of h l "[]" x xs m zs lt] assms
  by (simp add: list_unique_def list_empty_dll list_begin_dll dll_nonnull)

lemma list_unique_none_dll:
  assumes d: "dll h l (x # xs)"
  shows "\<exists>h'. list_unique h l NULL lt = Some h' \<and> dll h' l (fst (uniq lt x xs)) \<and>
    frame (nodes l (x # xs)) h h'"
  using list_unique_loop_none [of h l "[]" x xs lt] assms
  by (simp add: list_unique_def list_empty_dll list_begin_dll dll_nonnull)

lemma list_max_dll:
  assumes d: "dll h l (x # xs)"
  shows "list_max h l lt = Some (foldl (\<lambda>m e. if lt m e then e else m) x xs)"
proof -
  have "x \<noteq> l + 16" using dll_nonnull [OF d] by auto
  moreover have "list_next h x = Some (hd (xs @ [l + 16]))" using list_next_elem [of h l "[]"] d by simp
  ultimately show ?thesis
    using list_max_loop_dll [of h l "[x]" xs x lt] d
    by (simp add: list_max_def list_begin_dll list_end_dll)
qed

lemma list_min_dll:
  assumes d: "dll h l (x # xs)"
  shows "list_min h l lt = Some (foldl (\<lambda>m e. if lt e m then e else m) x xs)"
proof -
  have "x \<noteq> l + 16" using dll_nonnull [OF d] by auto
  moreover have "list_next h x = Some (hd (xs @ [l + 16]))" using list_next_elem [of h l "[]"] d by simp
  ultimately show ?thesis
    using list_min_loop_dll [of h l "[x]" xs x lt] d
    by (simp add: list_min_def list_begin_dll list_end_dll)
qed

lemma strict_weak_converse: "strict_weak lt \<Longrightarrow> strict_weak (\<lambda>x y. lt y x)"
  unfolding strict_weak_def by blast

lemma strict_weak_linorder: "strict_weak (\<lambda>x y. f x < (f y :: int))"
  by (auto simp: strict_weak_def)

subsection \<open>Properties\<close>

text \<open>
  C4: \<open>list_sort\<close>, the in-place natural merge sort of the linked list, returns for every
  strict weak order: its passes end, none of its assertions fails, and it leaves a well-formed
  list of the same elements, in nondecreasing order and with equivalent elements in their
  original order, without touching any pointer outside the list.
\<close>

theorem list_sort_correct:
  assumes "strict_weak lt" and "dll h l xs"
  shows "\<exists>h' ys. list_sort h l lt = Some h' \<and> dll h' l ys \<and> mset ys = mset xs \<and>
    sorted_by lt ys \<and> (\<forall>x. filter (equiv_to lt x) ys = filter (equiv_to lt x) xs) \<and>
    frame (nodes l xs) h h'"
  using list_sort_dll [OF assms] by blast

theorem list_sort_correct_witness:
  "\<exists>h' ys. list_sort \<lparr>prv = [8 \<mapsto> 0, 80 \<mapsto> 8, 40 \<mapsto> 80, 24 \<mapsto> 40],
      nxt = [8 \<mapsto> 80, 80 \<mapsto> 40, 40 \<mapsto> 24, 24 \<mapsto> 0]\<rparr> 8 (\<lambda>x y. x < y) = Some h' \<and>
    dll h' 8 ys \<and> mset ys = {#40, 80#} \<and> sorted_by (\<lambda>x y. x < y) ys"
proof -
  have "dll \<lparr>prv = [8 \<mapsto> 0, 80 \<mapsto> 8, 40 \<mapsto> 80, 24 \<mapsto> 40],
      nxt = [8 \<mapsto> 80, 80 \<mapsto> 40, 40 \<mapsto> 24, 24 \<mapsto> 0]\<rparr> 8 [80, 40]"
    by (simp add: dll_def)
  from list_sort_correct [OF strict_weak_linorder [of "\<lambda>x. x"] this]
  show ?thesis by (auto simp: add_mset_commute)
qed

text \<open>
  \<open>list_unique\<close> on a nonempty list and a separate list of duplicates returns; the list keeps
  the first element of every group of adjacent equivalent elements (no two neighbours are
  equivalent any more), the removed elements are appended to the duplicates in order, each of
  them equivalent to an element that was kept, and no element is lost.
\<close>

theorem list_unique_correct:
  assumes "strict_weak lt" "dll h l (x # xs)" "dll h m zs"
    and "nodes l (x # xs) \<inter> nodes m zs = {}"
  shows "\<exists>h' ks ds. list_unique h l m lt = Some h' \<and> dll h' l ks \<and> dll h' m (zs @ ds) \<and>
    mset ks + mset ds = mset (x # xs) \<and> successively (\<lambda>a b. \<not> equiv_to lt a b) ks \<and>
    (\<forall>d\<in>set ds. \<exists>k\<in>set ks. equiv_to lt k d)"
  using list_unique_dll [OF assms(2-4), of lt] mset_uniq [of lt x xs]
    uniq_no_adjacent [OF assms(1), of x xs] uniq_removed [of _ lt x xs]
  by (metis mset.simps(2))

theorem list_unique_correct_witness:
  "\<exists>h' ks ds. list_unique \<lparr>prv = [8 \<mapsto> 0, 80 \<mapsto> 8, 81 \<mapsto> 80, 24 \<mapsto> 81, 200 \<mapsto> 0, 216 \<mapsto> 200],
      nxt = [8 \<mapsto> 80, 80 \<mapsto> 81, 81 \<mapsto> 24, 24 \<mapsto> 0, 200 \<mapsto> 216, 216 \<mapsto> 0]\<rparr> 8 200
      (\<lambda>x y. x div 2 < y div 2) = Some h' \<and>
    dll h' 8 ks \<and> dll h' 200 ([] @ ds) \<and> mset ks + mset ds = mset [80, 81]"
proof -
  let ?h = "\<lparr>prv = [8 \<mapsto> 0, 80 \<mapsto> 8, 81 \<mapsto> 80, 24 \<mapsto> 81, 200 \<mapsto> 0, 216 \<mapsto> 200],
      nxt = [8 \<mapsto> 80, 80 \<mapsto> 81, 81 \<mapsto> 24, 24 \<mapsto> 0, 200 \<mapsto> 216, 216 \<mapsto> 0]\<rparr> :: lheap"
  have "dll ?h 8 [80, 81]" "dll ?h 200 []" "nodes 8 [80, 81] \<inter> nodes 200 [] = {}"
    by (simp_all add: dll_def nodes_def)
  from list_unique_correct [OF strict_weak_linorder [of "\<lambda>x. x div 2"] this]
  show ?thesis by blast
qed

text \<open>
  \<open>list_insert_ordered\<close> into a sorted list returns a sorted, well-formed list with exactly
  the new element added.
\<close>

theorem list_insert_ordered_correct:
  assumes "strict_weak lt" "dll h l xs" "sorted_by lt xs" "e \<noteq> NULL" "e \<notin> nodes l xs"
  shows "\<exists>h' ys. list_insert_ordered h l e lt = Some h' \<and> dll h' l ys \<and> sorted_by lt ys \<and>
    mset ys = add_mset e (mset xs) \<and> frame (insert e (nodes l xs)) h h'"
  using list_insert_ordered_dll [OF assms(2,4,5), of lt] insert_ordered_sorted [OF assms(1,3)]
    mset_insert_ordered by blast

theorem list_insert_ordered_correct_witness:
  "\<exists>h' ys. list_insert_ordered \<lparr>prv = [8 \<mapsto> 0, 80 \<mapsto> 8, 24 \<mapsto> 80],
      nxt = [8 \<mapsto> 80, 80 \<mapsto> 24, 24 \<mapsto> 0]\<rparr> 8 40 (\<lambda>x y. x < y) = Some h' \<and>
    dll h' 8 ys \<and> sorted_by (\<lambda>x y. x < y) ys \<and> mset ys = {#40, 80#}"
proof -
  let ?h = "\<lparr>prv = [8 \<mapsto> 0, 80 \<mapsto> 8, 24 \<mapsto> 80], nxt = [8 \<mapsto> 80, 80 \<mapsto> 24, 24 \<mapsto> 0]\<rparr> :: lheap"
  have "dll ?h 8 [80]" "sorted_by (\<lambda>x y. x < y) [80]" "(40::ptr) \<noteq> NULL" "(40::ptr) \<notin> nodes 8 [80]"
    by (simp_all add: dll_def sorted_by_def nodes_def)
  from list_insert_ordered_correct [OF strict_weak_linorder [of "\<lambda>x. x"] this]
  show ?thesis by auto
qed

text \<open>
  \<open>list_max\<close> and \<open>list_min\<close> on a nonempty list return an element of it that none exceeds
  (undercuts), and of several such the one that comes first.
\<close>

theorem list_extrema_correct:
  assumes "strict_weak lt" "dll h l (x # xs)"
  shows "(\<exists>mx us ws. list_max h l lt = Some mx \<and> x # xs = us @ mx # ws \<and>
            (\<forall>y\<in>set us. lt y mx) \<and> (\<forall>y\<in>set ws. \<not> lt mx y)) \<and>
         (\<exists>mn us ws. list_min h l lt = Some mn \<and> x # xs = us @ mn # ws \<and>
            (\<forall>y\<in>set us. lt mn y) \<and> (\<forall>y\<in>set ws. \<not> lt y mn))"
  using first_extremum [OF assms(1), of x xs]
    first_extremum [OF strict_weak_converse [OF assms(1)], of x xs]
    list_max_dll [OF assms(2), of lt] list_min_dll [OF assms(2), of lt] by blast

theorem list_extrema_correct_witness:
  "\<exists>mx. list_max \<lparr>prv = [8 \<mapsto> 0, 80 \<mapsto> 8, 40 \<mapsto> 80, 24 \<mapsto> 40],
      nxt = [8 \<mapsto> 80, 80 \<mapsto> 40, 40 \<mapsto> 24, 24 \<mapsto> 0]\<rparr> 8 (\<lambda>x y. x < y) = Some mx \<and> mx \<in> set [80, 40]"
proof -
  have "dll \<lparr>prv = [8 \<mapsto> 0, 80 \<mapsto> 8, 40 \<mapsto> 80, 24 \<mapsto> 40],
      nxt = [8 \<mapsto> 80, 80 \<mapsto> 40, 40 \<mapsto> 24, 24 \<mapsto> 0]\<rparr> 8 [80, 40]"
    by (simp add: dll_def)
  from list_extrema_correct [OF strict_weak_linorder [of "\<lambda>x. x"] this]
  show ?thesis by (metis in_set_conv_decomp)
qed

text \<open>
  \<open>list_splice\<close> moves a nonempty run of elements of one list before a position of another
  list: both lists stay well linked, in both directions, and no other element is touched.
\<close>

theorem list_splice_correct:
  assumes "dll h l (ps @ fs @ qs)" "dll h m (us @ vs)" "fs \<noteq> []"
    "nodes l (ps @ fs @ qs) \<inter> nodes m (us @ vs) = {}"
  shows "\<exists>h'. list_splice h (hd (vs @ [m + 16])) (hd fs) (hd (qs @ [l + 16])) = Some h' \<and>
    dll h' l (ps @ qs) \<and> dll h' m (us @ fs @ vs) \<and>
    frame (nodes l (ps @ fs @ qs) \<union> nodes m (us @ vs)) h h'"
  by (rule list_splice_other [OF assms])

theorem list_splice_correct_witness:
  "\<exists>h'. list_splice \<lparr>prv = [8 \<mapsto> 0, 80 \<mapsto> 8, 81 \<mapsto> 80, 24 \<mapsto> 81, 200 \<mapsto> 0, 216 \<mapsto> 200],
      nxt = [8 \<mapsto> 80, 80 \<mapsto> 81, 81 \<mapsto> 24, 24 \<mapsto> 0, 200 \<mapsto> 216, 216 \<mapsto> 0]\<rparr> 216 81 24 = Some h' \<and>
    dll h' 8 [80] \<and> dll h' 200 [81]"
proof -
  let ?h = "\<lparr>prv = [8 \<mapsto> 0, 80 \<mapsto> 8, 81 \<mapsto> 80, 24 \<mapsto> 81, 200 \<mapsto> 0, 216 \<mapsto> 200],
      nxt = [8 \<mapsto> 80, 80 \<mapsto> 81, 81 \<mapsto> 24, 24 \<mapsto> 0, 200 \<mapsto> 216, 216 \<mapsto> 0]\<rparr> :: lheap"
  have "dll ?h 8 ([80] @ [81] @ [])" "dll ?h 200 ([] @ [])" "nodes 8 ([80] @ [81] @ []) \<inter> nodes 200 ([] @ []) = {}"
    by (simp_all add: dll_def nodes_def)
  from list_splice_correct [OF this(1,2) _ this(3)] show ?thesis by auto
qed

text \<open>
  \<open>list_reverse\<close> terminates and reverses the list in place, in both directions of linking.
\<close>

theorem list_reverse_correct:
  assumes "dll h l xs"
  shows "\<exists>h'. list_reverse h l = Some h' \<and> dll h' l (rev xs) \<and> frame (nodes l xs) h h'"
  by (rule list_reverse_dll [OF assms])

theorem list_reverse_correct_witness:
  "\<exists>h'. list_reverse \<lparr>prv = [8 \<mapsto> 0, 80 \<mapsto> 8, 40 \<mapsto> 80, 24 \<mapsto> 40],
      nxt = [8 \<mapsto> 80, 80 \<mapsto> 40, 40 \<mapsto> 24, 24 \<mapsto> 0]\<rparr> 8 = Some h' \<and> dll h' 8 [40, 80]"
proof -
  have "dll \<lparr>prv = [8 \<mapsto> 0, 80 \<mapsto> 8, 40 \<mapsto> 80, 24 \<mapsto> 40],
      nxt = [8 \<mapsto> 80, 80 \<mapsto> 40, 40 \<mapsto> 24, 24 \<mapsto> 0]\<rparr> 8 [80, 40]"
    by (simp add: dll_def)
  from list_reverse_correct [OF this] show ?thesis by auto
qed

end
