(* ===== verification/Trace.thy ===== *)
theory Trace
  imports Complex_Main Scan
begin

text \<open>
  The traces of \<open>malloclab/mdriver.c\<close>: \<open>traceop_t\<close>, \<open>trace_t\<close> and \<open>read_trace\<close> on the characters
  of a trace file.  The files are a map from paths to contents.  A left value of the sum is a call
  of \<open>exit\<close> after the message.  \<open>None\<close> is a failed assertion, \<open>abort\<close>, or an access outside an
  array, among them a request beyond the array of \<open>num_ops\<close> requests: the code compares the two
  numbers only after the file has been read.  The size that a FREE request leaves unset is not
  part of it; \<open>multiplier\<close> takes the values 0.75, 1 and 1.25, whose products with an \<open>int\<close> are exact.
\<close>

datatype traceop = ALLOC int int | FREE int | REALLOC int int

record trace_t =
  sugg_heapsize :: int
  num_ids :: int
  num_ops :: int
  weight :: int
  multiplier :: rat
  ops :: "traceop list"
  blocks :: "ptr option list"
  block_sizes :: "int option list"

definition MAXLINE :: int where "MAXLINE = 1024"

definition u32 :: "int \<Rightarrow> int" where "u32 x = x mod 2 ^ 32"

text \<open>The literal \<open>d\<close> of the conversion \<open>%ud\<close> in the code.\<close>

definition match_d :: "string \<Rightarrow> string" where
  "match_d s = (case s of [] \<Rightarrow> s | c # cs \<Rightarrow> if c = CHR ''d'' then cs else s)"

lemma match_d_length: "length (match_d s) \<le> length s"
  by (cases s) (auto simp: match_d_def)

function read_ops :: "int \<Rightarrow> string \<Rightarrow> string \<Rightarrow> int \<Rightarrow> traceop list \<Rightarrow> (string + traceop list \<times> int) option" where
  "read_ops n path s max_index acc =
     (case fscanf_s s of None \<Rightarrow> Some (Inr (acc, max_index))
      | Some (ty, s1) \<Rightarrow>
          if MAXLINE \<le> int (length ty) then None
          else if hd ty = CHR ''a'' then do {
            (index, s2) \<leftarrow> fscanf_u s1;
            (sz, s3) \<leftarrow> fscanf_u s2;
            assert_c (int (length acc) < n);
            read_ops n path s3 (if index > max_index then index else max_index)
              (acc @ [ALLOC (s32 index) (s32 sz)])
          } else if hd ty = CHR ''r'' then do {
            (index, s2) \<leftarrow> fscanf_u s1;
            (sz, s3) \<leftarrow> fscanf_u s2;
            assert_c (int (length acc) < n);
            read_ops n path s3 (if index > max_index then index else max_index)
              (acc @ [REALLOC (s32 index) (s32 sz)])
          } else if hd ty = CHR ''f'' then do {
            (index, s2) \<leftarrow> fscanf_u s1;
            assert_c (int (length acc) < n);
            read_ops n path (match_d s2) max_index (acc @ [FREE (s32 index)])
          } else Some (Inl (''Bogus type character ('' @ [hd ty] @ '') in tracefile '' @ path)))"
  by pat_completeness auto

termination
  by (relation "measure (\<lambda>(n, path, s, m, acc). length s)")
    (auto dest!: fscanf_s_length fscanf_u_length intro: le_less_trans [OF match_d_length])

declare read_ops.simps [simp del]

definition read_trace :: "(string \<Rightarrow> string option) \<Rightarrow> string \<Rightarrow> string \<Rightarrow> (string + trace_t) option" where
  "read_trace files tracedir filename = do {
     let path = tracedir @ filename;
     assert_c (int (length path) < MAXLINE);
     case files path of
       None \<Rightarrow> Some (Inl (''Could not open '' @ path @ '' in read_trace''))
     | Some s \<Rightarrow> do {
         (hs, s) \<leftarrow> fscanf_d s;
         (ids, s) \<leftarrow> fscanf_d s;
         (nops, s) \<leftarrow> fscanf_d s;
         (wt, s) \<leftarrow> fscanf_d s;
         if nops < 0 then Some (Inl ''malloc 2 failed in read_trace'')
         else if ids < 0 then Some (Inl ''malloc 3 failed in read_trace'')
         else do {
           r \<leftarrow> read_ops nops path s 0 [];
           case r of
             Inl e \<Rightarrow> Some (Inl e)
           | Inr (os, max_index) \<Rightarrow> do {
               assert_c (max_index = u32 (ids - 1));
               assert_c (u32 nops = int (length os));
               Some (Inr \<lparr>sugg_heapsize = hs, num_ids = ids, num_ops = nops, weight = wt, multiplier = 1,
                 ops = os, blocks = replicate (nat ids) None, block_sizes = replicate (nat ids) None\<rparr>)
             }
         }
       }
   }"

text \<open>The text of a trace file, as the traces of the repository are written.\<close>

fun show_op :: "traceop \<Rightarrow> string" where
  "show_op (ALLOC i sz) = ''a '' @ show_nat (nat i) @ '' '' @ show_nat (nat sz) @ [CHR 0x0A]"
| "show_op (REALLOC i sz) = ''r '' @ show_nat (nat i) @ '' '' @ show_nat (nat sz) @ [CHR 0x0A]"
| "show_op (FREE i) = ''f '' @ show_nat (nat i) @ [CHR 0x0A]"

definition show_trace :: "trace_t \<Rightarrow> string" where
  "show_trace t =
     concat (map (\<lambda>n. show_nat (nat n) @ [CHR 0x0A]) [sugg_heapsize t, num_ids t, num_ops t, weight t]) @
     concat (map show_op (ops t))"

text \<open>
  A trace whose numbers are those \<open>read_trace\<close> checks: every index below \<open>num_ids\<close>, the highest of
  those that are allocated being \<open>num_ids - 1\<close>, and \<open>num_ops\<close> the number of requests.
\<close>

fun op_ok :: "int \<Rightarrow> traceop \<Rightarrow> bool" where
  "op_ok ids (ALLOC i sz) = (0 \<le> i \<and> i < ids \<and> 0 \<le> sz \<and> sz < 2 ^ 31)"
| "op_ok ids (REALLOC i sz) = (0 \<le> i \<and> i < ids \<and> 0 \<le> sz \<and> sz < 2 ^ 31)"
| "op_ok ids (FREE i) = (0 \<le> i \<and> i < ids)"

fun op_sets :: "traceop \<Rightarrow> int option" where
  "op_sets (ALLOC i sz) = Some i"
| "op_sets (REALLOC i sz) = Some i"
| "op_sets (FREE i) = None"

definition trace_ok :: "trace_t \<Rightarrow> bool" where
  "trace_ok t \<longleftrightarrow> 0 \<le> sugg_heapsize t \<and> sugg_heapsize t < 2 ^ 31 \<and> 0 \<le> weight t \<and> weight t < 2 ^ 31 \<and>
     0 < num_ids t \<and> num_ids t < 2 ^ 31 \<and> num_ops t < 2 ^ 31 \<and> num_ops t = int (length (ops t)) \<and>
     list_all (op_ok (num_ids t)) (ops t) \<and> (\<exists>p\<in>set (ops t). op_sets p = Some (num_ids t - 1)) \<and>
     multiplier t = 1 \<and>
     blocks t = replicate (nat (num_ids t)) None \<and> block_sizes t = replicate (nat (num_ids t)) None"

definition max_set :: "int \<Rightarrow> traceop list \<Rightarrow> int" where
  "max_set m os = foldl (\<lambda>m p. case op_sets p of None \<Rightarrow> m | Some i \<Rightarrow> max m i) m os"

lemma max_set_eq:
  assumes "list_all (op_ok ids) os" "m \<le> ids - 1"
  shows "max_set m os \<le> ids - 1 \<and> (m = ids - 1 \<or> (\<exists>p\<in>set os. op_sets p = Some (ids - 1)) \<longrightarrow> max_set m os = ids - 1)"
  using assms
proof (induction os arbitrary: m)
  case (Cons p os)
  define m' where "m' = (case op_sets p of None \<Rightarrow> m | Some i \<Rightarrow> max m i)"
  have "m' \<le> ids - 1" "op_sets p = Some (ids - 1) \<longrightarrow> m' = ids - 1" "m = ids - 1 \<longrightarrow> m' = ids - 1"
    using Cons.prems by (cases p; auto simp: m'_def)+
  moreover have "max_set m (p # os) = max_set m' os" by (simp add: max_set_def m'_def)
  ultimately show ?case using Cons.IH [of m'] Cons.prems(1) by auto
qed (simp add: max_set_def)

lemma spaces: "isspace CHR '' ''" "isspace CHR 0x0A" "\<not> isspace CHR ''a''" "\<not> isspace CHR ''r''"
  "\<not> isspace CHR ''f''" "\<not> isdigit CHR '' ''" "\<not> isdigit CHR 0x0A"
  by (simp_all add: isspace_def isdigit_def)

lemma s32_idx: "0 \<le> x \<Longrightarrow> x < 2 ^ 31 \<Longrightarrow> s32 x = x"
  by (rule s32_id) auto

lemma read_op:
  assumes "op_ok ids p" "ids < 2 ^ 31" "int (length acc) < n"
  shows "read_ops n path (CHR 0x0A # show_op p @ s) m acc =
    read_ops n path (CHR 0x0A # s) (case op_sets p of None \<Rightarrow> m | Some i \<Rightarrow> max m i) (acc @ [p])"
proof -
  have w: "fscanf_s (CHR 0x0A # c # CHR '' '' # r) = Some ([c], CHR '' '' # r)" if "\<not> isspace c" for c r
    using fscanf_s_word [of "[CHR 0x0A]" "[c]" "CHR '' '' # r"] that spaces by (simp add: starts_with_def)
  have u: "fscanf_u (CHR '' '' # show_nat (nat i) @ c # r) = Some (i, c # r)"
    if "0 \<le> i" "i < 2 ^ 31" "\<not> isdigit c" for i c r
    using fscanf_u_show [of "[CHR '' '']" "c # r" "nat i"] that spaces by (simp add: starts_with_def)
  show ?thesis
  proof (cases p)
    case (ALLOC i sz)
    then have i: "0 \<le> i" "i < 2 ^ 31" "0 \<le> sz" "sz < 2 ^ 31" using assms(1,2) by auto
    show ?thesis
      using ALLOC w [of "CHR ''a''" "show_nat (nat i) @ CHR '' '' # show_nat (nat sz) @ CHR 0x0A # s"]
        u [OF i(1,2), of "CHR '' ''" "show_nat (nat sz) @ CHR 0x0A # s"] u [OF i(3,4), of "CHR 0x0A" s]
        spaces i assms(3)
      by (subst read_ops.simps) (simp add: MAXLINE_def s32_idx max_def)
  next
    case (REALLOC i sz)
    then have i: "0 \<le> i" "i < 2 ^ 31" "0 \<le> sz" "sz < 2 ^ 31" using assms(1,2) by auto
    show ?thesis
      using REALLOC w [of "CHR ''r''" "show_nat (nat i) @ CHR '' '' # show_nat (nat sz) @ CHR 0x0A # s"]
        u [OF i(1,2), of "CHR '' ''" "show_nat (nat sz) @ CHR 0x0A # s"] u [OF i(3,4), of "CHR 0x0A" s]
        spaces i assms(3)
      by (subst read_ops.simps) (simp add: MAXLINE_def s32_idx max_def)
  next
    case (FREE i)
    then have i: "0 \<le> i" "i < 2 ^ 31" using assms(1,2) by auto
    show ?thesis
      using FREE w [of "CHR ''f''" "show_nat (nat i) @ CHR 0x0A # s"] u [OF i(1,2), of "CHR 0x0A" s]
        spaces i assms(3)
      by (subst read_ops.simps) (simp add: MAXLINE_def s32_idx match_d_def)
  qed
qed

lemma read_ops_show:
  assumes "list_all (op_ok ids) os" "ids < 2 ^ 31" "int (length acc + length os) \<le> n"
  shows "read_ops n path (CHR 0x0A # concat (map show_op os)) m acc = Some (Inr (acc @ os, max_set m os))"
  using assms
proof (induction os arbitrary: acc m)
  case Nil
  then have "fscanf_s [CHR 0x0A] = None" using spaces by (intro fscanf_s_end) auto
  then show ?case by (subst read_ops.simps) (simp add: max_set_def)
next
  case (Cons p os)
  then show ?case
    using read_op [of ids p acc n path "concat (map show_op os)" m] Cons.IH [of "acc @ [p]"]
    by (simp add: max_set_def)
qed

text \<open>
  C15: \<open>read_trace\<close> reads back every trace that is written in the format of the trace files: the
  header, the requests in order, and arrays of \<open>num_ids\<close> unset entries.
\<close>

theorem read_trace_show:
  assumes "trace_ok t" "files (dir @ name) = Some (show_trace t)" "int (length (dir @ name)) < MAXLINE"
  shows "read_trace files dir name = Some (Inr t)"
proof -
  have d: "fscanf_d (ws @ show_nat k @ CHR 0x0A # r) = Some (int k, CHR 0x0A # r)"
    if "int k < 2 ^ 31" "ws \<in> {[], [CHR 0x0A]}" for k ws r
    using fscanf_d_show [of ws "CHR 0x0A # r" k] that spaces by (auto simp: starts_with_def)
  note d' = d [of _ "[]", simplified] d [of _ "[CHR 0x0A]", simplified]
  have r: "read_ops (num_ops t) (dir @ name) (CHR 0x0A # concat (map show_op (ops t))) 0 [] =
      Some (Inr (ops t, max_set 0 (ops t)))"
    using read_ops_show [of "num_ids t" "ops t" "[]" "num_ops t" "dir @ name" 0] assms(1)
    by (auto simp: trace_ok_def)
  have m: "max_set 0 (ops t) = num_ids t - 1"
    using max_set_eq [of "num_ids t" "ops t" 0] assms(1) by (simp add: trace_ok_def)
  have "nat (sugg_heapsize t) < 2147483648" "nat (num_ids t) < 2147483648" "length (ops t) < 2147483648"
      "nat (weight t) < 2147483648"
    using assms(1) by (auto simp: trace_ok_def)
  moreover have "u32 (num_ids t - 1) = num_ids t - 1" "u32 (num_ops t) = num_ops t" "0 \<le> num_ops t"
    using assms(1) by (simp_all add: trace_ok_def u32_def)
  ultimately show ?thesis
    using assms d' r m by (simp add: read_trace_def show_trace_def trace_ok_def)
qed

text \<open>The trace of the repository's shortest example: two blocks, one released.\<close>

definition sample_trace :: trace_t where
  "sample_trace =
     \<lparr>sugg_heapsize = 20000, num_ids = 2, num_ops = 4, weight = 1, multiplier = 1,
      ops = [ALLOC 0 512, ALLOC 1 128, REALLOC 0 640, FREE 1],
      blocks = [None, None], block_sizes = [None, None]\<rparr>"

lemma sample_trace_ok: "trace_ok sample_trace"
  by (simp add: trace_ok_def sample_trace_def numeral_2_eq_2)

theorem read_trace_show_witness:
  "read_trace [''./short.rep'' \<mapsto> show_trace sample_trace] ''./'' ''short.rep'' = Some (Inr sample_trace)"
  by (rule read_trace_show [OF sample_trace_ok]) (simp_all add: MAXLINE_def)

end
