(* ===== verification/Alloc_Iface.thy ===== *)
theory Alloc_Iface
  imports Prelude
begin

text \<open>
  The interface between the allocator that is linked into the test driver of \<open>malloclab\<close> and its
  client.  A record holds the operations the driver calls (and the access to payload bytes through
  the pointers it was given); the locale \<open>heap_ops\<close> states the laws of the calls that
  the driver is to check, \<open>heap_alloc\<close> adds the start from an empty heap.
  \<open>ok s U\<close> says that the state \<open>s\<close> is well-formed and \<open>U\<close> are the live payloads, each with its
  address and its capacity in bytes.  \<open>total_alloc\<close> adds that \<open>realloc\<close> never aborts, which the
  reference allocator satisfies and the allocator of \<open>mm.c\<close> does not.
\<close>

record 's alloc_ops =
  op_reset :: "'s \<Rightarrow> 's"
  op_init :: "'s \<Rightarrow> (int \<times> 's) option"
  op_malloc :: "'s \<Rightarrow> int \<Rightarrow> (ptr \<times> 's) option"
  op_free :: "'s \<Rightarrow> ptr \<Rightarrow> 's option"
  op_realloc :: "'s \<Rightarrow> ptr \<Rightarrow> int \<Rightarrow> (ptr \<times> 's) option"
  op_memset :: "'s \<Rightarrow> ptr \<Rightarrow> int \<Rightarrow> int \<Rightarrow> 's option"
  op_byte :: "'s \<Rightarrow> ptr \<Rightarrow> int"
  op_lo :: "'s \<Rightarrow> ptr"
  op_hi :: "'s \<Rightarrow> ptr"
  op_heapsize :: "'s \<Rightarrow> int"

text \<open>The largest request the laws speak of: the block size must fit the tags and \<open>mem_sbrk\<close>.\<close>

definition max_request :: int where "max_request = 2 ^ 31 - 24"

definition same_payloads :: "(ptr \<times> int) set \<Rightarrow> (ptr \<Rightarrow> int) \<Rightarrow> (ptr \<Rightarrow> int) \<Rightarrow> bool" where
  "same_payloads U b b' \<longleftrightarrow> (\<forall>(q, d)\<in>U. \<forall>i. 0 \<le> i \<and> i < d \<longrightarrow> b' (q + i) = b (q + i))"

lemma same_payloads_refl [simp]: "same_payloads U b b"
  by (auto simp: same_payloads_def)

lemma same_payloadsD: "same_payloads U b b' \<Longrightarrow> (q, d) \<in> U \<Longrightarrow> 0 \<le> i \<Longrightarrow> i < d \<Longrightarrow> b' (q + i) = b (q + i)"
  by (auto simp: same_payloads_def)

lemma same_payloads_via: "same_payloads U b b1 \<Longrightarrow> same_payloads U b b2 \<Longrightarrow> same_payloads U b1 b2"
  unfolding same_payloads_def by fastforce

locale heap_ops =
  fixes A :: "'s alloc_ops"
    and ok :: "'s \<Rightarrow> (ptr \<times> int) set \<Rightarrow> bool"
  assumes payload: "ok s U \<Longrightarrow> (p, c) \<in> U \<Longrightarrow>
      p \<noteq> NULL \<and> p mod 16 = 0 \<and> 0 < c \<and> op_lo A s \<le> p \<and> p + c - 1 \<le> op_hi A s"
    and apart: "ok s U \<Longrightarrow> (p, c) \<in> U \<Longrightarrow> (q, d) \<in> U \<Longrightarrow> p = q \<and> c = d \<or> p + c \<le> q \<or> q + d \<le> p"
    and malloc: "ok s U \<Longrightarrow> 0 < sz \<Longrightarrow> sz \<le> max_request \<Longrightarrow>
      \<exists>p s'. op_malloc A s sz = Some (p, s') \<and>
        (if p = NULL then s' = s
         else \<exists>c. sz \<le> c \<and> ok s' (insert (p, c) U) \<and> (p, c) \<notin> U \<and>
           same_payloads U (op_byte A s) (op_byte A s'))"
    and free: "ok s U \<Longrightarrow> (p, c) \<in> U \<Longrightarrow>
      \<exists>s'. op_free A s p = Some s' \<and> ok s' (U - {(p, c)}) \<and>
        same_payloads (U - {(p, c)}) (op_byte A s) (op_byte A s')"
    and realloc: "ok s U \<Longrightarrow> (p, c) \<in> U \<Longrightarrow> 0 < sz \<Longrightarrow> sz \<le> max_request \<Longrightarrow>
      op_realloc A s p sz = Some (r, s') \<Longrightarrow>
        (if r = NULL then s' = s
         else \<exists>d. sz \<le> d \<and> ok s' (insert (r, d) (U - {(p, c)})) \<and> (r, d) \<notin> U - {(p, c)} \<and>
           (\<forall>i. 0 \<le> i \<and> i < min sz c \<longrightarrow> op_byte A s' (r + i) = op_byte A s (p + i)) \<and>
           same_payloads (U - {(p, c)}) (op_byte A s) (op_byte A s'))"
    and memset: "ok s U \<Longrightarrow> (p, c) \<in> U \<Longrightarrow> 0 \<le> n \<Longrightarrow> n \<le> c \<Longrightarrow>
      \<exists>s'. op_memset A s p b n = Some s' \<and> ok s' U \<and>
        (\<forall>x. op_byte A s' x = (if p \<le> x \<and> x < p + n then b mod 256 else op_byte A s x))"

locale heap_alloc = heap_ops A ok
  for A :: "'s alloc_ops" and area :: "'s \<Rightarrow> bool" and ok :: "'s \<Rightarrow> (ptr \<times> int) set \<Rightarrow> bool" +
  assumes init: "area s \<Longrightarrow> \<exists>s'. op_init A (op_reset A s) = Some (0, s') \<and> ok s' {}"
    and ok_area: "ok s U \<Longrightarrow> area s"

locale total_alloc = heap_alloc +
  assumes realloc_total: "ok s U \<Longrightarrow> (p, c) \<in> U \<Longrightarrow> 0 < sz \<Longrightarrow> sz \<le> max_request \<Longrightarrow>
      op_realloc A s p sz \<noteq> None"

end
