(* ===== verification/Mdriver.thy ===== *)
theory Mdriver
  imports Trace Alloc_Iface
begin

text \<open>
  The test driver \<open>malloclab/mdriver.c\<close>: the list of payload ranges and the evaluation of a trace
  for correctness, utilization and speed.  The allocator under test is the record \<open>A\<close> of its
  operations; the driver's own \<open>malloc\<close> of range records always succeeds.  \<open>'s driver\<close> holds the
  state of the allocator, the globals \<open>errors\<close> and \<open>check_heap_bounds\<close>, the range list and the
  lines that \<open>malloc_error\<close> has printed.  The arrays of a trace are updated in the trace.  A left
  value of a sum is a call of \<open>app_error\<close> or \<open>unix_error\<close>, which end the process.  Plain \<open>char\<close> is
  signed, as on the x86-64 machines of the course.
\<close>

record range_t =
  lo :: ptr
  hi :: ptr

datatype message =
    Msg string
  | Not_aligned ptr
  | Outside_heap ptr ptr ptr ptr
  | Overlaps ptr ptr ptr ptr

record 's driver =
  alloc :: 's
  errors :: int
  check_heap_bounds :: bool
  ranges :: "range_t list"
  printed :: "(int \<times> int \<times> message) list"

definition LINENUM :: "int \<Rightarrow> int" where "LINENUM i = i + 5"

definition malloc_error :: "int \<Rightarrow> int \<Rightarrow> message \<Rightarrow> 's driver \<Rightarrow> 's driver" where
  "malloc_error tracenum opnum msg d =
     d\<lparr>errors := errors d + 1, printed := printed d @ [(tracenum, LINENUM opnum, msg)]\<rparr>"

definition IS_ALIGNED :: "ptr \<Rightarrow> bool" where "IS_ALIGNED p \<longleftrightarrow> p mod 16 = 0"

subsection \<open>The range list\<close>

fun find_overlap :: "ptr \<Rightarrow> ptr \<Rightarrow> range_t list \<Rightarrow> range_t option" where
  "find_overlap l h [] = None"
| "find_overlap l h (p # ps) =
     (if l \<ge> lo p \<and> l \<le> hi p \<or> h \<ge> lo p \<and> h \<le> hi p then Some p else find_overlap l h ps)"

definition add_range :: "'s alloc_ops \<Rightarrow> ptr \<Rightarrow> int \<Rightarrow> int \<Rightarrow> int \<Rightarrow> 's driver \<Rightarrow> (bool \<times> 's driver) option" where
  "add_range A l sz tracenum opnum d = do {
     let h = l + sz - 1;
     let heap_lo = op_lo A (alloc d);
     let heap_hi = op_hi A (alloc d);
     assert_c (sz > 0);
     if \<not> IS_ALIGNED l then Some (False, malloc_error tracenum opnum (Not_aligned l) d)
     else if check_heap_bounds d \<and> (l < heap_lo \<or> l > heap_hi \<or> h < heap_lo \<or> h > heap_hi)
     then Some (False, malloc_error tracenum opnum (Outside_heap l h heap_lo heap_hi) d)
     else case find_overlap l h (ranges d) of
       Some p \<Rightarrow> Some (False, malloc_error tracenum opnum (Overlaps l h (lo p) (hi p)) d)
     | None \<Rightarrow> Some (True, d\<lparr>ranges := \<lparr>lo = l, hi = h\<rparr> # ranges d\<rparr>)
   }"

fun remove_range :: "ptr \<Rightarrow> range_t list \<Rightarrow> range_t list" where
  "remove_range l [] = []"
| "remove_range l (p # ps) = (if lo p = l then ps else p # remove_range l ps)"

definition clear_ranges :: "'s driver \<Rightarrow> 's driver" where
  "clear_ranges d = d\<lparr>ranges := []\<rparr>"

subsection \<open>Sizes and the arrays of a trace\<close>

definition int_of_double :: "rat \<Rightarrow> int option" where
  "int_of_double x = cint (if 0 \<le> x then \<lfloor>x\<rfloor> else \<lceil>x\<rceil>)"

definition request :: "rat \<Rightarrow> int \<Rightarrow> int option" where
  "request m sz = do { rsize \<leftarrow> int_of_double (m * of_int sz); Some (max 0 rsize) }"

definition block_at :: "trace_t \<Rightarrow> int \<Rightarrow> ptr option" where
  "block_at t i = (if 0 \<le> i \<and> nat i < length (blocks t) then blocks t ! nat i else None)"

definition size_at :: "trace_t \<Rightarrow> int \<Rightarrow> int option" where
  "size_at t i = (if 0 \<le> i \<and> nat i < length (block_sizes t) then block_sizes t ! nat i else None)"

definition put_block :: "trace_t \<Rightarrow> int \<Rightarrow> ptr \<Rightarrow> trace_t option" where
  "put_block t i p =
     (if 0 \<le> i \<and> nat i < length (blocks t) then Some (t\<lparr>blocks := (blocks t)[nat i := Some p]\<rparr>) else None)"

definition put_size :: "trace_t \<Rightarrow> int \<Rightarrow> int \<Rightarrow> trace_t option" where
  "put_size t i n =
     (if 0 \<le> i \<and> nat i < length (block_sizes t)
      then Some (t\<lparr>block_sizes := (block_sizes t)[nat i := Some (u64 n)]\<rparr>) else None)"

subsection \<open>Correctness\<close>

definition reset_heap :: "'s alloc_ops \<Rightarrow> int \<Rightarrow> 's driver \<Rightarrow> (bool \<times> 's driver) option" where
  "reset_heap A tracenum d = do {
     (r, s) \<leftarrow> op_init A (op_reset A (alloc d));
     let d = d\<lparr>alloc := s\<rparr>;
     if r < 0 then Some (False, malloc_error tracenum 0 (Msg ''mm_init failed.'') d)
     else Some (True, d)
   }"

definition schar :: "int \<Rightarrow> int" where
  "schar b = (if b < 128 then b else b - 256)"

definition preserved :: "'s alloc_ops \<Rightarrow> 's \<Rightarrow> ptr \<Rightarrow> int \<Rightarrow> int \<Rightarrow> bool" where
  "preserved A s newp index oldsize =
     list_all (\<lambda>j. schar (op_byte A s (newp + j)) = index mod 256) [0..oldsize - 1]"

text \<open>
  What follows the call of \<open>mm_malloc\<close> and of \<open>mm_realloc\<close>: the checks of the block \<open>p\<close> that it
  returned, the filling and the record of the block.
\<close>

definition finish_alloc ::
    "'s alloc_ops \<Rightarrow> int \<Rightarrow> int \<Rightarrow> int \<Rightarrow> int \<Rightarrow> ptr \<Rightarrow> trace_t \<Rightarrow> 's driver \<Rightarrow> (bool \<times> trace_t \<times> 's driver) option" where
  "finish_alloc A tracenum i index sz p t d =
     (if p = NULL then Some (False, t, malloc_error tracenum i (Msg ''mm_malloc failed.'') d)
      else do {
        (fine, d) \<leftarrow> add_range A p sz tracenum i d;
        if \<not> fine then Some (False, t, d)
        else do {
          s \<leftarrow> op_memset A (alloc d) p (index mod 256) sz;
          t \<leftarrow> put_block t index p;
          t \<leftarrow> put_size t index sz;
          Some (True, t, d\<lparr>alloc := s\<rparr>)
        }
      })"

definition valid_alloc ::
    "'s alloc_ops \<Rightarrow> int \<Rightarrow> int \<Rightarrow> int \<Rightarrow> int \<Rightarrow> trace_t \<Rightarrow> 's driver \<Rightarrow> (bool \<times> trace_t \<times> 's driver) option" where
  "valid_alloc A tracenum i index sz t d = do {
     (p, s) \<leftarrow> op_malloc A (alloc d) sz;
     finish_alloc A tracenum i index sz p t (d\<lparr>alloc := s\<rparr>)
   }"

definition finish_realloc ::
    "'s alloc_ops \<Rightarrow> int \<Rightarrow> int \<Rightarrow> int \<Rightarrow> int \<Rightarrow> ptr \<Rightarrow> ptr \<Rightarrow> trace_t \<Rightarrow> 's driver \<Rightarrow>
     (bool \<times> trace_t \<times> 's driver) option" where
  "finish_realloc A tracenum i index sz oldp newp t d =
     (if newp = NULL then Some (False, t, malloc_error tracenum i (Msg ''mm_realloc failed.'') d)
      else do {
        let d = d\<lparr>ranges := remove_range oldp (ranges d)\<rparr>;
        (fine, d) \<leftarrow> add_range A newp sz tracenum i d;
        if \<not> fine then Some (False, t, d)
        else do {
          os \<leftarrow> size_at t index;
          let oldsize = (if sz < s32 os then sz else s32 os);
          if \<not> preserved A (alloc d) newp index oldsize
          then Some (False, t,
            malloc_error tracenum i (Msg ''mm_realloc did not preserve the data from old block'') d)
          else do {
            s \<leftarrow> op_memset A (alloc d) newp (index mod 256) sz;
            t \<leftarrow> put_block t index newp;
            t \<leftarrow> put_size t index sz;
            Some (True, t, d\<lparr>alloc := s\<rparr>)
          }
        }
      })"

definition valid_realloc ::
    "'s alloc_ops \<Rightarrow> int \<Rightarrow> int \<Rightarrow> int \<Rightarrow> int \<Rightarrow> trace_t \<Rightarrow> 's driver \<Rightarrow> (bool \<times> trace_t \<times> 's driver) option" where
  "valid_realloc A tracenum i index sz t d = do {
     oldp \<leftarrow> block_at t index;
     (newp, s) \<leftarrow> op_realloc A (alloc d) oldp sz;
     finish_realloc A tracenum i index sz oldp newp t (d\<lparr>alloc := s\<rparr>)
   }"

definition valid_free ::
    "'s alloc_ops \<Rightarrow> int \<Rightarrow> trace_t \<Rightarrow> 's driver \<Rightarrow> (bool \<times> trace_t \<times> 's driver) option" where
  "valid_free A index t d = do {
     p \<leftarrow> block_at t index;
     let d = d\<lparr>ranges := remove_range p (ranges d)\<rparr>;
     s \<leftarrow> op_free A (alloc d) p;
     Some (True, t, d\<lparr>alloc := s\<rparr>)
   }"

definition valid_step ::
    "'s alloc_ops \<Rightarrow> int \<Rightarrow> int \<Rightarrow> traceop \<Rightarrow> trace_t \<Rightarrow> 's driver \<Rightarrow> (bool \<times> trace_t \<times> 's driver) option" where
  "valid_step A tracenum i r t d =
     (case r of
        ALLOC index sz \<Rightarrow> do { n \<leftarrow> request (multiplier t) sz; valid_alloc A tracenum i index n t d }
      | REALLOC index sz \<Rightarrow> do { n \<leftarrow> request (multiplier t) sz; valid_realloc A tracenum i index n t d }
      | FREE index \<Rightarrow> valid_free A index t d)"

text \<open>
  The loop over the requests; \<open>rs\<close> are those from number \<open>i\<close> on.  Reading beyond the array fails.
\<close>

fun valid_loop ::
    "'s alloc_ops \<Rightarrow> int \<Rightarrow> int \<Rightarrow> traceop list \<Rightarrow> trace_t \<Rightarrow> 's driver \<Rightarrow> (bool \<times> trace_t \<times> 's driver) option" where
  "valid_loop A tracenum i [] t d = (if i < num_ops t then None else Some (True, t, d))"
| "valid_loop A tracenum i (r # rs) t d =
     (if i < num_ops t then do {
        (fine, t, d) \<leftarrow> valid_step A tracenum i r t d;
        if fine then valid_loop A tracenum (i + 1) rs t d else Some (False, t, d)
      } else Some (True, t, d))"

definition eval_mm_valid_inner ::
    "'s alloc_ops \<Rightarrow> int \<Rightarrow> trace_t \<Rightarrow> 's driver \<Rightarrow> (bool \<times> trace_t \<times> 's driver) option" where
  "eval_mm_valid_inner A tracenum t d = valid_loop A tracenum 0 (ops t) t (clear_ranges d)"

definition eval_mm_valid ::
    "'s alloc_ops \<Rightarrow> int \<Rightarrow> trace_t \<Rightarrow> 's driver \<Rightarrow> (bool \<times> trace_t \<times> 's driver) option" where
  "eval_mm_valid A tracenum t d = do {
     (fine, d) \<leftarrow> reset_heap A tracenum d;
     if \<not> fine then Some (False, t, d) else eval_mm_valid_inner A tracenum t d
   }"

text \<open>One thread of the multi-threaded test, run on its own.\<close>

definition eval_mm_valid_single ::
    "'s alloc_ops \<Rightarrow> (string \<Rightarrow> string option) \<Rightarrow> string \<Rightarrow> string \<Rightarrow> int \<Rightarrow> 's driver \<Rightarrow>
     (string + bool \<times> 's driver) option" where
  "eval_mm_valid_single A files tracedir tracefilename tracenum d = do {
     r \<leftarrow> read_trace files tracedir tracefilename;
     case r of
       Inl e \<Rightarrow> Some (Inl e)
     | Inr t \<Rightarrow> do {
         (isvalid, t, d) \<leftarrow> eval_mm_valid_inner A tracenum t (d\<lparr>check_heap_bounds := False, ranges := []\<rparr>);
         Some (Inr (isvalid, clear_ranges d))
       }
   }"

subsection \<open>Utilization\<close>

fun util_loop ::
    "'s alloc_ops \<Rightarrow> int \<Rightarrow> traceop list \<Rightarrow> int \<Rightarrow> int \<Rightarrow> trace_t \<Rightarrow> 's driver \<Rightarrow>
     (string + int \<times> trace_t \<times> 's driver) option" where
  "util_loop A i [] total_size max_total_size t d =
     (if i < num_ops t then None else Some (Inr (max_total_size, t, d)))"
| "util_loop A i (r # rs) total_size max_total_size t d =
     (if i < num_ops t then
        (case r of
           ALLOC index rsize \<Rightarrow> do {
             sz \<leftarrow> request (multiplier t) rsize;
             (p, s) \<leftarrow> op_malloc A (alloc d) sz;
             if p = NULL then Some (Inl ''mm_malloc failed in eval_mm_util'')
             else do {
               t \<leftarrow> put_block t index p;
               t \<leftarrow> put_size t index sz;
               total_size \<leftarrow> cint (total_size + sz);
               util_loop A (i + 1) rs total_size
                 (if total_size > max_total_size then total_size else max_total_size) t (d\<lparr>alloc := s\<rparr>)
             }
           }
         | REALLOC index rsize \<Rightarrow> do {
             newsize \<leftarrow> request (multiplier t) rsize;
             os \<leftarrow> size_at t index;
             let oldsize = s32 os;
             oldp \<leftarrow> block_at t index;
             (newp, s) \<leftarrow> op_realloc A (alloc d) oldp newsize;
             if newp = NULL then Some (Inl ''mm_realloc failed in eval_mm_util'')
             else do {
               t \<leftarrow> put_block t index newp;
               t \<leftarrow> put_size t index newsize;
               diff \<leftarrow> cint (newsize - oldsize);
               total_size \<leftarrow> cint (total_size + diff);
               util_loop A (i + 1) rs total_size
                 (if total_size > max_total_size then total_size else max_total_size) t (d\<lparr>alloc := s\<rparr>)
             }
           }
         | FREE index \<Rightarrow> do {
             sz \<leftarrow> size_at t index;
             p \<leftarrow> block_at t index;
             s \<leftarrow> op_free A (alloc d) p;
             total_size \<leftarrow> cint (total_size - s32 sz);
             util_loop A (i + 1) rs total_size max_total_size t (d\<lparr>alloc := s\<rparr>)
           })
      else Some (Inr (max_total_size, t, d)))"

definition eval_mm_util ::
    "'s alloc_ops \<Rightarrow> trace_t \<Rightarrow> 's driver \<Rightarrow> (string + int \<times> trace_t \<times> 's driver) option" where
  "eval_mm_util A t d = do {
     (r, s) \<leftarrow> op_init A (op_reset A (alloc d));
     if r < 0 then Some (Inl ''mm_init failed in eval_mm_util'')
     else util_loop A 0 (ops t) 0 0 t (d\<lparr>alloc := s\<rparr>)
   }"

subsection \<open>Speed\<close>

definition speed_request ::
    "'s alloc_ops \<Rightarrow> traceop \<Rightarrow> trace_t \<Rightarrow> 's driver \<Rightarrow> (string + trace_t \<times> 's driver) option" where
  "speed_request A r t d =
     (case r of
        ALLOC index rsize \<Rightarrow> do {
          sz \<leftarrow> request (multiplier t) rsize;
          (p, s) \<leftarrow> op_malloc A (alloc d) sz;
          if p = NULL then Some (Inl ''mm_malloc error in eval_mm_speed'')
          else do {
            t \<leftarrow> put_block t index p;
            Some (Inr (t, d\<lparr>alloc := s\<rparr>))
          }
        }
      | REALLOC index rsize \<Rightarrow> do {
          newsize \<leftarrow> request (multiplier t) rsize;
          oldp \<leftarrow> block_at t index;
          (newp, s) \<leftarrow> op_realloc A (alloc d) oldp newsize;
          if newp = NULL then Some (Inl ''mm_realloc error in eval_mm_speed'')
          else do {
            t \<leftarrow> put_block t index newp;
            Some (Inr (t, d\<lparr>alloc := s\<rparr>))
          }
        }
      | FREE index \<Rightarrow> do {
          block \<leftarrow> block_at t index;
          s \<leftarrow> op_free A (alloc d) block;
          Some (Inr (t, d\<lparr>alloc := s\<rparr>))
        })"

fun speed_loop ::
    "'s alloc_ops \<Rightarrow> int \<Rightarrow> traceop list \<Rightarrow> trace_t \<Rightarrow> 's driver \<Rightarrow> (string + trace_t \<times> 's driver) option" where
  "speed_loop A i [] t d = (if i < num_ops t then None else Some (Inr (t, d)))"
| "speed_loop A i (r # rs) t d =
     (if i < num_ops t then do {
        x \<leftarrow> speed_request A r t d;
        case x of
          Inl e \<Rightarrow> Some (Inl e)
        | Inr (t, d) \<Rightarrow> speed_loop A (i + 1) rs t d
      } else Some (Inr (t, d)))"

definition eval_mm_speed_inner ::
    "'s alloc_ops \<Rightarrow> trace_t \<Rightarrow> 's driver \<Rightarrow> (string + trace_t \<times> 's driver) option" where
  "eval_mm_speed_inner A t d = speed_loop A 0 (ops t) t d"

definition eval_mm_speed ::
    "'s alloc_ops \<Rightarrow> trace_t \<Rightarrow> 's driver \<Rightarrow> (string + trace_t \<times> 's driver) option" where
  "eval_mm_speed A t d = do {
     (r, s) \<leftarrow> op_init A (op_reset A (alloc d));
     if r < 0 then Some (Inl ''mm_init failed in eval_mm_speed'')
     else eval_mm_speed_inner A t (d\<lparr>alloc := s\<rparr>)
   }"

subsection \<open>The C library's allocator\<close>

text \<open>\<open>A\<close> is here the allocator of the C library.\<close>

fun libc_valid_loop ::
    "'s alloc_ops \<Rightarrow> int \<Rightarrow> int \<Rightarrow> traceop list \<Rightarrow> trace_t \<Rightarrow> 's driver \<Rightarrow>
     (string \<times> 's driver + trace_t \<times> 's driver) option" where
  "libc_valid_loop A tracenum i [] t d = (if i < num_ops t then None else Some (Inr (t, d)))"
| "libc_valid_loop A tracenum i (r # rs) t d =
     (if i < num_ops t then
        (case r of
           ALLOC index rsize \<Rightarrow> do {
             sz \<leftarrow> request (multiplier t) rsize;
             (p, s) \<leftarrow> op_malloc A (alloc d) sz;
             if p = NULL
             then Some (Inl (''System message'', malloc_error tracenum i (Msg ''libc malloc failed'') (d\<lparr>alloc := s\<rparr>)))
             else do {
               t \<leftarrow> put_block t index p;
               libc_valid_loop A tracenum (i + 1) rs t (d\<lparr>alloc := s\<rparr>)
             }
           }
         | REALLOC index rsize \<Rightarrow> do {
             newsize \<leftarrow> request (multiplier t) rsize;
             oldp \<leftarrow> block_at t index;
             (newp, s) \<leftarrow> op_realloc A (alloc d) oldp newsize;
             if newp = NULL
             then Some (Inl (''System message'', malloc_error tracenum i (Msg ''libc realloc failed'') (d\<lparr>alloc := s\<rparr>)))
             else do {
               t \<leftarrow> put_block t index newp;
               libc_valid_loop A tracenum (i + 1) rs t (d\<lparr>alloc := s\<rparr>)
             }
           }
         | FREE index \<Rightarrow> do {
             p \<leftarrow> block_at t index;
             s \<leftarrow> op_free A (alloc d) p;
             libc_valid_loop A tracenum (i + 1) rs t (d\<lparr>alloc := s\<rparr>)
           })
      else Some (Inr (t, d)))"

definition eval_libc_valid ::
    "'s alloc_ops \<Rightarrow> int \<Rightarrow> trace_t \<Rightarrow> 's driver \<Rightarrow> (string \<times> 's driver + trace_t \<times> 's driver) option" where
  "eval_libc_valid A tracenum t d = libc_valid_loop A tracenum 0 (ops t) t d"

fun libc_speed_loop ::
    "'s alloc_ops \<Rightarrow> int \<Rightarrow> traceop list \<Rightarrow> trace_t \<Rightarrow> 's driver \<Rightarrow> (string + trace_t \<times> 's driver) option" where
  "libc_speed_loop A i [] t d = (if i < num_ops t then None else Some (Inr (t, d)))"
| "libc_speed_loop A i (r # rs) t d =
     (if i < num_ops t then
        (case r of
           ALLOC index rsize \<Rightarrow> do {
             sz \<leftarrow> request (multiplier t) rsize;
             (p, s) \<leftarrow> op_malloc A (alloc d) sz;
             if p = NULL then Some (Inl ''malloc failed in eval_libc_speed'')
             else do {
               t \<leftarrow> put_block t index p;
               libc_speed_loop A (i + 1) rs t (d\<lparr>alloc := s\<rparr>)
             }
           }
         | REALLOC index rsize \<Rightarrow> do {
             newsize \<leftarrow> request (multiplier t) rsize;
             oldp \<leftarrow> block_at t index;
             (newp, s) \<leftarrow> op_realloc A (alloc d) oldp newsize;
             if newp = NULL then Some (Inl ''realloc failed in eval_libc_speed'')
             else do {
               t \<leftarrow> put_block t index newp;
               libc_speed_loop A (i + 1) rs t (d\<lparr>alloc := s\<rparr>)
             }
           }
         | FREE index \<Rightarrow> do {
             block \<leftarrow> block_at t index;
             s \<leftarrow> op_free A (alloc d) block;
             libc_speed_loop A (i + 1) rs t (d\<lparr>alloc := s\<rparr>)
           })
      else Some (Inr (t, d)))"

definition eval_libc_speed ::
    "'s alloc_ops \<Rightarrow> trace_t \<Rightarrow> 's driver \<Rightarrow> (string + trace_t \<times> 's driver) option" where
  "eval_libc_speed A t d = libc_speed_loop A 0 (ops t) t d"

end
