(* ===== verification/Mdriver_Spec.thy ===== *)
theory Mdriver_Spec
  imports Mdriver
begin

text \<open>
  What the driver's evaluation of a trace establishes.  The requests of a well-formed trace only
  release and resize live blocks; the relation \<open>tracked\<close> ties the arrays of the trace and the range
  list to the live payloads of the allocator.  The lemmas about the loops are proved once in the
  interface \<open>heap_alloc\<close>.
\<close>

subsection \<open>The range list\<close>

definition apart_range :: "ptr \<Rightarrow> ptr \<Rightarrow> range_t \<Rightarrow> bool" where
  "apart_range l h r \<longleftrightarrow> h < lo r \<or> hi r < l"

lemma find_overlap_None:
  "find_overlap l h rs = None \<longleftrightarrow>
   (\<forall>r\<in>set rs. (l < lo r \<or> hi r < l) \<and> (h < lo r \<or> hi r < h))"
  by (induction rs) (auto simp: not_le)

lemma find_overlap_Some: "find_overlap l h rs = Some r \<Longrightarrow>
   r \<in> set rs \<and> (lo r \<le> l \<and> l \<le> hi r \<or> lo r \<le> h \<and> h \<le> hi r)"
  by (induction rs) (auto split: if_splits)

lemma remove_range_set:
  "distinct (map lo rs) \<Longrightarrow> set (remove_range l rs) = {r \<in> set rs. lo r \<noteq> l}"
  by (induction rs) (auto simp: image_iff)

lemma remove_range_distinct: "distinct (map lo rs) \<Longrightarrow> distinct (map lo (remove_range l rs))"
proof (induction rs)
  case (Cons r rs)
  then show ?case using remove_range_set [of rs l] by auto
qed simp

text \<open>
  C17: \<open>add_range\<close> accepts a payload of positive size exactly when it is aligned, lies in the heap
  (where that is checked) and is apart from every recorded range, or strictly encloses the ranges it
  overlaps: the test looks only at the two ends of the new payload.  Otherwise it reports one error.
\<close>

theorem add_range_accepts:
  assumes "0 < sz" "\<forall>r\<in>set (ranges d). lo r \<le> hi r"
  shows "\<exists>fine d'. add_range A l sz tracenum opnum d = Some (fine, d') \<and> alloc d' = alloc d \<and>
    (fine \<longleftrightarrow> l mod 16 = 0 \<and>
      (check_heap_bounds d \<longrightarrow> op_lo A (alloc d) \<le> l \<and> l + sz - 1 \<le> op_hi A (alloc d)) \<and>
      (\<forall>r\<in>set (ranges d). apart_range l (l + sz - 1) r \<or> l < lo r \<and> hi r < l + sz - 1)) \<and>
    (if fine then errors d' = errors d \<and> ranges d' = \<lparr>lo = l, hi = l + sz - 1\<rparr> # ranges d
     else errors d' = errors d + 1 \<and> ranges d' = ranges d)"
proof -
  define Q where "Q \<longleftrightarrow> (\<forall>r\<in>set (ranges d). apart_range l (l + sz - 1) r \<or> l < lo r \<and> hi r < l + sz - 1)"
  define B where "B \<longleftrightarrow> (check_heap_bounds d \<longrightarrow> op_lo A (alloc d) \<le> l \<and> l + sz - 1 \<le> op_hi A (alloc d))"
  have "find_overlap l (l + sz - 1) (ranges d) = None \<longleftrightarrow> Q"
    using assms by (fastforce simp: find_overlap_None apart_range_def Q_def)
  moreover have "(check_heap_bounds d \<and> (l < op_lo A (alloc d) \<or> l > op_hi A (alloc d) \<or>
      l + sz - 1 < op_lo A (alloc d) \<or> l + sz - 1 > op_hi A (alloc d))) \<longleftrightarrow> \<not> B"
    using assms(1) by (auto simp: B_def)
  ultimately show ?thesis
    unfolding Q_def [symmetric] B_def [symmetric] using assms(1)
    by (cases "find_overlap l (l + sz - 1) (ranges d)"; cases B)
      (auto simp: add_range_def malloc_error_def IS_ALIGNED_def Let_def)
qed

definition sample_ops :: "unit alloc_ops" where
  "sample_ops = \<lparr>op_reset = id, op_init = (\<lambda>s. Some (0, s)), op_malloc = (\<lambda>s n. Some (NULL, s)),
     op_free = (\<lambda>s p. Some s), op_realloc = (\<lambda>s p n. Some (NULL, s)), op_memset = (\<lambda>s p b n. Some s),
     op_byte = (\<lambda>s p. 0), op_lo = (\<lambda>s. 4096), op_hi = (\<lambda>s. 8191), op_heapsize = (\<lambda>s. 4096)\<rparr>"

definition sample_driver :: "unit driver" where
  "sample_driver = \<lparr>alloc = (), errors = 0, check_heap_bounds = True, ranges = [\<lparr>lo = 4128, hi = 4137\<rparr>], printed = []\<rparr>"

theorem add_range_accepts_witness:
  "fst (the (add_range sample_ops 4112 100 0 0 sample_driver)) \<and>
   \<not> fst (the (add_range sample_ops 4128 5 0 0 sample_driver)) \<and>
   \<not> fst (the (add_range sample_ops 8160 100 0 0 sample_driver))"
  using add_range_accepts [of 100 sample_driver sample_ops 4112 0 0]
    add_range_accepts [of 5 sample_driver sample_ops 4128 0 0]
    add_range_accepts [of 100 sample_driver sample_ops 8160 0 0]
  by (auto simp: sample_driver_def sample_ops_def apart_range_def)



subsection \<open>Well-formed traces\<close>

fun wf_ops :: "rat \<Rightarrow> int \<Rightarrow> int set \<Rightarrow> traceop list \<Rightarrow> bool" where
  "wf_ops m ids L [] = True"
| "wf_ops m ids L (ALLOC i sz # rs) =
     (i \<notin> L \<and> 0 \<le> i \<and> i < ids \<and> (case request m sz of None \<Rightarrow> False | Some n \<Rightarrow> 0 < n \<and> n \<le> max_request) \<and>
      wf_ops m ids (insert i L) rs)"
| "wf_ops m ids L (REALLOC i sz # rs) =
     (i \<in> L \<and> i mod 256 < 128 \<and> (case request m sz of None \<Rightarrow> False | Some n \<Rightarrow> 0 < n \<and> n \<le> max_request) \<and>
      wf_ops m ids L rs)"
| "wf_ops m ids L (FREE i # rs) = (i \<in> L \<and> wf_ops m ids (L - {i}) rs)"

definition wf_trace :: "trace_t \<Rightarrow> bool" where
  "wf_trace t \<longleftrightarrow> wf_ops (multiplier t) (num_ids t) {} (ops t) \<and> num_ops t = int (length (ops t)) \<and>
     length (blocks t) = nat (num_ids t) \<and> length (block_sizes t) = nat (num_ids t)"

fun is_realloc :: "traceop \<Rightarrow> bool" where
  "is_realloc (REALLOC i sz) = True"
| "is_realloc _ = False"

text \<open>
  The live identifiers \<open>L\<close>, with the address, the requested size and the capacity of each.
\<close>

record live_block =
  lp :: ptr
  lsz :: int
  lc :: int

text \<open>What a run of the driver records of the blocks it owns, and that they hold what it wrote.\<close>

definition owns ::
    "'s alloc_ops \<Rightarrow> int set \<Rightarrow> (int \<Rightarrow> live_block) \<Rightarrow> trace_t \<Rightarrow> 's driver \<Rightarrow> bool" where
  "owns A L b t d \<longleftrightarrow>
     inj_on (\<lambda>i. lp (b i)) L \<and>
     (\<forall>i\<in>L. block_at t i = Some (lp (b i)) \<and> size_at t i = Some (lsz (b i)) \<and>
        0 < lsz (b i) \<and> lsz (b i) \<le> lc (b i) \<and> lsz (b i) \<le> max_request \<and>
        (\<forall>j. 0 \<le> j \<and> j < lsz (b i) \<longrightarrow> op_byte A (alloc d) (lp (b i) + j) = i mod 256)) \<and>
     L \<subseteq> {0..<num_ids t} \<and> length (blocks t) = nat (num_ids t) \<and> length (block_sizes t) = nat (num_ids t) \<and>
     distinct (map lo (ranges d)) \<and>
     set (ranges d) = (\<lambda>i. \<lparr>lo = lp (b i), hi = lp (b i) + lsz (b i) - 1\<rparr>) ` L"

definition tracked ::
    "'s alloc_ops \<Rightarrow> ('s \<Rightarrow> (ptr \<times> int) set \<Rightarrow> bool) \<Rightarrow> int set \<Rightarrow> (int \<Rightarrow> live_block) \<Rightarrow> trace_t \<Rightarrow> 's driver \<Rightarrow> bool" where
  "tracked A ok L b t d \<longleftrightarrow> ok (alloc d) ((\<lambda>i. (lp (b i), lc (b i))) ` L) \<and> owns A L b t d"

lemma put_eqs:
  assumes "0 \<le> i" "i < num_ids t" "length (blocks t) = nat (num_ids t)" "length (block_sizes t) = nat (num_ids t)"
    "0 < n" "n \<le> max_request"
  shows "\<exists>t1 t'. put_block t i p = Some t1 \<and> put_size t1 i n = Some t' \<and>
    ops t' = ops t \<and> num_ids t' = num_ids t \<and> num_ops t' = num_ops t \<and> multiplier t' = multiplier t \<and>
    length (blocks t') = nat (num_ids t') \<and> length (block_sizes t') = nat (num_ids t') \<and>
    (\<forall>j\<ge>0. block_at t' j = (if j = i then Some p else block_at t j) \<and>
       size_at t' j = (if j = i then Some n else size_at t j))"
proof -
  have "u64 n = n" using assms(5,6) by (simp add: u64_id max_request_def)
  moreover have "nat j = nat i \<longleftrightarrow> j = i" if "0 \<le> j" for j using that assms(1) by auto
  ultimately show ?thesis
    using assms by (auto simp: put_block_def put_size_def block_at_def size_at_def nth_list_update)
qed

lemma add_range_fine:
  assumes "0 < sz" "l mod 16 = 0" "op_lo A (alloc d) \<le> l" "l + sz - 1 \<le> op_hi A (alloc d)"
    "\<forall>r\<in>set (ranges d). apart_range l (l + sz - 1) r \<and> lo r \<le> hi r"
  shows "add_range A l sz tn i d = Some (True, d\<lparr>ranges := \<lparr>lo = l, hi = l + sz - 1\<rparr> # ranges d\<rparr>)"
proof -
  have "find_overlap l (l + sz - 1) (ranges d) = None"
    using assms(1,5) by (fastforce simp: find_overlap_None apart_range_def)
  then show ?thesis using assms(1-4) by (simp add: add_range_def IS_ALIGNED_def Let_def)
qed

subsection \<open>One request\<close>

definition failed :: "int \<Rightarrow> int \<Rightarrow> 's driver \<Rightarrow> 's driver \<Rightarrow> bool" where
  "failed tn i d d' \<longleftrightarrow> errors d' = errors d + 1 \<and>
     (printed d' = printed d @ [(tn, LINENUM i, Msg ''mm_malloc failed.'')] \<or>
      printed d' = printed d @ [(tn, LINENUM i, Msg ''mm_realloc failed.'')])"

definition same_trace :: "trace_t \<Rightarrow> trace_t \<Rightarrow> bool" where
  "same_trace t t' \<longleftrightarrow> ops t' = ops t \<and> num_ids t' = num_ids t \<and> num_ops t' = num_ops t \<and> multiplier t' = multiplier t"

lemma same_trace_simps: "same_trace t t"
  "same_trace t t' \<Longrightarrow> same_trace t' t'' \<Longrightarrow> same_trace t t''"
  by (simp_all add: same_trace_def)

lemma driver_swap: "d\<lparr>ranges := r, alloc := s\<rparr> = (d\<lparr>alloc := s, ranges := r\<rparr> :: 's driver)"
  by simp

text \<open>An allocator with the promised laws under the driver.\<close>

locale tested_ops = heap_ops
begin

abbreviation "live \<equiv> tracked A ok"

lemma ownsD:
  assumes "owns A L b t d" "i \<in> L"
  shows "block_at t i = Some (lp (b i))" "size_at t i = Some (lsz (b i))" "0 < lsz (b i)" "lsz (b i) \<le> lc (b i)"
    "lsz (b i) \<le> max_request" "0 \<le> i" "i < num_ids t"
    "0 \<le> j \<Longrightarrow> j < lsz (b i) \<Longrightarrow> op_byte A (alloc d) (lp (b i) + j) = i mod 256"
    "(lp (b i), lc (b i)) \<in> (\<lambda>i. (lp (b i), lc (b i))) ` L"
  using assms by (auto simp: owns_def)

lemmas trackedD = ownsD [OF tracked_def [THEN iffD1, THEN conjunct2]]

lemma owns_apart:
  assumes "owns A L b t d" "r \<in> set (ranges d)" "ok s U" "(p, c) \<in> U" "n \<le> c" "0 < n"
    "\<And>i. i \<in> L \<Longrightarrow> (lp (b i), lc (b i)) \<in> U" "\<And>i. i \<in> L \<Longrightarrow> lp (b i) = p \<Longrightarrow> lc (b i) \<noteq> c"
  shows "apart_range p (p + n - 1) r \<and> lo r \<le> hi r"
proof -
  obtain i where i: "i \<in> L" "r = \<lparr>lo = lp (b i), hi = lp (b i) + lsz (b i) - 1\<rparr>"
    using assms(1,2) by (auto simp: owns_def)
  then show ?thesis
    using apart [OF assms(3,4) assms(7) [OF i(1)]] assms(5,6,8) ownsD(3,4) [OF assms(1) i(1)]
    by (fastforce simp: apart_range_def)
qed

text \<open>A new live block \<open>p\<close> of \<open>n\<close> bytes at \<open>i\<close>, filled with the low byte of \<open>i\<close>.\<close>

lemma fill_new:
  assumes tr: "owns A L b t d" and i: "i \<notin> L" "0 \<le> i" "i < num_ids t" and n: "0 < n" "n \<le> max_request" "n \<le> c"
    and s: "ok s (insert (p, c) ((\<lambda>i. (lp (b i), lc (b i))) ` L))" "(p, c) \<notin> (\<lambda>i. (lp (b i), lc (b i))) ` L"
    and same: "same_payloads ((\<lambda>i. (lp (b i), lc (b i))) ` L) (op_byte A (alloc d)) (op_byte A s)"
  shows "add_range A p n tn k (d\<lparr>alloc := s\<rparr>) =
      Some (True, d\<lparr>alloc := s, ranges := \<lparr>lo = p, hi = p + n - 1\<rparr> # ranges d\<rparr>)"
    "\<exists>s' t1 t'. op_memset A s p (i mod 256) n = Some s' \<and>
      put_block t i p = Some t1 \<and> put_size t1 i n = Some t' \<and> same_trace t t' \<and>
      live (insert i L) (b(i := \<lparr>lp = p, lsz = n, lc = c\<rparr>)) t'
        (d\<lparr>alloc := s', ranges := \<lparr>lo = p, hi = p + n - 1\<rparr> # ranges d\<rparr>)"
proof -
  let ?U = "(\<lambda>i. (lp (b i), lc (b i))) ` L"
  let ?d = "d\<lparr>alloc := s, ranges := \<lparr>lo = p, hi = p + n - 1\<rparr> # ranges d\<rparr>"
  note P = payload [OF s(1), of p c, simplified]
  have new: "lp (b j) \<noteq> p" if "j \<in> L" for j
    using apart [OF s(1), of "lp (b j)" "lc (b j)" p c] that s(2) ownsD(3,4) [OF tr that] P by force
  have ap: "apart_range p (p + n - 1) r \<and> lo r \<le> hi r" if "r \<in> set (ranges d)" for r
    by (rule owns_apart [OF tr that s(1), of p c]) (use n new in auto)
  show "add_range A p n tn k (d\<lparr>alloc := s\<rparr>) = Some (True, ?d)"
    using add_range_fine [of n p A "d\<lparr>alloc := s\<rparr>"] P n ap by auto
  obtain s' where s': "op_memset A s p (i mod 256) n = Some s'" "ok s' (insert (p, c) ?U)"
    "\<And>x. op_byte A s' x = (if p \<le> x \<and> x < p + n then i mod 256 mod 256 else op_byte A s x)"
    using memset [OF s(1), of p c n "i mod 256"] n by auto
  have len: "length (blocks t) = nat (num_ids t)" "length (block_sizes t) = nat (num_ids t)"
    using tr by (simp_all add: owns_def)
  obtain t1 t' where t': "put_block t i p = Some t1" "put_size t1 i n = Some t'"
    "same_trace t t'" "length (blocks t') = nat (num_ids t')" "length (block_sizes t') = nat (num_ids t')"
    "\<And>j. 0 \<le> j \<Longrightarrow> block_at t' j = (if j = i then Some p else block_at t j)"
    "\<And>j. 0 \<le> j \<Longrightarrow> size_at t' j = (if j = i then Some n else size_at t j)"
    using put_eqs [OF i(2,3) len n(1,2), of p] unfolding same_trace_def by (elim exE conjE) simp
  let ?b = "b(i := \<lparr>lp = p, lsz = n, lc = c\<rparr>)"
  let ?e = "d\<lparr>alloc := s', ranges := \<lparr>lo = p, hi = p + n - 1\<rparr> # ranges d\<rparr>"
  have "live (insert i L) ?b t' ?e"
    unfolding tracked_def owns_def
  proof (intro conjI ballI)
    have im: "(\<lambda>j. (lp (?b j), lc (?b j))) ` insert i L = insert (p, c) ?U"
      using i(1) by (auto simp: image_iff)
    then show "ok (alloc ?e) ((\<lambda>j. (lp (?b j), lc (?b j))) ` insert i L)" using s'(2) by simp
    show "inj_on (\<lambda>j. lp (?b j)) (insert i L)"
      using tr new i(1) by (auto simp: owns_def inj_on_def)
    show "set (ranges ?e) = (\<lambda>j. \<lparr>lo = lp (?b j), hi = lp (?b j) + lsz (?b j) - 1\<rparr>) ` insert i L"
      using tr i(1) by (auto simp: owns_def image_iff)
    show "distinct (map lo (ranges ?e))"
      using tr by (auto simp: owns_def dest: new)
    show "insert i L \<subseteq> {0..<num_ids t'}" using tr i t'(3) by (auto simp: owns_def same_trace_def)
    fix j assume j: "j \<in> insert i L"
    then have j0: "0 \<le> j" using i(2) ownsD(6) [OF tr] by auto
    show "block_at t' j = Some (lp (?b j))" "size_at t' j = Some (lsz (?b j))"
      using t'(6,7) [OF j0] j ownsD(1,2) [OF tr] by auto
    show "0 < lsz (?b j)" "lsz (?b j) \<le> lc (?b j)" "lsz (?b j) \<le> max_request"
      using j n ownsD(3-5) [OF tr] by auto
    show "\<forall>k. 0 \<le> k \<and> k < lsz (?b j) \<longrightarrow> op_byte A (alloc ?e) (lp (?b j) + k) = j mod 256"
    proof (intro allI impI, elim conjE)
      fix k assume k: "0 \<le> k" "k < lsz (?b j)"
      show "op_byte A (alloc ?e) (lp (?b j) + k) = j mod 256"
      proof (cases "j = i")
        case True
        then show ?thesis using k by (simp add: s'(3))
      next
        case False
        then have jL: "j \<in> L" "k < lsz (b j)" using j k by auto
        have "\<not> (p \<le> lp (b j) + k \<and> lp (b j) + k < p + n)"
          using apart [OF s(1), of "lp (b j)" "lc (b j)" p c] jL k(1) n(3) new [OF jL(1)] ownsD(4) [OF tr jL(1)]
          by auto
        then show ?thesis
          using False jL k(1) ownsD(4,8,9) [OF tr jL(1)] same_payloadsD [OF same, of "lp (b j)" "lc (b j)" k]
          by (auto simp: s'(3))
      qed
    qed
  qed (use t'(4,5) in auto)
  then show "\<exists>s' t1 t'. op_memset A s p (i mod 256) n = Some s' \<and>
      put_block t i p = Some t1 \<and> put_size t1 i n = Some t' \<and> same_trace t t' \<and>
      live (insert i L) ?b t' (d\<lparr>alloc := s', ranges := \<lparr>lo = p, hi = p + n - 1\<rparr> # ranges d\<rparr>)"
    using s'(1) t'(1-3) by blast
qed

lemma drop_owns:
  assumes tr: "owns A L b t d" and i: "i \<in> L"
    and same: "same_payloads ((\<lambda>i. (lp (b i), lc (b i))) ` L - {(lp (b i), lc (b i))}) (op_byte A (alloc d)) (op_byte A s)"
  shows "(\<lambda>i. (lp (b i), lc (b i))) ` (L - {i}) = (\<lambda>i. (lp (b i), lc (b i))) ` L - {(lp (b i), lc (b i))}"
    "owns A (L - {i}) b t (d\<lparr>alloc := s, ranges := remove_range (lp (b i)) (ranges d)\<rparr>)"
proof -
  have inj: "inj_on (\<lambda>i. lp (b i)) L" using tr by (simp add: owns_def)
  show im: "(\<lambda>i. (lp (b i), lc (b i))) ` (L - {i}) = (\<lambda>i. (lp (b i), lc (b i))) ` L - {(lp (b i), lc (b i))}"
    using inj i by (auto simp: inj_on_def)
  have "set (remove_range (lp (b i)) (ranges d)) = (\<lambda>i. \<lparr>lo = lp (b i), hi = lp (b i) + lsz (b i) - 1\<rparr>) ` (L - {i})"
    using tr inj i remove_range_set [of "ranges d" "lp (b i)"] by (auto simp: owns_def inj_on_def image_iff)
  moreover have "op_byte A s (lp (b j) + k) = j mod 256" if "j \<in> L" "j \<noteq> i" "0 \<le> k" "k < lsz (b j)" for j k
  proof -
    have "(lp (b j), lc (b j)) \<in> (\<lambda>i. (lp (b i), lc (b i))) ` (L - {i})" using that(1,2) by auto
    then show ?thesis
      using same_payloadsD [OF same, of "lp (b j)" "lc (b j)" k] im that ownsD(4,8) [OF tr that(1)] by auto
  qed
  ultimately show "owns A (L - {i}) b t (d\<lparr>alloc := s, ranges := remove_range (lp (b i)) (ranges d)\<rparr>)"
    using tr inj remove_range_distinct [of "ranges d" "lp (b i)"] by (auto simp: owns_def inj_on_def)
qed

lemma drop_live:
  assumes tr: "live L b t d" and i: "i \<in> L"
    and s: "ok s ((\<lambda>i. (lp (b i), lc (b i))) ` L - {(lp (b i), lc (b i))})"
    and same: "same_payloads ((\<lambda>i. (lp (b i), lc (b i))) ` L - {(lp (b i), lc (b i))}) (op_byte A (alloc d)) (op_byte A s)"
  shows "live (L - {i}) b t (d\<lparr>alloc := s, ranges := remove_range (lp (b i)) (ranges d)\<rparr>)"
proof -
  have "owns A L b t d" using tr by (simp add: tracked_def)
  from drop_owns [OF this i same] s show ?thesis by (simp add: tracked_def)
qed

lemma valid_alloc_step:
  assumes tr: "live L b t d" and i: "i \<notin> L" "0 \<le> i" "i < num_ids t" and n: "0 < n" "n \<le> max_request"
  shows "(\<exists>d'. valid_alloc A tn k i n t d = Some (False, t, d') \<and> failed tn k d d') \<or>
    (\<exists>t' d' b'. valid_alloc A tn k i n t d = Some (True, t', d') \<and> same_trace t t' \<and>
       live (insert i L) b' t' d' \<and> errors d' = errors d \<and> printed d' = printed d)"
proof -
  have "ok (alloc d) ((\<lambda>i. (lp (b i), lc (b i))) ` L)" using tr by (simp add: tracked_def owns_def)
  from malloc [OF this n] obtain p s where m: "op_malloc A (alloc d) n = Some (p, s)"
    "if p = NULL then s = alloc d
     else \<exists>c. n \<le> c \<and> ok s (insert (p, c) ((\<lambda>i. (lp (b i), lc (b i))) ` L)) \<and>
      (p, c) \<notin> (\<lambda>i. (lp (b i), lc (b i))) ` L \<and>
      same_payloads ((\<lambda>i. (lp (b i), lc (b i))) ` L) (op_byte A (alloc d)) (op_byte A s)" by blast
  show ?thesis
  proof (cases "p = NULL")
    case True
    then show ?thesis using m(1) by (simp add: valid_alloc_def finish_alloc_def malloc_error_def failed_def)
  next
    case False
    then obtain c where c: "n \<le> c" "ok s (insert (p, c) ((\<lambda>i. (lp (b i), lc (b i))) ` L))"
      "(p, c) \<notin> (\<lambda>i. (lp (b i), lc (b i))) ` L"
      "same_payloads ((\<lambda>i. (lp (b i), lc (b i))) ` L) (op_byte A (alloc d)) (op_byte A s)" using m(2) by (simp only: if_False) blast
    note f = fill_new [OF tr [unfolded tracked_def, THEN conjunct2] i n c]
    let ?d = "\<lambda>s. d\<lparr>alloc := s, ranges := \<lparr>lo = p, hi = p + n - 1\<rparr> # ranges d\<rparr>"
    obtain s' t1 t' where s': "op_memset A s p (i mod 256) n = Some s'"
      "put_block t i p = Some t1" "put_size t1 i n = Some t'"
      "same_trace t t'" "live (insert i L) (b(i := \<lparr>lp = p, lsz = n, lc = c\<rparr>)) t' (?d s')"
      using f(2) by blast
    then have "valid_alloc A tn k i n t d = Some (True, t', ?d s')"
      using False m(1) f(1) [of tn k] s'(1-3) by (simp add: valid_alloc_def finish_alloc_def driver_swap)
    then show ?thesis using s'(4,5) by (intro disjI2 exI [of _ t'] exI [of _ "?d s'"] exI) auto
  qed
qed

lemma preserved_fill:
  assumes "\<And>j. 0 \<le> j \<Longrightarrow> j < n \<Longrightarrow> op_byte A s (p + j) = i mod 256" "i mod 256 < 128"
  shows "preserved A s p i n"
  using assms by (auto simp: preserved_def list_all_iff schar_def)

lemma valid_realloc_step:
  assumes tr: "live L b t d" and i: "i \<in> L" "i mod 256 < 128" and n: "0 < n" "n \<le> max_request"
  shows "(op_realloc A (alloc d) (lp (b i)) n = None \<and> valid_realloc A tn k i n t d = None) \<or>
    (\<exists>d'. valid_realloc A tn k i n t d = Some (False, t, d') \<and> failed tn k d d') \<or>
    (\<exists>t' d' b'. valid_realloc A tn k i n t d = Some (True, t', d') \<and> same_trace t t' \<and>
       live L b' t' d' \<and> errors d' = errors d \<and> printed d' = printed d)"
proof -
  let ?U = "(\<lambda>i. (lp (b i), lc (b i))) ` L"
  note T = trackedD [OF tr i(1)]
  have ok: "ok (alloc d) ?U" using tr by (simp add: tracked_def owns_def)
  have sz: "s32 (lsz (b i)) = lsz (b i)" using T(3,5) by (intro s32_id) (auto simp: max_request_def)
  show ?thesis
  proof (cases "op_realloc A (alloc d) (lp (b i)) n")
    case None
    then show ?thesis using T(1) by (simp add: valid_realloc_def finish_realloc_def)
  next
    case (Some ps)
    obtain p s where ps: "op_realloc A (alloc d) (lp (b i)) n = Some (p, s)" using Some by (cases ps) auto
    note R = realloc [OF ok T(9) n ps]
    show ?thesis
    proof (cases "p = NULL")
      case True
      then show ?thesis using ps T(1) by (simp add: valid_realloc_def finish_realloc_def malloc_error_def failed_def)
    next
      case False
      then obtain c where c: "n \<le> c" "ok s (insert (p, c) (?U - {(lp (b i), lc (b i))}))"
        "(p, c) \<notin> ?U - {(lp (b i), lc (b i))}"
        "\<And>j. 0 \<le> j \<Longrightarrow> j < min n (lc (b i)) \<Longrightarrow> op_byte A s (p + j) = op_byte A (alloc d) (lp (b i) + j)"
        "same_payloads (?U - {(lp (b i), lc (b i))}) (op_byte A (alloc d)) (op_byte A s)"
        using R by auto
      obtain s0 where s0: "op_free A (alloc d) (lp (b i)) = Some s0" "ok s0 (?U - {(lp (b i), lc (b i))})"
        "same_payloads (?U - {(lp (b i), lc (b i))}) (op_byte A (alloc d)) (op_byte A s0)"
        using free [OF ok T(9)] by auto
      let ?r = "remove_range (lp (b i)) (ranges d)"
      let ?d0 = "d\<lparr>alloc := s0, ranges := ?r\<rparr>"
      have tr0: "live (L - {i}) b t ?d0" using drop_live [OF tr i(1) s0(2,3)] .
      have im: "(\<lambda>i. (lp (b i), lc (b i))) ` (L - {i}) = ?U - {(lp (b i), lc (b i))}"
        using tr i(1) by (auto simp: tracked_def owns_def inj_on_def)
      have same: "same_payloads (?U - {(lp (b i), lc (b i))}) (op_byte A (alloc ?d0)) (op_byte A s)"
        using same_payloads_via [OF s0(3) c(5)] by simp
      note f = fill_new [OF tr0 [unfolded tracked_def, THEN conjunct2] _ T(6,7) n c(1), unfolded im, OF _ c(2,3) same, simplified]
      let ?d = "\<lambda>s. d\<lparr>alloc := s, ranges := \<lparr>lo = p, hi = p + n - 1\<rparr> # ?r\<rparr>"
      obtain s' t1 t' where t': "op_memset A s p (i mod 256) n = Some s'"
        "same_trace t t'" "live (insert i L) (b(i := \<lparr>lp = p, lsz = n, lc = c\<rparr>)) t' (?d s')"
        "put_block t i p = Some t1" "put_size t1 i n = Some t'"
        using f(2) by blast
      have "preserved A s p i (if n < lsz (b i) then n else lsz (b i))"
        using c(4) T(4,8) i(2) by (intro preserved_fill) (auto split: if_splits)
      then have "valid_realloc A tn k i n t d = Some (True, t', ?d s')"
        using False ps f(1) [of tn k] T(1,2) sz t'(1,4,5)
        by (cases "n < lsz (b i)") (simp_all add: valid_realloc_def finish_realloc_def Let_def driver_swap)
      moreover have "insert i L = L" using i(1) by (rule insert_absorb)
      ultimately show ?thesis using t'(2,3)
        by (intro disjI2 exI [of _ t'] exI [of _ "?d s'"] exI) auto
    qed
  qed
qed

lemma valid_free_step:
  assumes tr: "live L b t d" and i: "i \<in> L"
  shows "\<exists>d'. valid_free A i t d = Some (True, t, d') \<and> live (L - {i}) b t d' \<and>
    errors d' = errors d \<and> printed d' = printed d"
proof -
  note T = trackedD [OF tr i]
  have "ok (alloc d) ((\<lambda>i. (lp (b i), lc (b i))) ` L)" using tr by (simp add: tracked_def owns_def)
  from free [OF this T(9)] obtain s where s: "op_free A (alloc d) (lp (b i)) = Some s"
    "ok s ((\<lambda>i. (lp (b i), lc (b i))) ` L - {(lp (b i), lc (b i))})"
    "same_payloads ((\<lambda>i. (lp (b i), lc (b i))) ` L - {(lp (b i), lc (b i))}) (op_byte A (alloc d)) (op_byte A s)"
    by auto
  have "valid_free A i t d = Some (True, t, d\<lparr>alloc := s, ranges := remove_range (lp (b i)) (ranges d)\<rparr>)"
    using T(1) s(1) by (simp add: valid_free_def)
  then show ?thesis using drop_live [OF tr i s(2,3)] by simp
qed

lemma valid_loop_ok:
  assumes "live L b t d" "wf_ops (multiplier t) (num_ids t) L rs" "num_ops t = k + int (length rs)"
  shows "(valid_loop A tn k rs t d = None \<and> (\<exists>r\<in>set rs. is_realloc r) \<and>
        (\<exists>U s p c n. ok s U \<and> (p, c) \<in> U \<and> 0 < n \<and> n \<le> max_request \<and> op_realloc A s p n = None)) \<or>
    (\<exists>t' d' j. valid_loop A tn k rs t d = Some (False, t', d') \<and> failed tn j d d') \<or>
    (\<exists>t' d' L' b'. valid_loop A tn k rs t d = Some (True, t', d') \<and> same_trace t t' \<and> live L' b' t' d' \<and>
       errors d' = errors d \<and> printed d' = printed d)"
  using assms
proof (induction rs arbitrary: k L b t d)
  case Nil
  then show ?case using same_trace_simps(1) by auto
next
  case (Cons r rs)
  have lt: "k < num_ops t" using Cons.prems(3) by simp
  have next': ?case
    if st: "valid_step A tn k r t d = Some (True, t', d')" and w: "wf_ops (multiplier t) (num_ids t) L' rs"
      and tr: "same_trace t t'" "live L' b' t' d'" "errors d' = errors d" "printed d' = printed d" for t' d' L' b'
  proof -
    have "wf_ops (multiplier t') (num_ids t') L' rs" "num_ops t' = k + 1 + int (length rs)"
      using w tr(1) Cons.prems(3) by (simp_all add: same_trace_def)
    from Cons.IH [OF tr(2) this] show ?thesis
      using lt st tr same_trace_simps(2) [OF tr(1)] by (auto simp: failed_def)
  qed
  show ?case
  proof (cases r)
    case (ALLOC i sz)
    then obtain n where n: "request (multiplier t) sz = Some n" "0 < n" "n \<le> max_request" "i \<notin> L" "0 \<le> i" "i < num_ids t"
      "wf_ops (multiplier t) (num_ids t) (insert i L) rs"
      using Cons.prems(2) by (auto split: option.splits)
    from valid_alloc_step [OF Cons.prems(1) n(4-6,2,3), of tn k] show ?thesis
    proof (elim disjE exE conjE)
      fix d' assume "valid_alloc A tn k i n t d = Some (False, t, d')" "failed tn k d d'"
      then show ?thesis using ALLOC n(1) lt by (auto simp: valid_step_def)
    next
      fix t' d' b' assume "valid_alloc A tn k i n t d = Some (True, t', d')" "same_trace t t'"
        "live (insert i L) b' t' d'" "errors d' = errors d" "printed d' = printed d"
      then show ?thesis using ALLOC n(1,7) by (intro next' [of t' d' "insert i L" b']) (simp_all add: valid_step_def)
    qed
  next
    case (REALLOC i sz)
    then obtain n where n: "request (multiplier t) sz = Some n" "0 < n" "n \<le> max_request" "i \<in> L" "i mod 256 < 128"
      "wf_ops (multiplier t) (num_ids t) L rs"
      using Cons.prems(2) by (auto split: option.splits)
    note T = trackedD [OF Cons.prems(1) n(4)]
    have ok: "ok (alloc d) ((\<lambda>i. (lp (b i), lc (b i))) ` L)" using Cons.prems(1) by (simp add: tracked_def owns_def)
    from valid_realloc_step [OF Cons.prems(1) n(4,5,2,3), of tn k] show ?thesis
    proof (elim disjE exE conjE)
      assume "op_realloc A (alloc d) (lp (b i)) n = None" "valid_realloc A tn k i n t d = None"
      moreover from this(1) have "\<exists>U s p c n. ok s U \<and> (p, c) \<in> U \<and> 0 < n \<and> n \<le> max_request \<and> op_realloc A s p n = None"
        using ok T(9) n(2,3) by blast
      ultimately show ?thesis using REALLOC n(1) lt by (simp add: valid_step_def)
    next
      fix d' assume "valid_realloc A tn k i n t d = Some (False, t, d')" "failed tn k d d'"
      then show ?thesis using REALLOC n(1) lt by (auto simp: valid_step_def)
    next
      fix t' d' b' assume "valid_realloc A tn k i n t d = Some (True, t', d')" "same_trace t t'"
        "live L b' t' d'" "errors d' = errors d" "printed d' = printed d"
      then show ?thesis using REALLOC n(1,6) by (intro next' [of t' d' L b']) (simp_all add: valid_step_def)
    qed
  next
    case (FREE i)
    then have w: "i \<in> L" "wf_ops (multiplier t) (num_ids t) (L - {i}) rs" using Cons.prems(2) by auto
    from valid_free_step [OF Cons.prems(1) w(1)] obtain d' where
      "valid_free A i t d = Some (True, t, d')" "live (L - {i}) b t d'" "errors d' = errors d" "printed d' = printed d"
      by blast
    then show ?thesis
      using FREE same_trace_simps(1) by (intro next' [of t d' "L - {i}" b, OF _ w(2)]) (simp_all add: valid_step_def)
  qed
qed

end

locale tested_alloc = tested_ops A ok + heap_alloc A area ok
  for A :: "'s alloc_ops" and area :: "'s \<Rightarrow> bool" and ok :: "'s \<Rightarrow> (ptr \<times> int) set \<Rightarrow> bool"
begin

lemma eval_mm_valid_ok:
  assumes "area (alloc d)" "wf_trace t"
  shows "(eval_mm_valid A tn t d = None \<and> (\<exists>r\<in>set (ops t). is_realloc r) \<and>
        (\<exists>U s p c n. ok s U \<and> (p, c) \<in> U \<and> 0 < n \<and> n \<le> max_request \<and> op_realloc A s p n = None)) \<or>
    (\<exists>t' d' j. eval_mm_valid A tn t d = Some (False, t', d') \<and> failed tn j d d') \<or>
    (\<exists>t' d' L' b'. eval_mm_valid A tn t d = Some (True, t', d') \<and> same_trace t t' \<and> live L' b' t' d' \<and>
       errors d' = errors d \<and> printed d' = printed d)"
proof -
  obtain s where s: "op_init A (op_reset A (alloc d)) = Some (0, s)" "ok s {}" using init [OF assms(1)] by auto
  let ?d = "d\<lparr>alloc := s, ranges := []\<rparr>"
  have "live {} b t ?d" for b using s(2) assms(2) by (simp add: tracked_def owns_def wf_trace_def)
  from valid_loop_ok [OF this, of "ops t" 0 tn] assms(2) show ?thesis
    using s(1) by (simp add: eval_mm_valid_def reset_heap_def eval_mm_valid_inner_def clear_ranges_def wf_trace_def failed_def)
qed

end

locale total_tested_alloc = tested_alloc + total_alloc
begin

lemma eval_mm_valid_returns:
  assumes "area (alloc d)" "wf_trace t"
  shows "(\<exists>t' d' j. eval_mm_valid A tn t d = Some (False, t', d') \<and> failed tn j d d') \<or>
    (\<exists>t' d'. eval_mm_valid A tn t d = Some (True, t', d') \<and> same_trace t t' \<and>
       errors d' = errors d \<and> printed d' = printed d)"
  using eval_mm_valid_ok [OF assms, of tn] realloc_total by blast

end

end
