(* ===== verification/Mdriver_Util.thy ===== *)
theory Mdriver_Util
  imports Mdriver_Spec
begin

text \<open>
  The measurements of the driver: \<open>eval_mm_util\<close> returns the peak of the total size of the live
  blocks, and drives the allocator through the same calls as \<open>eval_mm_speed\<close>.
\<close>

subsection \<open>The peak of the live sizes\<close>

definition live_total :: "(int \<times> int) list \<Rightarrow> int" where
  "live_total M = sum_list (map snd M)"

definition drop_id :: "int \<Rightarrow> (int \<times> int) list \<Rightarrow> (int \<times> int) list" where
  "drop_id i M = filter (\<lambda>x. fst x \<noteq> i) M"

fun after :: "rat \<Rightarrow> (int \<times> int) list \<Rightarrow> traceop \<Rightarrow> (int \<times> int) list" where
  "after m M (ALLOC i sz) = (i, the (request m sz)) # M"
| "after m M (REALLOC i sz) = (i, the (request m sz)) # drop_id i M"
| "after m M (FREE i) = drop_id i M"

fun peak :: "rat \<Rightarrow> (int \<times> int) list \<Rightarrow> traceop list \<Rightarrow> int" where
  "peak m M [] = live_total M"
| "peak m M (r # rs) = max (live_total M) (peak m (after m M r) rs)"

lemma live_total_drop:
  "distinct (map fst M) \<Longrightarrow> (i, n) \<in> set M \<Longrightarrow> live_total (drop_id i M) = live_total M - n"
proof (induction M)
  case (Cons x M)
  then show ?case
  proof (cases "fst x = i")
    case True
    then have "drop_id i M = M" using Cons.prems(1) by (auto simp: drop_id_def filter_id_conv image_iff)
    moreover have "snd x = n" using True Cons.prems by (cases x) (auto simp: image_iff)
    ultimately show ?thesis using True by (simp add: live_total_def drop_id_def)
  qed (auto simp: live_total_def drop_id_def)
qed simp

lemma drop_id_set: "set (drop_id i M) = {x \<in> set M. fst x \<noteq> i}"
  by (auto simp: drop_id_def)

lemma drop_id_distinct: "distinct (map fst M) \<Longrightarrow> distinct (map fst (drop_id i M))"
  unfolding drop_id_def by (rule distinct_map_filter)

lemma peak_ge: "live_total M \<le> peak m M rs"
  by (cases rs) auto

definition sized ::
    "('s \<Rightarrow> (ptr \<times> int) set \<Rightarrow> bool) \<Rightarrow> int set \<Rightarrow> (int \<Rightarrow> live_block) \<Rightarrow> (int \<times> int) list \<Rightarrow> trace_t \<Rightarrow> 's \<Rightarrow> bool" where
  "sized ok L b M t s \<longleftrightarrow>
     ok s ((\<lambda>i. (lp (b i), lc (b i))) ` L) \<and> inj_on (\<lambda>i. lp (b i)) L \<and>
     (\<forall>i\<in>L. block_at t i = Some (lp (b i)) \<and> size_at t i = Some (lsz (b i)) \<and>
        0 < lsz (b i) \<and> lsz (b i) \<le> lc (b i) \<and> lsz (b i) \<le> max_request) \<and>
     L \<subseteq> {0..<num_ids t} \<and> length (blocks t) = nat (num_ids t) \<and> length (block_sizes t) = nat (num_ids t) \<and>
     distinct (map fst M) \<and> set M = (\<lambda>i. (i, lsz (b i))) ` L"

lemma sized_parts:
  assumes "sized ok L b M t s" "i \<in> L"
  shows "block_at t i = Some (lp (b i))" "size_at t i = Some (lsz (b i))" "0 < lsz (b i)" "lsz (b i) \<le> lc (b i)"
    "lsz (b i) \<le> max_request" "0 \<le> i" "i < num_ids t" "s32 (lsz (b i)) = lsz (b i)"
    "(lp (b i), lc (b i)) \<in> (\<lambda>i. (lp (b i), lc (b i))) ` L" "(i, lsz (b i)) \<in> set M"
proof -
  show "block_at t i = Some (lp (b i))" "size_at t i = Some (lsz (b i))" "0 < lsz (b i)" "lsz (b i) \<le> lc (b i)"
    "lsz (b i) \<le> max_request" "0 \<le> i" "i < num_ids t"
    "(lp (b i), lc (b i)) \<in> (\<lambda>i. (lp (b i), lc (b i))) ` L" "(i, lsz (b i)) \<in> set M"
    using assms by (auto simp: sized_def)
  then show "s32 (lsz (b i)) = lsz (b i)" by (intro s32_id) (auto simp: max_request_def)
qed

lemma sized_total:
  assumes "sized ok L b M t s"
  shows "0 \<le> live_total M"
  unfolding live_total_def using assms by (intro sum_list_nonneg) (force simp: sized_def)

context tested_alloc
begin

lemma sized_put:
  assumes tr: "sized ok L b M t s0" and i: "i \<notin> L" "0 \<le> i" "i < num_ids t" and n: "0 < n" "n \<le> max_request" "n \<le> c"
    and s: "ok s (insert (p, c) ((\<lambda>i. (lp (b i), lc (b i))) ` L))" "(p, c) \<notin> (\<lambda>i. (lp (b i), lc (b i))) ` L"
  shows "\<exists>t1 t'. put_block t i p = Some t1 \<and> put_size t1 i n = Some t' \<and> same_trace t t' \<and>
    sized ok (insert i L) (b(i := \<lparr>lp = p, lsz = n, lc = c\<rparr>)) ((i, n) # M) t' s"
proof -
  let ?U = "(\<lambda>i. (lp (b i), lc (b i))) ` L"
  let ?b = "b(i := \<lparr>lp = p, lsz = n, lc = c\<rparr>)"
  have new: "lp (b j) \<noteq> p" if "j \<in> L" for j
    using apart [OF s(1), of "lp (b j)" "lc (b j)" p c] that s(2) sized_parts(3,4) [OF tr that]
      payload [OF s(1), of p c, simplified] by force
  have len: "length (blocks t) = nat (num_ids t)" "length (block_sizes t) = nat (num_ids t)"
    using tr by (simp_all add: sized_def)
  obtain t1 t' where t': "put_block t i p = Some t1" "put_size t1 i n = Some t'" "same_trace t t'"
    "length (blocks t') = nat (num_ids t')" "length (block_sizes t') = nat (num_ids t')"
    "\<And>j. 0 \<le> j \<Longrightarrow> block_at t' j = (if j = i then Some p else block_at t j)"
    "\<And>j. 0 \<le> j \<Longrightarrow> size_at t' j = (if j = i then Some n else size_at t j)"
    using put_eqs [OF i(2,3) len n(1,2), of p] unfolding same_trace_def by (elim exE conjE) simp
  have im: "(\<lambda>j. (lp (?b j), lc (?b j))) ` insert i L = insert (p, c) ?U"
    using i(1) by (auto simp: image_iff)
  have at: "block_at t' j = Some (lp (?b j)) \<and> size_at t' j = Some (lsz (?b j)) \<and>
      0 < lsz (?b j) \<and> lsz (?b j) \<le> lc (?b j) \<and> lsz (?b j) \<le> max_request" if "j \<in> insert i L" for j
  proof -
    have "0 \<le> j" using that i(2) sized_parts(6) [OF tr] by auto
    then show ?thesis using that t'(6,7) [of j] sized_parts(1-5) [OF tr, of j] n by auto
  qed
  have "sized ok (insert i L) ?b ((i, n) # M) t' s"
    unfolding sized_def im
  proof (intro conjI)
    show "inj_on (\<lambda>j. lp (?b j)) (insert i L)" using tr new i(1) by (auto simp: sized_def inj_on_def)
    show "insert i L \<subseteq> {0..<num_ids t'}" using tr i t'(3) by (auto simp: sized_def same_trace_def)
    show "distinct (map fst ((i, n) # M))" using tr i(1) by (auto simp: sized_def)
    show "set ((i, n) # M) = (\<lambda>j. (j, lsz (?b j))) ` insert i L" using tr i(1) by (auto simp: sized_def image_iff)
  qed (use s(1) at t'(4,5) in auto)
  then show ?thesis using t'(1-3) by blast
qed

lemma sized_drop:
  assumes "sized ok L b M t s0" "i \<in> L" "ok s ((\<lambda>i. (lp (b i), lc (b i))) ` L - {(lp (b i), lc (b i))})"
  shows "sized ok (L - {i}) b (drop_id i M) t s"
proof -
  have inj: "inj_on (\<lambda>i. lp (b i)) L" using assms(1) by (simp add: sized_def)
  have "(\<lambda>i. (lp (b i), lc (b i))) ` (L - {i}) = (\<lambda>i. (lp (b i), lc (b i))) ` L - {(lp (b i), lc (b i))}"
    using inj assms(2) by (auto simp: inj_on_def)
  then show ?thesis
    using assms drop_id_distinct [of M i] by (auto simp: sized_def drop_id_set inj_on_def)
qed

lemma realloc_gap:
  "ok s U \<Longrightarrow> (p, c) \<in> U \<Longrightarrow> 0 < n \<Longrightarrow> n \<le> max_request \<Longrightarrow> op_realloc A s p n = None \<Longrightarrow>
   \<exists>U s p c n. ok s U \<and> (p, c) \<in> U \<and> 0 < n \<and> n \<le> max_request \<and> op_realloc A s p n = None"
  by blast

lemma util_loop_ok:
  assumes "sized ok L b M t (alloc d)" "wf_ops (multiplier t) (num_ids t) L rs" "num_ops t = k + int (length rs)"
    "peak (multiplier t) M rs < 2 ^ 31" "live_total M \<le> mx"
  shows "(util_loop A k rs (live_total M) mx t d = None \<and>
        (\<exists>U s p c n. ok s U \<and> (p, c) \<in> U \<and> 0 < n \<and> n \<le> max_request \<and> op_realloc A s p n = None)) \<or>
    (\<exists>msg. util_loop A k rs (live_total M) mx t d = Some (Inl msg)) \<or>
    (\<exists>t' d'. util_loop A k rs (live_total M) mx t d = Some (Inr (max mx (peak (multiplier t) M rs), t', d')))"
  using assms
proof (induction rs arbitrary: k L b M t d mx)
  case Nil
  then show ?case by (simp add: max_def)
next
  case (Cons r rs)
  let ?m = "multiplier t"
  let ?U = "(\<lambda>i. (lp (b i), lc (b i))) ` L"
  have lt: "k < num_ops t" using Cons.prems(3) by simp
  have ok: "ok (alloc d) ?U" using Cons.prems(1) by (simp add: sized_def)
  have tot: "0 \<le> live_total M" using sized_total [OF Cons.prems(1)] .
  have pk: "peak ?m (after ?m M r) rs < 2 ^ 31" "live_total (after ?m M r) < 2 ^ 31"
    using Cons.prems(4) peak_ge [of "after ?m M r" ?m rs] by auto
  have step: ?case
    if eq: "\<And>mx. util_loop A k (r # rs) (live_total M) mx t d =
         util_loop A (k + 1) rs (live_total (after ?m M r)) (if grow \<and> live_total (after ?m M r) > mx then live_total (after ?m M r) else mx) t' d'"
      and w: "wf_ops ?m (num_ids t) L' rs" and tr: "same_trace t t'" "sized ok L' b' (after ?m M r) t' (alloc d')"
      and g: "\<not> grow \<Longrightarrow> live_total (after ?m M r) \<le> live_total M" for t' d' L' b' grow
  proof -
    let ?mx = "if grow \<and> live_total (after ?m M r) > mx then live_total (after ?m M r) else mx"
    have "max ?mx (peak ?m (after ?m M r) rs) = max mx (peak ?m M (r # rs))"
      using Cons.prems(5) peak_ge [of "after ?m M r" ?m rs] by auto
    moreover have "live_total (after ?m M r) \<le> ?mx" using g Cons.prems(5) by auto
    ultimately show ?thesis
      using Cons.IH [OF tr(2), of "k + 1" ?mx] eq [of mx] w tr(1) pk(1) Cons.prems(3) by (simp add: same_trace_def)
  qed
  show ?case
  proof (cases r)
    case (ALLOC i sz)
    then obtain n where n: "request ?m sz = Some n" "0 < n" "n \<le> max_request" "i \<notin> L" "0 \<le> i" "i < num_ids t"
      "wf_ops ?m (num_ids t) (insert i L) rs"
      using Cons.prems(2) by (auto split: option.splits)
    from malloc [OF ok n(2,3)] obtain p s where m: "op_malloc A (alloc d) n = Some (p, s)"
      "if p = NULL then s = alloc d else \<exists>c. n \<le> c \<and> ok s (insert (p, c) ?U) \<and> (p, c) \<notin> ?U \<and>
         same_payloads ?U (op_byte A (alloc d)) (op_byte A s)" by blast
    show ?thesis
    proof (cases "p = NULL")
      case True
      then show ?thesis using ALLOC n(1) m(1) lt by simp
    next
      case False
      then obtain c where c: "n \<le> c" "ok s (insert (p, c) ?U)" "(p, c) \<notin> ?U" using m(2) by auto
      obtain t1 t' where t: "put_block t i p = Some t1" "put_size t1 i n = Some t'" "same_trace t t'"
        "sized ok (insert i L) (b(i := \<lparr>lp = p, lsz = n, lc = c\<rparr>)) ((i, n) # M) t' s"
        using sized_put [OF Cons.prems(1) n(4-6,2,3) c] by blast
      show ?thesis
        by (rule step [where grow = True, OF _ n(7) t(3)])
          (use ALLOC n(1) m(1) lt False t pk(2) tot n(2) in \<open>auto simp: live_total_def cint_def add.commute\<close>)
    qed
  next
    case (REALLOC i sz)
    then obtain n where n: "request ?m sz = Some n" "0 < n" "n \<le> max_request" "i \<in> L"
      "wf_ops ?m (num_ids t) L rs"
      using Cons.prems(2) by (auto split: option.splits)
    note T = sized_parts [OF Cons.prems(1) n(4)]
    show ?thesis
    proof (cases "op_realloc A (alloc d) (lp (b i)) n")
      case None
      then show ?thesis using realloc_gap [OF ok T(9) n(2,3)] REALLOC n(1) T(1,2) lt by simp
    next
      case (Some ps)
      obtain p s where ps: "op_realloc A (alloc d) (lp (b i)) n = Some (p, s)" using Some by (cases ps) auto
      show ?thesis
      proof (cases "p = NULL")
        case True
        then show ?thesis using REALLOC n(1) ps T(1,2) lt by simp
      next
        case False
        then obtain c where c: "n \<le> c" "ok s (insert (p, c) (?U - {(lp (b i), lc (b i))}))"
          "(p, c) \<notin> ?U - {(lp (b i), lc (b i))}"
          using realloc [OF ok T(9) n(2,3) ps] by auto
        obtain s0 where s0: "ok s0 (?U - {(lp (b i), lc (b i))})" using free [OF ok T(9)] by auto
        have im: "(\<lambda>i. (lp (b i), lc (b i))) ` (L - {i}) = ?U - {(lp (b i), lc (b i))}"
          using Cons.prems(1) n(4) by (auto simp: sized_def inj_on_def)
        obtain t1 t' where t: "put_block t i p = Some t1" "put_size t1 i n = Some t'" "same_trace t t'"
          "sized ok L (b(i := \<lparr>lp = p, lsz = n, lc = c\<rparr>)) ((i, n) # drop_id i M) t' s"
          using sized_put [OF sized_drop [OF Cons.prems(1) n(4) s0] _ T(6,7) n(2,3) c(1), unfolded im, OF _ c(2,3)] n(4)
          by (auto simp: insert_absorb)
        have tt: "live_total ((i, n) # drop_id i M) = live_total M + (n - lsz (b i))"
          using live_total_drop [of M i "lsz (b i)"] T(10) Cons.prems(1) by (simp add: live_total_def sized_def)
        have "live_total (after ?m M r) = live_total M + (n - lsz (b i))" using REALLOC n(1) tt by simp
        moreover have "0 \<le> live_total ((i, n) # drop_id i M)" using sized_total [OF t(4)] .
        ultimately have "cint (n - lsz (b i)) = Some (n - lsz (b i))"
          "cint (live_total M + (n - lsz (b i))) = Some (live_total M + (n - lsz (b i)))"
          using pk(2) tt T(3,5) n(2,3) by (simp_all add: max_request_def)
        note ci = this
        show ?thesis
          by (intro step [where grow = True and d' = "d\<lparr>alloc := s\<rparr>", OF _ n(5) t(3)])
            (use REALLOC n(1) ps lt False t T(1,2,8) tt ci in \<open>auto simp del: cint_Some\<close>)
      qed
    qed
  next
    case (FREE i)
    then have w: "i \<in> L" "wf_ops ?m (num_ids t) (L - {i}) rs" using Cons.prems(2) by auto
    note T = sized_parts [OF Cons.prems(1) w(1)]
    obtain s where s: "op_free A (alloc d) (lp (b i)) = Some s" "ok s (?U - {(lp (b i), lc (b i))})"
      using free [OF ok T(9)] by auto
    have tr: "sized ok (L - {i}) b (drop_id i M) t s" using sized_drop [OF Cons.prems(1) w(1) s(2)] .
    have tt: "live_total (drop_id i M) = live_total M - lsz (b i)"
      using live_total_drop [of M i "lsz (b i)"] T(10) Cons.prems(1) by (simp add: sized_def)
    have "cint (live_total M - lsz (b i)) = Some (live_total M - lsz (b i))"
      using sized_total [OF tr] pk(2) tt FREE by simp
    then show ?thesis
      by (intro step [where grow = False and d' = "d\<lparr>alloc := s\<rparr>", OF _ w(2) same_trace_simps(1)])
        (use FREE s(1) lt T(1-3,8) tt tr in \<open>auto simp del: cint_Some\<close>)
  qed
qed

lemma eval_mm_util_ok:
  assumes "area (alloc d)" "wf_trace t" "peak (multiplier t) [] (ops t) < 2 ^ 31"
  shows "(eval_mm_util A t d = None \<and>
        (\<exists>U s p c n. ok s U \<and> (p, c) \<in> U \<and> 0 < n \<and> n \<le> max_request \<and> op_realloc A s p n = None)) \<or>
    (\<exists>msg. eval_mm_util A t d = Some (Inl msg)) \<or>
    (\<exists>t' d'. eval_mm_util A t d = Some (Inr (peak (multiplier t) [] (ops t), t', d')))"
proof -
  obtain s where s: "op_init A (op_reset A (alloc d)) = Some (0, s)" "ok s {}" using init [OF assms(1)] by auto
  have tr: "sized ok {} b [] t s" for b using s(2) assms(2) by (simp add: sized_def wf_trace_def)
  have "max 0 (peak (multiplier t) [] (ops t)) = peak (multiplier t) [] (ops t)"
    using peak_ge [of "[]" "multiplier t" "ops t"] by (simp add: live_total_def)
  then show ?thesis
    using util_loop_ok [of "{}" _ "[]" t "d\<lparr>alloc := s\<rparr>" "ops t" 0 0] tr assms(2,3) s(1)
    by (simp add: eval_mm_util_def wf_trace_def live_total_def)
qed

end

subsection \<open>The same calls\<close>

lemma blocks_id: "blocks u = x \<Longrightarrow> u\<lparr>blocks := x\<rparr> = (u :: trace_t)"
  by (cases u) simp

lemma put_block_blocks: "put_block t i p = Some t1 \<Longrightarrow> blocks u = blocks t \<Longrightarrow>
    put_block u i p = Some (u\<lparr>blocks := blocks t1\<rparr>)"
  by (auto simp: put_block_def split: if_splits)

lemma put_size_blocks: "put_size t i n = Some t1 \<Longrightarrow> blocks t1 = blocks t \<and> same_trace t t1"
  by (auto simp: put_size_def same_trace_def split: if_splits)

lemma put_block_same: "put_block t i p = Some t1 \<Longrightarrow> same_trace t t1"
  by (auto simp: put_block_def same_trace_def split: if_splits)

lemma util_speed_loop:
  assumes "util_loop A k rs tot mx t d = Some (Inr (m, t', d'))" "blocks u = blocks t" "same_trace t u" "alloc e = alloc d"
  shows "\<exists>u' e'. speed_loop A k rs u e = Some (Inr (u', e')) \<and> alloc e' = alloc d' \<and> blocks u' = blocks t'"
  using assms
proof (induction rs arbitrary: k tot mx t d u e)
  case Nil
  then show ?case by (auto simp: same_trace_def split: if_splits)
next
  case (Cons r rs)
  have c: "num_ops u = num_ops t" "multiplier u = multiplier t" using Cons.prems(3) by (simp_all add: same_trace_def)
  have bl: "block_at u i = block_at t i" for i using Cons.prems(2) by (simp add: block_at_def)
  show ?case
  proof (cases "k < num_ops t")
    case False
    then show ?thesis using Cons.prems c by auto
  next
    case True
    have next': ?thesis
      if "util_loop A (k + 1) rs tot' mx' tb (d\<lparr>alloc := s\<rparr>) = Some (Inr (m, t', d'))"
        "speed_loop A k (r # rs) u e = speed_loop A (k + 1) rs (u\<lparr>blocks := blocks tb\<rparr>) (e\<lparr>alloc := s\<rparr>)"
        "same_trace t tb" for tot' mx' tb s
      using Cons.IH [OF that(1), of "u\<lparr>blocks := blocks tb\<rparr>" "e\<lparr>alloc := s\<rparr>"] that(2,3) Cons.prems(3)
      by (simp add: same_trace_def)
    have stored: ?thesis
      if "put_block t i p = Some t1" "put_size t1 i n = Some t2"
        "util_loop A (k + 1) rs tot' mx' t2 (d\<lparr>alloc := s\<rparr>) = Some (Inr (m, t', d'))"
        "speed_loop A k (r # rs) u e = do { u \<leftarrow> put_block u i p; speed_loop A (k + 1) rs u (e\<lparr>alloc := s\<rparr>) }"
      for i p n t1 t2 tot' mx' s
      using next' [OF that(3)] put_block_blocks [OF that(1) Cons.prems(2)] put_size_blocks [OF that(2)]
        put_block_same [OF that(1)] that(4) by (auto simp: same_trace_def)
    show ?thesis
    proof (cases r)
      case (ALLOC i sz)
      then obtain n p s t1 t2 where "request (multiplier t) sz = Some n" "op_malloc A (alloc d) n = Some (p, s)" "p \<noteq> NULL"
        "put_block t i p = Some t1" "put_size t1 i n = Some t2"
        "util_loop A (k + 1) rs (tot + n) (if tot + n > mx then tot + n else mx) t2 (d\<lparr>alloc := s\<rparr>) = Some (Inr (m, t', d'))"
        using Cons.prems(1) True by (auto split: Option.bind_splits if_splits)
      then show ?thesis using ALLOC True c Cons.prems(4) by (intro stored) (auto simp: speed_request_def split: Option.bind_splits)
    next
      case (REALLOC i sz)
      then obtain n os q p s t1 t2 where "request (multiplier t) sz = Some n" "block_at t i = Some q"
        "op_realloc A (alloc d) q n = Some (p, s)" "p \<noteq> NULL" "put_block t i p = Some t1" "put_size t1 i n = Some t2"
        "util_loop A (k + 1) rs (tot + (n - s32 os)) (if tot + (n - s32 os) > mx then tot + (n - s32 os) else mx)
           t2 (d\<lparr>alloc := s\<rparr>) = Some (Inr (m, t', d'))"
        using Cons.prems(1) True by (auto simp: Let_def split: Option.bind_splits if_splits)
      then show ?thesis
        using REALLOC True c Cons.prems(4) bl by (intro stored) (auto simp: speed_request_def split: Option.bind_splits)
    next
      case (FREE i)
      then obtain os p s where "block_at t i = Some p" "op_free A (alloc d) p = Some s"
        "util_loop A (k + 1) rs (tot - s32 os) mx t (d\<lparr>alloc := s\<rparr>) = Some (Inr (m, t', d'))"
        using Cons.prems(1) True by (auto split: Option.bind_splits if_splits)
      moreover have "speed_loop A (k + 1) rs (u\<lparr>blocks := blocks t\<rparr>) z = speed_loop A (k + 1) rs u z" for z
        by (simp only: blocks_id [OF Cons.prems(2)])
      ultimately show ?thesis
        using FREE True c Cons.prems(4) bl same_trace_simps(1)
        by (intro next' [where tb = t]) (auto simp: speed_request_def)
    qed
  qed
qed

text \<open>
  Whatever the allocator, when \<open>eval_mm_util\<close> comes to its end, \<open>eval_mm_speed\<close> makes the same
  calls with the same results: it ends too, with the same heap and the same block pointers.
\<close>

theorem util_speed_same_heap:
  assumes "eval_mm_util A t d = Some (Inr (m, t', d'))"
  shows "\<exists>t2 d2. eval_mm_speed A t d = Some (Inr (t2, d2)) \<and> alloc d2 = alloc d' \<and> blocks t2 = blocks t'"
proof -
  obtain r s where s: "op_init A (op_reset A (alloc d)) = Some (r, s)" "\<not> r < 0"
    "util_loop A 0 (ops t) 0 0 t (d\<lparr>alloc := s\<rparr>) = Some (Inr (m, t', d'))"
    using assms by (auto simp: eval_mm_util_def split: Option.bind_splits if_splits)
  then show ?thesis
    using util_speed_loop [OF s(3) refl same_trace_simps(1) refl] by (auto simp: eval_mm_speed_def eval_mm_speed_inner_def)
qed

text \<open>An allocator that never reuses memory, run on the sample trace.\<close>

definition bump_ops :: "int alloc_ops" where
  "bump_ops = \<lparr>op_reset = (\<lambda>_. 4096), op_init = (\<lambda>s. Some (0, s)), op_malloc = (\<lambda>s n. Some (s, s + 1024)),
     op_free = (\<lambda>s p. Some s), op_realloc = (\<lambda>s p n. Some (s, s + 1024)), op_memset = (\<lambda>s p b n. Some s),
     op_byte = (\<lambda>s p. 0), op_lo = (\<lambda>s. 4096), op_hi = (\<lambda>s. s - 1), op_heapsize = (\<lambda>s. s - 4096)\<rparr>"

definition bump_driver :: "int driver" where
  "bump_driver = \<lparr>alloc = 4096, errors = 0, check_heap_bounds = True, ranges = [], printed = []\<rparr>"

lemma bump_util: "\<exists>t'. eval_mm_util bump_ops sample_trace bump_driver = Some (Inr (768, t', bump_driver\<lparr>alloc := 7168\<rparr>))"
  by (simp add: eval_mm_util_def bump_ops_def sample_trace_def bump_driver_def request_def int_of_double_def
      cint_def put_block_def put_size_def block_at_def size_at_def u64_def s32_def)

theorem util_speed_same_heap_witness:
  "\<exists>t2 d2. eval_mm_speed bump_ops sample_trace bump_driver = Some (Inr (t2, d2)) \<and> alloc d2 = 7168"
proof -
  obtain t' where "eval_mm_util bump_ops sample_trace bump_driver = Some (Inr (768, t', bump_driver\<lparr>alloc := 7168\<rparr>))"
    using bump_util by blast
  from util_speed_same_heap [OF this] show ?thesis by auto
qed

end
