(* ===== verification/Mdriver_Threads.thy ===== *)
theory Mdriver_Threads
  imports Mdriver_Spec
begin

text \<open>
  The multi-threaded runs of \<open>malloclab/mdriver.c\<close> over the locked entry points of \<open>mm_ts.c\<close>.  Each
  thread has its own copy of the trace and its own range list; the allocator, the counter of errors and
  the output are shared.  The lock makes each call of the allocator one step; what a thread does between
  two calls (its checks and the filling of its block) is a step of its own, so that calls of other
  threads fall between.  A schedule is the list of the threads in the order of their steps.  Two
  threads that report at once are taken to report one after the other, although \<open>errors++\<close> is not
  under the lock.
\<close>

subsection \<open>Threads\<close>

datatype phase = Ready | Called ptr | Finished bool

record thread =
  th_trace :: trace_t
  th_op :: nat
  th_ranges :: "range_t list"
  th_phase :: phase

definition view :: "thread \<Rightarrow> 's driver \<Rightarrow> 's driver" where
  "view th d = d\<lparr>ranges := th_ranges th\<rparr>"

text \<open>The locked wrappers of \<open>mm_ts.c\<close>: the call as one step on the shared state.\<close>

definition mm_malloc_locked :: "'s alloc_ops \<Rightarrow> int \<Rightarrow> 's driver \<Rightarrow> (ptr \<times> 's driver) option" where
  "mm_malloc_locked A sz d = do { (p, s) \<leftarrow> op_malloc A (alloc d) sz; Some (p, d\<lparr>alloc := s\<rparr>) }"

definition mm_realloc_locked :: "'s alloc_ops \<Rightarrow> ptr \<Rightarrow> int \<Rightarrow> 's driver \<Rightarrow> (ptr \<times> 's driver) option" where
  "mm_realloc_locked A p sz d = do { (q, s) \<leftarrow> op_realloc A (alloc d) p sz; Some (q, d\<lparr>alloc := s\<rparr>) }"

definition mm_free_locked :: "'s alloc_ops \<Rightarrow> ptr \<Rightarrow> 's driver \<Rightarrow> 's driver option" where
  "mm_free_locked A p d = do { s \<leftarrow> op_free A (alloc d) p; Some (d\<lparr>alloc := s\<rparr>) }"

definition current :: "thread \<Rightarrow> traceop option" where
  "current th = (if th_op th < length (ops (th_trace th)) then Some (ops (th_trace th) ! th_op th) else None)"

text \<open>Up to the next call of the allocator, which ends the step; behind the last request, the end.\<close>

definition call_step :: "'s alloc_ops \<Rightarrow> thread \<Rightarrow> 's driver \<Rightarrow> (thread \<times> 's driver) option" where
  "call_step A th d =
     (if int (th_op th) < num_ops (th_trace th) then do {
        r \<leftarrow> current th;
        case r of
          ALLOC index sz \<Rightarrow> do {
            n \<leftarrow> request (multiplier (th_trace th)) sz;
            (p, d) \<leftarrow> mm_malloc_locked A n d;
            Some (th\<lparr>th_phase := Called p\<rparr>, d)
          }
        | REALLOC index sz \<Rightarrow> do {
            n \<leftarrow> request (multiplier (th_trace th)) sz;
            oldp \<leftarrow> block_at (th_trace th) index;
            (p, d) \<leftarrow> mm_realloc_locked A oldp n d;
            Some (th\<lparr>th_phase := Called p\<rparr>, d)
          }
        | FREE index \<Rightarrow> do {
            p \<leftarrow> block_at (th_trace th) index;
            d \<leftarrow> mm_free_locked A p d;
            Some (th\<lparr>th_ranges := remove_range p (th_ranges th), th_op := Suc (th_op th)\<rparr>, d)
          }
      } else Some (th\<lparr>th_ranges := [], th_phase := Finished True\<rparr>, d))"

text \<open>From the return of the call to the next request, or to the end after a failed check.\<close>

definition finish_step :: "'s alloc_ops \<Rightarrow> int \<Rightarrow> ptr \<Rightarrow> thread \<Rightarrow> 's driver \<Rightarrow> (thread \<times> 's driver) option" where
  "finish_step A tracenum p th d = do {
     r \<leftarrow> current th;
     (fine, t, e) \<leftarrow> (case r of
        ALLOC index sz \<Rightarrow> do {
          n \<leftarrow> request (multiplier (th_trace th)) sz;
          finish_alloc A tracenum (int (th_op th)) index n p (th_trace th) (view th d)
        }
      | REALLOC index sz \<Rightarrow> do {
          n \<leftarrow> request (multiplier (th_trace th)) sz;
          oldp \<leftarrow> block_at (th_trace th) index;
          finish_realloc A tracenum (int (th_op th)) index n oldp p (th_trace th) (view th d)
        }
      | FREE index \<Rightarrow> None);
     Some
       (if fine then \<lparr>th_trace = t, th_op = Suc (th_op th), th_ranges = ranges e, th_phase = Ready\<rparr>
        else th\<lparr>th_ranges := [], th_phase := Finished False\<rparr>,
        e\<lparr>ranges := ranges d\<rparr>)
   }"

definition thread_step :: "'s alloc_ops \<Rightarrow> int \<Rightarrow> thread \<Rightarrow> 's driver \<Rightarrow> (thread \<times> 's driver) option" where
  "thread_step A tracenum th d =
     (case th_phase th of
        Ready \<Rightarrow> call_step A th d
      | Called p \<Rightarrow> finish_step A tracenum p th d
      | Finished r \<Rightarrow> Some (th, d))"

fun run_threads ::
    "'s alloc_ops \<Rightarrow> int \<Rightarrow> nat list \<Rightarrow> thread list \<Rightarrow> 's driver \<Rightarrow> (thread list \<times> 's driver) option" where
  "run_threads A tracenum [] ths d = Some (ths, d)"
| "run_threads A tracenum (j # js) ths d = do {
     assert_c (j < length ths);
     (th, d) \<leftarrow> thread_step A tracenum (ths ! j) d;
     run_threads A tracenum js (ths[j := th]) d
   }"

definition start_thread :: "trace_t \<Rightarrow> thread" where
  "start_thread t = \<lparr>th_trace = t, th_op = 0, th_ranges = [], th_phase = Ready\<rparr>"

fun thread_result :: "phase \<Rightarrow> bool option" where
  "thread_result (Finished r) = Some r"
| "thread_result ph = None"

text \<open>
  The test of the locked allocator in \<open>main\<close>: whether all threads ended well; the inner \<open>None\<close> is a
  schedule at whose end some thread cannot be joined yet.  \<open>check_heap_bounds\<close> is a variable of each
  thread, off in these and unchanged in the main thread.
\<close>

definition mt_valid ::
    "'s alloc_ops \<Rightarrow> nat \<Rightarrow> nat list \<Rightarrow> int \<Rightarrow> trace_t \<Rightarrow> 's driver \<Rightarrow> (bool option \<times> 's driver) option" where
  "mt_valid A nthreads sched tracenum t d = do {
     (_, d) \<leftarrow> reset_heap A tracenum d;
     (ths, e) \<leftarrow> run_threads A tracenum sched (replicate nthreads (start_thread t)) (d\<lparr>check_heap_bounds := False\<rparr>);
     let rs = map (thread_result \<circ> th_phase) ths;
     Some (if None \<in> set rs then None else Some (list_all (\<lambda>r. r = Some True) rs),
       e\<lparr>check_heap_bounds := check_heap_bounds d\<rparr>)
   }"

subsection \<open>What each thread may rely on\<close>

abbreviation pay :: "(int \<Rightarrow> live_block) \<Rightarrow> int set \<Rightarrow> (ptr \<times> int) set" where
  "pay b L \<equiv> (\<lambda>i. (lp (b i), lc (b i))) ` L"

definition todo :: "thread \<Rightarrow> int set \<Rightarrow> bool" where
  "todo th L \<longleftrightarrow> wf_ops (multiplier (th_trace th)) (num_ids (th_trace th)) L (drop (th_op th) (ops (th_trace th))) \<and>
     num_ops (th_trace th) = int (length (ops (th_trace th)))"

text \<open>
  The thread \<open>th\<close> owns the payloads \<open>U\<close>: those in its arrays, and between the call and the checks the
  block that was returned, which after a reallocation holds the old contents.
\<close>

definition alloc_pending :: "'s alloc_ops \<Rightarrow> thread \<Rightarrow> int \<Rightarrow> ptr \<Rightarrow> (ptr \<times> int) set \<Rightarrow> int set \<Rightarrow> (int \<Rightarrow> live_block) \<Rightarrow> 's driver \<Rightarrow> bool" where
  "alloc_pending A th n p U L b d \<longleftrightarrow> owns A L b (th_trace th) (view th d) \<and>
     (if p = NULL then U = pay b L
      else \<exists>c. n \<le> c \<and> (p, c) \<notin> pay b L \<and> U = insert (p, c) (pay b L))"

definition realloc_pending :: "'s alloc_ops \<Rightarrow> thread \<Rightarrow> int \<Rightarrow> int \<Rightarrow> ptr \<Rightarrow> (ptr \<times> int) set \<Rightarrow> int set \<Rightarrow> (int \<Rightarrow> live_block) \<Rightarrow> 's driver \<Rightarrow> bool" where
  "realloc_pending A th i n p U L b d \<longleftrightarrow>
     block_at (th_trace th) i = Some (lp (b i)) \<and> size_at (th_trace th) i = Some (lsz (b i)) \<and>
     0 < lsz (b i) \<and> lsz (b i) \<le> max_request \<and> 0 \<le> i \<and> i < num_ids (th_trace th) \<and>
     (if p = NULL then True
      else (\<exists>c. n \<le> c \<and> (p, c) \<notin> pay b (L - {i}) \<and> U = insert (p, c) (pay b (L - {i}))) \<and>
        owns A (L - {i}) b (th_trace th) (d\<lparr>ranges := remove_range (lp (b i)) (th_ranges th)\<rparr>) \<and>
        (\<forall>k. 0 \<le> k \<and> k < n \<and> k < lsz (b i) \<longrightarrow> op_byte A (alloc d) (p + k) = i mod 256))"

definition thread_ok :: "'s alloc_ops \<Rightarrow> thread \<Rightarrow> (ptr \<times> int) set \<Rightarrow> 's driver \<Rightarrow> bool" where
  "thread_ok A th U d \<longleftrightarrow> (case th_phase th of
     Finished r \<Rightarrow> True
   | Ready \<Rightarrow> \<exists>L b. U = pay b L \<and> owns A L b (th_trace th) (view th d) \<and> todo th L
   | Called p \<Rightarrow> \<exists>L b. todo th L \<and> (case current th of
       Some (ALLOC i sz) \<Rightarrow> \<exists>n. request (multiplier (th_trace th)) sz = Some n \<and> alloc_pending A th n p U L b d
     | Some (REALLOC i sz) \<Rightarrow> \<exists>n. request (multiplier (th_trace th)) sz = Some n \<and> realloc_pending A th i n p U L b d
     | _ \<Rightarrow> False))"

lemma th_phase_simps [simp]: "todo (th\<lparr>th_phase := ph\<rparr>) L = todo th L" "current (th\<lparr>th_phase := ph\<rparr>) = current th"
  by (simp_all add: todo_def current_def)

lemma thread_ok_ready:
  "owns A L b (th_trace th) (view th d) \<Longrightarrow> todo th L \<Longrightarrow> th_phase th = Ready \<Longrightarrow> thread_ok A th (pay b L) d"
  unfolding thread_ok_def by (simp only: phase.case) blast

lemma thread_ok_alloc:
  "todo th L \<Longrightarrow> current th = Some (ALLOC i sz) \<Longrightarrow> request (multiplier (th_trace th)) sz = Some n \<Longrightarrow>
     alloc_pending A th n p U L b d \<Longrightarrow> th_phase th = Called p \<Longrightarrow> thread_ok A th U d"
  unfolding thread_ok_def by (simp only: phase.case option.case traceop.case) blast

lemma thread_ok_realloc:
  "todo th L \<Longrightarrow> current th = Some (REALLOC i sz) \<Longrightarrow> request (multiplier (th_trace th)) sz = Some n \<Longrightarrow>
     realloc_pending A th i n p U L b d \<Longrightarrow> th_phase th = Called p \<Longrightarrow> thread_ok A th U d"
  unfolding thread_ok_def by (simp only: phase.case option.case traceop.case) blast

lemma thread_ok_called:
  assumes "thread_ok A th U d" "th_phase th = Called p"
  obtains L b i sz n where "todo th L" "current th = Some (ALLOC i sz)"
      "request (multiplier (th_trace th)) sz = Some n" "alloc_pending A th n p U L b d"
    | L b i sz n where "todo th L" "current th = Some (REALLOC i sz)"
      "request (multiplier (th_trace th)) sz = Some n" "realloc_pending A th i n p U L b d"
proof -
  obtain L b where "todo th L" and c: "case current th of
       Some (ALLOC i sz) \<Rightarrow> \<exists>n. request (multiplier (th_trace th)) sz = Some n \<and> alloc_pending A th n p U L b d
     | Some (REALLOC i sz) \<Rightarrow> \<exists>n. request (multiplier (th_trace th)) sz = Some n \<and> realloc_pending A th i n p U L b d
     | _ \<Rightarrow> False"
    using assms unfolding thread_ok_def by (simp only: phase.case) blast
  then show ?thesis
    using that by (cases "current th"; cases "the (current th)") force+
qed

lemma owns_frame:
  assumes "owns A L b t d" "same_payloads (pay b L) (op_byte A (alloc d)) (op_byte A (alloc e))" "ranges e = ranges d"
  shows "owns A L b t e"
proof -
  have "op_byte A (alloc e) (lp (b i) + j) = op_byte A (alloc d) (lp (b i) + j)"
    if "i \<in> L" "0 \<le> j" "j < lsz (b i)" for i j
    using same_payloadsD [OF assms(2), of "lp (b i)" "lc (b i)" j] assms(1) that by (force simp: owns_def)
  then show ?thesis using assms(1,3) by (auto simp: owns_def)
qed

lemma same_payloads_mono: "same_payloads U b b' \<Longrightarrow> V \<subseteq> U \<Longrightarrow> same_payloads V b b'"
  unfolding same_payloads_def by blast

lemma alloc_pending_frame:
  assumes "alloc_pending A th n p U L b d" "same_payloads U (op_byte A (alloc d)) (op_byte A (alloc e))"
  shows "alloc_pending A th n p U L b e"
proof -
  have "pay b L \<subseteq> U" using assms(1) unfolding alloc_pending_def by (cases "p = NULL") auto
  from same_payloads_mono [OF assms(2) this] assms(1) have "owns A L b (th_trace th) (view th e)"
    by - (rule owns_frame [of A L b "th_trace th" "view th d"], simp_all add: alloc_pending_def view_def)
  with assms(1) show ?thesis by (simp add: alloc_pending_def)
qed

lemma realloc_pending_frame:
  assumes "realloc_pending A th i n p U L b d" "same_payloads U (op_byte A (alloc d)) (op_byte A (alloc e))"
  shows "realloc_pending A th i n p U L b e"
proof (cases "p = NULL")
  case True
  then show ?thesis using assms(1) by (simp add: realloc_pending_def)
next
  case False
  then obtain c where c: "n \<le> c" "U = insert (p, c) (pay b (L - {i}))"
    using assms(1) unfolding realloc_pending_def by (simp only: if_False) blast
  then have "op_byte A (alloc e) (p + k) = op_byte A (alloc d) (p + k)" if "0 \<le> k" "k < n" for k
    using same_payloadsD [OF assms(2), of p c k] that by simp
  moreover have "owns A (L - {i}) b (th_trace th) (e\<lparr>ranges := remove_range (lp (b i)) (th_ranges th)\<rparr>)"
    using assms(1) False same_payloads_mono [OF assms(2), of "pay b (L - {i})", unfolded c(2), OF subset_insertI]
    by - (rule owns_frame [of A "L - {i}" b "th_trace th" "d\<lparr>ranges := remove_range (lp (b i)) (th_ranges th)\<rparr>"],
      simp_all add: realloc_pending_def)
  ultimately show ?thesis using assms(1) False by (simp add: realloc_pending_def)
qed

lemma thread_ok_frame:
  assumes "thread_ok A th U d" "same_payloads U (op_byte A (alloc d)) (op_byte A (alloc e))"
  shows "thread_ok A th U e"
proof (cases "th_phase th")
  case Ready
  then obtain L b where o: "U = pay b L" "owns A L b (th_trace th) (view th d)" "todo th L"
    using assms(1) unfolding thread_ok_def by (simp only: phase.case) blast
  from owns_frame [OF o(2), of "view th e"] assms(2) o(1) have "owns A L b (th_trace th) (view th e)"
    by (simp add: view_def)
  then show ?thesis using o(1,3) Ready unfolding thread_ok_def by (simp only: phase.case) blast
next
  case (Called p)
  from assms(1) Called show ?thesis
    by (cases rule: thread_ok_called)
      (use assms(2) alloc_pending_frame realloc_pending_frame Called in \<open>blast intro: thread_ok_alloc thread_ok_realloc\<close>)+
qed (simp add: thread_ok_def)

subsection \<open>One step\<close>

definition steps_left :: "thread \<Rightarrow> nat" where
  "steps_left th = (case th_phase th of
     Finished r \<Rightarrow> 0
   | Ready \<Rightarrow> 2 * (length (ops (th_trace th)) - th_op th) + 1
   | Called p \<Rightarrow> 2 * (length (ops (th_trace th)) - th_op th))"

text \<open>A step reports nothing, or that the allocator returned null, and then its thread has failed.\<close>

definition reported :: "int \<Rightarrow> thread \<Rightarrow> thread \<Rightarrow> 's driver \<Rightarrow> 's driver \<Rightarrow> bool" where
  "reported tn th th' d d' \<longleftrightarrow>
     (if th_phase th' = Finished False \<and> th_phase th \<noteq> Finished False then \<exists>k. failed tn k d d'
      else errors d' = errors d \<and> printed d' = printed d \<and>
        (th_phase th = Finished False \<longrightarrow> th_phase th' = Finished False))"

lemma todo_ops: "todo th L \<Longrightarrow> current th = Some r \<Longrightarrow>
    th_op th < length (ops (th_trace th)) \<and>
    wf_ops (multiplier (th_trace th)) (num_ids (th_trace th)) L (r # drop (Suc (th_op th)) (ops (th_trace th)))"
  by (auto simp: todo_def current_def Cons_nth_drop_Suc split: if_splits)

lemma todo_next:
  assumes "todo th L" "same_trace (th_trace th) t'"
    "wf_ops (multiplier (th_trace th)) (num_ids (th_trace th)) L' (drop (Suc (th_op th)) (ops (th_trace th)))"
  shows "todo \<lparr>th_trace = t', th_op = Suc (th_op th), th_ranges = rs, th_phase = ph\<rparr> L'"
  using assms by (simp add: todo_def same_trace_def)

context tested_ops
begin

lemma call_step_ok:
  assumes ok: "ok (alloc d) U" and th: "thread_ok A th U d" "th_phase th = Ready"
  shows "(call_step A th d = None \<and> (\<exists>r\<in>set (ops (th_trace th)). is_realloc r) \<and>
        (\<exists>U s p c n. ok s U \<and> (p, c) \<in> U \<and> 0 < n \<and> n \<le> max_request \<and> op_realloc A s p n = None)) \<or>
    (\<exists>th' d' U'. call_step A th d = Some (th', d') \<and> ok (alloc d') U' \<and> thread_ok A th' U' d' \<and>
       reported tn th th' d d' \<and> steps_left th' < steps_left th \<and> ops (th_trace th') = ops (th_trace th))"
proof -
  obtain L b where U: "U = pay b L" and ow: "owns A L b (th_trace th) (view th d)" and td: "todo th L"
    using th by (auto simp: thread_ok_def)
  let ?t = "th_trace th"
  show ?thesis
  proof (cases "current th")
    case None
    then have "\<not> int (th_op th) < num_ops ?t" using td by (auto simp: current_def todo_def split: if_splits)
    then show ?thesis
      using ok th(2) by (intro disjI2) (auto simp: call_step_def thread_ok_def reported_def steps_left_def)
  next
    case (Some r)
    note N = todo_ops [OF td Some]
    have lt: "int (th_op th) < num_ops ?t" using N td by (simp add: todo_def)
    have rin: "r \<in> set (ops ?t)" using Some by (auto simp: current_def split: if_splits)
    show ?thesis
    proof (cases r)
      case (ALLOC i sz)
      then obtain n where n: "request (multiplier ?t) sz = Some n" "0 < n" "n \<le> max_request"
        using N by (auto split: option.splits)
      from malloc [OF ok n(2,3)] obtain p s where m: "op_malloc A (alloc d) n = Some (p, s)"
        "if p = NULL then s = alloc d else \<exists>c. n \<le> c \<and> ok s (insert (p, c) U) \<and> (p, c) \<notin> U \<and>
          same_payloads U (op_byte A (alloc d)) (op_byte A s)" by blast
      let ?d = "d\<lparr>alloc := s\<rparr>" and ?th = "th\<lparr>th_phase := Called p\<rparr>"
      have st: "call_step A th d = Some (?th, ?d)"
        using lt Some ALLOC n(1) m(1) by (simp add: call_step_def mm_malloc_locked_def)
      obtain U' where U': "ok s U'" "alloc_pending A ?th n p U' L b ?d"
      proof (cases "p = NULL")
        case True
        then have "s = alloc d" using m(2) by simp
        then show ?thesis using that [of U] ok True ow U by (simp add: alloc_pending_def view_def)
      next
        case False
        then obtain c where c: "n \<le> c" "ok s (insert (p, c) U)" "(p, c) \<notin> U"
          "same_payloads U (op_byte A (alloc d)) (op_byte A s)" using m(2) by auto
        have "owns A L b ?t (view ?th ?d)"
          using owns_frame [OF ow, of "view ?th ?d"] c(4) U by (simp add: view_def)
        then show ?thesis using that [of "insert (p, c) U"] c(1-3) False U by (auto simp: alloc_pending_def)
      qed
      have "thread_ok A ?th U' ?d"
        by (rule thread_ok_alloc [OF _ _ _ U'(2)]) (use td n(1) Some ALLOC in simp_all)
      with st U'(1) N show ?thesis
        by (intro disjI2 exI [of _ ?th] exI [of _ ?d] exI [of _ U']) (simp add: reported_def steps_left_def th(2))
    next
      case (REALLOC i sz)
      then obtain n where n: "request (multiplier ?t) sz = Some n" "0 < n" "n \<le> max_request" "i \<in> L" "i mod 256 < 128"
        using N by (auto split: option.splits)
      note T = ownsD [OF ow n(4)]
      have live: "(lp (b i), lc (b i)) \<in> U" using T(9) U by simp
      show ?thesis
      proof (cases "op_realloc A (alloc d) (lp (b i)) n")
        case None
        then have "call_step A th d = None"
          using lt Some REALLOC n(1) T(1) by (simp add: call_step_def mm_realloc_locked_def)
        then show ?thesis using None ok live n(2,3) rin REALLOC by (intro disjI1) force
      next
        case (Some ps)
        obtain p s where ps: "op_realloc A (alloc d) (lp (b i)) n = Some (p, s)" using Some by (cases ps) auto
        let ?d = "d\<lparr>alloc := s\<rparr>" and ?th = "th\<lparr>th_phase := Called p\<rparr>"
        have st: "call_step A th d = Some (?th, ?d)"
          using lt \<open>current th = Some r\<close> REALLOC n(1) T(1) ps by (simp add: call_step_def mm_realloc_locked_def)
        obtain U' where U': "ok s U'" "realloc_pending A ?th i n p U' L b ?d"
        proof (cases "p = NULL")
          case True
          then have "s = alloc d" using realloc [OF ok live n(2,3) ps] by simp
          then show ?thesis using that [of U] ok True T by (simp add: realloc_pending_def)
        next
          case False
          then obtain c where c: "n \<le> c" "ok s (insert (p, c) (U - {(lp (b i), lc (b i))}))"
            "(p, c) \<notin> U - {(lp (b i), lc (b i))}"
            "\<And>j. 0 \<le> j \<Longrightarrow> j < min n (lc (b i)) \<Longrightarrow> op_byte A s (p + j) = op_byte A (alloc d) (lp (b i) + j)"
            "same_payloads (U - {(lp (b i), lc (b i))}) (op_byte A (alloc d)) (op_byte A s)"
            using realloc [OF ok live n(2,3) ps] by auto
          have D: "pay b (L - {i}) = U - {(lp (b i), lc (b i))}"
            "owns A (L - {i}) b ?t (d\<lparr>alloc := s, ranges := remove_range (lp (b i)) (th_ranges th)\<rparr>)"
            using drop_owns [OF ow n(4), of s] c(5) U by (simp_all add: view_def)
          have "op_byte A s (p + k) = i mod 256" if "0 \<le> k" "k < n" "k < lsz (b i)" for k
            using c(4) [of k] T(4) T(8) [of k] that by (simp add: view_def)
          then show ?thesis
            using that [of "insert (p, c) (U - {(lp (b i), lc (b i))})"] c(1-3) False D T
            by (simp add: realloc_pending_def) blast
        qed
        have "thread_ok A ?th U' ?d"
          by (rule thread_ok_realloc [OF _ _ _ U'(2)]) (use td n(1) \<open>current th = Some r\<close> REALLOC in simp_all)
        with st U'(1) N show ?thesis
          by (intro disjI2 exI [of _ ?th] exI [of _ ?d] exI [of _ U']) (simp add: reported_def steps_left_def th(2))
      qed
    next
      case (FREE i)
      then have w: "i \<in> L" "wf_ops (multiplier ?t) (num_ids ?t) (L - {i}) (drop (Suc (th_op th)) (ops ?t))"
        using N by auto
      note T = ownsD [OF ow w(1)]
      have live: "(lp (b i), lc (b i)) \<in> U" using T(9) U by simp
      from free [OF ok live] obtain s where s: "op_free A (alloc d) (lp (b i)) = Some s"
        "ok s (U - {(lp (b i), lc (b i))})"
        "same_payloads (U - {(lp (b i), lc (b i))}) (op_byte A (alloc d)) (op_byte A s)" by auto
      let ?d = "d\<lparr>alloc := s\<rparr>"
      let ?th = "th\<lparr>th_ranges := remove_range (lp (b i)) (th_ranges th), th_op := Suc (th_op th)\<rparr>"
      have st: "call_step A th d = Some (?th, ?d)"
        using lt Some FREE T(1) s(1) by (simp add: call_step_def mm_free_locked_def)
      have D: "pay b (L - {i}) = U - {(lp (b i), lc (b i))}"
        "owns A (L - {i}) b ?t (view ?th ?d)"
        using drop_owns [OF ow w(1), of s] s(3) U by (simp_all add: view_def)
      have "todo ?th (L - {i})" using w(2) td by (simp add: todo_def)
      with D have "thread_ok A ?th (U - {(lp (b i), lc (b i))}) ?d"
        using th(2) by (auto simp: thread_ok_def intro!: exI [of _ "L - {i}"] exI [of _ b])
      with st s(2) N show ?thesis
        by (intro disjI2 exI [of _ ?th] exI [of _ ?d] exI [of _ "U - {(lp (b i), lc (b i))}"])
          (simp add: reported_def steps_left_def th(2) diff_less_mono2)
    qed
  qed
qed

lemma finish_step_ok:
  assumes ok: "ok (alloc d) U" and th: "thread_ok A th U d" "th_phase th = Called p"
  shows "\<exists>th' d' U'. finish_step A tn p th d = Some (th', d') \<and> ok (alloc d') U' \<and> thread_ok A th' U' d' \<and>
    reported tn th th' d d' \<and> steps_left th' < steps_left th \<and> ops (th_trace th') = ops (th_trace th)"
  using th
proof (cases rule: thread_ok_called)
  case (1 L b i sz n)
  note N = todo_ops [OF 1(1,2)]
  have left: "Suc (2 * (length (ops (th_trace th)) - Suc (th_op th))) < 2 * (length (ops (th_trace th)) - th_op th)"
    using N by linarith
  let ?t = "th_trace th"
  show ?thesis
  proof (cases "p = NULL")
    case True
    let ?th = "th\<lparr>th_ranges := [], th_phase := Finished False\<rparr>"
    let ?d = "malloc_error tn (int (th_op th)) (Msg ''mm_malloc failed.'') d"
    have "finish_step A tn p th d = Some (?th, ?d)"
      using 1(2,3) True by (simp add: finish_step_def finish_alloc_def view_def malloc_error_def)
    moreover have "failed tn (int (th_op th)) d ?d" by (simp add: failed_def malloc_error_def)
    ultimately show ?thesis
      using ok th(2) N by (intro exI [of _ ?th] exI [of _ ?d] exI [of _ U])
        (auto simp: reported_def thread_ok_def steps_left_def malloc_error_def)
  next
    case False
    then obtain c where c: "owns A L b ?t (view th d)" "n \<le> c" "(p, c) \<notin> pay b L" "U = insert (p, c) (pay b L)"
      using 1(4) by (auto simp: alloc_pending_def)
    have w: "i \<notin> L" "0 \<le> i" "i < num_ids ?t" "0 < n" "n \<le> max_request"
      "wf_ops (multiplier ?t) (num_ids ?t) (insert i L) (drop (Suc (th_op th)) (ops ?t))"
      using N 1(3) by auto
    note f = fill_new [OF c(1) w(1-5) c(2), of "alloc d", OF ok [unfolded c(4)] c(3)]
    have id: "view th d\<lparr>alloc := alloc d\<rparr> = view th d" by (simp add: view_def)
    obtain s t1 t' where s: "op_memset A (alloc d) p (i mod 256) n = Some s" "put_block ?t i p = Some t1"
      "put_size t1 i n = Some t'" "same_trace ?t t'"
      "live (insert i L) (b(i := \<lparr>lp = p, lsz = n, lc = c\<rparr>)) t'
        (view th d\<lparr>alloc := s, ranges := \<lparr>lo = p, hi = p + n - 1\<rparr> # th_ranges th\<rparr>)"
      using f(2) by (auto simp: view_def)
    let ?th = "\<lparr>th_trace = t', th_op = Suc (th_op th), th_ranges = \<lparr>lo = p, hi = p + n - 1\<rparr> # th_ranges th, th_phase = Ready\<rparr>"
    let ?d = "d\<lparr>alloc := s\<rparr>" and ?b = "b(i := \<lparr>lp = p, lsz = n, lc = c\<rparr>)"
    have st: "finish_step A tn p th d = Some (?th, ?d)"
      using 1(2,3) False f(1) [of tn "int (th_op th)"] s(1-3)
      by (simp add: finish_step_def finish_alloc_def id, simp add: view_def)
    have o: "ok s (pay ?b (insert i L))" "owns A (insert i L) ?b t' (view ?th ?d)"
      using s(5) by (simp_all add: tracked_def view_def)
    have "thread_ok A ?th (pay ?b (insert i L)) ?d"
      using thread_ok_ready [of A "insert i L" ?b ?th ?d] o(2) todo_next [OF 1(1) s(4) w(6)] by simp
    with st o(1) left show ?thesis
      by (intro exI [of _ ?th] exI [of _ ?d] exI [of _ "pay ?b (insert i L)"])
        (use s(4) th(2) in \<open>simp add: reported_def steps_left_def same_trace_def\<close>)
  qed
next
  case (2 L b i sz n)
  note N = todo_ops [OF 2(1,2)]
  have left: "Suc (2 * (length (ops (th_trace th)) - Suc (th_op th))) < 2 * (length (ops (th_trace th)) - th_op th)"
    using N by linarith
  let ?t = "th_trace th"
  have R: "block_at ?t i = Some (lp (b i))" "size_at ?t i = Some (lsz (b i))" "0 < lsz (b i)" "lsz (b i) \<le> max_request"
    "0 \<le> i" "i < num_ids ?t" using 2(4) by (simp_all add: realloc_pending_def)
  show ?thesis
  proof (cases "p = NULL")
    case True
    let ?th = "th\<lparr>th_ranges := [], th_phase := Finished False\<rparr>"
    let ?d = "malloc_error tn (int (th_op th)) (Msg ''mm_realloc failed.'') d"
    have "finish_step A tn p th d = Some (?th, ?d)"
      using 2(2,3) R(1) True by (simp add: finish_step_def finish_realloc_def view_def malloc_error_def)
    moreover have "failed tn (int (th_op th)) d ?d" by (simp add: failed_def malloc_error_def)
    ultimately show ?thesis
      using ok th(2) N by (intro exI [of _ ?th] exI [of _ ?d] exI [of _ U])
        (auto simp: reported_def thread_ok_def steps_left_def malloc_error_def)
  next
    case False
    let ?e = "d\<lparr>ranges := remove_range (lp (b i)) (th_ranges th)\<rparr>"
    obtain c where c: "n \<le> c" "(p, c) \<notin> pay b (L - {i})" "U = insert (p, c) (pay b (L - {i}))"
      using 2(4) False by (auto simp: realloc_pending_def)
    have ow: "owns A (L - {i}) b ?t ?e" and byt: "\<And>k. 0 \<le> k \<Longrightarrow> k < n \<Longrightarrow> k < lsz (b i) \<Longrightarrow> op_byte A (alloc d) (p + k) = i mod 256"
      using 2(4) False by (simp_all add: realloc_pending_def)
    have w: "i \<in> L" "i mod 256 < 128" "0 < n" "n \<le> max_request"
      "wf_ops (multiplier ?t) (num_ids ?t) L (drop (Suc (th_op th)) (ops ?t))"
      using N 2(3) by auto
    note f = fill_new [OF ow _ R(5,6) w(3,4) c(1), of "alloc d", OF _ ok [unfolded c(3)] c(2)]
    obtain s t1 t' where s: "op_memset A (alloc d) p (i mod 256) n = Some s" "put_block ?t i p = Some t1"
      "put_size t1 i n = Some t'" "same_trace ?t t'"
      "live (insert i (L - {i})) (b(i := \<lparr>lp = p, lsz = n, lc = c\<rparr>)) t'
        (?e\<lparr>alloc := s, ranges := \<lparr>lo = p, hi = p + n - 1\<rparr> # ranges ?e\<rparr>)"
      using f(2) by auto
    have L: "insert i (L - {i}) = L" using w(1) by blast
    let ?th = "\<lparr>th_trace = t', th_op = Suc (th_op th),
      th_ranges = \<lparr>lo = p, hi = p + n - 1\<rparr> # remove_range (lp (b i)) (th_ranges th), th_phase = Ready\<rparr>"
    let ?d = "d\<lparr>alloc := s\<rparr>" and ?b = "b(i := \<lparr>lp = p, lsz = n, lc = c\<rparr>)"
    have sz: "s32 (lsz (b i)) = lsz (b i)" using R(3,4) by (intro s32_id) (auto simp: max_request_def)
    have pr: "preserved A (alloc d) p i (if n < lsz (b i) then n else lsz (b i))"
      using byt w(2) by (intro preserved_fill) (auto split: if_splits)
    have ar: "add_range A p n tn k ?e = Some (True, ?e\<lparr>ranges := \<lparr>lo = p, hi = p + n - 1\<rparr> # ranges ?e\<rparr>)" for k
      using f(1) [of tn k] by simp
    have fr: "finish_realloc A tn (int (th_op th)) i n (lp (b i)) p ?t (view th d) =
        Some (True, t', ?d\<lparr>ranges := \<lparr>lo = p, hi = p + n - 1\<rparr> # remove_range (lp (b i)) (th_ranges th)\<rparr>)"
      using False ar R(2) sz pr s(1-3)
      by (cases "n < lsz (b i)") (simp_all add: finish_realloc_def view_def Let_def)
    have st: "finish_step A tn p th d = Some (?th, ?d)"
      using 2(2,3) R(1) fr by (simp add: finish_step_def)
    have o: "ok s (pay ?b L)" "owns A L ?b t' (view ?th ?d)"
      using s(5) unfolding L by (simp_all add: tracked_def view_def)
    have "thread_ok A ?th (pay ?b L) ?d"
      using thread_ok_ready [of A L ?b ?th ?d] o(2) todo_next [OF 2(1) s(4) w(5)] by simp
    with st o(1) left show ?thesis
      by (intro exI [of _ ?th] exI [of _ ?d] exI [of _ "pay ?b L"])
        (use s(4) th(2) in \<open>simp add: reported_def steps_left_def same_trace_def\<close>)
  qed
qed

lemma thread_step_ok:
  assumes "ok (alloc d) U" "thread_ok A th U d"
  shows "(thread_step A tn th d = None \<and> (\<exists>r\<in>set (ops (th_trace th)). is_realloc r) \<and>
        (\<exists>U s p c n. ok s U \<and> (p, c) \<in> U \<and> 0 < n \<and> n \<le> max_request \<and> op_realloc A s p n = None)) \<or>
    (\<exists>th' d' U'. thread_step A tn th d = Some (th', d') \<and> ok (alloc d') U' \<and> thread_ok A th' U' d' \<and>
       reported tn th th' d d' \<and> steps_left th' \<le> steps_left th - 1 \<and> ops (th_trace th') = ops (th_trace th))"
proof (cases "th_phase th")
  case Ready
  from call_step_ok [OF assms Ready, of tn] show ?thesis
    using Ready unfolding thread_step_def by (simp only: phase.case) fastforce
next
  case (Called p)
  from finish_step_ok [OF assms Called, of tn] show ?thesis
    using Called unfolding thread_step_def by (simp only: phase.case) fastforce
next
  case (Finished r)
  then show ?thesis
    using assms by (intro disjI2) (auto simp: thread_step_def reported_def steps_left_def)
qed

end

subsection \<open>Schedules\<close>

definition null_result :: "int \<Rightarrow> int \<times> int \<times> message \<Rightarrow> bool" where
  "null_result tn m \<longleftrightarrow> (\<exists>k. m = (tn, LINENUM k, Msg ''mm_malloc failed.'') \<or> m = (tn, LINENUM k, Msg ''mm_realloc failed.''))"

definition failures :: "thread list \<Rightarrow> nat" where
  "failures ths = length (filter (\<lambda>th. th_phase th = Finished False) ths)"

lemma failures_update:
  assumes "j < length ths"
  shows "failures (ths[j := th]) + (if th_phase (ths ! j) = Finished False then 1 else 0) =
    failures ths + (if th_phase th = Finished False then 1 else 0)"
proof -
  have "failures ths = failures (take j ths @ ths ! j # drop (Suc j) ths)" using assms by (simp add: id_take_nth_drop [symmetric])
  then show ?thesis using assms by (simp add: failures_def upd_conv_take_nth_drop)
qed

lemma reported_msgs:
  assumes "reported tn (ths ! j) th' d d'" "j < length ths"
  shows "\<exists>msgs. printed d' = printed d @ msgs \<and> errors d' = errors d + int (length msgs) \<and>
    list_all (null_result tn) msgs \<and> failures (ths[j := th']) = failures ths + length msgs"
proof (cases "th_phase th' = Finished False \<and> th_phase (ths ! j) \<noteq> Finished False")
  case True
  then obtain k where k: "failed tn k d d'" using assms(1) by (auto simp: reported_def)
  then obtain m where "null_result tn m" "printed d' = printed d @ [m]" "errors d' = errors d + 1"
    unfolding failed_def null_result_def by blast
  then show ?thesis
    using failures_update [OF assms(2), of th'] True by (intro exI [of _ "[m]"]) simp
next
  case False
  then have "errors d' = errors d" "printed d' = printed d" "th_phase (ths ! j) = Finished False \<longleftrightarrow> th_phase th' = Finished False"
    using assms(1) unfolding reported_def by (simp_all only: if_False) blast
  then show ?thesis
    using failures_update [OF assms(2), of th'] by (intro exI [of _ "[]"]) (simp split: if_splits)
qed

subsection \<open>All threads\<close>

text \<open>
  The allocator as one thread sees it: \<open>F\<close> are the payloads of the others, with the contents that
  \<open>m\<close> gives.  The laws of the interface hold for what the thread itself owns, and no call that it
  makes touches \<open>F\<close>.
\<close>

definition framed ::
    "'s alloc_ops \<Rightarrow> ('s \<Rightarrow> (ptr \<times> int) set \<Rightarrow> bool) \<Rightarrow> (ptr \<times> int) set \<Rightarrow> (ptr \<Rightarrow> int) \<Rightarrow> 's \<Rightarrow> (ptr \<times> int) set \<Rightarrow> bool" where
  "framed A ok F m s U \<longleftrightarrow> ok s (U \<union> F) \<and> U \<inter> F = {} \<and> same_payloads F m (op_byte A s)"

definition realloc_stops :: "'s alloc_ops \<Rightarrow> ('s \<Rightarrow> (ptr \<times> int) set \<Rightarrow> bool) \<Rightarrow> bool" where
  "realloc_stops A ok \<longleftrightarrow> (\<exists>U s p c n. ok s U \<and> (p, c) \<in> U \<and> 0 < n \<and> n \<le> max_request \<and> op_realloc A s p n = None)"

context heap_ops
begin

lemma same_payloads_trans: "same_payloads U b b' \<Longrightarrow> same_payloads U b' b'' \<Longrightarrow> same_payloads U b b''"
  unfolding same_payloads_def by fastforce

lemma framed_ops: "heap_ops A (framed A ok F m)"
proof unfold_locales
  fix s U p c assume "framed A ok F m s U" "(p, c) \<in> U"
  then show "p \<noteq> NULL \<and> p mod 16 = 0 \<and> 0 < c \<and> op_lo A s \<le> p \<and> p + c - 1 \<le> op_hi A s"
    using payload [of s "U \<union> F" p c] by (simp add: framed_def)
next
  fix s U p c q d assume "framed A ok F m s U" "(p, c) \<in> U" "(q, d) \<in> U"
  then show "p = q \<and> c = d \<or> p + c \<le> q \<or> q + d \<le> p"
    using apart [of s "U \<union> F" p c q d] by (simp add: framed_def)
next
  fix s U and sz :: int assume f: "framed A ok F m s U" and sz: "0 < sz" "sz \<le> max_request"
  from malloc [of s "U \<union> F", OF _ sz] f obtain p s' where m: "op_malloc A s sz = Some (p, s')"
    "if p = NULL then s' = s else \<exists>c. sz \<le> c \<and> ok s' (insert (p, c) (U \<union> F)) \<and> (p, c) \<notin> U \<union> F \<and>
      same_payloads (U \<union> F) (op_byte A s) (op_byte A s')" by (auto simp: framed_def)
  moreover have "\<exists>c. sz \<le> c \<and> framed A ok F m s' (insert (p, c) U) \<and> (p, c) \<notin> U \<and> same_payloads U (op_byte A s) (op_byte A s')"
    if nz: "p \<noteq> NULL"
  proof -
    obtain c where c: "sz \<le> c" "ok s' (insert (p, c) (U \<union> F))" "(p, c) \<notin> U \<union> F"
      "same_payloads (U \<union> F) (op_byte A s) (op_byte A s')" using m(2) nz by auto
    from same_payloads_mono [OF c(4)] have "same_payloads U (op_byte A s) (op_byte A s')" "same_payloads F (op_byte A s) (op_byte A s')"
      by simp_all
    then show ?thesis using c(1-3) f same_payloads_trans by (auto simp: framed_def)
  qed
  ultimately show "\<exists>p s'. op_malloc A s sz = Some (p, s') \<and>
      (if p = NULL then s' = s
       else \<exists>c. sz \<le> c \<and> framed A ok F m s' (insert (p, c) U) \<and> (p, c) \<notin> U \<and>
         same_payloads U (op_byte A s) (op_byte A s'))" by (intro exI [of _ p] exI [of _ s']) simp
next
  fix s U p c assume f: "framed A ok F m s U" and p: "(p, c) \<in> U"
  then have pF: "U \<union> F - {(p, c)} = (U - {(p, c)}) \<union> F" by (auto simp: framed_def)
  obtain s' where s': "op_free A s p = Some s'" "ok s' (U \<union> F - {(p, c)})"
    "same_payloads (U \<union> F - {(p, c)}) (op_byte A s) (op_byte A s')"
    using free [of s "U \<union> F" p c] f p by (auto simp: framed_def)
  from same_payloads_mono [OF s'(3) [unfolded pF]]
  have "same_payloads (U - {(p, c)}) (op_byte A s) (op_byte A s')" "same_payloads F (op_byte A s) (op_byte A s')" by simp_all
  then show "\<exists>s'. op_free A s p = Some s' \<and> framed A ok F m s' (U - {(p, c)}) \<and>
      same_payloads (U - {(p, c)}) (op_byte A s) (op_byte A s')"
    using s'(1,2) f same_payloads_trans unfolding framed_def pF by (intro exI [of _ s']) auto
next
  fix s U p c and sz :: int and r s'
  assume f: "framed A ok F m s U" and p: "(p, c) \<in> U" and sz: "0 < sz" "sz \<le> max_request" "op_realloc A s p sz = Some (r, s')"
  have pF: "U \<union> F - {(p, c)} = (U - {(p, c)}) \<union> F" using f p by (auto simp: framed_def)
  note R = realloc [of s "U \<union> F" p c, OF _ _ sz, unfolded pF]
  show "if r = NULL then s' = s
    else \<exists>d. sz \<le> d \<and> framed A ok F m s' (insert (r, d) (U - {(p, c)})) \<and> (r, d) \<notin> U - {(p, c)} \<and>
      (\<forall>i. 0 \<le> i \<and> i < min sz c \<longrightarrow> op_byte A s' (r + i) = op_byte A s (p + i)) \<and>
      same_payloads (U - {(p, c)}) (op_byte A s) (op_byte A s')"
  proof (cases "r = NULL")
    case True
    then show ?thesis using R f p by (simp add: framed_def)
  next
    case False
    then obtain d where d: "sz \<le> d" "ok s' (insert (r, d) ((U - {(p, c)}) \<union> F))" "(r, d) \<notin> (U - {(p, c)}) \<union> F"
      "\<forall>i. 0 \<le> i \<and> i < min sz c \<longrightarrow> op_byte A s' (r + i) = op_byte A s (p + i)"
      "same_payloads ((U - {(p, c)}) \<union> F) (op_byte A s) (op_byte A s')"
      using R f p by (auto simp: framed_def)
    from same_payloads_mono [OF d(5)]
    have "same_payloads (U - {(p, c)}) (op_byte A s) (op_byte A s')" "same_payloads F (op_byte A s) (op_byte A s')" by simp_all
    moreover from this(2) have "framed A ok F m s' (insert (r, d) (U - {(p, c)}))"
      using d(2,3) f same_payloads_trans by (auto simp: framed_def)
    ultimately show ?thesis using False d(1,3,4) by auto
  qed
next
  fix s U p c b and n :: int assume f: "framed A ok F m s U" and p: "(p, c) \<in> U" and n: "0 \<le> n" "n \<le> c"
  then obtain s' where s': "op_memset A s p b n = Some s'" "ok s' (U \<union> F)"
    "\<forall>x. op_byte A s' x = (if p \<le> x \<and> x < p + n then b mod 256 else op_byte A s x)"
    using memset [of s "U \<union> F" p c n b] by (auto simp: framed_def)
  have "op_byte A s' (q + i) = op_byte A s (q + i)" if "(q, d) \<in> F" "0 \<le> i" "i < d" for q d i
  proof -
    have "p + c \<le> q \<or> q + d \<le> p"
      using apart [of s "U \<union> F" p c q d] f p that(1) by (auto simp: framed_def)
    then have "\<not> (p \<le> q + i \<and> q + i < p + n)" using n(2) that(2,3) by linarith
    then show ?thesis by (auto simp: s'(3))
  qed
  then have "same_payloads F (op_byte A s) (op_byte A s')" by (auto simp: same_payloads_def)
  then have "same_payloads F m (op_byte A s')" using f same_payloads_trans by (auto simp: framed_def)
  then show "\<exists>s'. op_memset A s p b n = Some s' \<and> framed A ok F m s' U \<and>
      (\<forall>x. op_byte A s' x = (if p \<le> x \<and> x < p + n then b mod 256 else op_byte A s x))"
    using s' f by (intro exI [of _ s']) (simp add: framed_def)
qed

lemma framed_tested: "tested_ops A (framed A ok F m)"
  by (rule tested_ops.intro [OF framed_ops])

text \<open>Each thread owns its payloads, no payload has two owners, and the heap holds just these.\<close>

definition threads_ok :: "thread list \<Rightarrow> 's driver \<Rightarrow> bool" where
  "threads_ok ths d \<longleftrightarrow> (\<exists>U. ok (alloc d) (\<Union>j<length ths. U j) \<and>
     (\<forall>j<length ths. \<forall>k<length ths. j \<noteq> k \<longrightarrow> U j \<inter> U k = {}) \<and>
     (\<forall>j<length ths. thread_ok A (ths ! j) (U j) d))"

lemma threads_step:
  assumes ths: "threads_ok ths d" and j: "j < length ths"
  shows "(thread_step A tn (ths ! j) d = None \<and> (\<exists>r\<in>set (ops (th_trace (ths ! j))). is_realloc r) \<and>
        realloc_stops A ok) \<or>
    (\<exists>th' d'. thread_step A tn (ths ! j) d = Some (th', d') \<and> threads_ok (ths[j := th']) d' \<and>
       reported tn (ths ! j) th' d d' \<and> steps_left th' \<le> steps_left (ths ! j) - 1 \<and>
       ops (th_trace th') = ops (th_trace (ths ! j)))"
proof -
  obtain U where U: "ok (alloc d) (\<Union>j<length ths. U j)"
    "\<And>j k. j < length ths \<Longrightarrow> k < length ths \<Longrightarrow> j \<noteq> k \<Longrightarrow> U j \<inter> U k = {}"
    "\<And>j. j < length ths \<Longrightarrow> thread_ok A (ths ! j) (U j) d"
    using ths unfolding threads_ok_def by blast
  define F where "F = (\<Union>k\<in>{..<length ths} - {j}. U k)"
  have split: "(\<Union>j<length ths. U j) = U j \<union> F" using j by (auto simp: F_def)
  have dis: "U j \<inter> F = {}" using U(2) [OF j] by (fastforce simp: F_def)
  let ?ok = "framed A ok F (op_byte A (alloc d))"
  have fr: "?ok (alloc d) (U j)" using U(1) dis by (simp add: framed_def split)
  consider
      (none) "thread_step A tn (ths ! j) d = None" "\<exists>r\<in>set (ops (th_trace (ths ! j))). is_realloc r"
        "\<exists>U s p c n. ?ok s U \<and> (p, c) \<in> U \<and> 0 < n \<and> n \<le> max_request \<and> op_realloc A s p n = None"
    | (some) th' d' V where "thread_step A tn (ths ! j) d = Some (th', d')" "?ok (alloc d') V" "thread_ok A th' V d'"
        "reported tn (ths ! j) th' d d'" "steps_left th' \<le> steps_left (ths ! j) - 1"
        "ops (th_trace th') = ops (th_trace (ths ! j))"
    using tested_ops.thread_step_ok [OF framed_tested fr U(3) [OF j], of tn]
    by (elim disjE exE conjE) (use that in blast)+
  then show ?thesis
  proof cases
    case none
    then show ?thesis unfolding framed_def realloc_stops_def by blast
  next
    case some
    have other: "thread_ok A (ths ! k) (U k) d'" if "k < length ths" "k \<noteq> j" for k
    proof (rule thread_ok_frame [OF U(3) [OF that(1)]])
      have "U k \<subseteq> F" using that by (auto simp: F_def)
      with some(2) show "same_payloads (U k) (op_byte A (alloc d)) (op_byte A (alloc d'))"
        by (auto simp: framed_def intro: same_payloads_mono)
    qed
    have "threads_ok (ths[j := th']) d'"
      unfolding threads_ok_def
    proof (intro exI [of _ "U(j := V)"] conjI allI impI)
      have "(\<Union>k<length (ths[j := th']). (U(j := V)) k) = V \<union> F" using j by (auto simp: F_def)
      then show "ok (alloc d') (\<Union>k<length (ths[j := th']). (U(j := V)) k)"
        using some(2) by (simp add: framed_def)
      fix k l assume kl: "k < length (ths[j := th'])" "l < length (ths[j := th'])" "k \<noteq> l"
      have "V \<inter> F = {}" using some(2) by (simp add: framed_def)
      then show "(U(j := V)) k \<inter> (U(j := V)) l = {}"
        using U(2) [of k l] kl by (cases "k = j"; cases "l = j") (auto simp: F_def)
    next
      fix k assume "k < length (ths[j := th'])"
      then show "thread_ok A (ths[j := th'] ! k) ((U(j := V)) k) d'"
        using some(3) other by (cases "k = j") simp_all
    qed
    with some show ?thesis by blast
  qed
qed

lemma run_threads_ok:
  assumes "threads_ok ths d" "set sched \<subseteq> {..<length ths}"
  shows "(run_threads A tn sched ths d = None \<and> (\<exists>th\<in>set ths. \<exists>r\<in>set (ops (th_trace th)). is_realloc r) \<and>
        realloc_stops A ok) \<or>
    (\<exists>ths' d' msgs. run_threads A tn sched ths d = Some (ths', d') \<and> length ths' = length ths \<and> threads_ok ths' d' \<and>
       printed d' = printed d @ msgs \<and> errors d' = errors d + int (length msgs) \<and> list_all (null_result tn) msgs \<and>
       failures ths' = failures ths + length msgs \<and>
       (\<forall>j<length ths. steps_left (ths' ! j) \<le> steps_left (ths ! j) - count_list sched j))"
  using assms
proof (induction sched arbitrary: ths d)
  case Nil
  then show ?case by auto
next
  case (Cons j js)
  have j: "j < length ths" using Cons.prems(2) by simp
  from threads_step [OF Cons.prems(1) j, of tn] show ?case
  proof (elim disjE exE conjE)
    assume "thread_step A tn (ths ! j) d = None" "\<exists>r\<in>set (ops (th_trace (ths ! j))). is_realloc r"
      and n: "realloc_stops A ok"
    then have "run_threads A tn (j # js) ths d = None" "\<exists>th\<in>set ths. \<exists>r\<in>set (ops (th_trace th)). is_realloc r"
      using j nth_mem [OF j] by auto
    with n show ?thesis by blast
  next
    fix th' d' assume st: "thread_step A tn (ths ! j) d = Some (th', d')" "threads_ok (ths[j := th']) d'"
      "reported tn (ths ! j) th' d d'" "steps_left th' \<le> steps_left (ths ! j) - 1"
      "ops (th_trace th') = ops (th_trace (ths ! j))"
    have run: "run_threads A tn (j # js) ths d = run_threads A tn js (ths[j := th']) d'" using st(1) j by simp
    obtain m1 where m1: "printed d' = printed d @ m1" "errors d' = errors d + int (length m1)"
      "list_all (null_result tn) m1" "failures (ths[j := th']) = failures ths + length m1"
      using reported_msgs [OF st(3) j] by blast
    have "set js \<subseteq> {..<length (ths[j := th'])}" using Cons.prems(2) by simp
    from Cons.IH [OF st(2) this] show ?thesis
    proof (elim disjE exE conjE)
      assume r: "run_threads A tn js (ths[j := th']) d' = None"
        and e: "\<exists>th\<in>set (ths[j := th']). \<exists>r\<in>set (ops (th_trace th)). is_realloc r"
        and n: "realloc_stops A ok"
      have "\<exists>th\<in>set ths. \<exists>r\<in>set (ops (th_trace th)). is_realloc r"
        using e st(5) nth_mem [OF j] set_update_subset_insert [of ths j th'] by fastforce
      with r n run show ?thesis by simp
    next
      fix ths' d'' m2 assume r: "run_threads A tn js (ths[j := th']) d' = Some (ths', d'')"
        "length ths' = length (ths[j := th'])" "threads_ok ths' d''" "printed d'' = printed d' @ m2"
        "errors d'' = errors d' + int (length m2)" "list_all (null_result tn) m2"
        "failures ths' = failures (ths[j := th']) + length m2"
        "\<forall>k<length (ths[j := th']). steps_left (ths' ! k) \<le> steps_left (ths[j := th'] ! k) - count_list js k"
      have "steps_left (ths' ! k) \<le> steps_left (ths ! k) - count_list (j # js) k" if "k < length ths" for k
        using r(8) [rule_format, of k] st(4) that by (cases "k = j") auto
      then show ?thesis
        using run r m1 by (intro disjI2 exI [of _ ths'] exI [of _ d''] exI [of _ "m1 @ m2"]) simp
    qed
  qed
qed

lemma threads_start:
  assumes "ok (alloc d) {}" "wf_trace t"
  shows "threads_ok (replicate n (start_thread t)) d"
proof -
  have "thread_ok A (start_thread t) {} d"
    using assms(2) by (auto simp: thread_ok_def start_thread_def owns_def todo_def wf_trace_def view_def
        intro!: exI [of _ "{} :: int set"])
  then show ?thesis
    using assms(1) unfolding threads_ok_def by (intro exI [of _ "\<lambda>_. {}"]) auto
qed

end

lemma finished_result:
  "None \<notin> set (map (thread_result \<circ> th_phase) ths) \<Longrightarrow>
     list_all (\<lambda>r. r = Some True) (map (thread_result \<circ> th_phase) ths) \<longleftrightarrow> failures ths = 0"
proof -
  assume n: "None \<notin> set (map (thread_result \<circ> th_phase) ths)"
  have "thread_result (th_phase th) = Some True \<longleftrightarrow> th_phase th \<noteq> Finished False" if "th \<in> set ths" for th
    using n that by (cases "th_phase th") force+
  then show ?thesis by (auto simp: list_all_iff failures_def filter_empty_conv)
qed

lemma no_steps_left:
  assumes "thread_ok A th U d" "steps_left th = 0"
  shows "thread_result (th_phase th) \<noteq> None"
proof (cases "th_phase th")
  case (Called p)
  from assms(1) Called have "current th \<noteq> None" by (cases rule: thread_ok_called) simp_all
  then have "th_op th < length (ops (th_trace th))" by (auto simp: current_def split: if_splits)
  then show ?thesis using assms(2) Called by (simp add: steps_left_def)
qed (use assms(2) in \<open>simp_all add: steps_left_def\<close>)

context tested_alloc
begin

lemma mt_valid_ok:
  assumes "area (alloc d)" "wf_trace t" "set sched \<subseteq> {..<n}"
  shows "(mt_valid A n sched tn t d = None \<and> (\<exists>r\<in>set (ops t). is_realloc r) \<and> realloc_stops A ok) \<or>
    (\<exists>res d' msgs. mt_valid A n sched tn t d = Some (res, d') \<and> printed d' = printed d @ msgs \<and>
       errors d' = errors d + int (length msgs) \<and> list_all (null_result tn) msgs \<and>
       (res \<noteq> None \<longrightarrow> res = Some (msgs = [])) \<and>
       ((\<forall>j<n. 2 * length (ops t) < count_list sched j) \<longrightarrow> res \<noteq> None))"
proof -
  obtain s where s: "op_init A (op_reset A (alloc d)) = Some (0, s)" "ok s {}" using init [OF assms(1)] by auto
  let ?ths = "replicate n (start_thread t)" and ?d = "d\<lparr>alloc := s, check_heap_bounds := False\<rparr>"
  have mt: "mt_valid A n sched tn t d = do {
      (ths, e) \<leftarrow> run_threads A tn sched ?ths ?d;
      let rs = map (thread_result \<circ> th_phase) ths;
      Some (if None \<in> set rs then None else Some (list_all (\<lambda>r. r = Some True) rs),
        e\<lparr>check_heap_bounds := check_heap_bounds d\<rparr>) }"
    using s(1) by (simp add: mt_valid_def reset_heap_def)
  have ok: "threads_ok ?ths ?d" using threads_start [of ?d t n] s(2) assms(2) by simp
  have f0: "failures ?ths = 0" by (simp add: failures_def start_thread_def)
  have "set sched \<subseteq> {..<length ?ths}" using assms(3) by simp
  from run_threads_ok [OF ok this, of tn] show ?thesis
  proof (elim disjE exE conjE)
    assume "run_threads A tn sched ?ths ?d = None" "\<exists>th\<in>set ?ths. \<exists>r\<in>set (ops (th_trace th)). is_realloc r" "realloc_stops A ok"
    then show ?thesis by (auto simp: mt start_thread_def)
  next
    fix ths' d' msgs assume r: "run_threads A tn sched ?ths ?d = Some (ths', d')" "length ths' = length ?ths"
      "threads_ok ths' d'" "printed d' = printed ?d @ msgs" "errors d' = errors ?d + int (length msgs)"
      "list_all (null_result tn) msgs" "failures ths' = failures ?ths + length msgs"
      "\<forall>j<length ?ths. steps_left (ths' ! j) \<le> steps_left (?ths ! j) - count_list sched j"
    let ?rs = "map (thread_result \<circ> th_phase) ths'"
    let ?res = "if None \<in> set ?rs then None else Some (list_all (\<lambda>r. r = Some True) ?rs)"
    have "?res \<noteq> None" if e: "\<forall>j<n. 2 * length (ops t) < count_list sched j"
    proof -
      have "thread_result (th_phase (ths' ! j)) \<noteq> None" if j: "j < n" for j
      proof -
        have "steps_left (start_thread t) = Suc (2 * length (ops t))" by (simp add: steps_left_def start_thread_def)
        then have "steps_left (ths' ! j) = 0" using r(8) e j by (fastforce simp: not_less_eq_eq [symmetric])
        then show ?thesis using r(2,3) j no_steps_left unfolding threads_ok_def by (metis length_replicate)
      qed
      then have "\<forall>r\<in>set ?rs. r \<noteq> None" using r(2) unfolding all_set_conv_all_nth by simp
      then have "None \<notin> set ?rs" by blast
      then show ?thesis by simp
    qed
    moreover have "?res = Some (msgs = [])" if "?res \<noteq> None"
      using finished_result [of ths'] that f0 r(7) by (auto split: if_splits)
    ultimately show ?thesis
      using r(1,4-6) by (intro disjI2 exI [of _ ?res] exI [of _ "d'\<lparr>check_heap_bounds := check_heap_bounds d\<rparr>"] exI [of _ msgs])
        (simp add: mt Let_def)
  qed
qed

end

end
