(* ===== verification/Memlib.thy ===== *)
theory Memlib
  imports Prelude
begin

text \<open>
  The simulated memory system of \<open>malloclab/memlib.c\<close>: one area of \<open>MAX_HEAP\<close> bytes and a break
  pointer that only moves up.  The call that obtains the area (\<open>mmap\<close> or \<open>malloc\<close>) is the
  parameter \<open>area\<close> of \<open>mem_init\<close>, the page size of the system that of \<open>mem_pagesize\<close>;
  the error messages and \<open>errno\<close> are not modelled.
\<close>

definition ALIGNMENT :: int where "ALIGNMENT = 16"

definition MAX_HEAP :: int where "MAX_HEAP = 1024 * 2 ^ 20"

record memlib =
  mem_start_brk :: ptr
  mem_brk :: ptr
  mem_max_addr :: ptr
  use_mmap :: bool

definition mmap_addr :: ptr where "mmap_addr = 0x58000000"

text \<open>\<open>None\<close> is \<open>exit (1)\<close>.\<close>

definition mem_init :: "bool \<Rightarrow> ptr option \<Rightarrow> memlib option" where
  "mem_init um area = do {
     start \<leftarrow> area;
     assert_c (um \<longrightarrow> start = mmap_addr);
     assert_c (start \<noteq> NULL);
     Some \<lparr>mem_start_brk = start, mem_brk = start, mem_max_addr = start + MAX_HEAP, use_mmap = um\<rparr>
   }"

text \<open>What \<open>mem_deinit\<close> asks of the system: to unmap the area, or to free it.\<close>

datatype release = Munmap ptr int | Free_area ptr

definition mem_deinit :: "memlib \<Rightarrow> release" where
  "mem_deinit m =
     (if use_mmap m then Munmap (mem_start_brk m) MAX_HEAP else Free_area (mem_start_brk m))"

definition mem_reset_brk :: "memlib \<Rightarrow> memlib" where
  "mem_reset_brk m = m\<lparr>mem_brk := mem_start_brk m\<rparr>"

definition mem_sbrk :: "memlib \<Rightarrow> int \<Rightarrow> ptr \<times> memlib" where
  "mem_sbrk m incr =
     (let old_brk = mem_brk m
      in if incr < 0 \<or> mem_brk m + incr > mem_max_addr m then (NULL, m)
         else (old_brk, m\<lparr>mem_brk := mem_brk m + incr\<rparr>))"

definition mem_heap_lo :: "memlib \<Rightarrow> ptr" where
  "mem_heap_lo m = mem_start_brk m"

definition mem_heap_hi :: "memlib \<Rightarrow> ptr" where
  "mem_heap_hi m = mem_brk m - 1"

definition mem_heapsize :: "memlib \<Rightarrow> int" where
  "mem_heapsize m = u64 (mem_brk m - mem_start_brk m)"

definition mem_pagesize :: "int \<Rightarrow> int" where
  "mem_pagesize getpagesize = u64 getpagesize"

subsection \<open>The invariant of the area\<close>

definition mem_ok :: "memlib \<Rightarrow> bool" where
  "mem_ok m \<longleftrightarrow> 0 < mem_start_brk m \<and> mem_start_brk m \<le> mem_brk m \<and> mem_brk m \<le> mem_max_addr m \<and>
     mem_max_addr m = mem_start_brk m + MAX_HEAP"

lemma mem_init_ok: "mem_init um area = Some m \<Longrightarrow> area = Some a \<Longrightarrow> 0 \<le> a \<Longrightarrow> mem_ok m \<and> mem_heapsize m = 0"
  by (auto simp: mem_init_def bind_eq_Some_conv mem_ok_def mem_heapsize_def MAX_HEAP_def u64_def)

lemma mem_reset_brk_ok: "mem_ok m \<Longrightarrow> mem_ok (mem_reset_brk m)"
  by (simp add: mem_ok_def mem_reset_brk_def MAX_HEAP_def)

lemma mem_sbrk_ok: "mem_ok m \<Longrightarrow> mem_sbrk m incr = (p, m') \<Longrightarrow> mem_ok m'"
  by (auto simp: mem_ok_def mem_sbrk_def Let_def split: if_splits)

lemma mem_sbrk_fail: "mem_ok m \<Longrightarrow> mem_sbrk m incr = (NULL, m') \<Longrightarrow> m' = m"
  by (auto simp: mem_ok_def mem_sbrk_def Let_def split: if_splits)

text \<open>
  A call of \<open>mem_sbrk\<close> either fails, leaving the break alone, exactly when the increment is
  negative or the area is too small for it, or it returns the old break and the new area
  reaches from there to the new break, inside the area; the heap size grows by the increment.
\<close>

theorem mem_sbrk_correct:
  assumes "mem_ok m"
  shows "(case mem_sbrk m incr of (p, m') \<Rightarrow>
     mem_ok m' \<and>
     (p = NULL \<longleftrightarrow> incr < 0 \<or> MAX_HEAP < mem_heapsize m + incr) \<and>
     (p = NULL \<longrightarrow> m' = m) \<and>
     (p \<noteq> NULL \<longrightarrow> p = mem_brk m \<and> mem_heap_hi m' = p + incr - 1 \<and>
        mem_heap_lo m' = mem_heap_lo m \<and> mem_heapsize m' = mem_heapsize m + incr))"
proof -
  have "mem_heapsize m = mem_brk m - mem_start_brk m"
    using assms by (auto simp: mem_heapsize_def mem_ok_def MAX_HEAP_def intro!: u64_id)
  moreover have "mem_heapsize (snd (mem_sbrk m incr)) =
      mem_brk (snd (mem_sbrk m incr)) - mem_start_brk m"
    using assms
    by (auto simp: mem_heapsize_def mem_ok_def MAX_HEAP_def mem_sbrk_def Let_def intro!: u64_id)
  ultimately show ?thesis
    using assms by (auto simp: mem_sbrk_def mem_ok_def Let_def mem_heap_hi_def mem_heap_lo_def)
qed

theorem mem_sbrk_correct_witness:
  "(case mem_sbrk \<lparr>mem_start_brk = 4096, mem_brk = 4096, mem_max_addr = 4096 + MAX_HEAP, use_mmap = False\<rparr> 16
    of (p, m') \<Rightarrow> p = 4096 \<and> mem_heapsize m' = 16)"
proof -
  let ?m = "\<lparr>mem_start_brk = 4096, mem_brk = 4096, mem_max_addr = 4096 + MAX_HEAP, use_mmap = False\<rparr>"
  have ok: "mem_ok ?m" by (simp add: mem_ok_def MAX_HEAP_def)
  have "mem_heapsize ?m = 0" by (simp add: mem_heapsize_def u64_def)
  moreover have "mem_brk ?m = 4096" by simp
  ultimately show ?thesis
    using mem_sbrk_correct [OF ok, of 16] by (auto simp: MAX_HEAP_def)
qed

end
