(* ===== verification/BTag.thy ===== *)
theory BTag
  imports Memlib
begin

unbundle bit_operations_syntax

text \<open>
  Blocks and boundary tags, common to the allocator of \<open>malloclab/mm.c\<close> and to the reference
  allocator of \<open>malloclab/mm-gback-implicit.c\<close> (whose helper functions have the same text).

  A tag is a pair of signed bit fields, one bit \<open>inuse\<close> and 31 bits \<open>size\<close> (in 4-byte words).
  The heap keeps its tags in a map from addresses; a tag can be read or written only at a
  word of the heap below the break.  The payload bytes are a separate map: a block's tags and
  its payload never overlap (\<open>payload_avoids_tags\<close> below), so neither map can observe a write
  to the other.

  \<open>layout m t a bs e\<close> says that the blocks \<open>bs\<close>, given by size and use, tile the addresses from
  \<open>a\<close> to \<open>e\<close>, each with the same tag in its header and its footer and at least \<open>m\<close> words.
\<close>

record tag =
  inuse :: int
  size :: int

definition FENCE :: tag where "FENCE = \<lparr>inuse = - 1, size = 0\<rparr>"

definition WSIZE :: int where "WSIZE = 4"

record heap =
  memsys :: memlib
  tags :: "ptr \<Rightarrow> tag option"
  bytes :: "ptr \<Rightarrow> int"
  heap_listp :: ptr

definition max_size :: "int \<Rightarrow> int \<Rightarrow> int" where
  "max_size x y = (if x > y then x else y)"

definition align :: "int \<Rightarrow> int" where
  "align sz = u64 (sz + ALIGNMENT - 1) AND u64 (NOT (ALIGNMENT - 1))"

definition is_aligned :: "int \<Rightarrow> bool" where
  "is_aligned sz = (sz mod ALIGNMENT = 0)"

subsection \<open>Reading and writing tags\<close>

definition tag_addr :: "'a heap_scheme \<Rightarrow> ptr \<Rightarrow> bool" where
  "tag_addr h p \<longleftrightarrow> mem_start_brk (memsys h) \<le> p \<and> p + 4 \<le> mem_brk (memsys h) \<and> p mod 4 = 0"

definition load_tag :: "'a heap_scheme \<Rightarrow> ptr \<Rightarrow> tag option" where
  "load_tag h p = (if tag_addr h p then tags h p else None)"

definition store_tag :: "'a heap_scheme \<Rightarrow> ptr \<Rightarrow> tag \<Rightarrow> 'a heap_scheme option" where
  "store_tag h p t = (if tag_addr h p then Some (h\<lparr>tags := (tags h)(p \<mapsto> t)\<rparr>) else None)"

definition prev_blk_footer :: "ptr \<Rightarrow> ptr" where
  "prev_blk_footer blk = blk - WSIZE"

definition blk_free :: "'a heap_scheme \<Rightarrow> ptr \<Rightarrow> bool option" where
  "blk_free h blk = do { t \<leftarrow> load_tag h blk; Some (inuse t = 0) }"

definition blk_size :: "'a heap_scheme \<Rightarrow> ptr \<Rightarrow> int option" where
  "blk_size h blk = do { t \<leftarrow> load_tag h blk; Some (u64 (size t)) }"

text \<open>
  Pointer arithmetic with \<open>WSIZE * size\<close> is unsigned and modulo \<open>2 ^ 64\<close>; on addresses this is
  the same as adding the signed product.
\<close>

definition prev_blk :: "'a heap_scheme \<Rightarrow> ptr \<Rightarrow> ptr option" where
  "prev_blk h blk = do {
     t \<leftarrow> load_tag h (prev_blk_footer blk);
     assert_c (size t \<noteq> 0);
     Some (blk - WSIZE * size t)
   }"

definition next_blk :: "'a heap_scheme \<Rightarrow> ptr \<Rightarrow> ptr option" where
  "next_blk h blk = do {
     n \<leftarrow> blk_size h blk;
     assert_c (n \<noteq> 0);
     t \<leftarrow> load_tag h blk;
     Some (blk + WSIZE * size t)
   }"

definition get_footer :: "'a heap_scheme \<Rightarrow> ptr \<Rightarrow> ptr option" where
  "get_footer h blk = do { t \<leftarrow> load_tag h blk; Some (blk + WSIZE * size t - WSIZE) }"

definition set_header_and_footer :: "'a heap_scheme \<Rightarrow> ptr \<Rightarrow> int \<Rightarrow> int \<Rightarrow> 'a heap_scheme option" where
  "set_header_and_footer h blk sz use = do {
     h \<leftarrow> store_tag h blk \<lparr>inuse = bf1 use, size = bf31 sz\<rparr>;
     f \<leftarrow> get_footer h blk;
     t \<leftarrow> load_tag h blk;
     store_tag h f t
   }"

definition mark_block_used :: "'a heap_scheme \<Rightarrow> ptr \<Rightarrow> int \<Rightarrow> 'a heap_scheme option" where
  "mark_block_used h blk sz = set_header_and_footer h blk (s32 sz) 1"

definition mark_block_free :: "'a heap_scheme \<Rightarrow> ptr \<Rightarrow> int \<Rightarrow> 'a heap_scheme option" where
  "mark_block_free h blk sz = set_header_and_footer h blk (s32 sz) 0"

text \<open>
  \<open>memmove\<close> and \<open>memcpy\<close> between heap addresses, and \<open>memset\<close>; outside the heap they fail,
  and so does a \<open>memcpy\<close> between areas that overlap.
\<close>

definition in_heap :: "'a heap_scheme \<Rightarrow> ptr \<Rightarrow> int \<Rightarrow> bool" where
  "in_heap h p n \<longleftrightarrow> n = 0 \<or> mem_start_brk (memsys h) \<le> p \<and> 0 \<le> n \<and> p + n \<le> mem_brk (memsys h)"

definition memmove :: "'a heap_scheme \<Rightarrow> ptr \<Rightarrow> ptr \<Rightarrow> int \<Rightarrow> 'a heap_scheme option" where
  "memmove h dst src n =
     (if in_heap h dst n \<and> in_heap h src n
      then Some (h\<lparr>bytes := (\<lambda>p. if dst \<le> p \<and> p < dst + n then bytes h (src + (p - dst)) else bytes h p)\<rparr>)
      else None)"

definition memcpy :: "'a heap_scheme \<Rightarrow> ptr \<Rightarrow> ptr \<Rightarrow> int \<Rightarrow> 'a heap_scheme option" where
  "memcpy h dst src n = do {
     assert_c (dst + n \<le> src \<or> src + n \<le> dst \<or> n = 0);
     memmove h dst src n
   }"

definition memset :: "'a heap_scheme \<Rightarrow> ptr \<Rightarrow> int \<Rightarrow> int \<Rightarrow> 'a heap_scheme option" where
  "memset h dst c n =
     (if in_heap h dst n
      then Some (h\<lparr>bytes := (\<lambda>p. if dst \<le> p \<and> p < dst + n then c mod 256 else bytes h p)\<rparr>)
      else None)"

lemma and_high_bits:
  assumes "0 \<le> x" "x < 2 ^ 64"
  shows "x AND push_bit 4 (mask 60) = push_bit 4 (drop_bit 4 (x :: int))"
proof (rule bit_eqI)
  fix n
  have "take_bit 64 x = x" using assms by (simp add: take_bit_int_eq_self)
  then have "bit x n \<Longrightarrow> n < 64" by (metis bit_take_bit_iff)
  then show "bit (x AND push_bit 4 (mask 60)) n = bit (push_bit 4 (drop_bit 4 x)) n"
    by (auto simp: bit_simps)
qed

lemma align_div:
  assumes "0 \<le> sz" "sz + 15 < 2 ^ 64"
  shows "align sz = 16 * ((sz + 15) div 16)"
proof -
  have "u64 (sz + 15) = sz + 15" using assms by (simp add: u64_def)
  moreover have "u64 (NOT 15) = push_bit 4 (mask 60)"
    by (simp add: u64_def mask_eq_exp_minus_1 push_bit_eq_mult)
  moreover have "(sz + 15) AND push_bit 4 (mask 60) = push_bit 4 (drop_bit 4 (sz + 15))"
    using assms by (intro and_high_bits) auto
  ultimately show ?thesis
    by (simp add: align_def ALIGNMENT_def push_bit_eq_mult drop_bit_eq_div add.commute)
qed

subsection \<open>Blocks that tile the heap\<close>

definition btag :: "int \<Rightarrow> bool \<Rightarrow> tag" where
  "btag n u = \<lparr>inuse = (if u then - 1 else 0), size = n\<rparr>"

type_synonym block = "int \<times> bool"

fun span :: "block list \<Rightarrow> int" where
  "span [] = 0"
| "span ((n, u) # bs) = 4 * n + span bs"

fun layout :: "int \<Rightarrow> (ptr \<Rightarrow> tag option) \<Rightarrow> ptr \<Rightarrow> block list \<Rightarrow> ptr \<Rightarrow> bool" where
  "layout m t a [] e = (a = e)"
| "layout m t a ((n, u) # bs) e =
     (m \<le> n \<and> 4 dvd n \<and> t a = Some (btag n u) \<and> t (a + 4 * n - 4) = Some (btag n u) \<and>
      layout m t (a + 4 * n) bs e)"

fun placed :: "ptr \<Rightarrow> block list \<Rightarrow> (ptr \<times> int \<times> bool) list" where
  "placed a [] = []"
| "placed a ((n, u) # bs) = (a, n, u) # placed (a + 4 * n) bs"

definition last_tag :: "block list \<Rightarrow> tag" where
  "last_tag us = (if us = [] then FENCE else btag (fst (last us)) (snd (last us)))"

definition first_tag :: "block list \<Rightarrow> tag" where
  "first_tag vs = (case vs of [] \<Rightarrow> FENCE | (n, u) # _ \<Rightarrow> btag n u)"

definition put_tags :: "(ptr \<Rightarrow> tag option) \<Rightarrow> ptr \<Rightarrow> int \<Rightarrow> bool \<Rightarrow> ptr \<Rightarrow> tag option" where
  "put_tags t p n u = t(p \<mapsto> btag n u, p + 4 * n - 4 \<mapsto> btag n u)"

definition heap_ok :: "int \<Rightarrow> 'a heap_scheme \<Rightarrow> block list \<Rightarrow> bool" where
  "heap_ok m h bs \<longleftrightarrow> mem_ok (memsys h) \<and> mem_start_brk (memsys h) mod 16 = 0 \<and>
     heap_listp h = mem_start_brk (memsys h) + 12 \<and>
     tags h (heap_listp h - 4) = Some FENCE \<and>
     layout m (tags h) (heap_listp h) bs (mem_brk (memsys h) - 4) \<and>
     tags h (mem_brk (memsys h) - 4) = Some FENCE"

lemma btag_simps [simp]: "size (btag n u) = n" "inuse (btag n u) = (if u then - 1 else 0)"
  by (simp_all add: btag_def)

lemma FENCE_simps [simp]: "size FENCE = 0" "inuse FENCE = - 1"
  by (simp_all add: FENCE_def)

lemma first_tag_simps [simp]: "first_tag [] = FENCE" "first_tag ((n, u) # vs) = btag n u"
  by (simp_all add: first_tag_def)

lemma last_tag_simps [simp]: "last_tag [] = FENCE" "last_tag (us @ [(n, u)]) = btag n u"
  by (simp_all add: last_tag_def)

lemma span_append [simp]: "span (us @ vs) = span us + span vs"
  by (induction us rule: span.induct) auto

lemma placed_append: "placed a (us @ vs) = placed a us @ placed (a + span us) vs"
  by (induction us arbitrary: a rule: span.induct) (auto simp: algebra_simps)

lemma layout_append [simp]:
  "layout m t a (us @ vs) e \<longleftrightarrow> layout m t a us (a + span us) \<and> layout m t (a + span us) vs e"
  by (induction us arbitrary: a rule: span.induct) (auto simp: algebra_simps)

lemma layout_end: "layout m t a bs e \<Longrightarrow> e = a + span bs"
  by (induction m t a bs e rule: layout.induct) auto

lemma layout_span:
  "layout m t a bs e \<Longrightarrow> 0 \<le> m \<Longrightarrow> 0 \<le> span bs \<and> 16 dvd span bs"
  by (induction m t a bs e rule: layout.induct) (auto intro!: dvd_add mult_dvd_mono [of 4 4, simplified])

lemma layout_frame:
  assumes "layout m t a bs e" "\<And>x. a \<le> x \<Longrightarrow> x < e \<Longrightarrow> t' x = t x" "1 \<le> m"
  shows "layout m t' a bs e"
  using assms
proof (induction m t a bs e rule: layout.induct)
  case (2 m t a n u bs e)
  have "0 \<le> span bs" "e = a + 4 * n + span bs"
    using 2 layout_span layout_end by fastforce+
  then show ?case using 2 by auto
qed simp

lemma layout_retag:
  assumes "layout m t a (us @ ms @ vs) e" "span ms = 4 * n" "m \<le> n" "4 dvd n" "2 \<le> m"
    "p = a + span us"
  shows "layout m (put_tags t p n u) a (us @ (n, u) # vs) e"
proof -
  have L: "layout m t a us p" "layout m t (p + 4 * n) vs e"
    using assms by (auto simp: add.assoc)
  then have "layout m (put_tags t p n u) a us p"
    using assms(3,5) by (elim layout_frame) (auto simp: put_tags_def)
  moreover have "layout m (put_tags t p n u) (p + 4 * n) vs e"
    using L(2) assms(3,5) by (elim layout_frame) (auto simp: put_tags_def)
  ultimately show ?thesis using assms by (auto simp: put_tags_def)
qed

text \<open>
  Writing the two tags of the front part of a block and then those of the rest splits it.
  The footer of the first part and the header of the second are the new tags.
\<close>

lemma layout_split:
  assumes "layout m t a (us @ (n1 + n2, w) # vs) e" "m \<le> n1" "m \<le> n2" "4 dvd n1" "2 \<le> m"
    "p = a + span us"
  shows "layout m (put_tags (put_tags t p n1 u) (p + 4 * n1) n2 v) a (us @ (n1, u) # (n2, v) # vs) e"
proof -
  let ?t = "put_tags (put_tags t p n1 u) (p + 4 * n1) n2 v"
  have d2: "4 dvd n2" using assms dvd_add_right_iff [of 4 n1 n2] by auto
  have L: "layout m t a us p" "layout m t (p + 4 * n1 + 4 * n2) vs e"
    using assms by (auto simp: algebra_simps)
  then have "layout m ?t a us p"
    using assms(2-) by (elim layout_frame) (auto simp: put_tags_def)
  moreover have "layout m ?t (p + 4 * n1 + 4 * n2) vs e"
    using L(2) assms(2-) by (elim layout_frame) (auto simp: put_tags_def)
  ultimately show ?thesis using assms d2 by (auto simp: put_tags_def algebra_simps)
qed

lemma layout_weaken: "layout m t a bs e \<Longrightarrow> k \<le> m \<Longrightarrow> layout k t a bs e"
  by (induction m t a bs e rule: layout.induct) auto

lemma layout_last:
  assumes "layout m t a us e" "us \<noteq> []"
  shows "t (e - 4) = Some (last_tag us)"
proof -
  obtain us' n u where "us = us' @ [(n, u)]" using assms(2) by (metis rev_exhaust surj_pair)
  then show ?thesis using assms by (auto simp: algebra_simps)
qed

lemma layout_first:
  assumes "layout m t a vs e" "vs \<noteq> []"
  shows "t a = Some (first_tag vs)"
  using assms by (cases vs) auto

lemma layout_sizes: "layout m t a bs e \<Longrightarrow> (n, u) \<in> set bs \<Longrightarrow> m \<le> n \<and> 4 dvd n"
  by (induction m t a bs e rule: layout.induct) auto

lemma layout_size_le: "layout m t a bs e \<Longrightarrow> 0 \<le> m \<Longrightarrow> (n, u) \<in> set bs \<Longrightarrow> 4 * n \<le> e - a"
proof (induction m t a bs e rule: layout.induct)
  case (2 m t a k w bs e)
  have "0 \<le> span bs" "e = a + 4 * k + span bs"
    using 2 layout_span layout_end by fastforce+
  then show ?case using 2 by auto
qed simp

lemma placed_in:
  "(p, n, u) \<in> set (placed a bs) \<longleftrightarrow> (\<exists>us vs. bs = us @ (n, u) # vs \<and> p = a + span us)"
proof (induction a bs rule: placed.induct)
  case (2 a k w bs)
  show ?case
    apply (auto simp: 2 Cons_eq_append_conv)
    subgoal for us vs by (rule exI [where x = "(k, w) # us"]) auto
    done
qed simp

text \<open>The free and the used blocks, by address and size.\<close>

fun free_set :: "ptr \<Rightarrow> block list \<Rightarrow> (ptr \<times> int) set" where
  "free_set a [] = {}"
| "free_set a ((n, u) # bs) = (if u then {} else {(a, n)}) \<union> free_set (a + 4 * n) bs"

fun used_set :: "ptr \<Rightarrow> block list \<Rightarrow> (ptr \<times> int) set" where
  "used_set a [] = {}"
| "used_set a ((n, u) # bs) = (if u then {(a, n)} else {}) \<union> used_set (a + 4 * n) bs"

definition pos_blocks :: "block list \<Rightarrow> bool" where
  "pos_blocks bs \<longleftrightarrow> (\<forall>b\<in>set bs. 0 < fst b)"

lemma pos_blocks_simps [simp]:
  "pos_blocks []" "pos_blocks (b # bs) \<longleftrightarrow> 0 < fst b \<and> pos_blocks bs"
  "pos_blocks (us @ vs) \<longleftrightarrow> pos_blocks us \<and> pos_blocks vs"
  by (auto simp: pos_blocks_def)

lemma free_set_append [simp]: "free_set a (us @ vs) = free_set a us \<union> free_set (a + span us) vs"
  by (induction us arbitrary: a rule: span.induct) (auto simp: algebra_simps)

lemma used_set_append [simp]: "used_set a (us @ vs) = used_set a us \<union> used_set (a + span us) vs"
  by (induction us arbitrary: a rule: span.induct) (auto simp: algebra_simps)

lemma free_set_placed: "(p, n) \<in> free_set a bs \<longleftrightarrow> (p, n, False) \<in> set (placed a bs)"
  by (induction a bs rule: free_set.induct) auto

lemma used_set_placed: "(p, n) \<in> used_set a bs \<longleftrightarrow> (p, n, True) \<in> set (placed a bs)"
  by (induction a bs rule: used_set.induct) auto

lemma pos_span: "pos_blocks bs \<Longrightarrow> 0 \<le> span bs"
  by (induction bs rule: span.induct) auto

lemma placed_bounds:
  "(p, n, u) \<in> set (placed a bs) \<Longrightarrow> pos_blocks bs \<Longrightarrow> a \<le> p \<and> 0 < n \<and> p + 4 * n \<le> a + span bs"
  using pos_span by (induction a bs rule: placed.induct) fastforce+

lemma free_set_bounds:
  "(p, n) \<in> free_set a bs \<Longrightarrow> pos_blocks bs \<Longrightarrow> a \<le> p \<and> 0 < n \<and> p + 4 * n \<le> a + span bs"
  by (simp add: free_set_placed placed_bounds)

lemma used_set_bounds:
  "(p, n) \<in> used_set a bs \<Longrightarrow> pos_blocks bs \<Longrightarrow> a \<le> p \<and> 0 < n \<and> p + 4 * n \<le> a + span bs"
  by (simp add: used_set_placed placed_bounds)

text \<open>Two placed blocks are the same or apart.\<close>

lemma placed_apart:
  assumes "(p, n, u) \<in> set (placed a bs)" "(q, k, v) \<in> set (placed a bs)" "pos_blocks bs"
  shows "p = q \<and> n = k \<and> u = v \<or> p + 4 * n \<le> q \<or> q + 4 * k \<le> p"
  using assms
proof (induction a bs rule: placed.induct)
  case (2 a m w bs)
  then show ?case
    using placed_bounds [of p n u "a + 4 * m" bs] placed_bounds [of q k v "a + 4 * m" bs]
    by auto
qed simp

lemma free_set_unique:
  "(p, n) \<in> free_set a bs \<Longrightarrow> (p, k) \<in> free_set a bs \<Longrightarrow> pos_blocks bs \<Longrightarrow> k = n"
  using placed_apart [of p n False a bs p k False] placed_bounds [of p n False a bs]
    placed_bounds [of p k False a bs]
  by (auto simp: free_set_placed)

subsection \<open>The helper functions on a well-formed heap\<close>

definition set_block :: "'a heap_scheme \<Rightarrow> ptr \<Rightarrow> int \<Rightarrow> bool \<Rightarrow> 'a heap_scheme" where
  "set_block h p n u = h\<lparr>tags := put_tags (tags h) p n u\<rparr>"

lemma set_block_simps [simp]:
  "memsys (set_block h p n u) = memsys h" "bytes (set_block h p n u) = bytes h"
  "heap_listp (set_block h p n u) = heap_listp h"
  "tags (set_block h p n u) = put_tags (tags h) p n u"
  "heap.more (set_block h p n u) = heap.more h"
  by (simp_all add: set_block_def)

lemma heap_ok_span:
  assumes "heap_ok m h (us @ vs)" "0 \<le> m"
  shows "0 \<le> span us \<and> 16 dvd span us \<and> 0 \<le> span vs \<and> 16 dvd span vs \<and>
    mem_brk (memsys h) = heap_listp h + span us + span vs + 4 \<and>
    heap_listp h mod 16 = 12 \<and> heap_listp h = mem_start_brk (memsys h) + 12 \<and>
    span us + span vs + 16 \<le> MAX_HEAP \<and> 12 < heap_listp h \<and> (span us + span vs) mod 16 = 0"
proof -
  have "layout m (tags h) (heap_listp h) us (heap_listp h + span us)"
    "layout m (tags h) (heap_listp h + span us) vs (mem_brk (memsys h) - 4)"
    using assms(1) by (auto simp: heap_ok_def)
  then have s: "0 \<le> span us \<and> 16 dvd span us" "0 \<le> span vs \<and> 16 dvd span vs"
    "mem_brk (memsys h) - 4 = heap_listp h + span us + span vs"
    using layout_span [OF _ assms(2)] layout_end by blast+
  moreover have "heap_listp h mod 16 = 12"
    using assms(1) by (auto simp: heap_ok_def)
  ultimately show ?thesis using assms(1) by (auto simp: heap_ok_def mem_ok_def)
qed

lemma heap_ok_parts:
  assumes "heap_ok m h (us @ vs)" "1 \<le> m"
  shows "0 \<le> span us" "16 dvd span us" "0 \<le> span vs" "16 dvd span vs"
    "mem_brk (memsys h) = heap_listp h + span us + span vs + 4"
    "heap_listp h mod 16 = 12" "heap_listp h = mem_start_brk (memsys h) + 12"
    "span us + span vs + 16 \<le> MAX_HEAP" "12 < heap_listp h"
  using heap_ok_span [OF assms(1)] assms(2) by auto

lemma heap_ok_sizes:
  assumes "heap_ok m h bs" "(n, u) \<in> set bs" "0 \<le> m"
  shows "m \<le> n \<and> 4 dvd n \<and> 4 * n + 16 \<le> MAX_HEAP"
proof -
  have "layout m (tags h) (heap_listp h) bs (mem_brk (memsys h) - 4)"
    "mem_brk (memsys h) - 4 - heap_listp h + 16 \<le> MAX_HEAP"
    using assms(1) by (auto simp: heap_ok_def mem_ok_def)
  then show ?thesis using layout_sizes layout_size_le assms(2,3) by fastforce
qed

lemma heap_ok_pos: "heap_ok m h bs \<Longrightarrow> 1 \<le> m \<Longrightarrow> pos_blocks bs"
  using heap_ok_sizes [of m h bs] by (fastforce simp: pos_blocks_def)

lemma load_prev_tag:
  assumes "heap_ok m h (us @ vs)" "p = heap_listp h + span us" "0 \<le> m"
  shows "load_tag h (p - 4) = Some (last_tag us)"
proof -
  have "layout m (tags h) (heap_listp h) us p" using assms by (auto simp: heap_ok_def)
  then have "tags h (p - 4) = Some (last_tag us)"
    using layout_last assms by (cases "us = []") (auto simp: heap_ok_def)
  then show ?thesis
    using heap_ok_span [OF assms(1,3)] assms(2)
    by (auto simp: load_tag_def tag_addr_def) presburger
qed

lemma load_next_tag:
  assumes "heap_ok m h (us @ vs)" "p = heap_listp h + span us" "0 \<le> m"
  shows "load_tag h p = Some (first_tag vs)"
proof -
  have L: "layout m (tags h) p vs (mem_brk (memsys h) - 4)" using assms by (auto simp: heap_ok_def)
  have "tags h p = Some (first_tag vs)"
  proof (cases vs)
    case Nil
    then have "p = mem_brk (memsys h) - 4" using L by simp
    then show ?thesis using assms(1) Nil by (simp add: heap_ok_def)
  qed (use layout_first [OF L] in auto)
  then show ?thesis
    using heap_ok_span [OF assms(1,3)] assms(2)
    by (auto simp: load_tag_def tag_addr_def) presburger
qed

lemma at_block:
  assumes "heap_ok m h (us @ (n, u) # vs)" "p = heap_listp h + span us" "1 \<le> m"
  shows "blk_size h p = Some n" "blk_free h p = Some (\<not> u)"
    "load_tag h (p - WSIZE) = Some (last_tag us)"
    "load_tag h (prev_blk_footer p) = Some (last_tag us)"
    "prev_blk h p = (if us = [] then None else Some (p - 4 * fst (last us)))"
    "next_blk h p = Some (p + 4 * n)"
    "load_tag h (p + 4 * n) = Some (first_tag vs)"
    "blk_size h (p + 4 * n) = Some (size (first_tag vs))"
    "blk_free h (p + 4 * n) = Some (inuse (first_tag vs) = 0)"
proof -
  have n: "m \<le> n" "4 * n + 16 \<le> MAX_HEAP" using heap_ok_sizes [OF assms(1)] assms(3) by auto
  have l: "load_tag h p = Some (btag n u)"
    using load_next_tag [OF assms(1,2)] assms(3) by simp
  have pt: "load_tag h (p - 4) = Some (last_tag us)"
    using load_prev_tag [OF assms(1,2)] assms(3) by simp
  have nt: "load_tag h (p + 4 * n) = Some (first_tag vs)"
    using load_next_tag [of m h "us @ [(n, u)]" vs "p + 4 * n"] assms by simp
  have ft: "0 \<le> size (first_tag vs) \<and> size (first_tag vs) < 2 ^ 64"
  proof (cases vs)
    case (Cons v vs')
    then show ?thesis
      using heap_ok_sizes [OF assms(1), of "fst v" "snd v"] assms(3)
      by (cases v) (auto simp: MAX_HEAP_def)
  qed simp
  have lt: "us \<noteq> [] \<Longrightarrow> size (last_tag us) = fst (last us) \<and> 0 < fst (last us)"
  proof -
    assume "us \<noteq> []"
    moreover from this have "last us \<in> set us" by simp
    ultimately show ?thesis
      using heap_ok_sizes [OF assms(1), of "fst (last us)" "snd (last us)"] assms(3)
      by (auto simp: last_tag_def)
  qed
  show s: "blk_size h p = Some n" using l n assms(3) by (simp add: blk_size_def u64_def MAX_HEAP_def)
  show "blk_free h p = Some (\<not> u)" using l by (simp add: blk_free_def)
  show "load_tag h (p - WSIZE) = Some (last_tag us)" "load_tag h (prev_blk_footer p) = Some (last_tag us)"
    using pt by (simp_all add: prev_blk_footer_def WSIZE_def)
  show "prev_blk h p = (if us = [] then None else Some (p - 4 * fst (last us)))"
    using pt lt by (auto simp: prev_blk_def prev_blk_footer_def WSIZE_def)
  show "next_blk h p = Some (p + 4 * n)" using l s n assms(3) by (simp add: next_blk_def WSIZE_def)
  show "load_tag h (p + 4 * n) = Some (first_tag vs)" by (rule nt)
  show "blk_size h (p + 4 * n) = Some (size (first_tag vs))"
    using nt ft by (simp add: blk_size_def u64_def)
  show "blk_free h (p + 4 * n) = Some (inuse (first_tag vs) = 0)"
    using nt by (simp add: blk_free_def)
qed

lemma set_header_and_footer_eq:
  assumes "tag_addr h p" "tag_addr h (p + 4 * n - 4)" "0 \<le> n" "n < 2 ^ 30"
  shows "set_header_and_footer h p n i = Some (set_block h p n (i mod 2 = 1))"
proof -
  have "bf1 i = (if i mod 2 = 1 then - 1 else 0)" by (auto simp: bf1_def) presburger+
  then have "\<lparr>inuse = bf1 i, size = bf31 n\<rparr> = btag n (i mod 2 = 1)"
    using assms by (simp add: btag_def bf31_id)
  then show ?thesis
    using assms
    by (simp add: set_header_and_footer_def store_tag_def get_footer_def load_tag_def tag_addr_def
        WSIZE_def set_block_def put_tags_def)
qed

lemma mark_block_eq:
  assumes "tag_addr h p" "tag_addr h (p + 4 * n - 4)" "0 \<le> n" "n < 2 ^ 30"
  shows "mark_block_used h p n = Some (set_block h p n True)"
    "mark_block_free h p n = Some (set_block h p n False)"
  using set_header_and_footer_eq [OF assms, of 1] set_header_and_footer_eq [OF assms, of 0]
  using assms by (simp_all add: mark_block_used_def mark_block_free_def s32_id)

lemma tag_addr_set_block [simp]: "tag_addr (set_block h p n u) = tag_addr h"
  by (simp add: fun_eq_iff tag_addr_def)

lemma block_tag_addr:
  assumes "heap_ok m h (us @ ms @ vs)" "p = heap_listp h + span us" "0 \<le> m" "0 < k" "4 * k \<le> span ms"
  shows "tag_addr h p" "tag_addr h (p + 4 * k - 4)" "k < 2 ^ 30"
proof -
  note s = heap_ok_span [of m h us "ms @ vs", OF assms(1,3)]
  have "0 \<le> span vs"
    using heap_ok_span [of m h "us @ ms" vs] assms(1,3) by simp
  moreover have "p mod 4 = 0"
  proof -
    have "heap_listp h mod 16 = 12" using s by blast
    then have "heap_listp h = 16 * (heap_listp h div 16) + 12"
      using mult_div_mod_eq [of 16 "heap_listp h"] by simp
    moreover obtain b where "span us = 16 * b" using s by blast
    ultimately have "p = 4 * (4 * (heap_listp h div 16) + 3 + 4 * b)" using assms(2) by simp
    then show ?thesis by (metis mod_mult_self1_is_0)
  qed
  moreover have "(p + 4 * k - 4) mod 4 = 0"
  proof -
    have "p + 4 * k - 4 = p + 4 * (k - 1)" by simp
    then show ?thesis using \<open>p mod 4 = 0\<close> by (simp only: mod_mult_self2)
  qed
  moreover have "p + span ms + span vs + 4 = mem_brk (memsys h)"
    "mem_start_brk (memsys h) < p" "span us + span ms + span vs + 16 \<le> 2 ^ 30" "0 \<le> span us"
    using s assms(2) by (simp_all add: MAX_HEAP_def)
  ultimately show "tag_addr h p" "tag_addr h (p + 4 * k - 4)" "k < 2 ^ 30"
    using assms(4,5) by (simp_all add: tag_addr_def)
qed

lemma heap_ok_inside:
  assumes "heap_ok m h (us @ ms @ vs)" "0 \<le> m"
  shows "heap_listp h \<le> heap_listp h + span us"
    "heap_listp h + span us + span ms \<le> mem_brk (memsys h) - 4"
proof -
  have "0 \<le> span us" "0 \<le> span ms + span vs"
    "mem_brk (memsys h) = heap_listp h + span us + span (ms @ vs) + 4"
    using heap_ok_span [of m h us "ms @ vs", OF assms] by simp_all
  moreover have "0 \<le> span vs"
    using heap_ok_span [of m h "us @ ms" vs] assms by simp
  ultimately show "heap_listp h \<le> heap_listp h + span us"
    "heap_listp h + span us + span ms \<le> mem_brk (memsys h) - 4" by simp_all
qed

lemma heap_ok_set:
  assumes "heap_ok m h bs" "layout m t (heap_listp h) bs' (mem_brk (memsys h) - 4)"
    "\<And>x. x < heap_listp h \<or> mem_brk (memsys h) - 4 \<le> x \<Longrightarrow> t x = tags h x"
  shows "heap_ok m (h\<lparr>tags := t\<rparr>) bs'"
  using assms by (auto simp: heap_ok_def)

text \<open>Marking a run of blocks as one block, used or free, merges them.\<close>

lemma heap_ok_retag:
  assumes "heap_ok m h (us @ ms @ vs)" "p = heap_listp h + span us" "2 \<le> m"
    "span ms = 4 * n" "m \<le> n" "4 dvd n"
  shows "heap_ok m (set_block h p n u) (us @ (n, u) # vs)"
proof -
  have "layout m (put_tags (tags h) p n u) (heap_listp h) (us @ (n, u) # vs) (mem_brk (memsys h) - 4)"
    using assms by (intro layout_retag [of _ _ _ us ms vs]) (auto simp: heap_ok_def)
  moreover have "put_tags (tags h) p n u x = tags h x"
    if "x < heap_listp h \<or> mem_brk (memsys h) - 4 \<le> x" for x
    using that heap_ok_inside [OF assms(1)] assms(2-5) by (auto simp: put_tags_def)
  ultimately show ?thesis
    using heap_ok_set [OF assms(1)] by (simp add: set_block_def)
qed

lemma heap_ok_split:
  assumes "heap_ok m h (us @ (n1 + n2, w) # vs)" "p = heap_listp h + span us" "2 \<le> m"
    "m \<le> n1" "m \<le> n2" "4 dvd n1"
  shows "heap_ok m (set_block (set_block h p n1 u) (p + 4 * n1) n2 v) (us @ (n1, u) # (n2, v) # vs)"
proof -
  let ?t = "put_tags (put_tags (tags h) p n1 u) (p + 4 * n1) n2 v"
  have "layout m ?t (heap_listp h) (us @ (n1, u) # (n2, v) # vs) (mem_brk (memsys h) - 4)"
    using assms by (intro layout_split [of _ _ _ us n1 n2 w]) (auto simp: heap_ok_def)
  moreover have "?t x = tags h x"
    if "x < heap_listp h \<or> mem_brk (memsys h) - 4 \<le> x" for x
    using that heap_ok_inside [of m h us "[(n1 + n2, w)]" vs] assms by (auto simp: put_tags_def)
  ultimately show ?thesis
    using heap_ok_set [OF assms(1)] by (simp add: set_block_def)
qed

lemma heap_okD:
  assumes "heap_ok m h bs"
  shows "mem_ok (memsys h)" "mem_start_brk (memsys h) mod 16 = 0"
    "heap_listp h = mem_start_brk (memsys h) + 12" "tags h (heap_listp h - 4) = Some FENCE"
    "layout m (tags h) (heap_listp h) bs (mem_brk (memsys h) - 4)"
    "tags h (mem_brk (memsys h) - 4) = Some FENCE"
  using assms unfolding heap_ok_def by blast+

lemma heap_okI:
  assumes "mem_ok (memsys h)" "mem_start_brk (memsys h) mod 16 = 0"
    "heap_listp h = mem_start_brk (memsys h) + 12" "tags h (heap_listp h - 4) = Some FENCE"
    "layout m (tags h) b bs e" "b = heap_listp h" "e = mem_brk (memsys h) - 4" "tags h e = Some FENCE"
  shows "heap_ok m h bs"
  using assms unfolding heap_ok_def by blast

subsection \<open>Growing the heap\<close>

lemma heapsize_eq: "mem_ok m \<Longrightarrow> mem_heapsize m = mem_brk m - mem_start_brk m"
  by (auto simp: mem_heapsize_def mem_ok_def MAX_HEAP_def intro!: u64_id)

definition grown :: "'a heap_scheme \<Rightarrow> int \<Rightarrow> 'a heap_scheme" where
  "grown h w = h\<lparr>memsys := memsys h\<lparr>mem_brk := mem_brk (memsys h) + 4 * w\<rparr>\<rparr>"

lemma grown_simps [simp]:
  "memsys (grown h w) = memsys h\<lparr>mem_brk := mem_brk (memsys h) + 4 * w\<rparr>"
  "heap_listp (grown h w) = heap_listp h" "bytes (grown h w) = bytes h" "tags (grown h w) = tags h"
  "heap.more (grown h w) = heap.more h"
  by (simp_all add: grown_def)

lemma sbrk_fails:
  assumes "heap_ok m h bs" "mem_heapsize (memsys h) + 4 * w > MAX_HEAP"
  shows "mem_sbrk (memsys h) (4 * w) = (NULL, memsys h)"
  using assms heapsize_eq [of "memsys h"] by (auto simp: heap_ok_def mem_sbrk_def mem_ok_def Let_def)

text \<open>
  What the two allocators do with the new words: one free block up to a new epilogue, whose
  header overwrites the old epilogue.
\<close>

lemma grow_ok:
  assumes h: "heap_ok m h bs" and m: "2 \<le> m" and w: "m \<le> w" "4 dvd w"
    and f: "mem_heapsize (memsys h) + 4 * w \<le> MAX_HEAP"
  shows "mem_sbrk (memsys h) (4 * w) = (heap_listp h + span bs + 4, memsys (grown h w)) \<and>
    heap_listp h + span bs + 4 \<noteq> NULL \<and>
    mark_block_free (grown h w) (heap_listp h + span bs) w =
      Some (set_block (grown h w) (heap_listp h + span bs) w False) \<and>
    next_blk (set_block (grown h w) (heap_listp h + span bs) w False) (heap_listp h + span bs) =
      Some (heap_listp h + span bs + 4 * w) \<and>
    (\<exists>t. store_tag (set_block (grown h w) (heap_listp h + span bs) w False)
        (heap_listp h + span bs + 4 * w) FENCE = Some (grown h w\<lparr>tags := t\<rparr>) \<and>
      heap_ok m (grown h w\<lparr>tags := t\<rparr>) (bs @ [(w, False)]))"
proof -
  have ok: "mem_ok (memsys h)" using h by (simp add: heap_ok_def)
  have sp: "mem_brk (memsys h) = heap_listp h + span bs + 4" "0 \<le> span bs" "16 dvd span bs"
      "heap_listp h mod 16 = 12" "heap_listp h = mem_start_brk (memsys h) + 12"
    using heap_ok_span [of m h bs "[]", simplified] h m by auto
  have hs: "mem_heapsize (memsys h) = mem_brk (memsys h) - mem_start_brk (memsys h)"
    by (rule heapsize_eq [OF ok])
  define p where "p = heap_listp h + span bs"
  define h1 where "h1 = set_block (grown h w) p w False"
  define t where "t = (tags h1)(p + 4 * w \<mapsto> FENCE)"
  have st: "p + 4 = mem_brk (memsys h)" "mem_start_brk (memsys h) < p" "w < 2 ^ 30"
    using sp(1,2,5) hs f m w(1) by (auto simp: p_def MAX_HEAP_def)
  have p4: "p mod 4 = 0"
  proof -
    obtain b where "span bs = 16 * b" using sp(3) by blast
    moreover have "heap_listp h = 16 * (heap_listp h div 16) + 12"
      using sp(4) mult_div_mod_eq [of 16 "heap_listp h"] by simp
    ultimately have "p = 4 * (4 * (heap_listp h div 16) + 3 + 4 * b)" by (simp add: p_def)
    then show ?thesis by (metis mod_mult_self1_is_0)
  qed
  have ta: "tag_addr (grown h w) (p + 4 * k)" if "0 \<le> k" "k \<le> w" for k
  proof -
    have "(p + 4 * k) mod 4 = 0" using p4 by (simp only: mod_mult_self2)
    then show ?thesis using that st(1,2) by (auto simp: tag_addr_def)
  qed
  have s: "mem_sbrk (memsys h) (4 * w) = (p + 4, memsys (grown h w))" "p + 4 \<noteq> NULL"
    using ok hs f m w(1) st by (auto simp: mem_sbrk_def mem_ok_def Let_def)
  have mk: "mark_block_free (grown h w) p w = Some h1"
    using ta [of 0] ta [of "w - 1"] m w st(3) unfolding h1_def
    by (intro mark_block_eq) (auto simp: algebra_simps)
  have "load_tag h1 p = Some (btag w False)"
    using ta [of 0] m w by (simp add: h1_def load_tag_def put_tags_def)
  then have nx: "next_blk h1 p = Some (p + 4 * w)"
    using m w st(3) by (simp add: next_blk_def blk_size_def WSIZE_def u64_def)
  have stf: "store_tag h1 (p + 4 * w) FENCE = Some (grown h w\<lparr>tags := t\<rparr>)"
    using ta [of w] m w by (simp add: h1_def store_tag_def t_def)
  have te: "mem_brk (memsys h) - 4 = p" using st(1) by simp
  have "layout m (tags h) (heap_listp h) bs (mem_brk (memsys h) - 4)"
    using h unfolding heap_ok_def by blast
  then have L: "layout m (tags h) (heap_listp h) bs p" by (simp only: te)
  have tt: "x < p \<Longrightarrow> t x = tags h x" for x
    using m w by (simp add: t_def h1_def put_tags_def)
  have "layout m t (heap_listp h) bs p"
    by (rule layout_frame [OF L]) (use tt m in auto)
  then have "layout m t (heap_listp h) (bs @ [(w, False)]) (p + 4 * w)"
    using m w by (simp add: p_def [symmetric]) (simp add: t_def h1_def put_tags_def)
  moreover have "t (heap_listp h - 4) = Some FENCE"
    using tt [of "heap_listp h - 4"] heap_okD(4) [OF h] sp(2) by (simp add: p_def)
  moreover have "mem_ok (memsys (grown h w))"
    using ok hs f m w by (auto simp: mem_ok_def)
  moreover have "t (p + 4 * w) = Some FENCE" by (simp add: t_def)
  ultimately have "heap_ok m (grown h w\<lparr>tags := t\<rparr>) (bs @ [(w, False)])"
    using heap_okD(2) [OF h] sp(5) st(1)
    by (intro heap_okI [where b = "heap_listp h" and e = "p + 4 * w"]) auto
  then show ?thesis
    using s mk nx stf unfolding h1_def [symmetric] p_def [symmetric] by blast
qed

end
