(* ===== verification/MM.thy ===== *)
theory MM
  imports CList BTag
begin

text \<open>
  The allocator of \<open>malloclab/mm.c\<close>: segregated free lists over blocks with boundary tags.

  The state extends the heap of \<open>BTag\<close> with the link fields of the free blocks
  (\<open>elems\<close>, the store of \<open>CList\<close>) and the static array \<open>free_lists\<close> of ten
  lists: the list of class \<open>i\<close> is at address \<open>free_lists + 40 * i\<close> (two sentinels, an
  \<open>int\<close> and its padding) and its \<open>mid\<close> is entry \<open>i\<close> of \<open>mids\<close>.  The element of a
  free block at \<open>a\<close> is at \<open>a + 8\<close>.

  This theory holds the translation of the code, \<open>MM_Inv\<close> the invariant and the properties.
\<close>

record mm = heap +
  elems :: lheap
  mids :: "int list"
  free_lists :: ptr

definition MIN_BLOCK_SIZE_WORDS :: int where "MIN_BLOCK_SIZE_WORDS = 8"
definition CHUNKSIZE :: int where "CHUNKSIZE = 32"
definition FREE_LISTS_SIZE :: nat where "FREE_LISTS_SIZE = 10"
definition SMALL_CLASS_SIZE :: nat where "SMALL_CLASS_SIZE = 5"
definition LIMIT :: nat where "LIMIT = 5"

definition ranges :: "int list" where
  "ranges = [8, 24, 32, 40, 120, 616, 3360, 5792, 41704, 153704]"

definition flist :: "mm \<Rightarrow> nat \<Rightarrow> ptr" where
  "flist s i = free_lists s + 40 * int i"

text \<open>The comparisons of a \<open>size_t\<close> with \<open>mid\<close> convert \<open>mid\<close> to \<open>size_t\<close>.\<close>

definition mid :: "mm \<Rightarrow> nat \<Rightarrow> int option" where
  "mid s i = (if i < length (mids s) then Some (u64 (mids s ! i)) else None)"

subsection \<open>Size classes\<close>

function find_range :: "int \<Rightarrow> nat \<Rightarrow> int" where
  "find_range words i =
     (if i < FREE_LISTS_SIZE
      then if words < ranges ! i then int i else find_range words (Suc i)
      else int FREE_LISTS_SIZE - 1)"
  by auto
termination by (relation "measure (\<lambda>(w, i). FREE_LISTS_SIZE - i)") auto

declare find_range.simps [simp del]

definition find_fit_index :: "int \<Rightarrow> int" where
  "find_fit_index words =
     (if words = 8 then 0
      else if words = 24 then 1
      else if words = 32 then 2
      else if words = 40 then 3
      else if words = 120 then 4
      else if words < MIN_BLOCK_SIZE_WORDS then - 1
      else find_range words SMALL_CLASS_SIZE)"

subsection \<open>The free lists\<close>

definition push_front_elem :: "mm \<Rightarrow> ptr \<Rightarrow> ptr \<Rightarrow> mm option" where
  "push_front_elem s l e = do { el \<leftarrow> list_push_front (elems s) l e; Some (s\<lparr>elems := el\<rparr>) }"

definition push_back_elem :: "mm \<Rightarrow> ptr \<Rightarrow> ptr \<Rightarrow> mm option" where
  "push_back_elem s l e = do { el \<leftarrow> list_push_back (elems s) l e; Some (s\<lparr>elems := el\<rparr>) }"

definition insert_free_block :: "mm \<Rightarrow> ptr \<Rightarrow> (bool \<times> mm) option" where
  "insert_free_block s blk = do {
     words \<leftarrow> blk_size s blk;
     let i = find_fit_index words;
     assert_c (i \<noteq> - 1);
     if i < 0 then Some (False, s)
     else do {
       m \<leftarrow> mid s (nat i);
       s \<leftarrow> (if words < m then push_front_elem s (flist s (nat i)) (blk + 8)
             else push_back_elem s (flist s (nat i)) (blk + 8));
       Some (True, s)
     }
   }"

definition remove_free_block :: "mm \<Rightarrow> ptr \<Rightarrow> mm option" where
  "remove_free_block s blk = do {
     (_, el) \<leftarrow> list_remove (elems s) (blk + 8);
     Some (s\<lparr>elems := el\<rparr>)
   }"

subsection \<open>Initialisation\<close>

function init_lists :: "mm \<Rightarrow> nat \<Rightarrow> mm option" where
  "init_lists s i =
     (if i < FREE_LISTS_SIZE
      then case list_init (elems s) (flist s i) of
          None \<Rightarrow> None
        | Some el \<Rightarrow> init_lists (s\<lparr>elems := el, mids := (mids s)[i := s32 (ranges ! i div 2)]\<rparr>) (Suc i)
      else Some s)"
  by auto
termination by (relation "measure (\<lambda>(s, i). FREE_LISTS_SIZE - i)") auto

declare init_lists.simps [simp del]

definition mm_init :: "mm \<Rightarrow> (int \<times> mm) option" where
  "mm_init s =
     (let (initial, ms) = mem_sbrk (memsys s) (s32 (4 * WSIZE)); s = s\<lparr>memsys := ms\<rparr>
      in if initial = NULL then Some (- 1, s)
         else do {
           s \<leftarrow> store_tag s (initial + 2 * WSIZE) FENCE;
           let s = s\<lparr>heap_listp := initial + 3 * WSIZE\<rparr>;
           s \<leftarrow> store_tag s (initial + 3 * WSIZE) FENCE;
           s \<leftarrow> init_lists s 0;
           Some (0, s)
         })"

subsection \<open>Coalescing and growing the heap\<close>

text \<open>The result of \<open>insert_free_block\<close> is asserted.\<close>

definition insert_asserted :: "mm \<Rightarrow> ptr \<Rightarrow> mm option" where
  "insert_asserted s bp = do {
     (inserted, s) \<leftarrow> insert_free_block s bp;
     assert_c inserted;
     Some s
   }"

definition coalesce :: "mm \<Rightarrow> ptr \<Rightarrow> (ptr \<times> mm) option" where
  "coalesce s bp = do {
     pf \<leftarrow> load_tag s (prev_blk_footer bp);
     let prev_alloc = (inuse pf \<noteq> 0);
     nb \<leftarrow> next_blk s bp;
     nf \<leftarrow> blk_free s nb;
     let next_alloc = (\<not> nf);
     sz \<leftarrow> blk_size s bp;
     if prev_alloc \<and> next_alloc then do {
       s \<leftarrow> insert_asserted s bp;
       Some (bp, s)
     } else do {
       (bp, s) \<leftarrow>
         (if prev_alloc \<and> \<not> next_alloc then do {
            nb \<leftarrow> next_blk s bp;
            s \<leftarrow> remove_free_block s nb;
            nb \<leftarrow> next_blk s bp;
            nsz \<leftarrow> blk_size s nb;
            s \<leftarrow> mark_block_free s bp (u64 (sz + nsz));
            Some (bp, s)
          } else if \<not> prev_alloc \<and> next_alloc then do {
            pb \<leftarrow> prev_blk s bp;
            s \<leftarrow> remove_free_block s pb;
            bp \<leftarrow> prev_blk s bp;
            psz \<leftarrow> blk_size s bp;
            s \<leftarrow> mark_block_free s bp (u64 (sz + psz));
            Some (bp, s)
          } else do {
            nb \<leftarrow> next_blk s bp;
            s \<leftarrow> remove_free_block s nb;
            pb \<leftarrow> prev_blk s bp;
            s \<leftarrow> remove_free_block s pb;
            nsz \<leftarrow> blk_size s nb;
            psz \<leftarrow> blk_size s pb;
            s \<leftarrow> mark_block_free s pb (u64 (sz + nsz + psz));
            bp \<leftarrow> prev_blk s bp;
            Some (bp, s)
          });
       s \<leftarrow> insert_asserted s bp;
       Some (bp, s)
     }
   }"

text \<open>\<open>mem_sbrk\<close> takes an \<open>int\<close>, so the number of bytes is converted.\<close>

definition extend_heap :: "mm \<Rightarrow> int \<Rightarrow> (ptr \<times> mm) option" where
  "extend_heap s words =
     (let (bp, ms) = mem_sbrk (memsys s) (s32 (u64 (words * WSIZE))); s = s\<lparr>memsys := ms\<rparr>
      in if bp = NULL then Some (NULL, s)
         else do {
           let blk = bp - WSIZE;
           s \<leftarrow> mark_block_free s blk words;
           nb \<leftarrow> next_blk s blk;
           s \<leftarrow> store_tag s nb FENCE;
           coalesce s blk
         })"

subsection \<open>Finding and placing a block\<close>

partial_function (option) fit_forward :: "mm \<Rightarrow> ptr \<Rightarrow> int \<Rightarrow> ptr \<Rightarrow> nat \<Rightarrow> ptr option" where
  "fit_forward s l asize e cnt = do {
     t \<leftarrow> list_end l;
     if e = t then Some NULL
     else if cnt = LIMIT then Some NULL
     else do {
       w \<leftarrow> blk_size s (e - 8);
       if w \<ge> asize then Some (e - 8)
       else do { e' \<leftarrow> list_next (elems s) e; fit_forward s l asize e' (Suc cnt) }
     }
   }"

partial_function (option) fit_backward :: "mm \<Rightarrow> ptr \<Rightarrow> int \<Rightarrow> ptr \<Rightarrow> nat \<Rightarrow> ptr option" where
  "fit_backward s l asize e cnt = do {
     t \<leftarrow> list_rend l;
     if e = t then Some NULL
     else if cnt = LIMIT then Some NULL
     else do {
       w \<leftarrow> blk_size s (e - 8);
       if w \<ge> asize then Some (e - 8)
       else do { e' \<leftarrow> list_prev (elems s) e; fit_backward s l asize e' (Suc cnt) }
     }
   }"

declare fit_forward.simps [code] fit_backward.simps [code]

function fit_higher :: "mm \<Rightarrow> int \<Rightarrow> nat \<Rightarrow> ptr option" where
  "fit_higher s asize i =
     (if i < FREE_LISTS_SIZE
      then case list_begin (elems s) (flist s i) of
          None \<Rightarrow> None
        | Some e \<Rightarrow>
            (case fit_forward s (flist s i) asize e 0 of
               None \<Rightarrow> None
             | Some bp \<Rightarrow> if bp \<noteq> NULL then Some bp else fit_higher s asize (Suc i))
      else Some NULL)"
  by auto
termination by (relation "measure (\<lambda>(s, a, i). FREE_LISTS_SIZE - i)") auto

declare fit_higher.simps [simp del]

definition find_fit :: "mm \<Rightarrow> int \<Rightarrow> ptr option" where
  "find_fit s asize = do {
     let fit_index = find_fit_index asize;
     assert_c (fit_index \<noteq> - 1);
     if fit_index < 0 then Some NULL
     else do {
       m \<leftarrow> mid s (nat fit_index);
       bp \<leftarrow>
         (if asize < m then do {
            e \<leftarrow> list_begin (elems s) (flist s (nat fit_index));
            fit_forward s (flist s (nat fit_index)) asize e 0
          } else do {
            e \<leftarrow> list_rbegin (elems s) (flist s (nat fit_index));
            fit_backward s (flist s (nat fit_index)) asize e 0
          });
       if bp \<noteq> NULL then Some bp
       else fit_higher s asize (Suc (nat fit_index))
     }
   }"

definition place :: "mm \<Rightarrow> ptr \<Rightarrow> int \<Rightarrow> mm option" where
  "place s bp asize = do {
     csize \<leftarrow> blk_size s bp;
     if u64 (csize - asize) \<ge> MIN_BLOCK_SIZE_WORDS then do {
       s \<leftarrow> mark_block_used s bp asize;
       s \<leftarrow> remove_free_block s bp;
       bp \<leftarrow> next_blk s bp;
       s \<leftarrow> mark_block_free s bp (u64 (csize - asize));
       insert_asserted s bp
     } else do {
       s \<leftarrow> mark_block_used s bp csize;
       remove_free_block s bp
     }
   }"

subsection \<open>The interface\<close>

definition mm_malloc :: "mm \<Rightarrow> int \<Rightarrow> (ptr \<times> mm) option" where
  "mm_malloc s sz =
     (if sz = 0 then Some (NULL, s)
      else let bsize = align (u64 (sz + 2 * WSIZE)) in
      if bsize < sz then Some (NULL, s)
      else do {
        let awords = max_size MIN_BLOCK_SIZE_WORDS (bsize div WSIZE);
        bp \<leftarrow> find_fit s awords;
        if bp \<noteq> NULL then do {
          s \<leftarrow> place s bp awords;
          Some (bp + 4, s)
        } else do {
          let extendwords = max_size awords CHUNKSIZE;
          (bp, s) \<leftarrow> extend_heap s extendwords;
          if bp = NULL then Some (NULL, s)
          else do {
            s \<leftarrow> place s bp awords;
            Some (bp + 4, s)
          }
        }
      })"

definition mm_free :: "mm \<Rightarrow> ptr \<Rightarrow> mm option" where
  "mm_free s bp = do {
     assert_c (heap_listp s \<noteq> NULL);
     if bp = NULL then Some s
     else do {
       let blk = bp - 4;
       sz \<leftarrow> blk_size s blk;
       s \<leftarrow> mark_block_free s blk sz;
       (_, s) \<leftarrow> coalesce s blk;
       Some s
     }
   }"

text \<open>
  In \<open>mm_realloc\<close> the sizes of the neighbours are read once: the conditions of the code
  read the size of the previous block in both cases where that block is free, and the size of
  the next block is in the header that \<open>next_alloc\<close> was read from.
\<close>

definition mm_realloc :: "mm \<Rightarrow> ptr \<Rightarrow> int \<Rightarrow> (ptr \<times> mm) option" where
  "mm_realloc s ptr newrequestedsize =
     (if newrequestedsize = 0 then do { s \<leftarrow> mm_free s ptr; Some (NULL, s) }
      else if ptr = NULL then mm_malloc s newrequestedsize
      else do {
        let oldblock = ptr - 4;
        oldblocksize \<leftarrow> blk_size s oldblock;
        let payloadsize = u64 (oldblocksize * WSIZE - 2 * WSIZE);
        let newblocksize = align (u64 (newrequestedsize + 2 * WSIZE));
        if newblocksize < newrequestedsize then Some (NULL, s)
        else do {
          let newblocksize = max_size MIN_BLOCK_SIZE_WORDS (newblocksize div WSIZE);
          pf \<leftarrow> load_tag s (prev_blk_footer oldblock);
          let prev_alloc = (inuse pf \<noteq> 0);
          nb \<leftarrow> next_blk s oldblock;
          nf \<leftarrow> blk_free s nb;
          let next_alloc = (\<not> nf);
          if newblocksize \<le> oldblocksize then Some (ptr, s)
          else do {
            nsz \<leftarrow> blk_size s nb;
            psz \<leftarrow> (if prev_alloc then Some 0 else do { pb \<leftarrow> prev_blk s oldblock; blk_size s pb });
            if prev_alloc \<and> \<not> next_alloc \<and> u64 (oldblocksize + nsz) \<ge> newblocksize then do {
              s \<leftarrow> remove_free_block s nb;
              s \<leftarrow> mark_block_used s oldblock (u64 (oldblocksize + nsz));
              Some (oldblock + 4, s)
            } else if \<not> prev_alloc \<and> next_alloc \<and> u64 (psz + oldblocksize) \<ge> newblocksize then do {
              pb \<leftarrow> prev_blk s oldblock;
              s \<leftarrow> remove_free_block s pb;
              oldblock \<leftarrow> prev_blk s oldblock;
              s \<leftarrow> mark_block_used s oldblock (u64 (psz + oldblocksize));
              s \<leftarrow> memmove s (oldblock + 4) ptr payloadsize;
              Some (oldblock + 4, s)
            } else if \<not> prev_alloc \<and> \<not> next_alloc \<and> u64 (psz + oldblocksize + nsz) \<ge> newblocksize then do {
              pb \<leftarrow> prev_blk s oldblock;
              s \<leftarrow> remove_free_block s pb;
              nb \<leftarrow> next_blk s oldblock;
              s \<leftarrow> remove_free_block s nb;
              oldblock \<leftarrow> prev_blk s oldblock;
              s \<leftarrow> mark_block_used s oldblock (u64 (psz + oldblocksize + nsz));
              s \<leftarrow> memmove s (oldblock + 4) ptr payloadsize;
              Some (oldblock + 4, s)
            } else if nsz = 0 then do {
              (free_block, s) \<leftarrow> extend_heap s (u64 (newblocksize - oldblocksize));
              if free_block = NULL then Some (NULL, s)
              else do {
                nb \<leftarrow> next_blk s oldblock;
                s \<leftarrow> remove_free_block s nb;
                s \<leftarrow> mark_block_used s oldblock newblocksize;
                Some (oldblock + 4, s)
              }
            } else do {
              (newptr, s) \<leftarrow> mm_malloc s newrequestedsize;
              if newptr = NULL then Some (NULL, s)
              else do {
                oldsz \<leftarrow> blk_size s (ptr - 4);
                let oldpayloadsize = u64 (oldsz * WSIZE - 2 * WSIZE);
                let oldpayloadsize =
                  (if newrequestedsize < oldpayloadsize then newrequestedsize else oldpayloadsize);
                s \<leftarrow> memcpy s newptr ptr oldpayloadsize;
                s \<leftarrow> mm_free s ptr;
                Some (newptr, s)
              }
            }
          }
        }
      })"

end
