(* ===== verification/Blocks.thy ===== *)
theory Blocks
  imports BTag Alloc_Iface
begin

text \<open>
  Lists of blocks, as the two allocators transform them: what coalescing, placing and releasing
  a block do to the list and to the set of used blocks, the number of words a request takes, and
  the movement of payload bytes.
\<close>

subsection \<open>Coalescing\<close>

definition coalesced :: "block list \<Rightarrow> bool" where
  "coalesced bs \<longleftrightarrow> successively (\<lambda>x y. snd x \<or> snd y) bs"

text \<open>
  What coalescing a free block with its neighbours makes of the blocks \<open>us\<close> before it and
  \<open>vs\<close> after it: those that stay, and the words it absorbs on each side.
\<close>

definition free_last :: "block list \<Rightarrow> bool" where
  "free_last us \<longleftrightarrow> us \<noteq> [] \<and> \<not> snd (last us)"

definition free_first :: "block list \<Rightarrow> bool" where
  "free_first vs \<longleftrightarrow> vs \<noteq> [] \<and> \<not> snd (hd vs)"

definition left_rest :: "block list \<Rightarrow> block list" where
  "left_rest us = (if free_last us then butlast us else us)"

definition left_words :: "block list \<Rightarrow> int" where
  "left_words us = (if free_last us then fst (last us) else 0)"

definition right_rest :: "block list \<Rightarrow> block list" where
  "right_rest vs = (if free_first vs then tl vs else vs)"

definition right_words :: "block list \<Rightarrow> int" where
  "right_words vs = (if free_first vs then fst (hd vs) else 0)"

definition merged :: "block list \<Rightarrow> int \<Rightarrow> block list \<Rightarrow> block list" where
  "merged us n vs =
     left_rest us @ (left_words us + n + right_words vs, False) # right_rest vs"

lemma free_lastE:
  obtains (free) us' a where "us = us' @ [(a, False)]" "left_rest us = us'" "left_words us = a"
    "inuse (last_tag us) = 0" "free_last us"
  | (used) "left_rest us = us" "left_words us = 0" "inuse (last_tag us) \<noteq> 0" "\<not> free_last us"
proof (cases us rule: rev_cases)
  case Nil
  then show ?thesis by (intro that(2)) (auto simp: free_last_def left_rest_def left_words_def)
next
  case (snoc us' b)
  then show ?thesis
    by (cases "snd b"; cases b)
      (auto intro: that simp: free_last_def left_rest_def left_words_def last_tag_def)
qed

lemma free_firstE:
  obtains (free) vs' b where "vs = (b, False) # vs'" "right_rest vs = vs'" "right_words vs = b"
    "inuse (first_tag vs) = 0" "free_first vs"
  | (used) "right_rest vs = vs" "right_words vs = 0" "inuse (first_tag vs) \<noteq> 0" "\<not> free_first vs"
proof (cases vs)
  case Nil
  then show ?thesis by (intro that(2)) (auto simp: free_first_def right_rest_def right_words_def)
next
  case (Cons b vs')
  then show ?thesis
    by (cases "snd b"; cases b)
      (auto intro: that simp: free_first_def right_rest_def right_words_def first_tag_def)
qed

lemma coalesced_merged:
  assumes "coalesced us" "coalesced vs"
  shows "coalesced (merged us n vs)"
proof -
  have l: "coalesced (left_rest us) \<and> \<not> free_last (left_rest us)"
  proof (cases "free_last us")
    case True
    then obtain us' b where "us = us' @ [b]" "\<not> snd b"
      by (cases us rule: rev_cases) (auto simp: free_last_def)
    then show ?thesis using assms(1) True
      by (auto simp: left_rest_def coalesced_def free_last_def successively_append_iff)
  qed (use assms(1) in \<open>simp add: left_rest_def\<close>)
  have r: "coalesced (right_rest vs) \<and> \<not> free_first (right_rest vs)"
    using assms(2)
    by (cases vs) (auto simp: coalesced_def free_first_def right_rest_def successively_Cons)
  show ?thesis
    using l r unfolding merged_def coalesced_def
    by (auto simp: successively_append_iff successively_Cons free_last_def free_first_def)
qed

lemma merged_span: "span (merged us n vs) = span us + 4 * n + span vs"
  by (cases us rule: free_lastE; cases vs rule: free_firstE) (auto simp: merged_def)

lemma merged_used:
  "used_set a (merged us n vs) = used_set a us \<union> used_set (a + span us + 4 * n) vs"
  by (cases us rule: free_lastE; cases vs rule: free_firstE) (auto simp: merged_def algebra_simps)

lemma coalesced_parts:
  assumes "coalesced (us @ (n, True) # vs)"
  shows "coalesced us" "coalesced vs"
  using assms by (auto simp: coalesced_def successively_append_iff successively_Cons)

lemma coalesced_left_rest: "coalesced us \<Longrightarrow> coalesced (left_rest us)"
  by (cases us rule: free_lastE) (auto simp: coalesced_def successively_append_iff)

lemma coalesced_right_rest: "coalesced vs \<Longrightarrow> coalesced (right_rest vs)"
  by (cases vs rule: free_firstE) (auto simp: coalesced_def successively_Cons)

lemma set_block_elsewhere:
  assumes "x \<noteq> q" "x \<noteq> q + 4 * w - 4"
  shows "load_tag (set_block s q w u) x = load_tag s x"
  using assms by (simp add: load_tag_def put_tags_def)

lemma prev_blk_set_block:
  assumes "p - 4 \<noteq> q" "p \<noteq> q + 4 * w"
  shows "prev_blk (set_block s q w u) p = prev_blk s p"
  using set_block_elsewhere [of "p - 4" q w s u] assms
  by (simp add: prev_blk_def prev_blk_footer_def WSIZE_def)

subsection \<open>Requests and placement\<close>

definition words_min :: "int \<Rightarrow> int \<Rightarrow> int" where
  "words_min m sz = max m (4 * ((sz + 23) div 16))"

lemma words_min:
  assumes "0 < sz" "sz \<le> 2 ^ 31 - 24" "1 \<le> m" "m \<le> 1024" "4 dvd m"
  shows "align (u64 (sz + 2 * WSIZE)) = 16 * ((sz + 23) div 16)"
    "max_size m (16 * ((sz + 23) div 16) div WSIZE) = words_min m sz"
    "\<not> 16 * ((sz + 23) div 16) < sz" "m \<le> words_min m sz" "4 dvd words_min m sz"
    "4 * words_min m sz < 2 ^ 31" "sz \<le> 4 * words_min m sz - 8"
proof -
  have "u64 (sz + 2 * WSIZE) = sz + 8" using assms by (simp add: u64_def WSIZE_def)
  then show "align (u64 (sz + 2 * WSIZE)) = 16 * ((sz + 23) div 16)"
    using assms by (simp add: align_div)
  have "16 * ((sz + 23) div 16) div WSIZE = 4 * ((sz + 23) div 16)" by (simp add: WSIZE_def)
  then show "max_size m (16 * ((sz + 23) div 16) div WSIZE) = words_min m sz"
    by (simp add: max_size_def words_min_def)
  have d: "16 * ((sz + 23) div 16) \<le> sz + 23" "sz + 23 < 16 * ((sz + 23) div 16) + 16" by linarith+
  then show "\<not> 16 * ((sz + 23) div 16) < sz" "m \<le> words_min m sz" "4 * words_min m sz < 2 ^ 31"
    "sz \<le> 4 * words_min m sz - 8"
    using assms by (auto simp: words_min_def)
  show "4 dvd words_min m sz" using assms(5) by (auto simp: words_min_def max_def)
qed

definition placed_blocks :: "int \<Rightarrow> int \<Rightarrow> int \<Rightarrow> block list" where
  "placed_blocks m n asize =
     (if n - asize \<ge> m then [(asize, True), (n - asize, False)] else [(n, True)])"

lemma placed_blocks_simps:
  assumes "w \<le> n"
  shows "span (placed_blocks m n w) = 4 * n"
    "\<exists>k. w \<le> k \<and> k \<le> n \<and> used_set a (placed_blocks m n w) = {(a, k)}"
  using assms by (auto simp: placed_blocks_def)

lemma coalesced_placed:
  assumes "coalesced (us @ (n, False) # vs)"
  shows "coalesced (us @ placed_blocks m n w @ vs)"
  using assms
  by (auto simp: coalesced_def placed_blocks_def successively_append_iff successively_Cons)

text \<open>Placing a block uses one block, no larger than the free one, apart from the others.\<close>

lemma placed_used:
  assumes "pos_blocks bs" "bs = us @ (n, False) # vs" "p = a + span us" "w \<le> n"
  shows "\<exists>k. w \<le> k \<and> used_set a (us @ placed_blocks m n w @ vs) = insert (p, k) (used_set a bs) \<and>
    (\<forall>(q, j)\<in>used_set a bs. q + 4 * j \<le> p \<or> p + 4 * k \<le> q)"
proof -
  obtain k where k: "w \<le> k" "k \<le> n" "used_set p (placed_blocks m n w) = {(p, k)}"
    using placed_blocks_simps(2) [OF assms(4)] by blast
  have "used_set a (us @ placed_blocks m n w @ vs) = insert (p, k) (used_set a bs)"
    using assms(2,3) k(3) placed_blocks_simps(1) [OF assms(4)] by auto
  moreover have "q + 4 * j \<le> p \<or> p + 4 * k \<le> q" if "(q, j) \<in> used_set a bs" for q j
  proof -
    have "(p, n, False) \<in> set (placed a bs)" using assms(2,3) by (auto simp: placed_in)
    then show ?thesis
      using placed_apart [of p n False a bs q j True] assms(1) that k(2) by (auto simp: used_set_placed)
  qed
  ultimately show ?thesis using k(1) by blast
qed

subsection \<open>Payloads\<close>

lemma used_set_aligned:
  assumes "heap_ok m s bs" "(p, n) \<in> used_set (heap_listp s) bs" "1 \<le> m"
  shows "(p + 4) mod 16 = 0 \<and> mem_heap_lo (memsys s) + 12 \<le> p \<and> p + 4 * n + 3 \<le> mem_heap_hi (memsys s)"
proof -
  obtain us vs where bs: "bs = us @ (n, True) # vs" "p = heap_listp s + span us"
    using assms(2) by (auto simp: used_set_placed placed_in)
  have h: "heap_ok m s (us @ (n, True) # vs)" using assms(1) bs by simp
  note q = heap_ok_parts [OF h assms(3), simplified]
  have "0 \<le> span vs" using heap_ok_pos [OF h assms(3)] pos_span by auto
  moreover have "(p + 4) mod 16 = 0" using q(2,6) bs(2) by presburger
  ultimately show ?thesis using bs(2) q by (simp add: mem_heap_lo_def mem_heap_hi_def)
qed

lemma used_set_remove:
  assumes "pos_blocks (us @ (n, True) # vs)" "p = b + span us"
  shows "used_set b (us @ (n, True) # vs) - {(p, n)} = used_set b us \<union> used_set (p + 4 * n) vs"
proof -
  have "(p, n) \<notin> used_set b us \<union> used_set (p + 4 * n) vs"
    using used_set_bounds [of p n b us] used_set_bounds [of p n "p + 4 * n" vs] assms by auto
  then show ?thesis using assms(2) by auto
qed

lemma span_prefix_unique:
  assumes "xs @ ys = xs' @ ys'" "span xs = span xs'" "pos_blocks (xs @ ys)"
  shows "xs = xs'"
proof -
  have z: "zs = []" if "span zs = 0" "pos_blocks zs" for zs
    using that pos_span [of "tl zs"] by (cases zs) auto
  consider zs where "xs = xs' @ zs" "zs @ ys = ys'" | zs where "xs @ zs = xs'" "ys = zs @ ys'"
    using assms(1) by (auto simp: append_eq_append_conv2)
  then show ?thesis using assms(2,3) z by cases auto
qed

definition moved_bytes :: "(ptr \<Rightarrow> int) \<Rightarrow> ptr \<Rightarrow> ptr \<Rightarrow> int \<Rightarrow> ptr \<Rightarrow> int" where
  "moved_bytes b src dst len x = (if dst \<le> x \<and> x < dst + len then b (src + (x - dst)) else b x)"

lemma moved_bytes_same [simp]: "moved_bytes b r r len = b"
  by (simp add: moved_bytes_def fun_eq_iff)

lemma memmove_eq:
  assumes "in_heap s dst n" "in_heap s src n"
  shows "memmove s dst src n = Some (s\<lparr>bytes := moved_bytes (bytes s) src dst n\<rparr>)"
proof -
  have "moved_bytes (bytes s) src dst n =
      (\<lambda>p. if dst \<le> p \<and> p < dst + n then bytes s (src + (p - dst)) else bytes s p)"
    by (simp add: fun_eq_iff moved_bytes_def)
  then show ?thesis using assms by (simp add: memmove_def)
qed

lemma payload_in_heap:
  assumes "heap_ok m s bs" "(p, n) \<in> used_set (heap_listp s) bs" "0 \<le> len" "len \<le> 4 * n - 8" "1 \<le> m"
  shows "in_heap s (p + 4) len"
  using used_set_aligned [OF assms(1,2,5)] assms(3,4)
  by (simp add: in_heap_def mem_heap_lo_def mem_heap_hi_def)

text \<open>Both allocators start with two fences around no block.\<close>

lemma fresh_heap:
  assumes "mem_ok (memsys h)" "mem_heapsize (memsys h) = 0" "mem_start_brk (memsys h) mod 16 = 0"
    "b = mem_start_brk (memsys h)" "ms = memsys h\<lparr>mem_brk := b + 16\<rparr>"
    "h1 = h\<lparr>memsys := ms, tags := (tags h)(b + 8 \<mapsto> FENCE)\<rparr>"
    "h2 = h\<lparr>memsys := ms, tags := (tags h)(b + 8 \<mapsto> FENCE, b + 12 \<mapsto> FENCE), heap_listp := b + 12\<rparr>"
  shows "mem_sbrk (memsys h) (s32 (4 * WSIZE)) = (b, ms)" "b \<noteq> NULL"
    "store_tag (h\<lparr>memsys := ms\<rparr>) (b + 8) FENCE = Some h1"
    "store_tag (h1\<lparr>heap_listp := b + 12\<rparr>) (b + 12) FENCE = Some h2"
    "heap_ok m h2 []" "mem_heapsize ms = 16"
proof -
  have m: "mem_brk (memsys h) = b" "0 < b" "b + MAX_HEAP = mem_max_addr (memsys h)"
    using assms(1,2,4) heapsize_eq [OF assms(1)] by (auto simp: mem_ok_def)
  have ms: "mem_brk ms = b + 16" "mem_start_brk ms = b" "mem_ok ms"
    using m assms(1,4,5) by (auto simp: mem_ok_def MAX_HEAP_def)
  show "mem_sbrk (memsys h) (s32 (4 * WSIZE)) = (b, ms)" "b \<noteq> NULL"
    using m assms(5) by (simp_all add: mem_sbrk_def s32_def WSIZE_def Let_def MAX_HEAP_def)
  have b4: "(b + 8) mod 4 = 0" "(b + 12) mod 4 = 0"
    using assms(3) unfolding assms(4) [symmetric] by presburger+
  show "store_tag (h\<lparr>memsys := ms\<rparr>) (b + 8) FENCE = Some h1"
    "store_tag (h1\<lparr>heap_listp := b + 12\<rparr>) (b + 12) FENCE = Some h2"
    using ms b4 by (auto simp: store_tag_def tag_addr_def assms(6,7))
  show "heap_ok m h2 []"
    using ms assms(3,4) by (intro heap_okI [where b = "b + 12" and e = "b + 12"]) (auto simp: assms(7))
  show "mem_heapsize ms = 16" using heapsize_eq [OF ms(3)] ms by simp
qed

lemma heap_ok_bytes [simp]: "heap_ok m (h\<lparr>bytes := b\<rparr>) = heap_ok m h"
  by (simp add: heap_ok_def fun_eq_iff)

lemma memcpy_payload:
  assumes "heap_ok m h bs" "1 \<le> m" "(p, n) \<in> used_set (heap_listp h) bs" "(q, k) \<in> used_set (heap_listp h) bs"
    "p + 4 * n \<le> q \<or> q + 4 * k \<le> p" "0 \<le> len" "len \<le> 4 * n - 8" "len \<le> 4 * k - 8"
  shows "memcpy h (q + 4) (p + 4) len = Some (h\<lparr>bytes := moved_bytes (bytes h) (p + 4) (q + 4) len\<rparr>)"
  using memmove_eq [of h "q + 4" len "p + 4"] payload_in_heap [OF assms(1,3,6,7,2)]
    payload_in_heap [OF assms(1,4,6,8,2)] assms(5,7,8)
  by (auto simp: memcpy_def)

text \<open>The payloads of the used blocks, as the interface of the allocators names them.\<close>

definition payload_of :: "ptr \<times> int \<Rightarrow> ptr \<times> int" where
  "payload_of b = (fst b + 4, 4 * snd b - 8)"

definition payloads :: "'a heap_scheme \<Rightarrow> block list \<Rightarrow> (ptr \<times> int) set" where
  "payloads h bs = payload_of ` used_set (heap_listp h) bs"

lemma payload_of_inj: "payload_of x = payload_of y \<longleftrightarrow> x = y"
  by (cases x; cases y) (auto simp: payload_of_def)

lemma payloads_mem:
  "(p, c) \<in> payloads h bs \<longleftrightarrow> (\<exists>n. c = 4 * n - 8 \<and> (p - 4, n) \<in> used_set (heap_listp h) bs)"
  by (force simp: payloads_def payload_of_def)

lemma payloads_insert:
  "used_set (heap_listp h') bs' = insert (p, n) (used_set (heap_listp h) bs) \<Longrightarrow>
   payloads h' bs' = insert (p + 4, 4 * n - 8) (payloads h bs)"
  by (simp add: payloads_def payload_of_def)

lemma payloads_remove:
  "used_set (heap_listp h') bs' = used_set (heap_listp h) bs - {(p, n)} \<Longrightarrow>
   payloads h' bs' = payloads h bs - {(p + 4, 4 * n - 8)}"
  using payload_of_inj by (force simp: payloads_def payload_of_def)

lemma payloads_replace:
  assumes "used_set (heap_listp h') bs' = insert (r, m) (used_set (heap_listp h) bs - {(p, n)})"
  shows "payloads h' bs' = insert (r + 4, 4 * m - 8) (payloads h bs - {(p + 4, 4 * n - 8)})"
proof -
  have "payload_of ` (used_set (heap_listp h) bs - {(p, n)}) =
      payload_of ` used_set (heap_listp h) bs - {payload_of (p, n)}"
    using payload_of_inj by auto
  then show ?thesis by (simp add: payloads_def assms payload_of_def)
qed

lemma payload_laws:
  assumes "heap_ok m h bs" "4 \<le> m" "(p, c) \<in> payloads h bs"
  shows "p \<noteq> NULL \<and> p mod 16 = 0 \<and> 0 < c \<and> mem_heap_lo (memsys h) \<le> p \<and> p + c - 1 \<le> mem_heap_hi (memsys h)"
proof -
  obtain n where n: "c = 4 * n - 8" "(p - 4, n) \<in> used_set (heap_listp h) bs"
    using assms(3) by (auto simp: payloads_mem)
  have "m \<le> n"
    using n(2) heap_ok_sizes [OF assms(1), of n True] assms(2) by (auto simp: used_set_placed placed_in)
  moreover have "0 < mem_heap_lo (memsys h)"
    using heap_okD(1) [OF assms(1)] by (simp add: mem_ok_def mem_heap_lo_def)
  ultimately show ?thesis
    using used_set_aligned [OF assms(1) n(2)] n(1) assms(2) by auto
qed

lemma payloads_apart:
  assumes "pos_blocks bs" "(p, c) \<in> payloads h bs" "(q, d) \<in> payloads h bs"
  shows "p = q \<and> c = d \<or> p + c \<le> q \<or> q + d \<le> p"
proof -
  obtain n k where "c = 4 * n - 8" "(p - 4, n) \<in> used_set (heap_listp h) bs"
    "d = 4 * k - 8" "(q - 4, k) \<in> used_set (heap_listp h) bs"
    using assms(2,3) by (auto simp: payloads_mem)
  then show ?thesis
    using placed_apart [of "p - 4" n True "heap_listp h" bs "q - 4" k True] assms(1)
    by (auto simp: used_set_placed)
qed

lemma memset_eq:
  assumes "heap_ok m h bs" "(p, c) \<in> payloads h bs" "0 \<le> n" "n \<le> c" "1 \<le> m"
  shows "memset h p b n = Some (h\<lparr>bytes := (\<lambda>x. if p \<le> x \<and> x < p + n then b mod 256 else bytes h x)\<rparr>)"
proof -
  obtain k where "c = 4 * k - 8" "(p - 4, k) \<in> used_set (heap_listp h) bs"
    using assms(2) by (auto simp: payloads_mem)
  then show ?thesis
    using payload_in_heap [OF assms(1), of "p - 4" k n] assms(3-5) by (simp add: memset_def)
qed

text \<open>What a reallocation that moved \<open>len\<close> bytes did, in terms of payloads.\<close>

lemma payloads_moved:
  assumes "heap_ok m h' bs'" "1 \<le> m" "heap_listp h' = heap_listp h"
    "used_set (heap_listp h) bs' = insert (r - 4, k) (used_set (heap_listp h) bs - {(p - 4, n)})"
    "(r - 4, k) \<notin> used_set (heap_listp h) bs - {(p - 4, n)}"
    "min sz c \<le> len" "len \<le> 4 * k - 8" "bytes h' = moved_bytes (bytes h) p r len"
    "U = payloads h bs" "c = 4 * n - 8"
  shows "payloads h' bs' = insert (r, 4 * k - 8) (U - {(p, c)})" "(r, 4 * k - 8) \<notin> U - {(p, c)}"
    "0 \<le> i \<Longrightarrow> i < min sz c \<Longrightarrow> bytes h' (r + i) = bytes h (p + i)"
    "same_payloads (U - {(p, c)}) (bytes h) (bytes h')"
proof -
  show e: "payloads h' bs' = insert (r, 4 * k - 8) (U - {(p, c)})"
    using payloads_replace [of h' bs' "r - 4" k h bs "p - 4" n] assms(3,4,9,10) by simp
  show new: "(r, 4 * k - 8) \<notin> U - {(p, c)}" using assms(5,9,10) by (auto simp: payloads_mem)
  have "x + d \<le> r \<or> r + (4 * k - 8) \<le> x" if "(x, d) \<in> U - {(p, c)}" for x d
    using payloads_apart [OF heap_ok_pos [OF assms(1,2)], of x d h' r "4 * k - 8"] that e new by auto
  then show "same_payloads (U - {(p, c)}) (bytes h) (bytes h')"
    using assms(7) by (fastforce simp: same_payloads_def assms(8) moved_bytes_def)
  assume i: "0 \<le> i" "i < min sz c"
  then have "i < len" using assms(6) by linarith
  then show "bytes h' (r + i) = bytes h (p + i)" using i(1) by (simp add: assms(8) moved_bytes_def)
qed

text \<open>An area after its break is reset.\<close>

lemma reset_area:
  assumes "mem_ok m"
  shows "mem_ok (mem_reset_brk m)" "mem_heapsize (mem_reset_brk m) = 0"
    "mem_start_brk (mem_reset_brk m) = mem_start_brk m" "mem_max_addr (mem_reset_brk m) = mem_max_addr m"
  using assms mem_reset_brk_ok [OF assms] by (simp_all add: mem_reset_brk_def mem_heapsize_def u64_def)

lemma payloads_bytes [simp]: "payloads (s\<lparr>bytes := f\<rparr>) bs = payloads s bs"
  by (simp add: payloads_def)

end
