(* ===== verification/MM_Inv.thy ===== *)
theory MM_Inv
  imports MM Blocks
begin

text \<open>
  The invariant of the allocator of \<open>malloclab/mm.c\<close> and the lemmas its functions keep it by.
  \<open>lists_ok s S\<close>: the ten free lists hold exactly the free blocks \<open>S\<close> (address and size), each
  in the list of its size class, and share no element.  \<open>mm_ok s bs\<close>: the blocks \<open>bs\<close> tile the
  heap, the free ones among them are the listed ones, and no two of them are adjacent.
\<close>

subsection \<open>Size classes\<close>

lemma find_range_bounds: "i \<le> 9 \<Longrightarrow> int i \<le> find_range n i \<and> find_range n i \<le> 9"
proof (induction n i rule: find_range.induct)
  case (1 n i)
  have "find_range n 10 = 9" by (simp add: find_range.simps FREE_LISTS_SIZE_def)
  then show ?case
    using 1 by (cases "i = 9"; subst (1 2) find_range.simps) (auto simp: FREE_LISTS_SIZE_def)
qed

lemma find_fit_index_bounds: "8 \<le> n \<Longrightarrow> 0 \<le> find_fit_index n \<and> find_fit_index n \<le> 9"
  using find_range_bounds [of 5 n]
  by (simp add: find_fit_index_def MIN_BLOCK_SIZE_WORDS_def SMALL_CLASS_SIZE_def)

lemma find_fit_index_small: "n < 8 \<Longrightarrow> find_fit_index n = - 1"
  by (simp add: find_fit_index_def MIN_BLOCK_SIZE_WORDS_def)

subsection \<open>The free lists\<close>

definition heads :: "mm \<Rightarrow> ptr set" where
  "heads s = flist s ` {..<FREE_LISTS_SIZE}"

definition class_elems :: "(ptr \<times> int) set \<Rightarrow> nat \<Rightarrow> ptr set" where
  "class_elems S i = {a + 8 | a n. (a, n) \<in> S \<and> find_fit_index n = int i}"

definition lists_rep :: "mm \<Rightarrow> (ptr \<times> int) set \<Rightarrow> (ptr \<Rightarrow> ptr list) \<Rightarrow> bool" where
  "lists_rep s S f \<longleftrightarrow> mids s = map (\<lambda>r. r div 2) ranges \<and> dlls.family (elems s) (heads s) f \<and>
     (\<forall>i<FREE_LISTS_SIZE. set (f (flist s i)) = class_elems S i)"

definition lists_ok :: "mm \<Rightarrow> (ptr \<times> int) set \<Rightarrow> bool" where
  "lists_ok s S \<longleftrightarrow> (\<exists>f. lists_rep s S f)"

text \<open>The static array of the lists is apart from the area of the heap.\<close>

definition array_apart :: "mm \<Rightarrow> bool" where
  "array_apart s \<longleftrightarrow> 0 < free_lists s \<and>
     (free_lists s + 400 \<le> mem_start_brk (memsys s) \<or> mem_max_addr (memsys s) \<le> free_lists s)"

lemma mid_eq: "lists_ok s S \<Longrightarrow> i < FREE_LISTS_SIZE \<Longrightarrow> mid s i = Some (ranges ! i div 2)"
  unfolding lists_ok_def lists_rep_def FREE_LISTS_SIZE_def
  by (auto simp: mid_def ranges_def u64_def nth_Cons' less_Suc_eq eval_nat_numeral)

lemma flist_inj: "flist s i = flist s j \<longleftrightarrow> i = j"
  by (simp add: flist_def)

lemma flist_upd [simp]:
  "flist (s\<lparr>elems := el\<rparr>) = flist s" "flist (s\<lparr>tags := t\<rparr>) = flist s"
  "flist (s\<lparr>memsys := ms\<rparr>) = flist s" "flist (s\<lparr>bytes := b\<rparr>) = flist s"
  by (simp_all add: flist_def fun_eq_iff)

lemma heads_upd [simp]:
  "heads (s\<lparr>elems := el\<rparr>) = heads s" "heads (s\<lparr>tags := t\<rparr>) = heads s"
  "heads (s\<lparr>memsys := ms\<rparr>) = heads s" "heads (s\<lparr>bytes := b\<rparr>) = heads s"
  by (simp_all add: heads_def)

lemma lists_rep_upd [simp]:
  "lists_rep (s\<lparr>tags := t\<rparr>) = lists_rep s"
  "lists_rep (s\<lparr>memsys := ms\<rparr>) = lists_rep s" "lists_rep (s\<lparr>bytes := b\<rparr>) = lists_rep s"
  by (simp_all add: lists_rep_def fun_eq_iff)

lemma lists_ok_upd [simp]:
  "lists_ok (s\<lparr>tags := t\<rparr>) = lists_ok s"
  "lists_ok (s\<lparr>memsys := ms\<rparr>) = lists_ok s" "lists_ok (s\<lparr>bytes := b\<rparr>) = lists_ok s"
  by (simp_all add: lists_ok_def fun_eq_iff)

text \<open>Changing one list of a represented family by one block.\<close>

lemma lists_rep_change:
  assumes "lists_rep s S f" "i < FREE_LISTS_SIZE" "dlls.family el (heads s) (f(flist s i := xs))"
    "set xs = class_elems S' i" "\<And>j. j \<noteq> i \<Longrightarrow> class_elems S' j = class_elems S j"
  shows "lists_ok (s\<lparr>elems := el\<rparr>) S'"
proof -
  have "lists_rep (s\<lparr>elems := el\<rparr>) S' (f(flist s i := xs))"
    unfolding lists_rep_def
  proof (intro conjI allI impI)
    show "set ((f(flist s i := xs)) (flist (s\<lparr>elems := el\<rparr>) j)) = class_elems S' j"
      if "j < FREE_LISTS_SIZE" for j
      using assms that by (cases "j = i") (simp_all add: flist_inj lists_rep_def)
  qed (use assms in \<open>simp_all add: lists_rep_def\<close>)
  then show ?thesis by (auto simp: lists_ok_def)
qed

lemma head_mem: "i < FREE_LISTS_SIZE \<Longrightarrow> flist s i \<in> heads s"
  by (simp add: heads_def)

lemma remove_free_block_ok:
  assumes "lists_ok s S" "(a, n) \<in> S" "8 \<le> n" "\<And>k. (a, k) \<in> S \<Longrightarrow> k = n"
  shows "\<exists>el. remove_free_block s a = Some (s\<lparr>elems := el\<rparr>) \<and>
    lists_ok (s\<lparr>elems := el\<rparr>) (S - {(a, n)})"
proof -
  obtain f where f: "lists_rep s S f" using assms(1) by (auto simp: lists_ok_def)
  define i where "i = nat (find_fit_index n)"
  have i: "find_fit_index n = int i" "i < FREE_LISTS_SIZE"
    using find_fit_index_bounds [OF assms(3)] by (auto simp: i_def FREE_LISTS_SIZE_def)
  have a: "a + 8 \<in> set (f (flist s i))"
    using f i assms(2) by (force simp: lists_rep_def class_elems_def)
  have fam: "dlls.family (elems s) (heads s) f" using f by (simp add: lists_rep_def)
  obtain k el where el: "list_remove (elems s) (a + 8) = Some (k, el)"
      "dlls.family el (heads s) (f(flist s i := remove1 (a + 8) (f (flist s i))))"
    using dlls.family_unlink [OF fam head_mem [OF i(2)] a] by blast
  have d: "distinct (f (flist s i))"
    using dlls.rep_distinct dlls.family_rep [OF fam head_mem [OF i(2)]] by blast
  have "set (f (flist s i)) = class_elems S i" using f i(2) by (simp add: lists_rep_def)
  then have "set (remove1 (a + 8) (f (flist s i))) = class_elems (S - {(a, n)}) i"
    using d i(1) assms(4) by (force simp: class_elems_def)
  moreover have "class_elems (S - {(a, n)}) j = class_elems S j" if "j \<noteq> i" for j
    using i(1) that unfolding class_elems_def by (intro Collect_cong) force
  ultimately have "lists_ok (s\<lparr>elems := el\<rparr>) (S - {(a, n)})"
    by (rule lists_rep_change [OF f i(2) el(2)])
  then show ?thesis using el(1) by (auto simp: remove_free_block_def)
qed

lemma insert_asserted_ok:
  assumes "lists_ok s S" "blk_size s a = Some n" "8 \<le> n" "\<And>k. (a, k) \<notin> S"
    "a + 8 \<noteq> NULL" "\<And>i. i < FREE_LISTS_SIZE \<Longrightarrow> a + 8 \<notin> nodes (flist s i) []"
  shows "\<exists>el. insert_asserted s a = Some (s\<lparr>elems := el\<rparr>) \<and>
    lists_ok (s\<lparr>elems := el\<rparr>) (insert (a, n) S)"
proof -
  obtain f where f: "lists_rep s S f" using assms(1) by (auto simp: lists_ok_def)
  define i where "i = nat (find_fit_index n)"
  have i: "find_fit_index n = int i" "i < FREE_LISTS_SIZE"
    using find_fit_index_bounds [OF assms(3)] by (auto simp: i_def FREE_LISTS_SIZE_def)
  have fam: "dlls.family (elems s) (heads s) f" using f by (simp add: lists_rep_def)
  have fresh: "a + 8 \<notin> nodes m (f m)" if "m \<in> heads s" for m
  proof -
    from that obtain j where j: "m = flist s j" "j < FREE_LISTS_SIZE" by (auto simp: heads_def)
    have "set (f m) = class_elems S j" using f j by (simp add: lists_rep_def)
    then show ?thesis
      using assms(4) assms(6) [OF j(2)] j by (auto simp: class_elems_def nodes_def)
  qed
  have "set (f (flist s i)) = class_elems S i" using f i(2) by (simp add: lists_rep_def)
  then have cls: "insert (a + 8) (set (f (flist s i))) = class_elems (insert (a, n) S) i"
    using i(1) by (auto simp: class_elems_def)
  have other: "class_elems (insert (a, n) S) j = class_elems S j" if "j \<noteq> i" for j
    using i(1) that by (auto simp: class_elems_def)
  have rep: "lists_ok (s\<lparr>elems := el\<rparr>) (insert (a, n) S)"
    if "dlls.family el (heads s) (f(flist s i := xs))" "set xs = insert (a + 8) (set (f (flist s i)))"
    for el xs
    using that cls other by (intro lists_rep_change [OF f i(2) that(1)]) auto
  have m: "mid s i = Some (ranges ! i div 2)" by (rule mid_eq [OF assms(1) i(2)])
  obtain e1 where e1: "list_push_front (elems s) (flist s i) (a + 8) = Some e1"
      "dlls.family e1 (heads s) (f(flist s i := (a + 8) # f (flist s i)))"
    using dlls.family_push_front [OF fam head_mem [OF i(2)] assms(5)] fresh by blast
  obtain e2 where e2: "list_push_back (elems s) (flist s i) (a + 8) = Some e2"
      "dlls.family e2 (heads s) (f(flist s i := f (flist s i) @ [a + 8]))"
    using dlls.family_push_back [OF fam head_mem [OF i(2)] assms(5)] fresh by blast
  show ?thesis
  proof (cases "n < ranges ! i div 2")
    case True
    then have "insert_asserted s a = Some (s\<lparr>elems := e1\<rparr>)"
      using assms(2) i m e1(1)
      by (simp add: insert_asserted_def insert_free_block_def push_front_elem_def Let_def)
    then show ?thesis using rep [OF e1(2)] by auto
  next
    case False
    then have "insert_asserted s a = Some (s\<lparr>elems := e2\<rparr>)"
      using assms(2) i m e2(1)
      by (simp add: insert_asserted_def insert_free_block_def push_back_elem_def Let_def)
    then show ?thesis using rep [OF e2(2)] by auto
  qed
qed

subsection \<open>The search for a fit\<close>

text \<open>
  What the search computes: the first block that is large enough among the first \<open>LIMIT\<close>
  elements of a list, and the first such result over a sequence of lists.
\<close>

definition fit_in :: "(ptr \<Rightarrow> int) \<Rightarrow> int \<Rightarrow> ptr list \<Rightarrow> ptr" where
  "fit_in sz asize xs =
     (case find (\<lambda>e. asize \<le> sz e) (take LIMIT xs) of None \<Rightarrow> NULL | Some e \<Rightarrow> e - 8)"

fun fit_among :: "(ptr \<Rightarrow> int) \<Rightarrow> int \<Rightarrow> ptr list list \<Rightarrow> ptr" where
  "fit_among sz asize [] = NULL"
| "fit_among sz asize (xs # xss) =
     (if fit_in sz asize xs \<noteq> NULL then fit_in sz asize xs else fit_among sz asize xss)"

definition elem_sizes :: "mm \<Rightarrow> (ptr \<Rightarrow> int) \<Rightarrow> ptr set \<Rightarrow> bool" where
  "elem_sizes s sz E \<longleftrightarrow> (\<forall>e\<in>E. blk_size s (e - 8) = Some (sz e))"

lemma fit_forward_dll:
  assumes "dll (elems s) l (us @ xs)" "elem_sizes s sz (set xs)" "cnt \<le> LIMIT"
  shows "fit_forward s l asize (hd (xs @ [l + 16])) cnt =
    Some (case find (\<lambda>e. asize \<le> sz e) (take (LIMIT - cnt) xs) of None \<Rightarrow> NULL | Some e \<Rightarrow> e - 8)"
  using assms
proof (induction xs arbitrary: us cnt)
  case Nil
  then show ?case
    by (subst fit_forward.simps) (simp add: list_end_dll)
next
  case (Cons x xs)
  have x: "blk_size s (x - 8) = Some (sz x)" "elem_sizes s sz (set xs)"
    using Cons.prems(2) by (auto simp: elem_sizes_def)
  have ne: "x \<noteq> l + 16" using Cons.prems(1) by (auto simp: dll_def)
  show ?case
  proof (cases "cnt = LIMIT \<or> asize \<le> sz x")
    case True
    then show ?thesis
      using x ne Cons.prems
      by (subst fit_forward.simps) (cases "LIMIT - cnt"; auto simp: list_end_dll)
  next
    case False
    then obtain k where k: "LIMIT - cnt = Suc k" "LIMIT - Suc cnt = k" "Suc cnt \<le> LIMIT"
      using Cons.prems(3) by (cases "LIMIT - cnt") auto
    have "fit_forward s l asize (hd (xs @ [l + 16])) (Suc cnt) =
        Some (case find (\<lambda>e. asize \<le> sz e) (take k xs) of None \<Rightarrow> NULL | Some e \<Rightarrow> e - 8)"
      using Cons.IH [of "us @ [x]" "Suc cnt"] Cons.prems(1) x(2) k by simp
    then show ?thesis
      using False x(1) ne k list_next_elem [OF Cons.prems(1)] list_end_dll [OF Cons.prems(1)]
      by (subst fit_forward.simps) simp
  qed
qed

lemma fit_backward_dll:
  assumes "dll (elems s) l (rev xs @ vs)" "elem_sizes s sz (set xs)" "cnt \<le> LIMIT"
  shows "fit_backward s l asize (hd (xs @ [l])) cnt =
    Some (case find (\<lambda>e. asize \<le> sz e) (take (LIMIT - cnt) xs) of None \<Rightarrow> NULL | Some e \<Rightarrow> e - 8)"
  using assms
proof (induction xs arbitrary: vs cnt)
  case Nil
  then show ?case
    by (subst fit_backward.simps) (simp add: list_rend_dll)
next
  case (Cons x xs)
  have x: "blk_size s (x - 8) = Some (sz x)" "elem_sizes s sz (set xs)"
    using Cons.prems(2) by (auto simp: elem_sizes_def)
  have ne: "x \<noteq> l" using Cons.prems(1) by (auto simp: dll_def)
  have d: "dll (elems s) l (rev xs @ x # vs)" using Cons.prems(1) by simp
  have prv: "list_prev (elems s) x = Some (hd (xs @ [l]))"
    using list_prev_elem [OF d] by (cases xs) auto
  show ?case
  proof (cases "cnt = LIMIT \<or> asize \<le> sz x")
    case True
    then show ?thesis
      using x ne Cons.prems
      by (subst fit_backward.simps) (cases "LIMIT - cnt"; auto simp: list_rend_dll)
  next
    case False
    then obtain k where k: "LIMIT - cnt = Suc k" "LIMIT - Suc cnt = k" "Suc cnt \<le> LIMIT"
      using Cons.prems(3) by (cases "LIMIT - cnt") auto
    have "fit_backward s l asize (hd (xs @ [l])) (Suc cnt) =
        Some (case find (\<lambda>e. asize \<le> sz e) (take k xs) of None \<Rightarrow> NULL | Some e \<Rightarrow> e - 8)"
      using Cons.IH [of "x # vs" "Suc cnt"] d x(2) k by simp
    then show ?thesis
      using False x(1) ne k prv list_rend_dll [OF Cons.prems(1)]
      by (subst fit_backward.simps) simp
  qed
qed

lemma fit_higher_lists:
  assumes "lists_rep s S f" "elem_sizes s sz (\<Union>i<FREE_LISTS_SIZE. set (f (flist s i)))"
    "i \<le> FREE_LISTS_SIZE"
  shows "fit_higher s asize i =
    Some (fit_among sz asize (map (\<lambda>i. f (flist s i)) [i..<FREE_LISTS_SIZE]))"
  using assms(3)
proof (induction "FREE_LISTS_SIZE - i" arbitrary: i)
  case 0
  then show ?case by (subst fit_higher.simps) simp
next
  case (Suc k)
  then have i: "i < FREE_LISTS_SIZE" by simp
  have d: "dll (elems s) (flist s i) (f (flist s i))"
    using assms(1) dlls.family_rep [OF _ head_mem [OF i]] by (auto simp: lists_rep_def)
  have "fit_forward s (flist s i) asize (hd (f (flist s i) @ [flist s i + 16])) 0 =
      Some (fit_in sz asize (f (flist s i)))"
    using fit_forward_dll [of s "flist s i" "[]" "f (flist s i)" sz 0 asize] d assms(2) i
    by (auto simp: fit_in_def elem_sizes_def)
  moreover have "[i..<FREE_LISTS_SIZE] = i # [Suc i..<FREE_LISTS_SIZE]"
    using i by (simp add: upt_conv_Cons)
  ultimately show ?case
    using i Suc.hyps(1) [of "Suc i"] Suc.hyps(2) list_begin_dll [OF d]
    by (subst fit_higher.simps) simp
qed

lemma find_fit_lists:
  assumes "lists_rep s S f" "elem_sizes s sz (\<Union>i<FREE_LISTS_SIZE. set (f (flist s i)))"
    "8 \<le> asize" "c = nat (find_fit_index asize)"
  shows "find_fit s asize = Some (fit_among sz asize
      ((if asize < ranges ! c div 2 then f (flist s c) else rev (f (flist s c))) #
       map (\<lambda>i. f (flist s i)) [Suc c..<FREE_LISTS_SIZE]))"
proof -
  have c: "find_fit_index asize = int c" "c < FREE_LISTS_SIZE"
    using find_fit_index_bounds [OF assms(3)] assms(4) by (auto simp: FREE_LISTS_SIZE_def)
  have d: "dll (elems s) (flist s c) (f (flist s c))"
    using assms(1) dlls.family_rep [OF _ head_mem [OF c(2)]] by (auto simp: lists_rep_def)
  have e: "elem_sizes s sz (set (f (flist s c)))"
    using assms(2) c(2) by (auto simp: elem_sizes_def)
  have fw: "fit_forward s (flist s c) asize (hd (f (flist s c) @ [flist s c + 16])) 0 =
      Some (fit_in sz asize (f (flist s c)))"
    using fit_forward_dll [of s "flist s c" "[]" "f (flist s c)" sz 0 asize] d e
    by (simp add: fit_in_def)
  have "last (flist s c # f (flist s c)) = hd (rev (f (flist s c)) @ [flist s c])"
    by (simp add: hd_append hd_rev)
  then have bw: "fit_backward s (flist s c) asize (last (flist s c # f (flist s c))) 0 =
      Some (fit_in sz asize (rev (f (flist s c))))"
    using fit_backward_dll [of s "flist s c" "rev (f (flist s c))" "[]" sz 0 asize] d e
    by (simp add: fit_in_def)
  have m: "mid s c = Some (ranges ! c div 2)"
    using mid_eq [OF _ c(2)] assms(1) by (auto simp: lists_ok_def)
  show ?thesis
    using c m list_begin_dll [OF d] list_rbegin_dll [OF d] fw bw
      fit_higher_lists [OF assms(1,2), of "Suc c"]
    by (simp add: find_fit_def Let_def del: last.simps)
qed

lemma fit_in_sound: "fit_in sz asize xs = p \<Longrightarrow> p \<noteq> NULL \<Longrightarrow> p + 8 \<in> set xs \<and> asize \<le> sz (p + 8)"
  by (auto simp: fit_in_def find_Some_iff split: option.splits dest: in_set_takeD nth_mem)

lemma fit_among_sound:
  "fit_among sz asize xss = p \<Longrightarrow> p \<noteq> NULL \<Longrightarrow> \<exists>xs\<in>set xss. p + 8 \<in> set xs \<and> asize \<le> sz (p + 8)"
  by (induction xss) (use fit_in_sound in \<open>force split: if_splits\<close>)+

subsection \<open>The invariant\<close>

definition mm_ok :: "mm \<Rightarrow> block list \<Rightarrow> bool" where
  "mm_ok s bs \<longleftrightarrow> heap_ok 8 s bs \<and> lists_ok s (free_set (heap_listp s) bs) \<and> array_apart s \<and> coalesced bs"

lemma elems_upd [simp]:
  "tag_addr (s\<lparr>elems := el\<rparr>) = tag_addr s" "load_tag (s\<lparr>elems := el\<rparr>) = load_tag s"
  "blk_size (s\<lparr>elems := el\<rparr>) = blk_size s" "blk_free (s\<lparr>elems := el\<rparr>) = blk_free s"
  "next_blk (s\<lparr>elems := el\<rparr>) = next_blk s" "prev_blk (s\<lparr>elems := el\<rparr>) = prev_blk s"
  "heap_ok m (s\<lparr>elems := el\<rparr>) = heap_ok m s"
  "heap_ok m (s\<lparr>elems := el, tags := t\<rparr>) = heap_ok m (s\<lparr>tags := t\<rparr>)"
  "array_apart (s\<lparr>elems := el\<rparr>) = array_apart s"
  "array_apart (s\<lparr>tags := t\<rparr>) = array_apart s" "array_apart (s\<lparr>bytes := b\<rparr>) = array_apart s"
  by (auto simp: fun_eq_iff tag_addr_def load_tag_def blk_size_def blk_free_def next_blk_def
      prev_blk_def heap_ok_def array_apart_def)

lemma set_block_mm [simp]:
  "free_lists (set_block s p n u) = free_lists s" "elems (set_block s p n u) = elems s"
  "mids (set_block s p n u) = mids s"
  by (simp_all add: set_block_def)

lemma lists_ok_tags_elems [simp]: "lists_ok (s\<lparr>tags := t, elems := el\<rparr>) = lists_ok (s\<lparr>elems := el\<rparr>)"
proof -
  have "s\<lparr>tags := t, elems := el\<rparr> = s\<lparr>elems := el, tags := t\<rparr>" by simp
  then show ?thesis by (simp only: lists_ok_upd)
qed

lemma lists_ok_set_block [simp]: "lists_ok (set_block s p n u) = lists_ok s"
  by (simp add: set_block_def)

lemma array_apart_set_block [simp]: "array_apart (set_block s p n u) = array_apart s"
  by (simp add: set_block_def)

lemma set_block_elems: "(set_block s p n u)\<lparr>elems := el\<rparr> = set_block (s\<lparr>elems := el\<rparr>) p n u"
  by (simp add: set_block_def)

lemma free_blk_size:
  assumes "heap_ok 8 s bs" "(p, n) \<in> free_set (heap_listp s) bs"
  shows "blk_size s p = Some n \<and> 8 \<le> n"
proof -
  obtain us vs where bs: "bs = us @ (n, False) # vs" "p = heap_listp s + span us"
    using assms(2) by (auto simp: free_set_placed placed_in)
  then show ?thesis
    using at_block(1) [of 8 s us n False vs p] heap_ok_sizes [of 8 s bs n False] assms(1) by auto
qed

lemma find_fit_ok:
  assumes "heap_ok 8 s bs" "lists_ok s (free_set (heap_listp s) bs)" "8 \<le> asize"
  shows "\<exists>p. find_fit s asize = Some p \<and>
    (p \<noteq> NULL \<longrightarrow> (\<exists>n. asize \<le> n \<and> (p, n) \<in> free_set (heap_listp s) bs))"
proof -
  obtain f where f: "lists_rep s (free_set (heap_listp s) bs) f" using assms(2) by (auto simp: lists_ok_def)
  define sz where "sz e = the (blk_size s (e - 8))" for e
  define c where "c = nat (find_fit_index asize)"
  have c: "c < FREE_LISTS_SIZE"
    using find_fit_index_bounds [OF assms(3)] by (auto simp: c_def FREE_LISTS_SIZE_def)
  have el: "\<exists>n. (e - 8, n) \<in> free_set (heap_listp s) bs" if "e \<in> set (f (flist s i))" "i < FREE_LISTS_SIZE" for e i
    using f that by (auto simp: lists_rep_def class_elems_def)
  then have "elem_sizes s sz (\<Union>i<FREE_LISTS_SIZE. set (f (flist s i)))"
    using free_blk_size [OF assms(1)] by (fastforce simp: elem_sizes_def sz_def)
  from find_fit_lists [OF f this assms(3) c_def]
  obtain p where p: "find_fit s asize = Some p" and
    pe: "p = fit_among sz asize ((if asize < ranges ! c div 2 then f (flist s c) else rev (f (flist s c))) #
       map (\<lambda>i. f (flist s i)) [Suc c..<FREE_LISTS_SIZE])" by blast
  have "\<exists>n. asize \<le> n \<and> (p, n) \<in> free_set (heap_listp s) bs" if ne: "p \<noteq> NULL"
  proof -
    obtain i where i: "i < FREE_LISTS_SIZE" "p + 8 \<in> set (f (flist s i))" "asize \<le> sz (p + 8)"
      using fit_among_sound [OF pe [symmetric] ne] c by (auto split: if_splits)
    then show ?thesis
      using el [OF i(2,1)] free_blk_size [OF assms(1)] by (fastforce simp: sz_def)
  qed
  then show ?thesis using p by blast
qed

lemma insert_listed:
  assumes "heap_ok 8 s (us @ (n, False) # vs)" "p = heap_listp s + span us"
    "lists_ok s (free_set (heap_listp s) us \<union> free_set (p + 4 * n) vs)" "array_apart s"
  shows "\<exists>el. insert_asserted s p = Some (s\<lparr>elems := el\<rparr>) \<and>
    lists_ok (s\<lparr>elems := el\<rparr>) (free_set (heap_listp s) (us @ (n, False) # vs))"
proof -
  have pos: "pos_blocks us" "pos_blocks vs" "0 < n"
    using heap_ok_pos [OF assms(1)] by auto
  have "blk_size s p = Some n" "8 \<le> n"
    using at_block(1) [OF assms(1,2)] heap_ok_sizes [OF assms(1)] by auto
  moreover have "(p, k) \<notin> free_set (heap_listp s) us \<union> free_set (p + 4 * n) vs" for k
    using free_set_bounds [OF _ pos(1)] free_set_bounds [OF _ pos(2)] pos(3) assms(2) by fastforce
  moreover have "mem_start_brk (memsys s) < p" "p + 4 * n \<le> mem_max_addr (memsys s)" "0 < mem_start_brk (memsys s)"
    using heap_ok_span [OF assms(1)] pos_span [OF pos(2)] assms(1,2)
    by (auto simp: heap_ok_def mem_ok_def)
  moreover from this have "p + 8 \<notin> nodes (flist s i) []" if "i < FREE_LISTS_SIZE" for i
    using that assms(4) \<open>8 \<le> n\<close> by (auto simp: nodes_def flist_def array_apart_def FREE_LISTS_SIZE_def)
  ultimately have "\<exists>el. insert_asserted s p = Some (s\<lparr>elems := el\<rparr>) \<and>
    lists_ok (s\<lparr>elems := el\<rparr>) (insert (p, n) (free_set (heap_listp s) us \<union> free_set (p + 4 * n) vs))"
    by (intro insert_asserted_ok [OF assms(3)]) auto
  then show ?thesis using assms(2) by simp
qed

text \<open>Marking a run of blocks that are not listed as one free block and listing it.\<close>

lemma mark_free_listed:
  assumes "heap_ok 8 s (us @ ms @ vs)" "p = heap_listp s + span us" "span ms = 4 * n" "8 \<le> n" "4 dvd n"
    "lists_ok s (free_set (heap_listp s) us \<union> free_set (p + 4 * n) vs)" "array_apart s"
  shows "\<exists>t el. mark_block_free s p n = Some (set_block s p n False) \<and>
    heap_ok 8 (set_block s p n False) (us @ (n, False) # vs) \<and>
    insert_asserted (set_block s p n False) p = Some (s\<lparr>tags := t, elems := el\<rparr>) \<and>
    heap_ok 8 (s\<lparr>tags := t, elems := el\<rparr>) (us @ (n, False) # vs) \<and>
    lists_ok (s\<lparr>tags := t, elems := el\<rparr>) (free_set (heap_listp s) (us @ (n, False) # vs))"
proof -
  have m: "mark_block_free s p n = Some (set_block s p n False)"
    using block_tag_addr [OF assms(1,2), of n] assms(3,4) by (intro mark_block_eq) auto
  have h: "heap_ok 8 (set_block s p n False) (us @ (n, False) # vs)"
    using assms(2-5) by (intro heap_ok_retag [OF assms(1)]) auto
  obtain el where "insert_asserted (set_block s p n False) p = Some ((set_block s p n False)\<lparr>elems := el\<rparr>)"
    "lists_ok ((set_block s p n False)\<lparr>elems := el\<rparr>) (free_set (heap_listp s) (us @ (n, False) # vs))"
    using insert_listed [OF h] assms(2,6,7) by auto
  then show ?thesis
    using m h by (auto simp: set_block_def)
qed

subsection \<open>Coalescing\<close>

text \<open>Taking one listed block off its list.\<close>

lemma unlist_pos:
  assumes pos: "pos_blocks us" "pos_blocks vs" and k: "8 \<le> k" and q: "q = b + span us"
    and S: "lists_ok s (insert (q, k) (Y \<union> X))"
    and Y: "Y \<subseteq> free_set b us" and X: "X \<subseteq> free_set (q + 4 * k) vs"
  shows "\<exists>el. remove_free_block s q = Some (s\<lparr>elems := el\<rparr>) \<and> lists_ok (s\<lparr>elems := el\<rparr>) (Y \<union> X)"
proof -
  have "(q, j) \<notin> Y \<union> X" for j
    using free_set_bounds [OF _ pos(1)] free_set_bounds [OF _ pos(2)] k X Y q by fastforce
  then show ?thesis using remove_free_block_ok [OF S, of q k] k by auto
qed

lemma unlist:
  assumes "heap_ok 8 s (us @ (k, False) # vs)" "q = heap_listp s + span us"
    "lists_ok s (insert (q, k) (Y \<union> X))"
    "Y \<subseteq> free_set (heap_listp s) us" "X \<subseteq> free_set (q + 4 * k) vs"
  shows "\<exists>el. remove_free_block s q = Some (s\<lparr>elems := el\<rparr>) \<and> lists_ok (s\<lparr>elems := el\<rparr>) (Y \<union> X)"
  using heap_ok_pos [OF assms(1)] heap_ok_sizes [OF assms(1), of k False] assms(2-)
  by (intro unlist_pos [of us vs]) auto

lemma coalesce_ok:
  assumes h: "heap_ok 8 s (us @ (n, False) # vs)" and p: "p = heap_listp s + span us"
    and S: "lists_ok s (free_set (heap_listp s) us \<union> free_set (p + 4 * n) vs)"
    and a: "array_apart s"
  shows "\<exists>t el. coalesce s p =
      Some (heap_listp s + span (left_rest us), s\<lparr>tags := t, elems := el\<rparr>) \<and>
    heap_ok 8 (s\<lparr>tags := t, elems := el\<rparr>) (merged us n vs) \<and>
    lists_ok (s\<lparr>tags := t, elems := el\<rparr>) (free_set (heap_listp s) (merged us n vs))"
proof -
  have pos: "pos_blocks us" "pos_blocks vs" "0 < n" using heap_ok_pos [OF h] by auto
  have n: "8 \<le> n" "4 dvd n" using heap_ok_sizes [OF h, of n False] by auto
  note at = at_block [OF h p, simplified]
  have sp: "span us + 4 * n + span vs + 16 \<le> MAX_HEAP" "0 \<le> span us" "0 \<le> span vs"
    using heap_ok_span [OF h] pos_span pos by auto
  show ?thesis
  proof (cases us rule: free_lastE)
    case (free us' k)
    note L = this
    have k: "8 \<le> k" "4 dvd k" using heap_ok_sizes [OF h, of k False] L by auto
    define q where "q = p - 4 * k"
    have q: "prev_blk s p = Some q" "q = heap_listp s + span us'"
      using at(5) L p by (auto simp: q_def)
    have hq: "heap_ok 8 s (us' @ (k, False) # (n, False) # vs)" using h L by simp
    have bq: "blk_size s q = Some k" by (rule at_block(1) [OF hq q(2)]) simp
    have us': "pos_blocks us'" "0 \<le> span us'" using pos pos_span L by auto
    show ?thesis
    proof (cases vs rule: free_firstE)
      case (free vs' j)
      note R = this
      have j: "8 \<le> j" "4 dvd j" using heap_ok_sizes [OF h, of j False] R by auto
      have hn: "heap_ok 8 s ((us @ [(n, False)]) @ (j, False) # vs')" using h R by simp
      obtain e1 where e1: "remove_free_block s (p + 4 * n) = Some (s\<lparr>elems := e1\<rparr>)"
        "lists_ok (s\<lparr>elems := e1\<rparr>) (free_set (heap_listp s) us \<union> free_set (p + 4 * n + 4 * j) vs')"
        using unlist [OF hn, of "p + 4 * n" "free_set (heap_listp s) us" "free_set (p + 4 * n + 4 * j) vs'"]
          S R p by auto
      obtain e2 where e2: "remove_free_block (s\<lparr>elems := e1\<rparr>) q = Some (s\<lparr>elems := e2\<rparr>)"
        "lists_ok (s\<lparr>elems := e2\<rparr>) (free_set (heap_listp s) us' \<union> free_set (p + 4 * n + 4 * j) vs')"
        using unlist [of "s\<lparr>elems := e1\<rparr>" us' k "(n, False) # vs" q "free_set (heap_listp s) us'"
            "free_set (p + 4 * n + 4 * j) vs'"] hq q(2) e1(2) L R
        by (auto simp: q_def algebra_simps)
      define w where "w = n + j + k"
      have "0 \<le> span vs'" using pos_span pos R by auto
      then have w: "u64 w = w" "8 \<le> w" "4 dvd w"
        using n j k sp us' L R by (auto simp: w_def u64_def MAX_HEAP_def)
      obtain t el where f: "mark_block_free (s\<lparr>elems := e2\<rparr>) q w = Some (set_block (s\<lparr>elems := e2\<rparr>) q w False)"
          "insert_asserted (set_block (s\<lparr>elems := e2\<rparr>) q w False) q = Some (s\<lparr>tags := t, elems := el\<rparr>)"
          "heap_ok 8 (s\<lparr>tags := t, elems := el\<rparr>) (us' @ (w, False) # vs')"
          "lists_ok (s\<lparr>tags := t, elems := el\<rparr>) (free_set (heap_listp s) (us' @ (w, False) # vs'))"
        using mark_free_listed [of "s\<lparr>elems := e2\<rparr>" us' "[(k, False), (n, False), (j, False)]" vs' q w]
          h L R q(2) w e2 a
        by (auto simp: w_def q_def algebra_simps)
      have "prev_blk (set_block (s\<lparr>elems := e2\<rparr>) q w False) p = Some q"
        using q(1) k j n by (subst prev_blk_set_block) (auto simp: q_def w_def)
      then have "coalesce s p = Some (q, s\<lparr>tags := t, elems := el\<rparr>)"
        using at(1-4,6-) L(4) R e1(1) e2(1) f(1,2) w(1) q(1) bq
        by (simp add: coalesce_def Let_def w_def)
      moreover have "merged us n vs = us' @ (w, False) # vs'"
        using L R by (simp add: merged_def w_def)
      ultimately show ?thesis using f(3,4) q(2) L(2) by auto
    next
      case used
      note R = this
      obtain e2 where e2: "remove_free_block s q = Some (s\<lparr>elems := e2\<rparr>)"
        "lists_ok (s\<lparr>elems := e2\<rparr>) (free_set (heap_listp s) us' \<union> free_set (p + 4 * n) vs)"
        using unlist [of s us' k "(n, False) # vs" q "free_set (heap_listp s) us'" "free_set (p + 4 * n) vs"]
          hq q(2) S L by (auto simp: q_def algebra_simps)
      define w where "w = n + k"
      have w: "u64 w = w" "8 \<le> w" "4 dvd w"
        using n k sp us' L by (auto simp: w_def u64_def MAX_HEAP_def)
      obtain t el where f: "mark_block_free (s\<lparr>elems := e2\<rparr>) q w = Some (set_block (s\<lparr>elems := e2\<rparr>) q w False)"
          "insert_asserted (set_block (s\<lparr>elems := e2\<rparr>) q w False) q = Some (s\<lparr>tags := t, elems := el\<rparr>)"
          "heap_ok 8 (s\<lparr>tags := t, elems := el\<rparr>) (us' @ (w, False) # vs)"
          "lists_ok (s\<lparr>tags := t, elems := el\<rparr>) (free_set (heap_listp s) (us' @ (w, False) # vs))"
        using mark_free_listed [of "s\<lparr>elems := e2\<rparr>" us' "[(k, False), (n, False)]" vs q w]
          h L q(2) w e2 a
        by (auto simp: w_def q_def algebra_simps)
      have "coalesce s p = Some (q, s\<lparr>tags := t, elems := el\<rparr>)"
        using at(1-4,6-) L(4) R e2(1) f(1,2) w(1) q(1) bq
        by (simp add: coalesce_def Let_def w_def)
      moreover have "merged us n vs = us' @ (w, False) # vs"
        using L R by (simp add: merged_def w_def)
      ultimately show ?thesis using f(3,4) q(2) L(2) by auto
    qed
  next
    case used
    note L = this
    show ?thesis
    proof (cases vs rule: free_firstE)
      case (free vs' j)
      note R = this
      have j: "8 \<le> j" "4 dvd j" using heap_ok_sizes [OF h, of j False] R by auto
      have hn: "heap_ok 8 s ((us @ [(n, False)]) @ (j, False) # vs')" using h R by simp
      obtain e1 where e1: "remove_free_block s (p + 4 * n) = Some (s\<lparr>elems := e1\<rparr>)"
        "lists_ok (s\<lparr>elems := e1\<rparr>) (free_set (heap_listp s) us \<union> free_set (p + 4 * n + 4 * j) vs')"
        using unlist [OF hn, of "p + 4 * n" "free_set (heap_listp s) us" "free_set (p + 4 * n + 4 * j) vs'"]
          S R p by auto
      define w where "w = n + j"
      have "0 \<le> span vs'" using pos_span pos R by auto
      then have w: "u64 w = w" "8 \<le> w" "4 dvd w"
        using n j sp R by (auto simp: w_def u64_def MAX_HEAP_def)
      obtain t el where f: "mark_block_free (s\<lparr>elems := e1\<rparr>) p w = Some (set_block (s\<lparr>elems := e1\<rparr>) p w False)"
          "insert_asserted (set_block (s\<lparr>elems := e1\<rparr>) p w False) p = Some (s\<lparr>tags := t, elems := el\<rparr>)"
          "heap_ok 8 (s\<lparr>tags := t, elems := el\<rparr>) (us @ (w, False) # vs')"
          "lists_ok (s\<lparr>tags := t, elems := el\<rparr>) (free_set (heap_listp s) (us @ (w, False) # vs'))"
        using mark_free_listed [of "s\<lparr>elems := e1\<rparr>" us "[(n, False), (j, False)]" vs' p w]
          h R p w e1 a
        by (auto simp: w_def algebra_simps)
      have "coalesce s p = Some (p, s\<lparr>tags := t, elems := el\<rparr>)"
        using at(1-4,6-) L(3) R e1(1) f(1,2) w(1)
        by (simp add: coalesce_def Let_def w_def)
      moreover have "merged us n vs = us @ (w, False) # vs'"
        using L R by (simp add: merged_def w_def)
      ultimately show ?thesis using f(3,4) p L(1) by auto
    next
      case used
      note R = this
      obtain el where el: "insert_asserted s p = Some (s\<lparr>elems := el\<rparr>)"
        "lists_ok (s\<lparr>elems := el\<rparr>) (free_set (heap_listp s) (us @ (n, False) # vs))"
        using insert_listed [OF h p S a] by blast
      have "coalesce s p = Some (p, s\<lparr>tags := tags s, elems := el\<rparr>)"
        using at(1-4,6-) L(3) R(3) el(1) by (simp add: coalesce_def Let_def)
      moreover have "merged us n vs = us @ (n, False) # vs"
        using L R by (simp add: merged_def)
      ultimately show ?thesis using el(2) h p L(1) by (intro exI [of _ "tags s"] exI [of _ el]) simp
    qed
  qed
qed

subsection \<open>Placing a block\<close>

lemma place_ok:
  assumes h: "heap_ok 8 s (us @ (n, False) # vs)" and p: "p = heap_listp s + span us"
    and S: "lists_ok s (free_set (heap_listp s) (us @ (n, False) # vs))"
    and a: "array_apart s" and asz: "8 \<le> asize" "asize \<le> n" "4 dvd asize"
  shows "\<exists>t el. place s p asize = Some (s\<lparr>tags := t, elems := el\<rparr>) \<and>
    heap_ok 8 (s\<lparr>tags := t, elems := el\<rparr>) (us @ placed_blocks 8 n asize @ vs) \<and>
    lists_ok (s\<lparr>tags := t, elems := el\<rparr>) (free_set (heap_listp s) (us @ placed_blocks 8 n asize @ vs))"
proof -
  have pos: "pos_blocks us" "pos_blocks vs" using heap_ok_pos [OF h] by auto
  have n: "8 \<le> n" "4 dvd n" "4 * n + 16 \<le> MAX_HEAP" using heap_ok_sizes [OF h, of n False] by auto
  have bs: "blk_size s p = Some n" by (rule at_block(1) [OF h p]) simp
  have S': "lists_ok s (insert (p, n) (free_set (heap_listp s) us \<union> free_set (p + 4 * n) vs))"
    using S p by simp
  have h': "heap_ok 8 s (us @ [(n, False)] @ vs)" using h by simp
  have ta: "tag_addr s p" "tag_addr s (p + 4 * k - 4)" "k < 2 ^ 30" if "0 < k" "k \<le> n" for k
    using block_tag_addr [OF h' p, of k] that by auto
  have u: "u64 (n - asize) = n - asize" using asz n by (simp add: u64_def MAX_HEAP_def)
  have un: "\<exists>el. remove_free_block (set_block s p k w) p = Some ((set_block s p k w)\<lparr>elems := el\<rparr>) \<and>
      lists_ok (s\<lparr>elems := el\<rparr>) (free_set (heap_listp s) us \<union> free_set (p + 4 * n) vs)" for k w
    using unlist_pos [OF pos n(1) p, of "set_block s p k w"] S' by (simp add: set_block_elems)
  show ?thesis
  proof (cases "8 \<le> n - asize")
    case True
    define r where "r = n - asize"
    have r: "8 \<le> r" "n = asize + r" using True by (auto simp: r_def)
    let ?s1 = "set_block s p asize True"
    obtain el where el: "remove_free_block ?s1 p = Some (?s1\<lparr>elems := el\<rparr>)"
      "lists_ok (s\<lparr>elems := el\<rparr>) (free_set (heap_listp s) us \<union> free_set (p + 4 * n) vs)"
      using un by blast
    let ?s2 = "set_block (?s1\<lparr>elems := el\<rparr>) (p + 4 * asize) r False"
    have m1: "mark_block_used s p asize = Some ?s1"
      using ta [of asize] asz by (intro mark_block_eq) auto
    have "load_tag ?s1 p = Some (btag asize True)"
      using ta [of asize] asz by (simp add: load_tag_def put_tags_def)
    then have nx: "next_blk ?s1 p = Some (p + 4 * asize)"
      using asz n by (simp add: next_blk_def blk_size_def WSIZE_def u64_def MAX_HEAP_def)
    have m2: "mark_block_free (?s1\<lparr>elems := el\<rparr>) (p + 4 * asize) r = Some ?s2"
      using ta [of "asize + 1"] ta [of n] ta [of r] asz r by (intro mark_block_eq) (auto simp: algebra_simps)
    have h2: "heap_ok 8 ?s2 (us @ (asize, True) # (r, False) # vs)"
      using heap_ok_split [of 8 "s\<lparr>elems := el\<rparr>" us asize r False vs p True False] h p asz r
      by (simp add: set_block_elems)
    then have h3: "heap_ok 8 ?s2 ((us @ [(asize, True)]) @ (r, False) # vs)" by simp
    obtain e2 where e2: "insert_asserted ?s2 (p + 4 * asize) = Some (?s2\<lparr>elems := e2\<rparr>)"
      "lists_ok (?s2\<lparr>elems := e2\<rparr>) (free_set (heap_listp s) ((us @ [(asize, True)]) @ (r, False) # vs))"
      using insert_listed [OF h3, of "p + 4 * asize"] p el(2) a r(2)
      by (auto simp: algebra_simps set_block_elems)
    have "place s p asize = Some (?s2\<lparr>elems := e2\<rparr>)"
      using bs u r m1 el(1) nx m2 e2(1)
      by (simp add: place_def MIN_BLOCK_SIZE_WORDS_def)
    then show ?thesis using e2(2) h2 r
      by (auto simp: placed_blocks_def set_block_def)
  next
    case False
    let ?s1 = "set_block s p n True"
    obtain el where el: "remove_free_block ?s1 p = Some (?s1\<lparr>elems := el\<rparr>)"
      "lists_ok (s\<lparr>elems := el\<rparr>) (free_set (heap_listp s) us \<union> free_set (p + 4 * n) vs)"
      using un by blast
    have m1: "mark_block_used s p n = Some ?s1"
      using ta [of n] n by (intro mark_block_eq) auto
    have h2: "heap_ok 8 ?s1 (us @ (n, True) # vs)"
      using n p by (intro heap_ok_retag [OF h']) auto
    have "place s p asize = Some (?s1\<lparr>elems := el\<rparr>)"
      using bs u False m1 el(1) by (simp add: place_def MIN_BLOCK_SIZE_WORDS_def)
    then show ?thesis using el(2) h2 False p
      by (auto simp: placed_blocks_def set_block_def)
  qed
qed

subsection \<open>Growing the heap\<close>

lemma extend_heap_fails:
  assumes "heap_ok m s bs" "0 \<le> w" "4 * w < 2 ^ 31" "mem_heapsize (memsys s) + 4 * w > MAX_HEAP"
  shows "extend_heap s w = Some (NULL, s)"
proof -
  have "s32 (u64 (w * WSIZE)) = 4 * w" using assms(2,3) by (simp add: WSIZE_def u64_def s32_def)
  then show ?thesis using sbrk_fails [OF assms(1,4)] by (simp add: extend_heap_def)
qed

lemma extend_heap_grow:
  assumes "heap_ok m s bs" "2 \<le> m" "m \<le> w" "4 dvd w" "mem_heapsize (memsys s) + 4 * w \<le> MAX_HEAP"
  shows "\<exists>t. extend_heap s w = coalesce (grown s w\<lparr>tags := t\<rparr>) (heap_listp s + span bs) \<and>
    heap_ok m (grown s w\<lparr>tags := t\<rparr>) (bs @ [(w, False)])"
proof -
  note g = grow_ok [OF assms]
  have "0 \<le> mem_heapsize (memsys s)" by (simp add: mem_heapsize_def u64_range)
  then have "s32 (u64 (w * WSIZE)) = 4 * w"
    using assms(2,3,5) by (simp add: WSIZE_def u64_def s32_def MAX_HEAP_def)
  then show ?thesis
    using g by (auto simp: extend_heap_def grown_def WSIZE_def)
qed

lemma grown_mm [simp]:
  "lists_ok (grown s w) = lists_ok s" "array_apart (grown s w) = array_apart s"
  "elems (grown s w) = elems s" "free_lists (grown s w) = free_lists s" "mids (grown s w) = mids s"
  by (simp_all add: grown_def array_apart_def)

lemma extend_heap_ok:
  assumes h: "heap_ok 8 s bs" and S: "lists_ok s (free_set (heap_listp s) bs)" and a: "array_apart s"
    and w: "8 \<le> w" "4 dvd w" "mem_heapsize (memsys s) + 4 * w \<le> MAX_HEAP"
  shows "\<exists>t el. let s' = grown s w\<lparr>tags := t, elems := el\<rparr>
      in extend_heap s w = Some (heap_listp s + span (left_rest bs), s') \<and>
        heap_ok 8 s' (merged bs w []) \<and> lists_ok s' (free_set (heap_listp s) (merged bs w [])) \<and>
        array_apart s'"
proof -
  obtain t where t: "extend_heap s w = coalesce (grown s w\<lparr>tags := t\<rparr>) (heap_listp s + span bs)"
    "heap_ok 8 (grown s w\<lparr>tags := t\<rparr>) (bs @ (w, False) # [])"
    using extend_heap_grow [OF h _ w] by auto
  obtain t' el where "coalesce (grown s w\<lparr>tags := t\<rparr>) (heap_listp s + span bs) =
      Some (heap_listp s + span (left_rest bs), grown s w\<lparr>tags := t', elems := el\<rparr>)"
    "heap_ok 8 (grown s w\<lparr>tags := t', elems := el\<rparr>) (merged bs w [])"
    "lists_ok (grown s w\<lparr>tags := t', elems := el\<rparr>) (free_set (heap_listp s) (merged bs w []))"
    using coalesce_ok [OF t(2), of "heap_listp s + span bs"] S a by auto
  then show ?thesis
    using t(1) a unfolding Let_def by (intro exI [of _ t'] exI [of _ el]) simp
qed

end
