(* ===== verification/MM_Spec.thy ===== *)
theory MM_Spec
  imports MM_Inv
begin

text \<open>
  What the interface of \<open>malloclab/mm.c\<close> does: initialisation, allocation, release and
  reallocation keep \<open>mm_ok\<close> and change the set of used blocks as they should.  A used block
  \<open>(p, n)\<close> has its header at \<open>p\<close>, its payload of \<open>4 * n - 8\<close> bytes at \<open>p + 4\<close>.
\<close>

subsection \<open>Initialisation\<close>

lemma init_lists_ok:
  assumes "i \<le> FREE_LISTS_SIZE" "length (mids s) = FREE_LISTS_SIZE" "0 < free_lists s"
    "take i (mids s) = take i (map (\<lambda>r. r div 2) ranges)"
    "dlls.family (elems s) (flist s ` {..<i}) (\<lambda>_. [])"
  shows "\<exists>el. init_lists s i = Some (s\<lparr>elems := el, mids := map (\<lambda>r. r div 2) ranges\<rparr>) \<and>
    dlls.family el (heads s) (\<lambda>_. [])"
  using assms
proof (induction s i rule: init_lists.induct)
  case (1 s i)
  show ?case
  proof (cases "i < FREE_LISTS_SIZE")
    case False
    then have "i = FREE_LISTS_SIZE" using 1(2) by simp
    moreover from this have "mids s = map (\<lambda>r. r div 2) ranges"
      using 1(3,5) by (simp add: ranges_def FREE_LISTS_SIZE_def)
    ultimately show ?thesis
      using 1(6) by (subst init_lists.simps) (simp add: heads_def exI [of _ "elems s"])
  next
    case True
    obtain el where el: "list_init (elems s) (flist s i) = Some el" "dll el (flist s i) []"
        "frame (nodes (flist s i) []) (elems s) el"
      using list_init_dll [of "flist s i" "elems s"] 1(4) by (auto simp: flist_def)
    have r: "s32 (ranges ! i div 2) = ranges ! i div 2"
    proof -
      have "\<forall>x\<in>set ranges. 0 \<le> x \<and> x < 2 ^ 31" by (simp add: ranges_def)
      moreover have "length ranges = FREE_LISTS_SIZE" by (simp add: ranges_def FREE_LISTS_SIZE_def)
      then have "ranges ! i \<in> set ranges" using True by (intro nth_mem) simp
      ultimately have "0 \<le> ranges ! i" "ranges ! i < 2 ^ 31" by blast+
      then show ?thesis by (intro s32_id) simp_all
    qed
    let ?s = "s\<lparr>elems := el, mids := (mids s)[i := s32 (ranges ! i div 2)]\<rparr>"
    have "dll el (flist s j) []" if "j < i" for j
    proof (rule dll_frame [OF _ el(3)])
      show "dll (elems s) (flist s j) []"
        by (rule dlls.family_rep [OF 1(6)]) (use that in simp)
      show "nodes (flist s j) [] \<inter> nodes (flist s i) [] = {}"
        using that by (auto simp: nodes_def flist_def)
    qed
    then have fam: "dlls.family el (flist s ` {..<Suc i}) (\<lambda>_. [])"
      using el(2) by (auto simp: dlls.family_def nodes_def flist_def less_Suc_eq)
    have fl: "flist ?s = flist s" by (simp add: flist_def fun_eq_iff)
    have tk: "take (Suc i) (mids ?s) = take (Suc i) (map (\<lambda>r. r div 2) ranges)"
    proof -
      have "length ranges = FREE_LISTS_SIZE" by (simp add: ranges_def FREE_LISTS_SIZE_def)
      then show ?thesis using 1(3,5) True r by (simp add: take_Suc_conv_app_nth)
    qed
    obtain el' where "init_lists ?s (Suc i) = Some (?s\<lparr>elems := el', mids := map (\<lambda>r. r div 2) ranges\<rparr>)"
        "dlls.family el' (heads ?s) (\<lambda>_. [])"
    proof -
      have "Suc i \<le> FREE_LISTS_SIZE" "length (mids ?s) = FREE_LISTS_SIZE" "0 < free_lists ?s"
        using True 1(3,4) by simp_all
      from 1(1) [OF True el(1) this tk] that fam fl show thesis by auto
    qed
    moreover have "heads ?s = heads s" by (simp add: heads_def fl)
    ultimately show ?thesis
      using True el(1) by (subst init_lists.simps) auto
  qed
qed

lemma heap_ok_lists: "heap_ok m (s\<lparr>elems := e, mids := l\<rparr>) = heap_ok m s"
  by (simp add: heap_ok_def fun_eq_iff)

lemma mm_init_ok:
  assumes "mem_ok (memsys s)" "mem_heapsize (memsys s) = 0" "mem_start_brk (memsys s) mod 16 = 0"
    "length (mids s) = FREE_LISTS_SIZE" "array_apart s"
  shows "\<exists>s'. mm_init s = Some (0, s') \<and> mm_ok s' [] \<and> mem_heapsize (memsys s') = 16 \<and>
    heap_listp s' = mem_heap_lo (memsys s) + 12"
proof -
  define b where "b = mem_start_brk (memsys s)"
  define ms where "ms = memsys s\<lparr>mem_brk := b + 16\<rparr>"
  define s1 where
    "s1 = s\<lparr>memsys := ms, tags := (tags s)(b + 8 \<mapsto> FENCE, b + 12 \<mapsto> FENCE), heap_listp := b + 12\<rparr>"
  note f = fresh_heap [OF assms(1-3) b_def ms_def refl s1_def]
  have "dlls.family (elems s1) (flist s1 ` {..<0}) (\<lambda>_. [])" by (simp add: dlls.family_def)
  then obtain el where el: "init_lists s1 0 = Some (s1\<lparr>elems := el, mids := map (\<lambda>r. r div 2) ranges\<rparr>)"
      "dlls.family el (heads s1) (\<lambda>_. [])"
    using init_lists_ok [of 0 s1] assms(4,5) by (auto simp: s1_def array_apart_def)
  define s2 where "s2 = s1\<lparr>elems := el, mids := map (\<lambda>r. r div 2) ranges\<rparr>"
  have "mm_init s = Some (0, s2)"
    using f(1-4) el(1) by (simp add: mm_init_def WSIZE_def Let_def s2_def)
  moreover have "heap_ok 8 s2 []"
    using f(5) [of 8] by (simp only: s2_def heap_ok_lists)
  moreover have "lists_ok s2 {}"
  proof -
    have "heads s2 = heads s1" by (simp add: s2_def heads_def flist_def)
    then have "lists_rep s2 {} (\<lambda>_. [])"
      using el(2) by (simp add: lists_rep_def class_elems_def s2_def)
    then show ?thesis by (auto simp: lists_ok_def)
  qed
  moreover have "array_apart s2"
    using assms(5) by (auto simp: array_apart_def s2_def s1_def ms_def)
  moreover have "coalesced []" by (simp add: coalesced_def)
  moreover have "mem_heapsize (memsys s2) = 16" "heap_listp s2 = b + 12"
    using f(6) by (simp_all add: s2_def s1_def)
  ultimately show ?thesis by (auto simp: mm_ok_def mem_heap_lo_def b_def)
qed

text \<open>
  On a fresh area \<open>mm_init\<close> returns 0 and sets up an empty heap: two fences around no
  block, ten empty free lists.
\<close>

theorem mm_init_correct:
  assumes "mem_ok (memsys s)" "mem_heapsize (memsys s) = 0" "mem_start_brk (memsys s) mod 16 = 0"
    "length (mids s) = FREE_LISTS_SIZE" "array_apart s"
  shows "\<exists>s'. mm_init s = Some (0, s') \<and> mm_ok s' [] \<and> mem_heapsize (memsys s') = 16 \<and>
    heap_listp s' = mem_heap_lo (memsys s) + 12"
  using assms by (rule mm_init_ok)

text \<open>A fresh area at 4096, with the array of lists below it.\<close>

definition sample_area :: mm where
  "sample_area =
     \<lparr>memsys = \<lparr>mem_start_brk = 4096, mem_brk = 4096, mem_max_addr = 4096 + MAX_HEAP, use_mmap = False\<rparr>,
      tags = (\<lambda>_. None), bytes = (\<lambda>_. 0), heap_listp = NULL,
      elems = \<lparr>prv = (\<lambda>_. None), nxt = (\<lambda>_. None)\<rparr>, mids = replicate 10 0, free_lists = 1024\<rparr>"

lemma sample_area_fresh:
  "mem_ok (memsys sample_area)" "mem_heapsize (memsys sample_area) = 0"
  "mem_start_brk (memsys sample_area) mod 16 = 0"
  "length (mids sample_area) = FREE_LISTS_SIZE" "array_apart sample_area"
  by (simp_all add: sample_area_def mem_ok_def MAX_HEAP_def mem_heapsize_def u64_def
      FREE_LISTS_SIZE_def array_apart_def)

theorem mm_init_correct_witness:
  "\<exists>s'. mm_init sample_area = Some (0, s') \<and> mm_ok s' [] \<and> heap_listp s' = 4108"
  using mm_init_correct [OF sample_area_fresh] by (auto simp: mem_heap_lo_def sample_area_def)

text \<open>The heap after \<open>mm_init\<close> on that area, and after the allocation of one block.\<close>

definition sample_heap :: mm where
  "sample_heap = snd (the (mm_init sample_area))"

definition sample_block :: "int \<Rightarrow> mm" where
  "sample_block sz = snd (the (mm_malloc sample_heap sz))"

lemma sample_heap_ok: "mm_ok sample_heap []" "mem_heapsize (memsys sample_heap) = 16"
  "mm_init sample_area = Some (0, sample_heap)" "heap_listp sample_heap = 4108"
  using mm_init_ok [OF sample_area_fresh]
  by (auto simp: sample_heap_def mem_heap_lo_def sample_area_def)

subsection \<open>Allocation\<close>

definition words_for :: "int \<Rightarrow> int" where
  "words_for sz = words_min 8 sz"

lemma words_for:
  assumes "0 < sz" "sz \<le> 2 ^ 31 - 24"
  shows "align (u64 (sz + 2 * WSIZE)) = 16 * ((sz + 23) div 16)"
    "max_size MIN_BLOCK_SIZE_WORDS (16 * ((sz + 23) div 16) div WSIZE) = words_for sz"
    "\<not> 16 * ((sz + 23) div 16) < sz" "8 \<le> words_for sz" "4 dvd words_for sz"
    "4 * words_for sz < 2 ^ 31" "sz \<le> 4 * words_for sz - 8"
  using words_min [OF assms, of 8] by (simp_all add: words_for_def MIN_BLOCK_SIZE_WORDS_def)

lemma place_mm_ok:
  assumes ok: "mm_ok s bs" and p: "(p, n) \<in> free_set (heap_listp s) bs"
    and w: "8 \<le> w" "w \<le> n" "4 dvd w"
  shows "\<exists>t el bs' k. place s p w = Some (s\<lparr>tags := t, elems := el\<rparr>) \<and> mm_ok (s\<lparr>tags := t, elems := el\<rparr>) bs' \<and>
    w \<le> k \<and> used_set (heap_listp s) bs' = insert (p, k) (used_set (heap_listp s) bs) \<and>
    (\<forall>(q, j)\<in>used_set (heap_listp s) bs. q + 4 * j \<le> p \<or> p + 4 * k \<le> q)"
proof -
  have h: "heap_ok 8 s bs" and S: "lists_ok s (free_set (heap_listp s) bs)" and a: "array_apart s"
    and c: "coalesced bs" using ok by (auto simp: mm_ok_def)
  obtain us vs where bs: "bs = us @ (n, False) # vs" "p = heap_listp s + span us"
    using p by (auto simp: free_set_placed placed_in)
  obtain t el where te: "place s p w = Some (s\<lparr>tags := t, elems := el\<rparr>)"
    "heap_ok 8 (s\<lparr>tags := t, elems := el\<rparr>) (us @ placed_blocks 8 n w @ vs)"
    "lists_ok (s\<lparr>tags := t, elems := el\<rparr>) (free_set (heap_listp s) (us @ placed_blocks 8 n w @ vs))"
    using place_ok [of s us n vs p w] h S a w bs by auto
  have "mm_ok (s\<lparr>tags := t, elems := el\<rparr>) (us @ placed_blocks 8 n w @ vs)"
    using te(2,3) a c coalesced_placed [of us n vs] bs(1) by (simp add: mm_ok_def)
  then show ?thesis
    using te(1) placed_used [OF heap_ok_pos [OF h] bs(1,2) w(2)] by fastforce
qed

lemma extend_heap_mm_ok:
  assumes ok: "mm_ok s bs" and w: "8 \<le> w" "4 dvd w" "mem_heapsize (memsys s) + 4 * w \<le> MAX_HEAP"
  shows "\<exists>t el p n. let s' = grown s w\<lparr>tags := t, elems := el\<rparr>
      in extend_heap s w = Some (p, s') \<and> mm_ok s' (merged bs w []) \<and> p \<noteq> NULL \<and>
        (p, n) \<in> free_set (heap_listp s) (merged bs w []) \<and> w \<le> n \<and>
        used_set (heap_listp s) (merged bs w []) = used_set (heap_listp s) bs"
proof -
  have h: "heap_ok 8 s bs" and S: "lists_ok s (free_set (heap_listp s) bs)" and a: "array_apart s"
    and c: "coalesced bs" using ok by (auto simp: mm_ok_def)
  define p where "p = heap_listp s + span (left_rest bs)"
  obtain t el where te: "extend_heap s w = Some (p, grown s w\<lparr>tags := t, elems := el\<rparr>)"
    "heap_ok 8 (grown s w\<lparr>tags := t, elems := el\<rparr>) (merged bs w [])"
    "lists_ok (grown s w\<lparr>tags := t, elems := el\<rparr>) (free_set (heap_listp s) (merged bs w []))"
    "array_apart (grown s w\<lparr>tags := t, elems := el\<rparr>)"
    using extend_heap_ok [OF h S a w] by (auto simp: Let_def p_def)
  have "coalesced (merged bs w [])" by (rule coalesced_merged [OF c]) (simp add: coalesced_def)
  then have ok': "mm_ok (grown s w\<lparr>tags := t, elems := el\<rparr>) (merged bs w [])"
    using te by (simp add: mm_ok_def)
  have pos: "pos_blocks bs" "12 < heap_listp s"
    using heap_ok_pos [OF h] heap_ok_span [of 8 s bs "[]", simplified] h by auto
  have m: "(p, left_words bs + w) \<in> free_set (heap_listp s) (merged bs w [])" "0 \<le> left_words bs" "p \<noteq> NULL"
    using pos pos_span [of "left_rest bs"]
    by (cases bs rule: free_lastE; auto simp: p_def merged_def right_words_def free_first_def)+
  moreover have "used_set (heap_listp s) (merged bs w []) = used_set (heap_listp s) bs"
    by (simp add: merged_used)
  ultimately show ?thesis
    using te(1) ok' unfolding Let_def
    by (intro exI [of _ t] exI [of _ el] exI [of _ p] exI [of _ "left_words bs + w"]) auto
qed

lemma free_set_nonnull: "heap_ok 8 s bs \<Longrightarrow> (p, n) \<in> free_set (heap_listp s) bs \<Longrightarrow> p \<noteq> NULL"
  using free_set_bounds [OF _ heap_ok_pos, of p n "heap_listp s" bs 8 s]
    heap_ok_span [of 8 s bs "[]"] by auto

text \<open>
  \<open>mm_malloc\<close> on a well-formed heap: the search, the splitting and the growing of the heap never
  fail an assertion, and the outcome is a fresh used block or a null pointer for lack of memory.
\<close>

lemma mm_malloc_ok:
  assumes ok: "mm_ok s bs" and sz: "0 < sz" "sz \<le> 2 ^ 31 - 24"
  shows "(mm_malloc s sz = Some (NULL, s) \<and>
      MAX_HEAP < mem_heapsize (memsys s) + 4 * max (words_for sz) 32) \<or>
    (\<exists>p n s' bs'. mm_malloc s sz = Some (p + 4, s') \<and> mm_ok s' bs' \<and>
      words_for sz \<le> n \<and> p + 4 \<noteq> NULL \<and> heap_listp s' = heap_listp s \<and> bytes s' = bytes s \<and>
      mem_start_brk (memsys s') = mem_start_brk (memsys s) \<and>
      used_set (heap_listp s) bs' = insert (p, n) (used_set (heap_listp s) bs) \<and>
      (\<forall>(q, k)\<in>used_set (heap_listp s) bs. q + 4 * k \<le> p \<or> p + 4 * n \<le> q))"
proof -
  note w = words_for [OF sz]
  have h: "heap_ok 8 s bs" and S: "lists_ok s (free_set (heap_listp s) bs)"
    using ok by (auto simp: mm_ok_def)
  obtain p where p: "find_fit s (words_for sz) = Some p"
    "p \<noteq> NULL \<Longrightarrow> \<exists>n. words_for sz \<le> n \<and> (p, n) \<in> free_set (heap_listp s) bs"
    using find_fit_ok [OF h S w(4)] by blast
  have start: "mm_malloc s sz = (if p \<noteq> NULL
      then do { s \<leftarrow> place s p (words_for sz); Some (p + 4, s) }
      else do {
        (bp, s) \<leftarrow> extend_heap s (max_size (words_for sz) CHUNKSIZE);
        if bp = NULL then Some (NULL, s)
        else do { s \<leftarrow> place s bp (words_for sz); Some (bp + 4, s) }
      })"
    using sz w(1-3) p(1) by (simp add: mm_malloc_def Let_def)
  have fresh: "p' + 4 \<noteq> NULL" if "mm_ok s' bs'" "(p', n) \<in> used_set (heap_listp s') bs'" for s' bs' p' n
    using used_set_aligned [of 8 s' bs' p' n] that
    by (auto simp: mm_ok_def heap_ok_def mem_ok_def mem_heap_lo_def)
  show ?thesis
  proof (cases "p = NULL")
    case False
    then obtain n where n: "words_for sz \<le> n" "(p, n) \<in> free_set (heap_listp s) bs" using p(2) by blast
    obtain t el bs' k where t: "place s p (words_for sz) = Some (s\<lparr>tags := t, elems := el\<rparr>)"
      "mm_ok (s\<lparr>tags := t, elems := el\<rparr>) bs'" "words_for sz \<le> k"
      "used_set (heap_listp s) bs' = insert (p, k) (used_set (heap_listp s) bs)"
      "\<forall>(q, j)\<in>used_set (heap_listp s) bs. q + 4 * j \<le> p \<or> p + 4 * k \<le> q"
      using place_mm_ok [OF ok n(2) w(4) n(1) w(5)] by blast
    have "p + 4 \<noteq> NULL" by (rule fresh [OF t(2), of p k]) (use t(4) in simp)
    then show ?thesis using False start t
      by (intro disjI2 exI [of _ p] exI [of _ k] exI [of _ "s\<lparr>tags := t, elems := el\<rparr>"] exI [of _ bs']) auto
  next
    case True
    have mx: "max_size (words_for sz) CHUNKSIZE = max (words_for sz) 32"
      by (simp add: max_size_def CHUNKSIZE_def)
    define e where "e = max (words_for sz) 32"
    have e: "8 \<le> e" "4 dvd e" "4 * e < 2 ^ 31" "words_for sz \<le> e"
      using w by (auto simp: e_def max_def)
    show ?thesis
    proof (cases "mem_heapsize (memsys s) + 4 * e > MAX_HEAP")
      case full: True
      then have "extend_heap s e = Some (NULL, s)"
        using extend_heap_fails [OF h _ e(3)] e(1) by simp
      then show ?thesis using True start mx full by (simp add: e_def)
    next
      case False
      then obtain t el q n where g: "extend_heap s e = Some (q, grown s e\<lparr>tags := t, elems := el\<rparr>)"
        "mm_ok (grown s e\<lparr>tags := t, elems := el\<rparr>) (merged bs e [])" "q \<noteq> NULL"
        "(q, n) \<in> free_set (heap_listp s) (merged bs e [])" "e \<le> n"
        "used_set (heap_listp s) (merged bs e []) = used_set (heap_listp s) bs"
        using extend_heap_mm_ok [OF ok e(1,2)] by (auto simp: Let_def)
      let ?g = "grown s e\<lparr>tags := t, elems := el\<rparr>"
      obtain t' el' bs' k where t: "place ?g q (words_for sz) = Some (?g\<lparr>tags := t', elems := el'\<rparr>)"
        "mm_ok (?g\<lparr>tags := t', elems := el'\<rparr>) bs'" "words_for sz \<le> k"
        "used_set (heap_listp s) bs' = insert (q, k) (used_set (heap_listp s) bs)"
        "\<forall>(r, j)\<in>used_set (heap_listp s) bs. r + 4 * j \<le> q \<or> q + 4 * k \<le> r"
        using place_mm_ok [OF g(2), of q n "words_for sz"] g(4,5,6) w(4,5) e(4) by auto
      have "q + 4 \<noteq> NULL" by (rule fresh [OF t(2), of q k]) (use t(4) in simp)
      moreover have "mm_malloc s sz = Some (q + 4, ?g\<lparr>tags := t', elems := el'\<rparr>)"
        using start True mx g(1,3) t(1) by (simp add: e_def)
      ultimately show ?thesis using t(2-5)
        by (intro disjI2 exI [of _ q] exI [of _ k] exI [of _ "?g\<lparr>tags := t', elems := el'\<rparr>"] exI [of _ bs']) auto
    qed
  qed
qed

text \<open>
  C1: Allocation.  On a well-formed heap and for a request below 2^31 - 24 bytes, \<open>mm_malloc\<close>
  returns: either a null pointer, with the state unchanged, and then the area has no room for the
  extension it tried; or the payload address of one new used block, 16-byte aligned, at least as
  large as the request, inside the heap and apart from every block in use, while all other used
  blocks and all bytes stay and the heap is well-formed again.
\<close>

theorem mm_malloc_correct:
  assumes "mm_ok s bs" "0 < sz" "sz \<le> 2 ^ 31 - 24"
  shows "\<exists>r s'. mm_malloc s sz = Some (r, s') \<and>
    (if r = NULL then s' = s \<and> MAX_HEAP < mem_heapsize (memsys s) + 4 * max (words_for sz) 32
     else \<exists>n bs'. mm_ok s' bs' \<and> sz \<le> 4 * n - 8 \<and> r mod 16 = 0 \<and>
       mem_heap_lo (memsys s') \<le> r \<and> r + (4 * n - 8) - 1 \<le> mem_heap_hi (memsys s') \<and>
       used_set (heap_listp s') bs' = insert (r - 4, n) (used_set (heap_listp s) bs) \<and>
       (\<forall>(q, k)\<in>used_set (heap_listp s) bs. q + 4 * k \<le> r - 4 \<or> r - 4 + 4 * n \<le> q) \<and>
       bytes s' = bytes s)"
  using mm_malloc_ok [OF assms]
proof (elim disjE exE conjE)
  fix p n s' bs'
  assume m: "mm_malloc s sz = Some (p + 4, s')" "mm_ok s' bs'" "words_for sz \<le> n" "p + 4 \<noteq> NULL"
    "heap_listp s' = heap_listp s" "bytes s' = bytes s"
    "used_set (heap_listp s) bs' = insert (p, n) (used_set (heap_listp s) bs)"
    "\<forall>(q, k)\<in>used_set (heap_listp s) bs. q + 4 * k \<le> p \<or> p + 4 * n \<le> q"
  have "heap_ok 8 s' bs'" using m(2) by (simp add: mm_ok_def)
  from used_set_aligned [OF this, of p n] m words_for(7) [OF assms(2,3)] show ?thesis
    by (intro exI [of _ "p + 4"] exI [of _ s']) (auto intro!: exI [of _ n] exI [of _ bs'])
qed auto

subsection \<open>Release\<close>

lemma mm_free_ok:
  assumes ok: "mm_ok s (us @ (n, True) # vs)" and p: "p = heap_listp s + span us"
  shows "\<exists>t el. mm_free s (p + 4) = Some (s\<lparr>tags := t, elems := el\<rparr>) \<and>
    mm_ok (s\<lparr>tags := t, elems := el\<rparr>) (merged us n vs)"
proof -
  have h: "heap_ok 8 s (us @ (n, True) # vs)" and a: "array_apart s" and c: "coalesced (us @ (n, True) # vs)"
    and S: "lists_ok s (free_set (heap_listp s) us \<union> free_set (p + 4 * n) vs)"
    using ok p by (auto simp: mm_ok_def)
  have h': "heap_ok 8 s (us @ [(n, True)] @ vs)" using h by simp
  have n: "8 \<le> n" "4 dvd n" using heap_ok_sizes [OF h, of n True] by auto
  have hp: "heap_listp s \<noteq> NULL" using heap_ok_span [OF h] by auto
  have p0: "p + 4 \<noteq> NULL" using heap_ok_span [OF h] p by auto
  have bs: "blk_size s p = Some n" by (rule at_block(1) [OF h p]) simp
  have m: "mark_block_free s p n = Some (set_block s p n False)"
    using block_tag_addr [OF h' p, of n] n by (intro mark_block_eq) auto
  have h2: "heap_ok 8 (set_block s p n False) (us @ (n, False) # vs)"
    using n p by (intro heap_ok_retag [OF h']) auto
  obtain t el where "coalesce (set_block s p n False) p =
      Some (heap_listp s + span (left_rest us), (set_block s p n False)\<lparr>tags := t, elems := el\<rparr>)"
    "heap_ok 8 ((set_block s p n False)\<lparr>tags := t, elems := el\<rparr>) (merged us n vs)"
    "lists_ok ((set_block s p n False)\<lparr>tags := t, elems := el\<rparr>) (free_set (heap_listp s) (merged us n vs))"
    using coalesce_ok [OF h2, of p] S a p by auto
  moreover have "coalesced (merged us n vs)"
    using c by (intro coalesced_merged) (auto simp: coalesced_def successively_append_iff successively_Cons)
  ultimately show ?thesis
    using hp p0 bs m a
    by (intro exI [of _ t] exI [of _ el]) (simp add: mm_free_def mm_ok_def Let_def set_block_def)
qed

lemma mm_free_used:
  assumes "mm_ok s bs" "(p, n) \<in> used_set (heap_listp s) bs"
  shows "\<exists>t el bs'. mm_free s (p + 4) = Some (s\<lparr>tags := t, elems := el\<rparr>) \<and>
    mm_ok (s\<lparr>tags := t, elems := el\<rparr>) bs' \<and>
    used_set (heap_listp s) bs' = used_set (heap_listp s) bs - {(p, n)}"
proof -
  obtain us vs where bs: "bs = us @ (n, True) # vs" "p = heap_listp s + span us"
    using assms(2) by (auto simp: used_set_placed placed_in)
  obtain t el where t: "mm_free s (p + 4) = Some (s\<lparr>tags := t, elems := el\<rparr>)"
    "mm_ok (s\<lparr>tags := t, elems := el\<rparr>) (merged us n vs)"
    using mm_free_ok [of s us n vs p] assms(1) bs by auto
  have "pos_blocks bs" using assms(1) heap_ok_pos [of 8 s bs] by (simp add: mm_ok_def)
  then have "used_set (heap_listp s) (merged us n vs) = used_set (heap_listp s) bs - {(p, n)}"
    using used_set_remove [of us n vs p "heap_listp s"] bs by (simp add: merged_used)
  then show ?thesis using t by blast
qed

text \<open>
  C2: Release.  Freeing the payload of a used block makes exactly that block unused: the other
  used blocks, their bytes and the extent of the heap stay, the block is merged with its free
  neighbours and listed, and no two free blocks are adjacent.
\<close>

theorem mm_free_correct:
  assumes "mm_ok s bs" "(p, n) \<in> used_set (heap_listp s) bs"
  shows "\<exists>s' bs'. mm_free s (p + 4) = Some s' \<and> mm_ok s' bs' \<and>
    used_set (heap_listp s') bs' = used_set (heap_listp s) bs - {(p, n)} \<and>
    bytes s' = bytes s \<and> memsys s' = memsys s"
  using mm_free_used [OF assms] by fastforce

text \<open>One allocated block of at least the requested size, to which the properties are applied.\<close>

lemma used_blk_size:
  assumes "mm_ok s bs" "(p, n) \<in> used_set (heap_listp s) bs"
  shows "blk_size s p = Some n"
proof -
  obtain us vs where "bs = us @ (n, True) # vs" "p = heap_listp s + span us"
    using assms(2) by (auto simp: used_set_placed placed_in)
  then show ?thesis
    using at_block(1) [of 8 s us n True vs p] assms(1) by (simp add: mm_ok_def)
qed

lemma sample_block_ok:
  assumes "0 < sz" "sz \<le> 2 ^ 20"
  shows "\<exists>p n bs. mm_malloc sample_heap sz = Some (p + 4, sample_block sz) \<and> mm_ok (sample_block sz) bs \<and>
    used_set (heap_listp (sample_block sz)) bs = {(p, n)} \<and> words_for sz \<le> n"
proof -
  have "\<not> MAX_HEAP < mem_heapsize (memsys sample_heap) + 4 * max (words_for sz) 32"
    using sample_heap_ok(2) assms(2) by (auto simp: words_for_def words_min_def MAX_HEAP_def max_def)
  then show ?thesis
    using mm_malloc_ok [OF sample_heap_ok(1), of sz] assms by (fastforce simp: sample_block_def)
qed

theorem mm_malloc_correct_witness:
  "\<exists>r s'. mm_malloc sample_heap 100 = Some (r, s') \<and> r \<noteq> NULL \<and> r mod 16 = 0 \<and>
     (\<exists>n bs. 100 \<le> 4 * n - 8 \<and> mm_ok s' bs \<and> used_set (heap_listp s') bs = {(r - 4, n)})"
proof -
  have "\<not> MAX_HEAP < mem_heapsize (memsys sample_heap) + 4 * max (words_for 100) 32"
    using sample_heap_ok(2) by (simp add: words_for_def words_min_def MAX_HEAP_def)
  then obtain r s' n bs where "mm_malloc sample_heap 100 = Some (r, s')" "r \<noteq> NULL" "r mod 16 = 0"
    "100 \<le> 4 * n - 8" "mm_ok s' bs" "used_set (heap_listp s') bs = {(r - 4, n)}"
    using mm_malloc_correct [OF sample_heap_ok(1), of 100] by (auto split: if_splits)
  then show ?thesis by (intro exI conjI)
qed

theorem mm_free_correct_witness:
  "\<exists>r s'. mm_malloc sample_heap 100 = Some (r, sample_block 100) \<and> mm_free (sample_block 100) r = Some s' \<and>
     (\<exists>bs'. mm_ok s' bs' \<and> used_set (heap_listp s') bs' = {})"
proof -
  obtain p n bs where b: "mm_malloc sample_heap 100 = Some (p + 4, sample_block 100)"
    "mm_ok (sample_block 100) bs" "used_set (heap_listp (sample_block 100)) bs = {(p, n)}"
    using sample_block_ok [of 100] by auto
  then show ?thesis
    using mm_free_correct [OF b(2), of p n] by auto
qed

end
