(* ===== verification/MM_Realloc.thy ===== *)
theory MM_Realloc
  imports MM_Spec
begin

text \<open>
  Reallocation in \<open>malloclab/mm.c\<close>.  \<open>grown_block\<close> says what a successful call leaves: the
  block \<open>(p, n)\<close> has become \<open>(r - 4, m)\<close>, the leading payload bytes have moved along, and the
  other used blocks are as before.
\<close>

definition grown_block :: "mm \<Rightarrow> block list \<Rightarrow> ptr \<Rightarrow> int \<Rightarrow> int \<Rightarrow> ptr \<Rightarrow> mm \<Rightarrow> bool" where
  "grown_block s bs p n sz r s' \<longleftrightarrow> (\<exists>m bs' len.
     mm_ok s' bs' \<and> heap_listp s' = heap_listp s \<and> sz \<le> 4 * m - 8 \<and>
     used_set (heap_listp s) bs' = insert (r - 4, m) (used_set (heap_listp s) bs - {(p, n)}) \<and>
     (r - 4, m) \<notin> used_set (heap_listp s) bs - {(p, n)} \<and>
     min sz (4 * n - 8) \<le> len \<and> len \<le> 4 * m - 8 \<and> bytes s' = moved_bytes (bytes s) (p + 4) r len)"

lemma mm_ok_bytes [simp]: "mm_ok (s\<lparr>bytes := b\<rparr>) = mm_ok s"
  by (simp add: mm_ok_def fun_eq_iff)

text \<open>Turning a run of blocks that are not listed into one used block.\<close>

lemma mark_used_ok:
  assumes h: "heap_ok 8 s (us @ ms @ vs)" and q: "q = heap_listp s + span us"
    and w: "span ms = 4 * w" "8 \<le> w" "4 dvd w"
    and S: "lists_ok s (free_set (heap_listp s) us \<union> free_set (q + 4 * w) vs)"
    and a: "array_apart s" and c: "coalesced us" "coalesced vs"
  shows "mark_block_used s q w = Some (set_block s q w True) \<and>
    mm_ok (set_block s q w True) (us @ (w, True) # vs)"
proof -
  have "mark_block_used s q w = Some (set_block s q w True)"
    using block_tag_addr [OF h q, of w] w by (intro mark_block_eq) auto
  moreover have "heap_ok 8 (set_block s q w True) (us @ (w, True) # vs)"
    using w q by (intro heap_ok_retag [OF h]) auto
  moreover have "coalesced (us @ (w, True) # vs)"
    using c by (auto simp: coalesced_def successively_append_iff successively_Cons)
  ultimately show ?thesis using S a q by (simp add: mm_ok_def)
qed

text \<open>The start of \<open>mm_realloc\<close> on a well-formed heap, with the tags it reads evaluated.\<close>

lemma mm_realloc_start:
  assumes ok: "mm_ok s (us @ (n, True) # vs)" and p: "p = heap_listp s + span us"
    and sz: "0 < sz" "sz \<le> 2 ^ 31 - 24"
  shows "mm_realloc s (p + 4) sz =
    (if words_for sz \<le> n then Some (p + 4, s)
     else if \<not> free_last us \<and> free_first vs \<and> n + right_words vs \<ge> words_for sz then do {
       s \<leftarrow> remove_free_block s (p + 4 * n);
       s \<leftarrow> mark_block_used s p (n + right_words vs);
       Some (p + 4, s)
     } else if free_last us \<and> \<not> free_first vs \<and> left_words us + n \<ge> words_for sz then do {
       s \<leftarrow> remove_free_block s (p - 4 * left_words us);
       oldblock \<leftarrow> prev_blk s p;
       s \<leftarrow> mark_block_used s oldblock (left_words us + n);
       s \<leftarrow> memmove s (oldblock + 4) (p + 4) (4 * n - 8);
       Some (oldblock + 4, s)
     } else if free_last us \<and> free_first vs \<and> left_words us + n + right_words vs \<ge> words_for sz then do {
       s \<leftarrow> remove_free_block s (p - 4 * left_words us);
       nb \<leftarrow> next_blk s p;
       s \<leftarrow> remove_free_block s nb;
       oldblock \<leftarrow> prev_blk s p;
       s \<leftarrow> mark_block_used s oldblock (left_words us + n + right_words vs);
       s \<leftarrow> memmove s (oldblock + 4) (p + 4) (4 * n - 8);
       Some (oldblock + 4, s)
     } else if vs = [] then do {
       (free_block, s) \<leftarrow> extend_heap s (words_for sz - n);
       if free_block = NULL then Some (NULL, s)
       else do {
         nb \<leftarrow> next_blk s p;
         s \<leftarrow> remove_free_block s nb;
         s \<leftarrow> mark_block_used s p (words_for sz);
         Some (p + 4, s)
       }
     } else do {
       (newptr, s) \<leftarrow> mm_malloc s sz;
       if newptr = NULL then Some (NULL, s)
       else do {
         oldsz \<leftarrow> blk_size s (p + 4 - 4);
         let oldpayloadsize = u64 (oldsz * WSIZE - 2 * WSIZE);
         let oldpayloadsize = (if sz < oldpayloadsize then sz else oldpayloadsize);
         s \<leftarrow> memcpy s newptr (p + 4) oldpayloadsize;
         s \<leftarrow> mm_free s (p + 4);
         Some (newptr, s)
       }
     })"
proof -
  note w = words_for [OF sz]
  have h: "heap_ok 8 s (us @ (n, True) # vs)" using ok by (simp add: mm_ok_def)
  note at = at_block [OF h p, simplified]
  have n: "8 \<le> n" "4 * n + 16 \<le> MAX_HEAP" using heap_ok_sizes [OF h, of n True] by auto
  have p0: "p + 4 \<noteq> NULL" using heap_ok_parts [OF h] p by simp
  have sp: "span us + 4 * n + span vs + 16 \<le> MAX_HEAP" "0 \<le> span us" "0 \<le> span vs"
    using heap_ok_parts [OF h] pos_span heap_ok_pos [OF h] by auto
  have u: "u64 (n * WSIZE - 2 * WSIZE) = 4 * n - 8"
    using n by (simp add: u64_def WSIZE_def MAX_HEAP_def)
  have fl: "inuse (last_tag us) \<noteq> 0 \<longleftrightarrow> \<not> free_last us"
    by (auto simp: last_tag_def free_last_def)
  have ff: "inuse (first_tag vs) = 0 \<longleftrightarrow> free_first vs"
    by (cases vs) (auto simp: free_first_def)
  have ps: "(free_last us \<longrightarrow> prev_blk s p = Some (p - 4 * left_words us) \<and>
      blk_size s (p - 4 * left_words us) = Some (left_words us)) \<and>
    0 \<le> left_words us \<and> 4 * left_words us \<le> span us"
  proof (cases us rule: free_lastE)
    case (free us' k)
    have "heap_ok 8 s (us' @ (k, False) # (n, True) # vs)" using h free by simp
    then have "blk_size s (p - 4 * k) = Some k"
      using at_block(1) [of 8 s us' k False "(n, True) # vs" "p - 4 * k"] p free by simp
    moreover have "0 < k" "pos_blocks us'" using heap_ok_pos [OF h] free by auto
    ultimately show ?thesis using at(5) free pos_span [of us'] by auto
  qed (use sp in simp)
  have ns: "size (first_tag vs) = 0 \<longleftrightarrow> vs = []" "0 \<le> size (first_tag vs)" "4 * size (first_tag vs) \<le> span vs"
    "free_first vs \<Longrightarrow> size (first_tag vs) = right_words vs"
    using heap_ok_pos [OF h] pos_span [of "tl vs"]
    by (cases vs; auto simp: free_first_def right_words_def)+
  have us: "u64 (n + size (first_tag vs)) = n + size (first_tag vs)"
    "u64 (left_words us + n) = left_words us + n"
    "u64 (left_words us + n + size (first_tag vs)) = left_words us + n + size (first_tag vs)"
    using n sp ps ns(2,3) by (auto simp: u64_def MAX_HEAP_def)
  have uw: "u64 (words_for sz - n) = words_for sz - n" if "n < words_for sz"
    using that w(6) n by (simp add: u64_def)
  show ?thesis
  proof (cases "words_for sz \<le> n")
    case True
    then show ?thesis
      using sz p0 w(1-3) at by (simp add: mm_realloc_def Let_def fl ff)
  next
    case False
    note ev = sz p0 w(1-3) at(1-4,6-9) u uw
    show ?thesis
    proof (cases "free_last us")
      case True
      then have P: "prev_blk s p = Some (p - 4 * left_words us)"
        "blk_size s (p - 4 * left_words us) = Some (left_words us)" using ps by auto
      show ?thesis
      proof (cases "free_first vs")
        case ff': True
        then have "vs \<noteq> []" by (auto simp: free_first_def)
        then show ?thesis
          using False True ff' P ev ns us by (simp add: mm_realloc_def Let_def fl ff)
      next
        case ff': False
        then show ?thesis
          using False True ff' P ev ns(1-3) us by (simp add: mm_realloc_def Let_def fl ff)
      qed
    next
      case fl': False
      show ?thesis
      proof (cases "free_first vs")
        case ff': True
        then have "vs \<noteq> []" by (auto simp: free_first_def)
        then show ?thesis
          using False fl' ff' ev ns us by (simp add: mm_realloc_def Let_def fl ff)
      next
        case ff': False
        then show ?thesis
          using False fl' ff' ev ns(1-3) us by (simp add: mm_realloc_def Let_def fl ff)
      qed
    qed
  qed
qed

lemma grown_blockI:
  assumes "mm_ok s' (us' @ (m, True) # vs')" "heap_listp s' = heap_listp s" "sz \<le> 4 * m - 8"
    "r = heap_listp s + span us' + 4"
    "heap_ok 8 s (us @ (n, True) # vs)" "p = heap_listp s + span us"
    "used_set (heap_listp s) us' \<union> used_set (r - 4 + 4 * m) vs' =
      used_set (heap_listp s) us \<union> used_set (p + 4 * n) vs"
    "min sz (4 * n - 8) \<le> len" "len \<le> 4 * m - 8" "bytes s' = moved_bytes (bytes s) (p + 4) r len"
  shows "grown_block s (us @ (n, True) # vs) p n sz r s'"
proof -
  have "used_set (heap_listp s) (us @ (n, True) # vs) - {(p, n)} =
      used_set (heap_listp s) us \<union> used_set (p + 4 * n) vs"
    using assms(6) heap_ok_pos [OF assms(5)] by (intro used_set_remove) auto
  moreover have "used_set (heap_listp s) (us' @ (m, True) # vs') =
      insert (r - 4, m) (used_set (heap_listp s) us' \<union> used_set (r - 4 + 4 * m) vs')"
    using assms(4) by auto
  moreover have "(r - 4, m) \<notin> used_set (heap_listp s) us' \<union> used_set (r - 4 + 4 * m) vs'"
  proof -
    have "pos_blocks (us' @ (m, True) # vs')" using assms(1) heap_ok_pos [of 8 s' "us' @ (m, True) # vs'"] by (simp add: mm_ok_def)
    then show ?thesis
      using used_set_bounds [of "r - 4" m "heap_listp s" us'] used_set_bounds [of "r - 4" m "r - 4 + 4 * m" vs']
        assms(4) by auto
  qed
  ultimately show ?thesis using assms(1-3,7-10) unfolding grown_block_def
    by (intro exI [of _ m] exI [of _ "us' @ (m, True) # vs'"] exI [of _ len]) simp
qed

lemma mm_ok_parts:
  assumes "mm_ok s (us @ (n, True) # vs)" "p = heap_listp s + span us"
  shows "heap_ok 8 s (us @ (n, True) # vs)" "array_apart s" "coalesced us" "coalesced vs"
    "lists_ok s (free_set (heap_listp s) us \<union> free_set (p + 4 * n) vs)"
  using assms coalesced_parts [of us n vs] by (auto simp: mm_ok_def)

text \<open>Case 2 of the code: the next block is free and large enough.\<close>

lemma realloc_next:
  assumes ok: "mm_ok s (us @ (n, True) # vs)" and p: "p = heap_listp s + span us"
    and sz: "0 < sz" "sz \<le> 2 ^ 31 - 24"
    and c: "n < words_for sz" "\<not> free_last us" "free_first vs" "words_for sz \<le> n + right_words vs"
  shows "\<exists>r s'. mm_realloc s (p + 4) sz = Some (r, s') \<and> r \<noteq> NULL \<and> grown_block s (us @ (n, True) # vs) p n sz r s'"
proof -
  note w = words_for [OF sz]
  have h: "heap_ok 8 s (us @ (n, True) # vs)" and a: "array_apart s"
    and co: "coalesced us" "coalesced vs"
    and S: "lists_ok s (free_set (heap_listp s) us \<union> free_set (p + 4 * n) vs)"
    by (fact mm_ok_parts [OF ok p])+
  obtain vs' j where v: "vs = (j, False) # vs'" "right_words vs = j" "right_rest vs = vs'"
    using c(3) by (cases vs rule: free_firstE) auto
  have sj: "8 \<le> n" "4 dvd n" "8 \<le> j" "4 dvd j"
    using heap_ok_sizes [OF h, of n True] heap_ok_sizes [OF h, of j False] v by auto
  have h1: "heap_ok 8 s ((us @ [(n, True)]) @ (j, False) # vs')" using h v by simp
  obtain el where el: "remove_free_block s (p + 4 * n) = Some (s\<lparr>elems := el\<rparr>)"
    "lists_ok (s\<lparr>elems := el\<rparr>) (free_set (heap_listp s) us \<union> free_set (p + 4 * n + 4 * j) vs')"
    using unlist [OF h1, of "p + 4 * n" "free_set (heap_listp s) us" "free_set (p + 4 * n + 4 * j) vs'"]
      S v p by auto
  let ?s = "set_block (s\<lparr>elems := el\<rparr>) p (n + j) True"
  have m: "mark_block_used (s\<lparr>elems := el\<rparr>) p (n + j) = Some ?s \<and> mm_ok ?s (us @ (n + j, True) # vs')"
    using h v p el a co coalesced_right_rest [OF co(2)] sj
    by (intro mark_used_ok [where ms = "[(n, True), (j, False)]"]) (auto simp: algebra_simps)
  have p0: "p + 4 \<noteq> NULL" using heap_ok_parts [OF h] p by simp
  have "mm_realloc s (p + 4) sz = Some (p + 4, ?s)"
    using mm_realloc_start [OF ok p sz] c el(1) m v by simp
  moreover have "grown_block s (us @ (n, True) # vs) p n sz (p + 4) ?s"
    using m h p w(7) c(4) v sj
    by (intro grown_blockI [where us' = us and m = "n + j" and vs' = vs' and len = "4 * n - 8"])
      (auto simp: algebra_simps)
  ultimately show ?thesis using p0 by blast
qed

text \<open>Cases 1 and 3: the previous block is free, and it suffices, alone or with a free next block.\<close>

lemma realloc_prev:
  assumes ok: "mm_ok s (us @ (n, True) # vs)" and p: "p = heap_listp s + span us"
    and sz: "0 < sz" "sz \<le> 2 ^ 31 - 24"
    and c: "n < words_for sz" "free_last us" "words_for sz \<le> left_words us + n + right_words vs"
  shows "\<exists>r s'. mm_realloc s (p + 4) sz = Some (r, s') \<and> r \<noteq> NULL \<and> grown_block s (us @ (n, True) # vs) p n sz r s'"
proof -
  note w = words_for [OF sz]
  have h: "heap_ok 8 s (us @ (n, True) # vs)" and a: "array_apart s"
    and co: "coalesced us" "coalesced vs"
    and S: "lists_ok s (free_set (heap_listp s) us \<union> free_set (p + 4 * n) vs)"
    by (fact mm_ok_parts [OF ok p])+
  obtain us' k where u: "us = us' @ [(k, False)]" "left_words us = k" "left_rest us = us'"
    using c(2) by (cases us rule: free_lastE) auto
  have sk: "8 \<le> n" "4 dvd n" "8 \<le> k" "4 dvd k"
    using heap_ok_sizes [OF h, of n True] heap_ok_sizes [OF h, of k False] u by auto
  define q where "q = p - 4 * k"
  have q: "q = heap_listp s + span us'" "prev_blk s p = Some q"
    using at_block(5) [OF h p] u p by (auto simp: q_def)
  have hq: "heap_ok 8 s (us' @ (k, False) # (n, True) # vs)" using h u by simp
  obtain e1 where e1: "remove_free_block s q = Some (s\<lparr>elems := e1\<rparr>)"
    "lists_ok (s\<lparr>elems := e1\<rparr>) (free_set (heap_listp s) us' \<union> free_set (p + 4 * n) vs)"
  proof -
    have "lists_ok s (insert (q, k) (free_set (heap_listp s) us' \<union> free_set (p + 4 * n) vs))"
      using S u q(1) by simp
    moreover have "free_set (p + 4 * n) vs \<subseteq> free_set (q + 4 * k) ((n, True) # vs)"
      by (simp add: q_def)
    ultimately show thesis using unlist [OF hq q(1)] that by blast
  qed
  have fin: "\<exists>r s'. Some (q + 4, s3) = Some (r, s') \<and> r \<noteq> NULL \<and> grown_block s (us @ (n, True) # vs) p n sz r s'"
    if "s3 = (set_block (s\<lparr>elems := e\<rparr>) q m True)\<lparr>bytes := moved_bytes (bytes s) (p + 4) (q + 4) (4 * n - 8)\<rparr>"
      "mm_ok (set_block (s\<lparr>elems := e\<rparr>) q m True) (us' @ (m, True) # vs')" "words_for sz \<le> m" "n \<le> m"
      "used_set (q + 4 * m) vs' = used_set (p + 4 * n) vs" for s3 e m vs'
  proof -
    have "mm_ok s3 (us' @ (m, True) # vs')"
      using that(1,2) by (simp only: mm_ok_bytes)
    moreover have "used_set (heap_listp s) us' = used_set (heap_listp s) us" using u by simp
    moreover have "q + 4 \<noteq> NULL" using heap_ok_parts [OF hq] q by simp
    ultimately show ?thesis
      using that h p q(1) w(7)
      by (intro exI [of _ "q + 4"] exI [of _ s3] conjI
          grown_blockI [where us' = us' and m = m and vs' = vs' and len = "4 * n - 8"]) auto
  qed
  have inh: "in_heap s' (p + 4) (4 * n - 8)" if "memsys s' = memsys s" for s' :: mm
    using payload_in_heap [OF h, of p n "4 * n - 8"] that sk p by (simp add: in_heap_def)
  have inh': "in_heap s' (q + 4) (4 * n - 8)" if "memsys s' = memsys s" for s' :: mm
    using inh [OF that] sk(1) sk(3) q(1) heap_ok_parts [OF hq] that by (auto simp: in_heap_def q_def)
  have mv: "memmove (set_block (s\<lparr>elems := e\<rparr>) q m True) (q + 4) (p + 4) (4 * n - 8) =
      Some ((set_block (s\<lparr>elems := e\<rparr>) q m True)\<lparr>bytes := moved_bytes (bytes s) (p + 4) (q + 4) (4 * n - 8)\<rparr>)" for e m
    by (subst memmove_eq) (auto intro: inh inh')
  show ?thesis
  proof (cases vs rule: free_firstE)
    case (free vs' j)
    have sj: "8 \<le> j" "4 dvd j" using heap_ok_sizes [OF h, of j False] free by auto
    have h1: "heap_ok 8 (s\<lparr>elems := e1\<rparr>) ((us @ [(n, True)]) @ (j, False) # vs')" using h free by simp
    obtain e2 where e2: "remove_free_block (s\<lparr>elems := e1\<rparr>) (p + 4 * n) = Some (s\<lparr>elems := e2\<rparr>)"
      "lists_ok (s\<lparr>elems := e2\<rparr>) (free_set (heap_listp s) us' \<union> free_set (p + 4 * n + 4 * j) vs')"
      using unlist [OF h1, of "p + 4 * n" "free_set (heap_listp s) us'" "free_set (p + 4 * n + 4 * j) vs'"]
        e1(2) free p u by auto
    define m where "m = left_words us + n + right_words vs"
    have m: "m = k + n + j" using u free by (simp add: m_def)
    have mk: "mark_block_used (s\<lparr>elems := e2\<rparr>) q m = Some (set_block (s\<lparr>elems := e2\<rparr>) q m True) \<and>
      mm_ok (set_block (s\<lparr>elems := e2\<rparr>) q m True) (us' @ (m, True) # vs')"
      using h free u q(1) e2(2) a coalesced_left_rest [OF co(1)] coalesced_right_rest [OF co(2)] sj sk
      by (intro mark_used_ok [where ms = "[(k, False), (n, True), (j, False)]"])
        (auto simp: m q_def algebra_simps)
    have "words_for sz \<le> m" "n \<le> m" "used_set (q + 4 * m) vs' = used_set (p + 4 * n) vs"
      using c(3) u free sj sk by (auto simp: m q_def algebra_simps)
    note f = fin [OF refl conjunct2 [OF mk] this]
    have "next_blk s p = Some (p + 4 * n)" using at_block(6) [OF h p] by simp
    moreover have "p - 4 * left_words us = q" using u by (simp add: q_def)
    ultimately have "mm_realloc s (p + 4) sz =
        Some (q + 4, (set_block (s\<lparr>elems := e2\<rparr>) q m True)\<lparr>bytes := moved_bytes (bytes s) (p + 4) (q + 4) (4 * n - 8)\<rparr>)"
      using mm_realloc_start [OF ok p sz] c(1,2) free(5) e1(1) e2(1) conjunct1 [OF mk] mv [of e2 m] q(2)
        \<open>words_for sz \<le> m\<close> by (simp add: m_def [symmetric])
    with f show ?thesis by simp
  next
    case used
    define m where "m = left_words us + n"
    have m: "m = k + n" using u by (simp add: m_def)
    have mk: "mark_block_used (s\<lparr>elems := e1\<rparr>) q m = Some (set_block (s\<lparr>elems := e1\<rparr>) q m True) \<and>
      mm_ok (set_block (s\<lparr>elems := e1\<rparr>) q m True) (us' @ (m, True) # vs)"
      using h u q(1) e1(2) a coalesced_left_rest [OF co(1)] co(2) sk
      by (intro mark_used_ok [where ms = "[(k, False), (n, True)]"]) (auto simp: m q_def algebra_simps)
    have "words_for sz \<le> m" "n \<le> m" "used_set (q + 4 * m) vs = used_set (p + 4 * n) vs"
      using c(3) u used sk by (auto simp: m q_def algebra_simps)
    note f = fin [OF refl conjunct2 [OF mk] this]
    have "p - 4 * left_words us = q" using u by (simp add: q_def)
    then have "mm_realloc s (p + 4) sz =
        Some (q + 4, (set_block (s\<lparr>elems := e1\<rparr>) q m True)\<lparr>bytes := moved_bytes (bytes s) (p + 4) (q + 4) (4 * n - 8)\<rparr>)"
      using mm_realloc_start [OF ok p sz] c(1,2) used(4) e1(1) conjunct1 [OF mk] mv [of e1 m] q(2)
        \<open>words_for sz \<le> m\<close> by (simp add: m_def [symmetric])
    with f show ?thesis by simp
  qed
qed

text \<open>
  Case 5: the block is the last one and is extended in place.  An extension by four words (16
  bytes) makes a free block that is too small for any free list, and the assertion of
  \<open>insert_free_block\<close> fails.
\<close>

lemma realloc_last:
  assumes ok: "mm_ok s (us @ [(n, True)])" and p: "p = heap_listp s + span us"
    and sz: "0 < sz" "sz \<le> 2 ^ 31 - 24"
    and c: "n < words_for sz" "free_last us \<Longrightarrow> left_words us + n < words_for sz"
  shows "if mem_heapsize (memsys s) + 4 * (words_for sz - n) > MAX_HEAP
    then mm_realloc s (p + 4) sz = Some (NULL, s)
    else if words_for sz = n + 4 then mm_realloc s (p + 4) sz = None
    else \<exists>r s'. mm_realloc s (p + 4) sz = Some (r, s') \<and> r \<noteq> NULL \<and> grown_block s (us @ [(n, True)]) p n sz r s'"
proof -
  note w = words_for [OF sz]
  have ok': "mm_ok s (us @ (n, True) # [])" using ok by simp
  have h: "heap_ok 8 s (us @ [(n, True)])" and a: "array_apart s" and co: "coalesced us"
    and S: "lists_ok s (free_set (heap_listp s) us)"
    using mm_ok_parts [OF ok' p] by simp_all
  have hn: "heap_ok 8 s (us @ (n, True) # [])" using h by simp
  have n: "8 \<le> n" "4 dvd n" using heap_ok_sizes [OF h, of n True] by auto
  define e where "e = words_for sz - n"
  have e: "4 dvd e" "4 \<le> e" "4 * e < 2 ^ 31"
  proof -
    show "4 dvd e" using n w(5) by (auto simp: e_def)
    then show "4 \<le> e" using c(1) by (auto simp: e_def dest: zdvd_imp_le)
    show "4 * e < 2 ^ 31" using w(6) n by (simp add: e_def)
  qed
  have start: "mm_realloc s (p + 4) sz = do {
       (free_block, s) \<leftarrow> extend_heap s e;
       if free_block = NULL then Some (NULL, s)
       else do {
         nb \<leftarrow> next_blk s p;
         s \<leftarrow> remove_free_block s nb;
         s \<leftarrow> mark_block_used s p (words_for sz);
         Some (p + 4, s)
       }
     }"
  proof -
    have "\<not> words_for sz \<le> n" "free_last us \<Longrightarrow> \<not> words_for sz \<le> left_words us + n"
      using c by auto
    then show ?thesis
      using mm_realloc_start [OF ok' p sz]
      by (cases "free_last us") (simp_all add: free_first_def e_def)
  qed
  show ?thesis
  proof (cases "mem_heapsize (memsys s) + 4 * e > MAX_HEAP")
    case True
    then have "extend_heap s e = Some (NULL, s)"
      using extend_heap_fails [OF h _ e(3)] e(2) by simp
    then show ?thesis using True start by (simp add: e_def)
  next
    case False
    show ?thesis
    proof (cases "e = 4")
      case True
      have h4: "heap_ok 4 s (us @ [(n, True)])"
        using h layout_weaken [of 8 _ _ _ _ 4] by (auto simp: heap_ok_def simp del: layout_append)
      obtain t where t: "extend_heap s 4 = coalesce (grown s 4\<lparr>tags := t\<rparr>) (heap_listp s + span (us @ [(n, True)]))"
        "heap_ok 4 (grown s 4\<lparr>tags := t\<rparr>) ((us @ [(n, True)]) @ (4, False) # [])"
        using extend_heap_grow [OF h4, of 4] False True by auto
      define q where "q = heap_listp s + span (us @ [(n, True)])"
      note at = at_block [OF t(2), of q, simplified]
      have "coalesce (grown s 4\<lparr>tags := t\<rparr>) q = None"
        using at(1,4,6,9) last_tag_simps(2) [of "us" n True]
        by (simp add: coalesce_def Let_def q_def insert_asserted_def insert_free_block_def
            find_fit_index_small)
      then have "mm_realloc s (p + 4) sz = None" using start t(1) True by (simp add: q_def)
      then show ?thesis using True False by (simp add: e_def)
    next
      case ne: False
      then have e8: "8 \<le> e" using e(1,2) by presburger
      define q where "q = p + 4 * n"
      obtain t el where g: "extend_heap s e = Some (q, grown s e\<lparr>tags := t, elems := el\<rparr>)"
        "heap_ok 8 (grown s e\<lparr>tags := t, elems := el\<rparr>) (us @ (n, True) # [(e, False)])"
        "lists_ok (grown s e\<lparr>tags := t, elems := el\<rparr>) (insert (q, e) (free_set (heap_listp s) us))"
        using extend_heap_ok [OF h _ a e8 e(1)] S False p
        by (auto simp: Let_def merged_def left_rest_def left_words_def free_last_def right_rest_def
            right_words_def free_first_def q_def)
      let ?g = "grown s e\<lparr>tags := t, elems := el\<rparr>"
      have q0: "q \<noteq> NULL" using heap_ok_parts [OF hn] p n by (simp add: q_def)
      have nx: "next_blk ?g p = Some q"
        using at_block(6) [OF g(2), of p] p by (simp add: q_def)
      have hg: "heap_ok 8 ?g ((us @ [(n, True)]) @ (e, False) # [])" using g(2) by simp
      have "lists_ok ?g (insert (q, e) (free_set (heap_listp s) us \<union> {}))" using g(3) by simp
      from unlist [OF hg _ this]
      obtain el' where el': "remove_free_block ?g q = Some (?g\<lparr>elems := el'\<rparr>)"
        "lists_ok (?g\<lparr>elems := el'\<rparr>) (free_set (heap_listp s) us)"
        using p by (auto simp: q_def)
      let ?s = "set_block (?g\<lparr>elems := el'\<rparr>) p (words_for sz) True"
      have hm: "heap_ok 8 (?g\<lparr>elems := el'\<rparr>) (us @ [(n, True), (e, False)] @ [])" using g(2) by simp
      have ca: "coalesced []" by (simp add: coalesced_def)
      have ag: "array_apart (?g\<lparr>elems := el'\<rparr>)"
        using a by (simp add: array_apart_def grown_def)
      have m: "mark_block_used (?g\<lparr>elems := el'\<rparr>) p (words_for sz) = Some ?s \<and> mm_ok ?s (us @ (words_for sz, True) # [])"
        using p el'(2) w(4,5) by (intro mark_used_ok [OF hm _ _ _ _ _ ag co ca]) (auto simp: e_def)
      have "mm_realloc s (p + 4) sz = Some (p + 4, ?s)"
        using start g(1) q0 nx el'(1) m by simp
      moreover have "grown_block s (us @ (n, True) # []) p n sz (p + 4) ?s"
        using m hn p w(7) c(1) n
        by (intro grown_blockI [where us' = us and m = "words_for sz" and vs' = "[]" and len = "4 * n - 8"])
          auto
      moreover have "p + 4 \<noteq> NULL" using heap_ok_parts [OF hn] p by simp
      ultimately show ?thesis using False ne by (auto simp: e_def)
    qed
  qed
qed

text \<open>Case 4: a new block, a copy of the payload, and the release of the old block.\<close>

lemma realloc_copy:
  assumes ok: "mm_ok s (us @ (n, True) # vs)" and p: "p = heap_listp s + span us"
    and sz: "0 < sz" "sz \<le> 2 ^ 31 - 24"
    and start: "mm_realloc s (p + 4) sz = do {
       (newptr, s) \<leftarrow> mm_malloc s sz;
       if newptr = NULL then Some (NULL, s)
       else do {
         oldsz \<leftarrow> blk_size s (p + 4 - 4);
         let oldpayloadsize = u64 (oldsz * WSIZE - 2 * WSIZE);
         let oldpayloadsize = (if sz < oldpayloadsize then sz else oldpayloadsize);
         s \<leftarrow> memcpy s newptr (p + 4) oldpayloadsize;
         s \<leftarrow> mm_free s (p + 4);
         Some (newptr, s)
       }
     }"
  shows "mm_realloc s (p + 4) sz = Some (NULL, s) \<or>
    (\<exists>r s'. mm_realloc s (p + 4) sz = Some (r, s') \<and> r \<noteq> NULL \<and> grown_block s (us @ (n, True) # vs) p n sz r s')"
  using mm_malloc_ok [OF ok sz]
proof (elim disjE exE conjE)
  fix q m s1 bs1
  let ?bs = "us @ (n, True) # vs"
  assume m: "mm_malloc s sz = Some (q + 4, s1)" "mm_ok s1 bs1" "words_for sz \<le> m" "q + 4 \<noteq> NULL"
    "heap_listp s1 = heap_listp s" "bytes s1 = bytes s"
    "mem_start_brk (memsys s1) = mem_start_brk (memsys s)"
    "used_set (heap_listp s) bs1 = insert (q, m) (used_set (heap_listp s) ?bs)"
    "\<forall>(r, k)\<in>used_set (heap_listp s) ?bs. r + 4 * k \<le> q \<or> q + 4 * m \<le> r"
  note w = words_for [OF sz]
  have h: "heap_ok 8 s ?bs" using ok by (simp add: mm_ok_def)
  have h1: "heap_ok 8 s1 bs1" using m(2) by (simp add: mm_ok_def)
  have pu: "(p, n) \<in> used_set (heap_listp s) ?bs" using p by simp
  have pu1: "(p, n) \<in> used_set (heap_listp s1) bs1" using pu m(5,8) by simp
  have qu1: "(q, m) \<in> used_set (heap_listp s1) bs1" using m(5,8) by simp
  have n: "8 \<le> n" "4 * n + 16 \<le> MAX_HEAP" using heap_ok_sizes [OF h, of n True] by auto
  have ap: "p + 4 * n \<le> q \<or> q + 4 * m \<le> p" using m(9) pu by blast
  obtain us1 vs1 where "bs1 = us1 @ (n, True) # vs1" "p = heap_listp s1 + span us1"
    using pu1 by (auto simp: used_set_placed placed_in)
  then have bz: "blk_size s1 p = Some n" using at_block(1) [of 8 s1 us1 n True vs1 p] h1 by simp
  define len where "len = min sz (4 * n - 8)"
  have len: "0 < len" "len \<le> 4 * n - 8" "len \<le> 4 * m - 8"
    using sz n m(3) w(7) by (auto simp: len_def)
  have "u64 (n * WSIZE - 2 * WSIZE) = 4 * n - 8" using n by (simp add: u64_def WSIZE_def MAX_HEAP_def)
  then have l: "(if sz < u64 (n * WSIZE - 2 * WSIZE) then sz else u64 (n * WSIZE - 2 * WSIZE)) = len"
    by (simp add: len_def)
  have cp: "memcpy s1 (q + 4) (p + 4) len = Some (s1\<lparr>bytes := moved_bytes (bytes s) (p + 4) (q + 4) len\<rparr>)"
    using memcpy_payload [OF h1 _ pu1 qu1 ap, of len] len m(6) by simp
  let ?s2 = "s1\<lparr>bytes := moved_bytes (bytes s) (p + 4) (q + 4) len\<rparr>"
  have ok2: "mm_ok ?s2 bs1" using m(2) by simp
  obtain t el bs2 where f: "mm_free ?s2 (p + 4) = Some (?s2\<lparr>tags := t, elems := el\<rparr>)"
    "mm_ok (?s2\<lparr>tags := t, elems := el\<rparr>) bs2"
    "used_set (heap_listp s) bs2 = used_set (heap_listp s) bs1 - {(p, n)}"
    using mm_free_used [OF ok2, of p n] pu1 m(5) by auto
  have "mm_realloc s (p + 4) sz = Some (q + 4, ?s2\<lparr>tags := t, elems := el\<rparr>)"
    using start m(1,4) bz l cp f(1) by (simp add: Let_def)
  moreover have "grown_block s ?bs p n sz (q + 4) (?s2\<lparr>tags := t, elems := el\<rparr>)"
    unfolding grown_block_def
  proof (rule exI [of _ m], rule exI [of _ bs2], rule exI [of _ len], intro conjI)
    have ne: "(q, m) \<noteq> (p, n)" using ap n len by auto
    have d: "insert (q, m) U - {(p, n)} = insert (q, m) (U - {(p, n)})" for U using ne by blast
    show "used_set (heap_listp s) bs2 = insert (q + 4 - 4, m) (used_set (heap_listp s) ?bs - {(p, n)})"
      by (simp only: f(3) m(8) d add_diff_cancel_right')
    have "(q, m) \<notin> used_set (heap_listp s) ?bs" using m(9) len sz by fastforce
    then show "(q + 4 - 4, m) \<notin> used_set (heap_listp s) ?bs - {(p, n)}"
      by (simp only: add_diff_cancel_right' Diff_iff simp_thms)
  qed (use f(2) m(3,5) w(7) len in \<open>auto simp: len_def\<close>)
  ultimately show ?thesis using m(4) by blast
next
  assume "mm_malloc s sz = Some (NULL, s)"
  then show ?thesis using start by simp
qed

subsection \<open>All cases\<close>

text \<open>The last block, with no free block before it, is to grow by one unit of alignment.\<close>

definition grows_last_by_one :: "mm \<Rightarrow> block list \<Rightarrow> ptr \<Rightarrow> int \<Rightarrow> int \<Rightarrow> bool" where
  "grows_last_by_one s bs p n sz \<longleftrightarrow> words_for sz = n + 4 \<and> p + 4 * n + 4 = mem_brk (memsys s) \<and>
     (\<forall>k. (p - 4 * k, k) \<notin> free_set (heap_listp s) bs) \<and> mem_heapsize (memsys s) + 16 \<le> MAX_HEAP"

lemma grows_last_iff:
  assumes h: "heap_ok 8 s (us @ (n, True) # vs)" and p: "p = heap_listp s + span us"
  shows "grows_last_by_one s (us @ (n, True) # vs) p n sz \<longleftrightarrow>
    words_for sz = n + 4 \<and> vs = [] \<and> \<not> free_last us \<and> mem_heapsize (memsys s) + 16 \<le> MAX_HEAP"
proof -
  have pos: "pos_blocks us" "pos_blocks vs" "0 < n" using heap_ok_pos [OF h] by auto
  have "mem_brk (memsys s) = p + 4 * n + span vs + 4" using heap_ok_parts(5) [OF h] p by simp
  moreover have "span vs = 0 \<longleftrightarrow> vs = []" using pos(2) pos_span [of "tl vs"] by (cases vs) auto
  moreover have "(\<exists>k. (p - 4 * k, k) \<in> free_set (heap_listp s) (us @ (n, True) # vs)) \<longleftrightarrow> free_last us"
  proof
    assume "free_last us"
    then obtain us' k where "us = us' @ [(k, False)]" by (cases us rule: free_lastE) auto
    then show "\<exists>k. (p - 4 * k, k) \<in> free_set (heap_listp s) (us @ (n, True) # vs)"
      using p by (intro exI [of _ k]) auto
  next
    assume "\<exists>k. (p - 4 * k, k) \<in> free_set (heap_listp s) (us @ (n, True) # vs)"
    then obtain k us1 vs1 where k: "us @ (n, True) # vs = us1 @ (k, False) # vs1"
      "p - 4 * k = heap_listp s + span us1"
      unfolding free_set_placed placed_in by blast
    then have "us = us1 @ [(k, False)]"
      using p heap_ok_pos [OF h] by (intro span_prefix_unique [of us "(n, True) # vs" _ vs1]) auto
    then show "free_last us" by (simp add: free_last_def)
  qed
  ultimately show ?thesis unfolding grows_last_by_one_def by auto
qed

lemma mm_realloc_cases:
  assumes ok: "mm_ok s bs" and p: "(p, n) \<in> used_set (heap_listp s) bs"
    and sz: "0 < sz" "sz \<le> 2 ^ 31 - 24"
  shows "if grows_last_by_one s bs p n sz then mm_realloc s (p + 4) sz = None
    else mm_realloc s (p + 4) sz = Some (NULL, s) \<or>
      (\<exists>r s'. mm_realloc s (p + 4) sz = Some (r, s') \<and> r \<noteq> NULL \<and> grown_block s bs p n sz r s')"
proof -
  obtain us vs where bs: "bs = us @ (n, True) # vs" and pe: "p = heap_listp s + span us"
    using p by (auto simp: used_set_placed placed_in)
  have ok': "mm_ok s (us @ (n, True) # vs)" using ok bs by simp
  have h: "heap_ok 8 s (us @ (n, True) # vs)" using ok' by (simp add: mm_ok_def)
  note w = words_for [OF sz]
  note g = grows_last_iff [OF h pe, of sz]
  have n: "8 \<le> n" using heap_ok_sizes [OF h, of n True] by auto
  have pos: "pos_blocks us" using heap_ok_pos [OF h] by simp
  have big: "left_words us \<ge> 8" if "free_last us"
    using that heap_ok_sizes [OF h, of "left_words us" False] by (cases us rule: free_lastE) auto
  show ?thesis
  proof (cases "words_for sz \<le> n")
    case True
    have "grown_block s (us @ (n, True) # vs) p n sz (p + 4) s"
      using ok' h pe w(7) True n
      by (intro grown_blockI [where us' = us and m = n and vs' = vs and len = "4 * n - 8"]) auto
    moreover have "p + 4 \<noteq> NULL" using heap_ok_parts [OF h] pe by simp
    ultimately show ?thesis using mm_realloc_start [OF ok' pe sz] True g bs by auto
  next
    case less: False
    then have c: "n < words_for sz" by simp
    show ?thesis
    proof (cases "free_last us \<and> words_for sz \<le> left_words us + n + right_words vs \<and>
        (free_first vs \<or> words_for sz \<le> left_words us + n)")
      case True
      then have "\<not> grows_last_by_one s bs p n sz" using g bs by auto
      moreover have "0 \<le> right_words vs" using heap_ok_pos [OF h] by (cases vs rule: free_firstE) auto
      ultimately show ?thesis
        using realloc_prev [OF ok' pe sz c] True bs by auto
    next
      case np: False
      have r0: "\<not> free_first vs \<Longrightarrow> right_words vs = 0" by (simp add: right_words_def)
      show ?thesis
      proof (cases "\<not> free_last us \<and> free_first vs \<and> words_for sz \<le> n + right_words vs")
        case True
        moreover from this have "\<not> grows_last_by_one s bs p n sz" using g bs by (auto simp: free_first_def)
        ultimately show ?thesis using realloc_next [OF ok' pe sz c] bs by auto
      next
        case nn: False
        show ?thesis
        proof (cases "vs = []")
          case True
          have l: "free_last us \<Longrightarrow> left_words us + n < words_for sz"
            using np r0 True by (auto simp: free_first_def)
          then have "free_last us \<Longrightarrow> words_for sz \<noteq> n + 4" using big by auto
          with realloc_last [OF _ pe sz c l] ok' True
          show ?thesis unfolding bs by (auto simp: g [unfolded True] True split: if_splits)
        next
          case False
          have "\<not> grows_last_by_one s bs p n sz" using g bs False by auto
          moreover have "\<not> (\<not> free_last us \<and> free_first vs \<and> words_for sz \<le> n + right_words vs)"
            "\<not> (free_last us \<and> \<not> free_first vs \<and> words_for sz \<le> left_words us + n)"
            "\<not> (free_last us \<and> free_first vs \<and> words_for sz \<le> left_words us + n + right_words vs)"
            using np nn r0 by auto
          note m = mm_realloc_start [OF ok' pe sz, unfolded if_not_P [OF less] if_not_P [OF this(1)]
              if_not_P [OF this(2)] if_not_P [OF this(3)] if_not_P [OF False]]
          ultimately show ?thesis using realloc_copy [OF ok' pe sz m] bs by auto
        qed
      qed
    qed
  qed
qed

text \<open>
  C3: Reallocation.  For a used block and a request below 2^31 - 24 bytes, \<open>mm_realloc\<close> (unless
  the last block of the heap is to grow by exactly 16 bytes, see the next property) returns a null
  pointer and leaves the state as it was, or a payload address \<open>r\<close> such that the old block has
  been replaced by one at \<open>r - 4\<close> that is large enough and aligned, that holds the old contents up
  to the smaller of the two sizes, while every other used block and its contents stay.
\<close>

theorem mm_realloc_correct:
  assumes "mm_ok s bs" "(p, n) \<in> used_set (heap_listp s) bs" "0 < sz" "sz \<le> 2 ^ 31 - 24"
    "\<not> grows_last_by_one s bs p n sz"
  shows "\<exists>r s'. mm_realloc s (p + 4) sz = Some (r, s') \<and>
    (if r = NULL then s' = s
     else \<exists>m bs'. mm_ok s' bs' \<and> sz \<le> 4 * m - 8 \<and> r mod 16 = 0 \<and>
       used_set (heap_listp s') bs' = insert (r - 4, m) (used_set (heap_listp s) bs - {(p, n)}) \<and>
       (\<forall>i. 0 \<le> i \<and> i < min sz (4 * n - 8) \<longrightarrow> bytes s' (r + i) = bytes s (p + 4 + i)) \<and>
       (\<forall>(q, k)\<in>used_set (heap_listp s) bs - {(p, n)}.
          \<forall>i. 0 \<le> i \<and> i < 4 * k - 8 \<longrightarrow> bytes s' (q + 4 + i) = bytes s (q + 4 + i)))"
proof -
  from mm_realloc_cases [OF assms(1-4)] assms(5)
  consider "mm_realloc s (p + 4) sz = Some (NULL, s)"
    | r s' where "mm_realloc s (p + 4) sz = Some (r, s')" "r \<noteq> NULL" "grown_block s bs p n sz r s'"
    by auto
  then show ?thesis
  proof cases
    case (2 r s')
    then obtain m bs' len where g: "mm_ok s' bs'" "heap_listp s' = heap_listp s" "sz \<le> 4 * m - 8"
      "used_set (heap_listp s) bs' = insert (r - 4, m) (used_set (heap_listp s) bs - {(p, n)})"
      "(r - 4, m) \<notin> used_set (heap_listp s) bs - {(p, n)}"
      "min sz (4 * n - 8) \<le> len" "len \<le> 4 * m - 8" "bytes s' = moved_bytes (bytes s) (p + 4) r len"
      unfolding grown_block_def by blast
    have h: "heap_ok 8 s' bs'" using g(1) by (simp add: mm_ok_def)
    have r: "(r - 4, m) \<in> used_set (heap_listp s') bs'" using g(2,4) by simp
    have apart: "q + 4 * k \<le> r - 4 \<or> r - 4 + 4 * m \<le> q"
      if "(q, k) \<in> used_set (heap_listp s) bs - {(p, n)}" for q k
    proof -
      have "(q, k) \<in> used_set (heap_listp s') bs'" using that g(2,4) by simp
      then show ?thesis
        using placed_apart [of q k True "heap_listp s'" bs' "r - 4" m True] r heap_ok_pos [OF h] that g(5)
        by (auto simp: used_set_placed)
    qed
    have "bytes s' (q + 4 + i) = bytes s (q + 4 + i)"
      if "(q, k) \<in> used_set (heap_listp s) bs - {(p, n)}" "0 \<le> i" "i < 4 * k - 8" for q k i
      using apart [OF that(1)] that(2,3) g(7) by (auto simp: g(8) moved_bytes_def)
    moreover have "bytes s' (r + i) = bytes s (p + 4 + i)" if "0 \<le> i" "i < min sz (4 * n - 8)" for i
    proof -
      have "i < len" using that(2) g(6) by linarith
      then show ?thesis using that(1) by (simp add: g(8) moved_bytes_def)
    qed
    moreover have "r mod 16 = 0" using used_set_aligned [OF h r] by simp
    ultimately show ?thesis using 2(1,2) g(1-4)
      by (intro exI [of _ r] exI [of _ s']) (auto intro!: exI [of _ m] exI [of _ bs'])
  qed auto
qed

lemma sample_block_exact:
  assumes "sz = 100 \<or> sz = 120"
  shows "\<exists>bs. mm_malloc sample_heap sz = Some (4112, sample_block sz) \<and> mm_ok (sample_block sz) bs \<and>
    used_set (heap_listp (sample_block sz)) bs = {(4108, 32)} \<and> heap_listp (sample_block sz) = 4108"
proof -
  obtain p n bs where b: "mm_malloc sample_heap sz = Some (p + 4, sample_block sz)"
    "mm_ok (sample_block sz) bs" "used_set (heap_listp (sample_block sz)) bs = {(p, n)}"
    using sample_block_ok [of sz] assms by auto
  have "map_option (\<lambda>(r, s). (r, blk_size s (r - 4), heap_listp s)) (mm_malloc sample_heap 100) = Some (4112, Some 32, 4108)"
    "map_option (\<lambda>(r, s). (r, blk_size s (r - 4), heap_listp s)) (mm_malloc sample_heap 120) = Some (4112, Some 32, 4108)"
    by code_simp+
  then have "p = 4108" "blk_size (sample_block sz) p = Some 32" "heap_listp (sample_block sz) = 4108"
    using b(1) assms by auto
  then show ?thesis using b used_blk_size [OF b(2), of p n] by auto
qed

theorem mm_realloc_correct_witness:
  "\<exists>r s'. mm_realloc (sample_block 100) 4112 300 = Some (r, s') \<and>
     (r \<noteq> NULL \<longrightarrow> r mod 16 = 0 \<and> (\<forall>i. 0 \<le> i \<and> i < 120 \<longrightarrow> bytes s' (r + i) = bytes (sample_block 100) (4112 + i)))"
proof -
  obtain bs where b: "mm_ok (sample_block 100) bs"
    "used_set (heap_listp (sample_block 100)) bs = {(4108, 32)}"
    using sample_block_exact [of 100] by auto
  have "\<not> grows_last_by_one (sample_block 100) bs 4108 32 300"
    by (simp add: grows_last_by_one_def words_for_def words_min_def)
  then show ?thesis
    using mm_realloc_correct [OF b(1), of 4108 32 300] b(2) by (auto split: if_splits)
qed

text \<open>
  C5: The case the code does not handle.  When the last block of the heap, with no free block before
  it, is to grow by exactly 16 bytes and the area has room, the extension is a free block of four
  words, which has no size class: \<open>mm_realloc\<close> fails the assertion in \<open>insert_free_block\<close>.
\<close>

theorem mm_realloc_aborts:
  assumes "mm_ok s bs" "(p, n) \<in> used_set (heap_listp s) bs" "0 < sz" "sz \<le> 2 ^ 31 - 24"
    "grows_last_by_one s bs p n sz"
  shows "mm_realloc s (p + 4) sz = None"
  using mm_realloc_cases [OF assms(1-4)] assms(5) by simp

theorem mm_realloc_aborts_witness:
  "mm_malloc sample_heap 120 = Some (4112, sample_block 120) \<and> mm_realloc (sample_block 120) 4112 136 = None"
proof -
  obtain bs where b: "mm_malloc sample_heap 120 = Some (4112, sample_block 120)"
    "mm_ok (sample_block 120) bs" "used_set (heap_listp (sample_block 120)) bs = {(4108, 32)}"
    "heap_listp (sample_block 120) = 4108"
    using sample_block_exact [of 120] by auto
  have "map_option (\<lambda>(r, s). (mem_brk (memsys s), mem_start_brk (memsys s))) (mm_malloc sample_heap 120) =
      Some (4240, 4096)" by code_simp
  then have m: "mem_brk (memsys (sample_block 120)) = 4240" "mem_start_brk (memsys (sample_block 120)) = 4096"
    using b(1) by auto
  have "heap_ok 8 (sample_block 120) bs" using b(2) by (simp add: mm_ok_def)
  then have "(4108 - 4 * k, k) \<notin> free_set (heap_listp (sample_block 120)) bs" for k
    using free_set_bounds [of "4108 - 4 * k" k 4108 bs] heap_ok_pos [of 8 "sample_block 120" bs] b(4) by auto
  then have "grows_last_by_one (sample_block 120) bs 4108 32 136"
    using m by (simp add: grows_last_by_one_def words_for_def words_min_def mem_heapsize_def u64_def MAX_HEAP_def)
  then show ?thesis
    using mm_realloc_aborts [OF b(2), of 4108 32 136] b(1,3) by simp
qed

end
