(* ===== verification/MM_Alloc.thy ===== *)
theory MM_Alloc
  imports MM_Realloc
begin

text \<open>
  The allocator of \<open>mm.c\<close> as an instance of the interface \<open>heap_alloc\<close>: the operations of
  \<open>MM\<close> with \<open>mem_reset_brk\<close> and the accessors of \<open>memlib.c\<close>.  It is not an instance of
  \<open>total_alloc\<close>, because \<open>mm_realloc\<close> may fail an assertion (\<open>mm_realloc_aborts\<close>).
\<close>

definition mm_ops :: "mm alloc_ops" where
  "mm_ops =
     \<lparr>op_reset = (\<lambda>s. s\<lparr>memsys := mem_reset_brk (memsys s)\<rparr>), op_init = mm_init,
      op_malloc = mm_malloc, op_free = mm_free, op_realloc = mm_realloc,
      op_memset = memset, op_byte = bytes,
      op_lo = (\<lambda>s. mem_heap_lo (memsys s)), op_hi = (\<lambda>s. mem_heap_hi (memsys s)),
      op_heapsize = (\<lambda>s. mem_heapsize (memsys s))\<rparr>"

definition mm_area :: "mm \<Rightarrow> bool" where
  "mm_area s \<longleftrightarrow> mem_ok (memsys s) \<and> mem_start_brk (memsys s) mod 16 = 0 \<and>
     length (mids s) = FREE_LISTS_SIZE \<and> array_apart s"

definition mm_live :: "mm \<Rightarrow> (ptr \<times> int) set \<Rightarrow> bool" where
  "mm_live s U \<longleftrightarrow> (\<exists>bs. mm_ok s bs \<and> U = payloads s bs)"

lemma mm_okD: "mm_ok s bs \<Longrightarrow> heap_ok 8 s bs" by (simp add: mm_ok_def)

lemma mm_ok_area:
  assumes "mm_ok s bs"
  shows "mm_area s"
proof -
  have "length (mids s) = FREE_LISTS_SIZE"
    using assms by (auto simp: mm_ok_def lists_ok_def lists_rep_def ranges_def FREE_LISTS_SIZE_def)
  then show ?thesis using assms heap_okD(1,2) [OF mm_okD [OF assms]] by (auto simp: mm_area_def mm_ok_def)
qed

interpretation mma: heap_alloc mm_ops mm_area mm_live
proof unfold_locales
  fix s :: mm assume a: "mm_area s"
  let ?s = "s\<lparr>memsys := mem_reset_brk (memsys s)\<rparr>"
  have "array_apart ?s" using a reset_area [of "memsys s"] by (simp add: mm_area_def array_apart_def)
  then obtain s' where "mm_init ?s = Some (0, s')" "mm_ok s' []"
    using mm_init_ok [of ?s] a reset_area [of "memsys s"] by (auto simp: mm_area_def)
  then show "\<exists>s'. op_init mm_ops (op_reset mm_ops s) = Some (0, s') \<and> mm_live s' {}"
    by (auto simp: mm_ops_def mm_live_def payloads_def intro!: exI [of _ "[]"])
next
  fix s :: mm and U assume "mm_live s U"
  then show "mm_area s" using mm_ok_area by (auto simp: mm_live_def)
next
  fix s :: mm and U p c assume "mm_live s U" "(p, c) \<in> U"
  then obtain bs where bs: "heap_ok 8 s bs" "(p, c) \<in> payloads s bs" by (auto simp: mm_live_def mm_ok_def)
  show "p \<noteq> NULL \<and> p mod 16 = 0 \<and> 0 < c \<and> op_lo mm_ops s \<le> p \<and> p + c - 1 \<le> op_hi mm_ops s"
    using payload_laws [OF bs(1) _ bs(2)] by (simp add: mm_ops_def)
next
  fix s :: mm and U p c q d assume a: "mm_live s U" "(p, c) \<in> U" "(q, d) \<in> U"
  then obtain bs where bs: "heap_ok 8 s bs" "U = payloads s bs" by (auto simp: mm_live_def mm_ok_def)
  show "p = q \<and> c = d \<or> p + c \<le> q \<or> q + d \<le> p"
    using a(2,3) bs(2) by (intro payloads_apart [OF heap_ok_pos [OF bs(1)]]) simp_all
next
  fix s :: mm and U and sz :: int
  assume "mm_live s U" and sz: "0 < sz" "sz \<le> max_request"
  then obtain bs where bs: "mm_ok s bs" "U = payloads s bs" by (auto simp: mm_live_def)
  show "\<exists>p s'. op_malloc mm_ops s sz = Some (p, s') \<and>
      (if p = NULL then s' = s
       else \<exists>c. sz \<le> c \<and> mm_live s' (insert (p, c) U) \<and> (p, c) \<notin> U \<and>
         same_payloads U (op_byte mm_ops s) (op_byte mm_ops s'))"
    using mm_malloc_ok [OF bs(1) sz(1) sz(2) [unfolded max_request_def]]
  proof (elim disjE exE conjE)
    fix p n s' bs'
    assume m: "mm_malloc s sz = Some (p + 4, s')" "mm_ok s' bs'" "words_for sz \<le> n" "p + 4 \<noteq> NULL"
      "heap_listp s' = heap_listp s" "bytes s' = bytes s"
      "used_set (heap_listp s) bs' = insert (p, n) (used_set (heap_listp s) bs)"
      "\<forall>(q, k)\<in>used_set (heap_listp s) bs. q + 4 * k \<le> p \<or> p + 4 * n \<le> q"
    have "payloads s' bs' = insert (p + 4, 4 * n - 8) U"
      using payloads_insert [of s' bs' p n s bs] m(5,7) bs(2) by simp
    moreover have "sz \<le> 4 * n - 8" using m(3) words_for(7) [of sz] sz by (simp add: max_request_def)
    moreover from this have "(p + 4, 4 * n - 8) \<notin> U" using m(8) sz(1) bs(2) by (fastforce simp: payloads_mem)
    ultimately show ?thesis using m(1,2,4,6)
      by (intro exI [of _ "p + 4"] exI [of _ s']) (auto simp: mm_ops_def mm_live_def)
  qed (auto simp: mm_ops_def)
next
  fix s :: mm and U p c assume "mm_live s U" "(p, c) \<in> U"
  then obtain bs n where bs: "mm_ok s bs" "U = payloads s bs" "c = 4 * n - 8" "(p - 4, n) \<in> used_set (heap_listp s) bs"
    by (auto simp: mm_live_def payloads_mem)
  obtain s' bs' where f: "mm_free s p = Some s'" "mm_ok s' bs'" "bytes s' = bytes s" "heap_listp s' = heap_listp s"
    "used_set (heap_listp s) bs' = used_set (heap_listp s) bs - {(p - 4, n)}"
    using mm_free_used [OF bs(1,4)] by auto
  have "payloads s' bs' = U - {(p, c)}"
    using payloads_remove [of s' bs' s bs "p - 4" n] f(4,5) bs(2,3) by simp
  then show "\<exists>s'. op_free mm_ops s p = Some s' \<and> mm_live s' (U - {(p, c)}) \<and>
      same_payloads (U - {(p, c)}) (op_byte mm_ops s) (op_byte mm_ops s')"
    using f(1-3) by (auto simp: mm_ops_def mm_live_def)
next
  fix s :: mm and U p c b and n :: int assume "mm_live s U" "(p, c) \<in> U" and n: "0 \<le> n" "n \<le> c"
  then obtain bs where bs: "mm_ok s bs" "heap_ok 8 s bs" "U = payloads s bs" "(p, c) \<in> payloads s bs"
    by (auto simp: mm_live_def mm_ok_def)
  then show "\<exists>s'. op_memset mm_ops s p b n = Some s' \<and> mm_live s' U \<and>
      (\<forall>x. op_byte mm_ops s' x = (if p \<le> x \<and> x < p + n then b mod 256 else op_byte mm_ops s x))"
    using memset_eq [OF bs(2,4) n] bs(1,3) by (auto simp: mm_ops_def mm_live_def)
next
  fix s :: mm and U p c and sz r s'
  assume "mm_live s U" "(p, c) \<in> U" and sz: "0 < sz" "sz \<le> max_request"
  then obtain bs n where bs: "mm_ok s bs" "U = payloads s bs" "c = 4 * n - 8" "(p - 4, n) \<in> used_set (heap_listp s) bs"
    by (auto simp: mm_live_def payloads_mem)
  have sz': "sz \<le> 2 ^ 31 - 24" using sz(2) by (simp add: max_request_def)
  note R = mm_realloc_cases [OF bs(1,4) sz(1) sz', simplified]
  assume r: "op_realloc mm_ops s p sz = Some (r, s')"
  show "if r = NULL then s' = s
    else \<exists>d. sz \<le> d \<and> mm_live s' (insert (r, d) (U - {(p, c)})) \<and> (r, d) \<notin> U - {(p, c)} \<and>
      (\<forall>i. 0 \<le> i \<and> i < min sz c \<longrightarrow> op_byte mm_ops s' (r + i) = op_byte mm_ops s (p + i)) \<and>
      same_payloads (U - {(p, c)}) (op_byte mm_ops s) (op_byte mm_ops s')"
  proof (cases "r = NULL")
    case False
    then have "grown_block s bs (p - 4) n sz r s'"
      using R r by (auto simp: mm_ops_def split: if_splits)
    then obtain m bs' len where g: "mm_ok s' bs'" "sz \<le> 4 * m - 8" "heap_listp s' = heap_listp s"
      "used_set (heap_listp s) bs' = insert (r - 4, m) (used_set (heap_listp s) bs - {(p - 4, n)})"
      "(r - 4, m) \<notin> used_set (heap_listp s) bs - {(p - 4, n)}"
      "min sz c \<le> len" "len \<le> 4 * m - 8" "bytes s' = moved_bytes (bytes s) p r len"
      using bs(3) unfolding grown_block_def by auto
    show ?thesis
      using False g(1,2) payloads_moved [OF mm_okD [OF g(1)] _ g(3-8) bs(2,3)]
      by (auto simp: mm_ops_def mm_live_def intro!: exI [of _ "4 * m - 8"] exI [of _ bs'])
  qed (use R r in \<open>auto simp: mm_ops_def split: if_splits\<close>)
qed

end
