(* ===== verification/Implicit.thy ===== *)
theory Implicit
  imports Blocks
begin

text \<open>
  The reference allocator of \<open>malloclab/mm-gback-implicit.c\<close>: one implicit list of blocks with
  boundary tags, first fit.  Its helper functions on tags have the text of those of \<open>mm.c\<close> and
  are those of \<open>BTag\<close>; the functions that differ carry the suffix \<open>_gb\<close>.  Blocks have at least
  four words, and a first free block of \<open>CHUNKSIZE\<close> words is made by \<open>mm_init\<close>.
\<close>

definition MIN_BLOCK_SIZE_WORDS_gb :: int where "MIN_BLOCK_SIZE_WORDS_gb = 4"
definition CHUNKSIZE_gb :: int where "CHUNKSIZE_gb = 1024"

definition coalesce_gb :: "heap \<Rightarrow> ptr \<Rightarrow> (ptr \<times> heap) option" where
  "coalesce_gb h bp = do {
     pf \<leftarrow> load_tag h (prev_blk_footer bp);
     let prev_alloc = (inuse pf \<noteq> 0);
     nb \<leftarrow> next_blk h bp;
     nf \<leftarrow> blk_free h nb;
     let next_alloc = (\<not> nf);
     sz \<leftarrow> blk_size h bp;
     if prev_alloc \<and> next_alloc then Some (bp, h)
     else if prev_alloc \<and> \<not> next_alloc then do {
       nb \<leftarrow> next_blk h bp;
       nsz \<leftarrow> blk_size h nb;
       h \<leftarrow> mark_block_free h bp (u64 (sz + nsz));
       Some (bp, h)
     } else if \<not> prev_alloc \<and> next_alloc then do {
       bp \<leftarrow> prev_blk h bp;
       psz \<leftarrow> blk_size h bp;
       h \<leftarrow> mark_block_free h bp (u64 (sz + psz));
       Some (bp, h)
     } else do {
       pb \<leftarrow> prev_blk h bp;
       nb \<leftarrow> next_blk h bp;
       nsz \<leftarrow> blk_size h nb;
       psz \<leftarrow> blk_size h pb;
       h \<leftarrow> mark_block_free h pb (u64 (sz + nsz + psz));
       bp \<leftarrow> prev_blk h bp;
       Some (bp, h)
     }
   }"

definition extend_heap_gb :: "heap \<Rightarrow> int \<Rightarrow> (ptr \<times> heap) option" where
  "extend_heap_gb h words =
     (let (bp, ms) = mem_sbrk (memsys h) (s32 (u64 (words * WSIZE))); h = h\<lparr>memsys := ms\<rparr>
      in if bp = NULL then Some (NULL, h)
         else do {
           let blk = bp - WSIZE;
           h \<leftarrow> mark_block_free h blk words;
           nb \<leftarrow> next_blk h blk;
           h \<leftarrow> store_tag h nb FENCE;
           coalesce_gb h blk
         })"

definition mm_init_gb :: "heap \<Rightarrow> (int \<times> heap) option" where
  "mm_init_gb h =
     (let (initial, ms) = mem_sbrk (memsys h) (s32 (4 * WSIZE)); h = h\<lparr>memsys := ms\<rparr>
      in if initial = NULL then Some (- 1, h)
         else do {
           h \<leftarrow> store_tag h (initial + 2 * WSIZE) FENCE;
           let h = h\<lparr>heap_listp := initial + 3 * WSIZE\<rparr>;
           h \<leftarrow> store_tag h (initial + 3 * WSIZE) FENCE;
           (bp, h) \<leftarrow> extend_heap_gb h CHUNKSIZE_gb;
           if bp = NULL then Some (- 1, h) else Some (0, h)
         })"

partial_function (option) find_fit_loop_gb :: "heap \<Rightarrow> int \<Rightarrow> ptr \<Rightarrow> ptr option" where
  "find_fit_loop_gb h asize bp = do {
     w \<leftarrow> blk_size h bp;
     if w > 0 then do {
       f \<leftarrow> blk_free h bp;
       if f \<and> asize \<le> w then Some bp
       else do { nb \<leftarrow> next_blk h bp; find_fit_loop_gb h asize nb }
     } else Some NULL
   }"

declare find_fit_loop_gb.simps [code]

definition find_fit_gb :: "heap \<Rightarrow> int \<Rightarrow> ptr option" where
  "find_fit_gb h asize = find_fit_loop_gb h asize (heap_listp h)"

definition place_gb :: "heap \<Rightarrow> ptr \<Rightarrow> int \<Rightarrow> heap option" where
  "place_gb h bp asize = do {
     csize \<leftarrow> blk_size h bp;
     if u64 (csize - asize) \<ge> MIN_BLOCK_SIZE_WORDS_gb then do {
       h \<leftarrow> mark_block_used h bp asize;
       bp \<leftarrow> next_blk h bp;
       mark_block_free h bp (u64 (csize - asize))
     } else mark_block_used h bp csize
   }"

definition mm_malloc_gb :: "heap \<Rightarrow> int \<Rightarrow> (ptr \<times> heap) option" where
  "mm_malloc_gb h sz =
     (if sz = 0 then Some (NULL, h)
      else let bsize = align (u64 (sz + 2 * WSIZE)) in
      if bsize < sz then Some (NULL, h)
      else do {
        let awords = max_size MIN_BLOCK_SIZE_WORDS_gb (bsize div WSIZE);
        bp \<leftarrow> find_fit_gb h awords;
        if bp \<noteq> NULL then do {
          h \<leftarrow> place_gb h bp awords;
          Some (bp + 4, h)
        } else do {
          let extendwords = max_size awords CHUNKSIZE_gb;
          (bp, h) \<leftarrow> extend_heap_gb h extendwords;
          if bp = NULL then Some (NULL, h)
          else do {
            h \<leftarrow> place_gb h bp awords;
            Some (bp + 4, h)
          }
        }
      })"

definition mm_free_gb :: "heap \<Rightarrow> ptr \<Rightarrow> heap option" where
  "mm_free_gb h bp = do {
     assert_c (heap_listp h \<noteq> NULL);
     if bp = NULL then Some h
     else do {
       let blk = bp - 4;
       sz \<leftarrow> blk_size h blk;
       h \<leftarrow> mark_block_free h blk sz;
       (_, h) \<leftarrow> coalesce_gb h blk;
       Some h
     }
   }"

definition mm_realloc_gb :: "heap \<Rightarrow> ptr \<Rightarrow> int \<Rightarrow> (ptr \<times> heap) option" where
  "mm_realloc_gb h ptr sz =
     (if sz = 0 then do { h \<leftarrow> mm_free_gb h ptr; Some (NULL, h) }
      else if ptr = NULL then mm_malloc_gb h sz
      else do {
        (newptr, h) \<leftarrow> mm_malloc_gb h sz;
        if newptr = NULL then Some (NULL, h)
        else do {
          oldsz \<leftarrow> blk_size h (ptr - 4);
          let oldpayloadsize = u64 (oldsz * WSIZE - 2 * WSIZE);
          let oldpayloadsize = (if sz < oldpayloadsize then sz else oldpayloadsize);
          h \<leftarrow> memcpy h newptr ptr oldpayloadsize;
          h \<leftarrow> mm_free_gb h ptr;
          Some (newptr, h)
        }
      })"

subsection \<open>Coalescing\<close>

lemma mark_free_merge:
  assumes "heap_ok 4 h (us @ ms @ vs)" "p = heap_listp h + span us" "span ms = 4 * n" "4 \<le> n" "4 dvd n"
  shows "mark_block_free h p n = Some (set_block h p n False) \<and>
    heap_ok 4 (set_block h p n False) (us @ (n, False) # vs)"
proof -
  have "mark_block_free h p n = Some (set_block h p n False)"
    using block_tag_addr [OF assms(1,2), of n] assms(3,4) by (intro mark_block_eq) auto
  moreover have "heap_ok 4 (set_block h p n False) (us @ (n, False) # vs)"
    using assms(2-5) by (intro heap_ok_retag [OF assms(1)]) auto
  ultimately show ?thesis by blast
qed

lemma coalesce_gb_ok:
  assumes h: "heap_ok 4 h (us @ (n, False) # vs)" and p: "p = heap_listp h + span us"
  shows "\<exists>t. coalesce_gb h p = Some (heap_listp h + span (left_rest us), h\<lparr>tags := t\<rparr>) \<and>
    heap_ok 4 (h\<lparr>tags := t\<rparr>) (merged us n vs)"
proof -
  have pos: "pos_blocks us" "pos_blocks vs" "0 < n" using heap_ok_pos [OF h] by auto
  have n: "4 \<le> n" "4 dvd n" using heap_ok_sizes [OF h, of n False] by auto
  note at = at_block [OF h p, simplified]
  have sp: "span us + 4 * n + span vs + 16 \<le> MAX_HEAP" "0 \<le> span us" "0 \<le> span vs"
    using heap_ok_parts [OF h] pos_span pos by auto
  show ?thesis
  proof (cases us rule: free_lastE)
    case (free us' k)
    note L = this
    have k: "4 \<le> k" "4 dvd k" using heap_ok_sizes [OF h, of k False] L by auto
    define q where "q = p - 4 * k"
    have q: "prev_blk h p = Some q" "q = heap_listp h + span us'"
      using at(5) L p by (auto simp: q_def)
    have hq: "heap_ok 4 h (us' @ (k, False) # (n, False) # vs)" using h L by simp
    have bq: "blk_size h q = Some k" by (rule at_block(1) [OF hq q(2)]) simp
    have us': "0 \<le> span us'" using pos pos_span L by auto
    show ?thesis
    proof (cases vs rule: free_firstE)
      case (free vs' j)
      note R = this
      have j: "4 \<le> j" "4 dvd j" using heap_ok_sizes [OF h, of j False] R by auto
      define w where "w = n + j + k"
      have "0 \<le> span vs'" using pos_span pos R by auto
      then have w: "u64 w = w" "4 \<le> w" "4 dvd w"
        using n j k sp us' L R by (auto simp: w_def u64_def MAX_HEAP_def)
      have f: "mark_block_free h q w = Some (set_block h q w False) \<and>
          heap_ok 4 (set_block h q w False) (us' @ (w, False) # vs')"
        using mark_free_merge [of h us' "[(k, False), (n, False), (j, False)]" vs' q w] h L R q(2) w
        by (auto simp: w_def algebra_simps)
      have "prev_blk (set_block h q w False) p = Some q"
        using q(1) k j n by (subst prev_blk_set_block) (auto simp: q_def w_def)
      then have "coalesce_gb h p = Some (q, set_block h q w False)"
        using at(1-4,6-) L(4) R f w(1) q(1) bq by (simp add: coalesce_gb_def Let_def w_def)
      moreover have "merged us n vs = us' @ (w, False) # vs'"
        using L R by (simp add: merged_def w_def)
      ultimately show ?thesis using f q(2) L(2) by (auto simp: set_block_def)
    next
      case used
      note R = this
      define w where "w = n + k"
      have w: "u64 w = w" "4 \<le> w" "4 dvd w"
        using n k sp us' L by (auto simp: w_def u64_def MAX_HEAP_def)
      have f: "mark_block_free h q w = Some (set_block h q w False) \<and>
          heap_ok 4 (set_block h q w False) (us' @ (w, False) # vs)"
        using mark_free_merge [of h us' "[(k, False), (n, False)]" vs q w] h L q(2) w
        by (auto simp: w_def algebra_simps)
      have "coalesce_gb h p = Some (q, set_block h q w False)"
        using at(1-4,6-) L(4) R f w(1) q(1) bq by (simp add: coalesce_gb_def Let_def w_def)
      moreover have "merged us n vs = us' @ (w, False) # vs"
        using L R by (simp add: merged_def w_def)
      ultimately show ?thesis using f q(2) L(2) by (auto simp: set_block_def)
    qed
  next
    case used
    note L = this
    show ?thesis
    proof (cases vs rule: free_firstE)
      case (free vs' j)
      note R = this
      have j: "4 \<le> j" "4 dvd j" using heap_ok_sizes [OF h, of j False] R by auto
      define w where "w = n + j"
      have "0 \<le> span vs'" using pos_span pos R by auto
      then have w: "u64 w = w" "4 \<le> w" "4 dvd w"
        using n j sp R by (auto simp: w_def u64_def MAX_HEAP_def)
      have f: "mark_block_free h p w = Some (set_block h p w False) \<and>
          heap_ok 4 (set_block h p w False) (us @ (w, False) # vs')"
        using mark_free_merge [of h us "[(n, False), (j, False)]" vs' p w] h R p w
        by (auto simp: w_def algebra_simps)
      have "coalesce_gb h p = Some (p, set_block h p w False)"
        using at(1-4,6-) L(3) R f w(1) by (simp add: coalesce_gb_def Let_def w_def)
      moreover have "merged us n vs = us @ (w, False) # vs'"
        using L R by (simp add: merged_def w_def)
      ultimately show ?thesis using f p L(1) by (auto simp: set_block_def)
    next
      case used
      note R = this
      have "coalesce_gb h p = Some (p, h\<lparr>tags := tags h\<rparr>)"
        using at(1-4,6-) L(3) R(3) by (simp add: coalesce_gb_def Let_def)
      moreover have "merged us n vs = us @ (n, False) # vs"
        using L R by (simp add: merged_def)
      ultimately show ?thesis using h p L(1) by (intro exI [of _ "tags h"]) simp
    qed
  qed
qed

subsection \<open>Search, placement and growth\<close>

definition imp_ok :: "heap \<Rightarrow> block list \<Rightarrow> bool" where
  "imp_ok h bs \<longleftrightarrow> heap_ok 4 h bs \<and> coalesced bs"

text \<open>What the first-fit search returns, by recursion on the blocks.\<close>

fun first_fit :: "int \<Rightarrow> ptr \<Rightarrow> block list \<Rightarrow> ptr" where
  "first_fit asize a [] = NULL"
| "first_fit asize a ((n, u) # bs) = (if \<not> u \<and> asize \<le> n then a else first_fit asize (a + 4 * n) bs)"

lemma find_fit_loop_gb_eq:
  assumes "heap_ok 4 h (us @ vs)"
  shows "find_fit_loop_gb h asize (heap_listp h + span us) = Some (first_fit asize (heap_listp h + span us) vs)"
  using assms
proof (induction vs arbitrary: us)
  case Nil
  then have "load_tag h (heap_listp h + span us) = Some FENCE"
    using load_next_tag [of 4 h us "[]"] by simp
  then show ?case by (subst find_fit_loop_gb.simps) (simp add: blk_size_def u64_def)
next
  case (Cons b vs)
  obtain n u where b: "b = (n, u)" by (cases b)
  have h: "heap_ok 4 h (us @ (n, u) # vs)" using Cons.prems b by simp
  have "0 < n" using heap_ok_pos [OF h] by simp
  moreover have "find_fit_loop_gb h asize (heap_listp h + span us + 4 * n) =
      Some (first_fit asize (heap_listp h + span us + 4 * n) vs)"
    using Cons.IH [of "us @ [(n, u)]"] h by (simp add: add.assoc)
  ultimately show ?case
    using at_block(1,2,6) [OF h refl] b
    by (subst find_fit_loop_gb.simps) simp
qed

lemma first_fit_sound:
  "first_fit asize a bs = p \<Longrightarrow> p \<noteq> NULL \<Longrightarrow> \<exists>n. asize \<le> n \<and> (p, n) \<in> free_set a bs"
  by (induction asize a bs rule: first_fit.induct) (auto split: if_splits)

lemma first_fit_complete:
  "first_fit asize a bs = NULL \<Longrightarrow> 0 < a \<Longrightarrow> pos_blocks bs \<Longrightarrow> (p, n) \<in> free_set a bs \<Longrightarrow> n < asize"
  by (induction asize a bs rule: first_fit.induct) (auto split: if_splits)

lemma place_gb_ok:
  assumes h: "heap_ok 4 h (us @ (n, False) # vs)" and p: "p = heap_listp h + span us"
    and asz: "4 \<le> asize" "asize \<le> n" "4 dvd asize"
  shows "\<exists>t. place_gb h p asize = Some (h\<lparr>tags := t\<rparr>) \<and>
    heap_ok 4 (h\<lparr>tags := t\<rparr>) (us @ placed_blocks 4 n asize @ vs)"
proof -
  have n: "4 \<le> n" "4 dvd n" "4 * n + 16 \<le> MAX_HEAP" using heap_ok_sizes [OF h, of n False] by auto
  have bs: "blk_size h p = Some n" by (rule at_block(1) [OF h p]) simp
  have h': "heap_ok 4 h (us @ [(n, False)] @ vs)" using h by simp
  have ta: "tag_addr h p" "tag_addr h (p + 4 * k - 4)" "k < 2 ^ 30" if "0 < k" "k \<le> n" for k
    using block_tag_addr [OF h' p, of k] that by auto
  have u: "u64 (n - asize) = n - asize" using asz n by (simp add: u64_def MAX_HEAP_def)
  show ?thesis
  proof (cases "4 \<le> n - asize")
    case True
    define r where "r = n - asize"
    have r: "4 \<le> r" "n = asize + r" using True by (auto simp: r_def)
    let ?s1 = "set_block h p asize True"
    let ?s2 = "set_block ?s1 (p + 4 * asize) r False"
    have m1: "mark_block_used h p asize = Some ?s1"
      using ta [of asize] asz by (intro mark_block_eq) auto
    have "load_tag ?s1 p = Some (btag asize True)"
      using ta [of asize] asz by (simp add: load_tag_def put_tags_def)
    then have nx: "next_blk ?s1 p = Some (p + 4 * asize)"
      using asz n by (simp add: next_blk_def blk_size_def WSIZE_def u64_def MAX_HEAP_def)
    have m2: "mark_block_free ?s1 (p + 4 * asize) r = Some ?s2"
      using ta [of "asize + 1"] ta [of n] ta [of r] asz r by (intro mark_block_eq) (auto simp: algebra_simps)
    have h2: "heap_ok 4 ?s2 (us @ (asize, True) # (r, False) # vs)"
      using heap_ok_split [of 4 h us asize r False vs p True False] h p asz r by simp
    have "place_gb h p asize = Some ?s2"
      using bs u r m1 nx m2 by (simp add: place_gb_def MIN_BLOCK_SIZE_WORDS_gb_def)
    then show ?thesis using h2 r by (auto simp: placed_blocks_def set_block_def)
  next
    case False
    let ?s1 = "set_block h p n True"
    have m1: "mark_block_used h p n = Some ?s1"
      using ta [of n] n by (intro mark_block_eq) auto
    have h2: "heap_ok 4 ?s1 (us @ (n, True) # vs)"
      using n p by (intro heap_ok_retag [OF h']) auto
    have "place_gb h p asize = Some ?s1"
      using bs u False m1 by (simp add: place_gb_def MIN_BLOCK_SIZE_WORDS_gb_def)
    then show ?thesis using h2 False by (auto simp: placed_blocks_def set_block_def)
  qed
qed

lemma place_imp_ok:
  assumes ok: "imp_ok h bs" and p: "(p, n) \<in> free_set (heap_listp h) bs"
    and w: "4 \<le> w" "w \<le> n" "4 dvd w"
  shows "\<exists>t bs' k. place_gb h p w = Some (h\<lparr>tags := t\<rparr>) \<and> imp_ok (h\<lparr>tags := t\<rparr>) bs' \<and>
    w \<le> k \<and> used_set (heap_listp h) bs' = insert (p, k) (used_set (heap_listp h) bs) \<and>
    (\<forall>(q, j)\<in>used_set (heap_listp h) bs. q + 4 * j \<le> p \<or> p + 4 * k \<le> q)"
proof -
  have h: "heap_ok 4 h bs" and c: "coalesced bs" using ok by (auto simp: imp_ok_def)
  obtain us vs where bs: "bs = us @ (n, False) # vs" "p = heap_listp h + span us"
    using p by (auto simp: free_set_placed placed_in)
  obtain t where t: "place_gb h p w = Some (h\<lparr>tags := t\<rparr>)"
    "heap_ok 4 (h\<lparr>tags := t\<rparr>) (us @ placed_blocks 4 n w @ vs)"
    using place_gb_ok [of h us n vs p w] h w bs by auto
  have "imp_ok (h\<lparr>tags := t\<rparr>) (us @ placed_blocks 4 n w @ vs)"
    using t(2) c coalesced_placed [of us n vs] bs(1) by (simp add: imp_ok_def)
  then show ?thesis
    using t(1) placed_used [OF heap_ok_pos [OF h] bs(1,2) w(2)] by fastforce
qed

lemma extend_heap_gb_ok:
  assumes ok: "imp_ok h bs" and w: "4 \<le> w" "4 dvd w" "4 * w < 2 ^ 31"
  shows "if mem_heapsize (memsys h) + 4 * w > MAX_HEAP then extend_heap_gb h w = Some (NULL, h)
    else \<exists>t p n. let h' = grown h w\<lparr>tags := t\<rparr>
      in extend_heap_gb h w = Some (p, h') \<and> imp_ok h' (merged bs w []) \<and> p \<noteq> NULL \<and>
        (p, n) \<in> free_set (heap_listp h) (merged bs w []) \<and> w \<le> n \<and>
        used_set (heap_listp h) (merged bs w []) = used_set (heap_listp h) bs"
proof -
  have h: "heap_ok 4 h bs" and c: "coalesced bs" using ok by (auto simp: imp_ok_def)
  have i: "s32 (u64 (w * WSIZE)) = 4 * w" using w by (simp add: WSIZE_def u64_def s32_def)
  show ?thesis
  proof (cases "mem_heapsize (memsys h) + 4 * w > MAX_HEAP")
    case True
    then show ?thesis using sbrk_fails [OF h True] i by (simp add: extend_heap_gb_def)
  next
    case False
    define q where "q = heap_listp h + span bs"
    obtain t where g: "mem_sbrk (memsys h) (4 * w) = (q + 4, memsys (grown h w))" "q + 4 \<noteq> NULL"
      "mark_block_free (grown h w) q w = Some (set_block (grown h w) q w False)"
      "next_blk (set_block (grown h w) q w False) q = Some (q + 4 * w)"
      "store_tag (set_block (grown h w) q w False) (q + 4 * w) FENCE = Some (grown h w\<lparr>tags := t\<rparr>)"
      "heap_ok 4 (grown h w\<lparr>tags := t\<rparr>) (bs @ (w, False) # [])"
      using grow_ok [OF h _ w(1,2)] False by (auto simp: q_def)
    obtain t' where t': "coalesce_gb (grown h w\<lparr>tags := t\<rparr>) q = Some (heap_listp h + span (left_rest bs), grown h w\<lparr>tags := t'\<rparr>)"
      "heap_ok 4 (grown h w\<lparr>tags := t'\<rparr>) (merged bs w [])"
      using coalesce_gb_ok [OF g(6), of q] by (auto simp: q_def)
    have e: "extend_heap_gb h w = Some (heap_listp h + span (left_rest bs), grown h w\<lparr>tags := t'\<rparr>)"
      using g(1-5) t'(1) i by (simp add: extend_heap_gb_def WSIZE_def grown_def [symmetric])
    have pos: "pos_blocks bs" "12 < heap_listp h"
      using heap_ok_pos [OF h] heap_ok_parts [of 4 h bs "[]"] h by auto
    have m: "(heap_listp h + span (left_rest bs), left_words bs + w) \<in> free_set (heap_listp h) (merged bs w [])"
      "0 \<le> left_words bs" "heap_listp h + span (left_rest bs) \<noteq> NULL"
      using pos pos_span [of "left_rest bs"]
      by (cases bs rule: free_lastE; auto simp: merged_def right_words_def free_first_def)+
    have "imp_ok (grown h w\<lparr>tags := t'\<rparr>) (merged bs w [])"
      using t'(2) coalesced_merged [OF c, of "[]"] by (simp add: imp_ok_def coalesced_def)
    then show ?thesis
      using False e m unfolding Let_def
      by (simp add: merged_used) (intro exI [of _ t'], auto intro: exI [of _ "left_words bs + w"])
  qed
qed

subsection \<open>The interface\<close>

lemma words_gb:
  assumes "0 < sz" "sz \<le> 2 ^ 31 - 24"
  shows "align (u64 (sz + 2 * WSIZE)) = 16 * ((sz + 23) div 16)"
    "max_size MIN_BLOCK_SIZE_WORDS_gb (16 * ((sz + 23) div 16) div WSIZE) = words_min 4 sz"
    "\<not> 16 * ((sz + 23) div 16) < sz" "4 \<le> words_min 4 sz" "4 dvd words_min 4 sz"
    "4 * words_min 4 sz < 2 ^ 31" "sz \<le> 4 * words_min 4 sz - 8"
  using words_min [OF assms, of 4] by (simp_all add: MIN_BLOCK_SIZE_WORDS_gb_def)

lemma mm_malloc_gb_ok:
  assumes ok: "imp_ok h bs" and sz: "0 < sz" "sz \<le> 2 ^ 31 - 24"
  shows "(mm_malloc_gb h sz = Some (NULL, h) \<and>
      MAX_HEAP < mem_heapsize (memsys h) + 4 * max (words_min 4 sz) 1024 \<and>
      (\<forall>(q, k)\<in>free_set (heap_listp h) bs. k < words_min 4 sz)) \<or>
    (\<exists>p n h' bs'. mm_malloc_gb h sz = Some (p + 4, h') \<and> imp_ok h' bs' \<and>
      words_min 4 sz \<le> n \<and> p + 4 \<noteq> NULL \<and> heap_listp h' = heap_listp h \<and> bytes h' = bytes h \<and>
      used_set (heap_listp h) bs' = insert (p, n) (used_set (heap_listp h) bs) \<and>
      (\<forall>(q, k)\<in>used_set (heap_listp h) bs. q + 4 * k \<le> p \<or> p + 4 * n \<le> q))"
proof -
  note w = words_gb [OF sz]
  define w where "w = words_min 4 sz"
  have h: "heap_ok 4 h bs" using ok by (simp add: imp_ok_def)
  have pos: "pos_blocks bs" "0 < heap_listp h"
    using heap_ok_pos [OF h] heap_ok_parts [of 4 h bs "[]"] h by auto
  define p where "p = first_fit w (heap_listp h) bs"
  have "find_fit_gb h w = Some p"
    using find_fit_loop_gb_eq [of h "[]" bs w] h by (simp add: find_fit_gb_def p_def)
  then have start: "mm_malloc_gb h sz = (if p \<noteq> NULL
      then do { h \<leftarrow> place_gb h p w; Some (p + 4, h) }
      else do {
        (bp, h) \<leftarrow> extend_heap_gb h (max_size w CHUNKSIZE_gb);
        if bp = NULL then Some (NULL, h)
        else do { h \<leftarrow> place_gb h bp w; Some (bp + 4, h) }
      })"
    using sz w(1-3) [folded w_def] by (simp add: mm_malloc_gb_def Let_def)
  have fresh: "p' + 4 \<noteq> NULL" if "imp_ok h' bs'" "(p', n) \<in> used_set (heap_listp h') bs'" for h' bs' p' n
    using used_set_aligned [of 4 h' bs' p' n] that
    by (auto simp: imp_ok_def heap_ok_def mem_ok_def mem_heap_lo_def)
  show ?thesis
  proof (cases "p = NULL")
    case False
    then obtain n where n: "w \<le> n" "(p, n) \<in> free_set (heap_listp h) bs"
      using first_fit_sound p_def by blast
    obtain t bs' k where t: "place_gb h p w = Some (h\<lparr>tags := t\<rparr>)"
      "imp_ok (h\<lparr>tags := t\<rparr>) bs'" "w \<le> k"
      "used_set (heap_listp h) bs' = insert (p, k) (used_set (heap_listp h) bs)"
      "\<forall>(q, j)\<in>used_set (heap_listp h) bs. q + 4 * j \<le> p \<or> p + 4 * k \<le> q"
      using place_imp_ok [OF ok n(2) _ n(1)] w(4,5) w_def by blast
    have "p + 4 \<noteq> NULL" by (rule fresh [OF t(2), of p k]) (use t(4) in simp)
    then show ?thesis using False start t
      by (intro disjI2 exI [of _ p] exI [of _ k] exI [of _ "h\<lparr>tags := t\<rparr>"] exI [of _ bs'])
        (simp add: w_def)
  next
    case True
    have mx: "max_size w CHUNKSIZE_gb = max w 1024"
      by (simp add: max_size_def CHUNKSIZE_gb_def)
    define e where "e = max w 1024"
    have e: "4 \<le> e" "4 dvd e" "4 * e < 2 ^ 31" "w \<le> e"
      using w by (auto simp: e_def w_def max_def)
    show ?thesis
    proof (cases "mem_heapsize (memsys h) + 4 * e > MAX_HEAP")
      case full: True
      then have "extend_heap_gb h e = Some (NULL, h)" using extend_heap_gb_ok [OF ok e(1-3)] by simp
      moreover have "\<forall>(q, k)\<in>free_set (heap_listp h) bs. k < w"
        using first_fit_complete [of w "heap_listp h" bs] True pos by (auto simp: p_def)
      ultimately show ?thesis using True start mx full by (simp add: e_def w_def)
    next
      case False
      then obtain t q n where g: "extend_heap_gb h e = Some (q, grown h e\<lparr>tags := t\<rparr>)"
        "imp_ok (grown h e\<lparr>tags := t\<rparr>) (merged bs e [])" "q \<noteq> NULL"
        "(q, n) \<in> free_set (heap_listp h) (merged bs e [])" "e \<le> n"
        "used_set (heap_listp h) (merged bs e []) = used_set (heap_listp h) bs"
        using extend_heap_gb_ok [OF ok e(1-3)] by (auto simp: Let_def)
      let ?g = "grown h e\<lparr>tags := t\<rparr>"
      obtain t' bs' k where t: "place_gb ?g q w = Some (?g\<lparr>tags := t'\<rparr>)"
        "imp_ok (?g\<lparr>tags := t'\<rparr>) bs'" "w \<le> k"
        "used_set (heap_listp h) bs' = insert (q, k) (used_set (heap_listp h) bs)"
        "\<forall>(r, j)\<in>used_set (heap_listp h) bs. r + 4 * j \<le> q \<or> q + 4 * k \<le> r"
        using place_imp_ok [OF g(2), of q n w] g(4,5,6) w(4,5) e(4) w_def by auto
      have "q + 4 \<noteq> NULL" by (rule fresh [OF t(2), of q k]) (use t(4) in simp)
      moreover have "mm_malloc_gb h sz = Some (q + 4, ?g\<lparr>tags := t'\<rparr>)"
        using start True mx g(1,3) t(1) by (simp add: e_def)
      ultimately show ?thesis using t(2-5)
        by (intro disjI2 exI [of _ q] exI [of _ k] exI [of _ "?g\<lparr>tags := t'\<rparr>"] exI [of _ bs'])
          (simp add: w_def)
    qed
  qed
qed

lemma mm_free_gb_ok:
  assumes ok: "imp_ok h bs" and u: "(p, n) \<in> used_set (heap_listp h) bs"
  shows "\<exists>t bs'. mm_free_gb h (p + 4) = Some (h\<lparr>tags := t\<rparr>) \<and> imp_ok (h\<lparr>tags := t\<rparr>) bs' \<and>
    used_set (heap_listp h) bs' = used_set (heap_listp h) bs - {(p, n)}"
proof -
  obtain us vs where bs: "bs = us @ (n, True) # vs" and p: "p = heap_listp h + span us"
    using u by (auto simp: used_set_placed placed_in)
  have h: "heap_ok 4 h (us @ (n, True) # vs)" and c: "coalesced (us @ (n, True) # vs)"
    using ok bs by (auto simp: imp_ok_def)
  have h': "heap_ok 4 h (us @ [(n, True)] @ vs)" using h by simp
  have n: "4 \<le> n" "4 dvd n" using heap_ok_sizes [OF h, of n True] by auto
  have hp: "heap_listp h \<noteq> NULL" "p + 4 \<noteq> NULL" using heap_ok_parts [OF h] p by auto
  have bz: "blk_size h p = Some n" by (rule at_block(1) [OF h p]) simp
  have m: "mark_block_free h p n = Some (set_block h p n False) \<and>
      heap_ok 4 (set_block h p n False) (us @ (n, False) # vs)"
    using n by (intro mark_free_merge [OF h' p]) auto
  have e: "(set_block h p n False)\<lparr>tags := t\<rparr> = h\<lparr>tags := t\<rparr>" for t by (simp add: set_block_def)
  obtain t where t: "coalesce_gb (set_block h p n False) p =
      Some (heap_listp h + span (left_rest us), h\<lparr>tags := t\<rparr>)"
    "heap_ok 4 (h\<lparr>tags := t\<rparr>) (merged us n vs)"
    using coalesce_gb_ok [OF conjunct2 [OF m], of p, unfolded e] p by auto
  have "coalesced (merged us n vs)" by (intro coalesced_merged coalesced_parts [OF c])
  moreover have "used_set (heap_listp h) (merged us n vs) = used_set (heap_listp h) bs - {(p, n)}"
    using used_set_remove [of us n vs p "heap_listp h"] bs p heap_ok_pos [OF h] by (simp add: merged_used)
  ultimately show ?thesis
    using hp bz m t
    by (intro exI [of _ t] exI [of _ "merged us n vs"]) (simp add: mm_free_gb_def imp_ok_def Let_def)
qed

lemma imp_ok_bytes [simp]: "imp_ok (h\<lparr>bytes := b\<rparr>) = imp_ok h"
  by (simp add: imp_ok_def fun_eq_iff)

lemma mm_realloc_gb_ok:
  assumes ok: "imp_ok h bs" and u: "(p, n) \<in> used_set (heap_listp h) bs"
    and sz: "0 < sz" "sz \<le> 2 ^ 31 - 24"
  shows "mm_realloc_gb h (p + 4) sz = Some (NULL, h) \<or>
    (\<exists>q m h' bs' len. mm_realloc_gb h (p + 4) sz = Some (q + 4, h') \<and> q + 4 \<noteq> NULL \<and> imp_ok h' bs' \<and>
      words_min 4 sz \<le> m \<and> heap_listp h' = heap_listp h \<and>
      used_set (heap_listp h) bs' = insert (q, m) (used_set (heap_listp h) bs - {(p, n)}) \<and>
      (q, m) \<notin> used_set (heap_listp h) bs \<and>
      min sz (4 * n - 8) \<le> len \<and> len \<le> 4 * m - 8 \<and>
      bytes h' = moved_bytes (bytes h) (p + 4) (q + 4) len)"
proof -
  have h: "heap_ok 4 h bs" using ok by (simp add: imp_ok_def)
  have p4: "p + 4 \<noteq> NULL"
    using used_set_aligned [OF h u] heap_okD(1) [OF h] by (auto simp: mem_heap_lo_def mem_ok_def)
  have start: "mm_realloc_gb h (p + 4) sz = do {
        (newptr, h) \<leftarrow> mm_malloc_gb h sz;
        if newptr = NULL then Some (NULL, h)
        else do {
          oldsz \<leftarrow> blk_size h (p + 4 - 4);
          let oldpayloadsize = u64 (oldsz * WSIZE - 2 * WSIZE);
          let oldpayloadsize = (if sz < oldpayloadsize then sz else oldpayloadsize);
          h \<leftarrow> memcpy h newptr (p + 4) oldpayloadsize;
          h \<leftarrow> mm_free_gb h (p + 4);
          Some (newptr, h)
        }
      }"
    using sz p4 by (simp add: mm_realloc_gb_def)
  show ?thesis
    using mm_malloc_gb_ok [OF ok sz]
  proof (elim disjE exE conjE)
    assume "mm_malloc_gb h sz = Some (NULL, h)"
    then show ?thesis using start by simp
  next
    fix q m h1 bs1
    assume m: "mm_malloc_gb h sz = Some (q + 4, h1)" "imp_ok h1 bs1" "words_min 4 sz \<le> m" "q + 4 \<noteq> NULL"
      "heap_listp h1 = heap_listp h" "bytes h1 = bytes h"
      "used_set (heap_listp h) bs1 = insert (q, m) (used_set (heap_listp h) bs)"
      "\<forall>(r, k)\<in>used_set (heap_listp h) bs. r + 4 * k \<le> q \<or> q + 4 * m \<le> r"
    note w = words_gb [OF sz]
    have h1: "heap_ok 4 h1 bs1" using m(2) by (simp add: imp_ok_def)
    have pu1: "(p, n) \<in> used_set (heap_listp h1) bs1" using u m(5,7) by simp
    have qu1: "(q, m) \<in> used_set (heap_listp h1) bs1" using m(5,7) by simp
    obtain us1 vs1 where s1: "bs1 = us1 @ (n, True) # vs1" "p = heap_listp h1 + span us1"
      using pu1 by (auto simp: used_set_placed placed_in)
    then have bz: "blk_size h1 p = Some n" using at_block(1) [of 4 h1 us1 n True vs1 p] h1 by simp
    have n: "4 \<le> n" "4 * n + 16 \<le> MAX_HEAP" using heap_ok_sizes [OF h1, of n True] s1 by auto
    have ap: "p + 4 * n \<le> q \<or> q + 4 * m \<le> p" using m(8) u by blast
    define len where "len = min sz (4 * n - 8)"
    have len: "0 < len" "len \<le> 4 * n - 8" "len \<le> 4 * m - 8"
      using sz n m(3) w(7) by (auto simp: len_def)
    have "u64 (n * WSIZE - 2 * WSIZE) = 4 * n - 8" using n by (simp add: u64_def WSIZE_def MAX_HEAP_def)
    then have l: "(if sz < u64 (n * WSIZE - 2 * WSIZE) then sz else u64 (n * WSIZE - 2 * WSIZE)) = len"
      by (simp add: len_def)
    have cp: "memcpy h1 (q + 4) (p + 4) len = Some (h1\<lparr>bytes := moved_bytes (bytes h) (p + 4) (q + 4) len\<rparr>)"
      using memcpy_payload [OF h1 _ pu1 qu1 ap, of len] len m(6) by simp
    let ?h2 = "h1\<lparr>bytes := moved_bytes (bytes h) (p + 4) (q + 4) len\<rparr>"
    have ok2: "imp_ok ?h2 bs1" using m(2) by simp
    obtain t bs2 where f: "mm_free_gb ?h2 (p + 4) = Some (?h2\<lparr>tags := t\<rparr>)"
      "imp_ok (?h2\<lparr>tags := t\<rparr>) bs2"
      "used_set (heap_listp h) bs2 = used_set (heap_listp h) bs1 - {(p, n)}"
      using mm_free_gb_ok [OF ok2, of p n] pu1 m(5) by auto
    have r: "mm_realloc_gb h (p + 4) sz = Some (q + 4, ?h2\<lparr>tags := t\<rparr>)"
      using start m(1,4) bz l cp f(1) by (simp add: Let_def)
    have "(q, m) \<notin> used_set (heap_listp h) bs" using m(8) len sz by fastforce
    moreover have ne: "(q, m) \<noteq> (p, n)" using ap n len by auto
    moreover have "insert (q, m) U - {(p, n)} = insert (q, m) (U - {(p, n)})" for U using ne by blast
    ultimately show ?thesis using r f(2,3) m(3,4,5,7) len
      apply -
      apply (rule disjI2, rule exI [of _ q], rule exI [of _ m], rule exI [of _ "?h2\<lparr>tags := t\<rparr>"])
      apply (rule exI [of _ bs2], rule exI [of _ len])
      apply (simp add: len_def)
      done
  qed
qed

lemma mm_init_gb_ok:
  assumes "mem_ok (memsys h)" "mem_heapsize (memsys h) = 0" "mem_start_brk (memsys h) mod 16 = 0"
  shows "\<exists>h'. mm_init_gb h = Some (0, h') \<and> imp_ok h' [(1024, False)] \<and> mem_heapsize (memsys h') = 4112"
proof -
  define b where "b = mem_start_brk (memsys h)"
  define ms where "ms = memsys h\<lparr>mem_brk := b + 16\<rparr>"
  define h2 where
    "h2 = h\<lparr>memsys := ms, tags := (tags h)(b + 8 \<mapsto> FENCE, b + 12 \<mapsto> FENCE), heap_listp := b + 12\<rparr>"
  note f = fresh_heap [OF assms b_def ms_def _ h2_def, OF refl]
  have ok: "imp_ok h2 []" using f(5) [of 4] by (simp add: imp_ok_def coalesced_def)
  have ms2: "memsys h2 = ms" by (simp add: h2_def)
  obtain t p n where e: "extend_heap_gb h2 1024 = Some (p, grown h2 1024\<lparr>tags := t\<rparr>)"
    "imp_ok (grown h2 1024\<lparr>tags := t\<rparr>) (merged [] 1024 [])" "p \<noteq> NULL"
    using extend_heap_gb_ok [OF ok, of 1024] f(6) ms2 by (auto simp: Let_def MAX_HEAP_def)
  let ?h = "grown h2 1024\<lparr>tags := t\<rparr>"
  have "mm_init_gb h = Some (0, ?h)"
    using f(1-4) e(1,3) by (simp add: mm_init_gb_def WSIZE_def Let_def CHUNKSIZE_gb_def)
  moreover have "merged [] 1024 [] = [(1024, False)]"
    by (simp add: merged_def left_rest_def right_rest_def free_last_def free_first_def left_words_def right_words_def)
  moreover have "mem_heapsize (memsys ?h) = 4112"
  proof -
    have "heap_ok 4 ?h (merged [] 1024 [])" using e(2) by (simp add: imp_ok_def)
    then have "mem_ok (memsys ?h)" by (rule heap_okD(1))
    from heapsize_eq [OF this] show ?thesis by (simp add: ms2 ms_def b_def)
  qed
  ultimately show ?thesis using e(2) by auto
qed

subsection \<open>The interface\<close>

definition imp_ops :: "heap alloc_ops" where
  "imp_ops =
     \<lparr>op_reset = (\<lambda>h. h\<lparr>memsys := mem_reset_brk (memsys h)\<rparr>), op_init = mm_init_gb,
      op_malloc = mm_malloc_gb, op_free = mm_free_gb, op_realloc = mm_realloc_gb,
      op_memset = memset, op_byte = bytes,
      op_lo = (\<lambda>h. mem_heap_lo (memsys h)), op_hi = (\<lambda>h. mem_heap_hi (memsys h)),
      op_heapsize = (\<lambda>h. mem_heapsize (memsys h))\<rparr>"

definition imp_area :: "heap \<Rightarrow> bool" where
  "imp_area h \<longleftrightarrow> mem_ok (memsys h) \<and> mem_start_brk (memsys h) mod 16 = 0"

definition imp_live :: "heap \<Rightarrow> (ptr \<times> int) set \<Rightarrow> bool" where
  "imp_live h U \<longleftrightarrow> (\<exists>bs. imp_ok h bs \<and> U = payloads h bs)"

interpretation imp: total_alloc imp_ops imp_area imp_live
proof unfold_locales
  fix s :: heap assume "imp_area s"
  then have m: "mem_ok (memsys s)" "mem_start_brk (memsys s) mod 16 = 0" by (simp_all add: imp_area_def)
  obtain h' where "mm_init_gb (s\<lparr>memsys := mem_reset_brk (memsys s)\<rparr>) = Some (0, h')" "imp_ok h' [(1024, False)]"
    using mm_init_gb_ok [of "s\<lparr>memsys := mem_reset_brk (memsys s)\<rparr>"] reset_area [OF m(1)] m(2) by auto
  moreover have "payloads h' [(1024, False)] = {}" by (simp add: payloads_def)
  ultimately show "\<exists>s'. op_init imp_ops (op_reset imp_ops s) = Some (0, s') \<and> imp_live s' {}"
    by (auto simp: imp_ops_def imp_live_def)
next
  fix s :: heap and U assume "imp_live s U"
  then show "imp_area s" using heap_okD(1,2) by (auto simp: imp_live_def imp_ok_def imp_area_def)
next
  fix s :: heap and U p c assume "imp_live s U" "(p, c) \<in> U"
  then obtain bs where bs: "heap_ok 4 s bs" "(p, c) \<in> payloads s bs" by (auto simp: imp_live_def imp_ok_def)
  show "p \<noteq> NULL \<and> p mod 16 = 0 \<and> 0 < c \<and> op_lo imp_ops s \<le> p \<and> p + c - 1 \<le> op_hi imp_ops s"
    using payload_laws [OF bs(1) _ bs(2)] by (simp add: imp_ops_def)
next
  fix s :: heap and U p c q d assume a: "imp_live s U" "(p, c) \<in> U" "(q, d) \<in> U"
  then obtain bs where bs: "heap_ok 4 s bs" "U = payloads s bs" by (auto simp: imp_live_def imp_ok_def)
  show "p = q \<and> c = d \<or> p + c \<le> q \<or> q + d \<le> p"
    using a(2,3) bs(2) by (intro payloads_apart [OF heap_ok_pos [OF bs(1)]]) simp_all
next
  fix s :: heap and U and sz :: int
  assume "imp_live s U" and sz: "0 < sz" "sz \<le> max_request"
  then obtain bs where bs: "imp_ok s bs" "U = payloads s bs" by (auto simp: imp_live_def)
  show "\<exists>p s'. op_malloc imp_ops s sz = Some (p, s') \<and>
      (if p = NULL then s' = s
       else \<exists>c. sz \<le> c \<and> imp_live s' (insert (p, c) U) \<and> (p, c) \<notin> U \<and>
         same_payloads U (op_byte imp_ops s) (op_byte imp_ops s'))"
    using mm_malloc_gb_ok [OF bs(1) sz(1) sz(2) [unfolded max_request_def]]
  proof (elim disjE exE conjE)
    fix p n h' bs'
    assume m: "mm_malloc_gb s sz = Some (p + 4, h')" "imp_ok h' bs'" "words_min 4 sz \<le> n" "p + 4 \<noteq> NULL"
      "heap_listp h' = heap_listp s" "bytes h' = bytes s"
      "used_set (heap_listp s) bs' = insert (p, n) (used_set (heap_listp s) bs)"
      "\<forall>(q, k)\<in>used_set (heap_listp s) bs. q + 4 * k \<le> p \<or> p + 4 * n \<le> q"
    have "payloads h' bs' = insert (p + 4, 4 * n - 8) U"
      using payloads_insert [of h' bs' p n s bs] m(5,7) bs(2) by simp
    moreover have "sz \<le> 4 * n - 8" using m(3) words_gb(7) [of sz] sz by (simp add: max_request_def)
    moreover from this have "(p + 4, 4 * n - 8) \<notin> U" using m(8) sz(1) bs(2) by (fastforce simp: payloads_mem)
    ultimately show ?thesis using m(1,2,4,6)
      by (intro exI [of _ "p + 4"] exI [of _ h']) (auto simp: imp_ops_def imp_live_def)
  qed (auto simp: imp_ops_def)
next
  fix s :: heap and U p c assume "imp_live s U" "(p, c) \<in> U"
  then obtain bs n where bs: "imp_ok s bs" "U = payloads s bs" "c = 4 * n - 8" "(p - 4, n) \<in> used_set (heap_listp s) bs"
    by (auto simp: imp_live_def payloads_mem)
  obtain t bs' where f: "mm_free_gb s p = Some (s\<lparr>tags := t\<rparr>)" "imp_ok (s\<lparr>tags := t\<rparr>) bs'"
    "used_set (heap_listp s) bs' = used_set (heap_listp s) bs - {(p - 4, n)}"
    using mm_free_gb_ok [OF bs(1,4)] by auto
  have "payloads (s\<lparr>tags := t\<rparr>) bs' = U - {(p, c)}"
    using payloads_remove [of "s\<lparr>tags := t\<rparr>" bs' s bs "p - 4" n] f(3) bs(2,3) by simp
  then show "\<exists>s'. op_free imp_ops s p = Some s' \<and> imp_live s' (U - {(p, c)}) \<and>
      same_payloads (U - {(p, c)}) (op_byte imp_ops s) (op_byte imp_ops s')"
    using f(1,2) by (auto simp: imp_ops_def imp_live_def)
next
  fix s :: heap and U p c b and n :: int assume "imp_live s U" "(p, c) \<in> U" and n: "0 \<le> n" "n \<le> c"
  then obtain bs where bs: "imp_ok s bs" "heap_ok 4 s bs" "U = payloads s bs" "(p, c) \<in> payloads s bs"
    by (auto simp: imp_live_def imp_ok_def)
  then show "\<exists>s'. op_memset imp_ops s p b n = Some s' \<and> imp_live s' U \<and>
      (\<forall>x. op_byte imp_ops s' x = (if p \<le> x \<and> x < p + n then b mod 256 else op_byte imp_ops s x))"
    using memset_eq [OF bs(2,4) n] bs(1,3) by (auto simp: imp_ops_def imp_live_def)
next
  fix s :: heap and U p c and sz r s'
  assume "imp_live s U" "(p, c) \<in> U" and sz: "0 < sz" "sz \<le> max_request"
  then obtain bs n where bs: "imp_ok s bs" "U = payloads s bs" "c = 4 * n - 8" "(p - 4, n) \<in> used_set (heap_listp s) bs"
    by (auto simp: imp_live_def payloads_mem)
  have sz': "sz \<le> 2 ^ 31 - 24" using sz(2) by (simp add: max_request_def)
  note R = mm_realloc_gb_ok [OF bs(1,4) sz(1) sz', simplified]
  show "op_realloc imp_ops s p sz \<noteq> None" using R by (auto simp: imp_ops_def)
  assume r: "op_realloc imp_ops s p sz = Some (r, s')"
  show "if r = NULL then s' = s
    else \<exists>d. sz \<le> d \<and> imp_live s' (insert (r, d) (U - {(p, c)})) \<and> (r, d) \<notin> U - {(p, c)} \<and>
      (\<forall>i. 0 \<le> i \<and> i < min sz c \<longrightarrow> op_byte imp_ops s' (r + i) = op_byte imp_ops s (p + i)) \<and>
      same_payloads (U - {(p, c)}) (op_byte imp_ops s) (op_byte imp_ops s')"
  proof (cases "r = NULL")
    case False
    then obtain m bs' len where m: "imp_ok s' bs'" "words_min 4 sz \<le> m" "heap_listp s' = heap_listp s"
      "used_set (heap_listp s) bs' = insert (r - 4, m) (used_set (heap_listp s) bs - {(p - 4, n)})"
      "(r - 4, m) \<notin> used_set (heap_listp s) bs - {(p - 4, n)}"
      "min sz c \<le> len" "len \<le> 4 * m - 8" "bytes s' = moved_bytes (bytes s) p r len"
      using R r bs(3) by (auto simp: imp_ops_def)
    have h: "heap_ok 4 s' bs'" using m(1) by (simp add: imp_ok_def)
    have "sz \<le> 4 * m - 8" using m(2) words_gb(7) [OF sz(1) sz'] by simp
    then show ?thesis
      using False m(1) payloads_moved [OF h _ m(3-8) bs(2,3)]
      by (auto simp: imp_ops_def imp_live_def intro!: exI [of _ "4 * m - 8"] exI [of _ bs'])
  qed (use R r in \<open>auto simp: imp_ops_def\<close>)
qed

end
