(* ===== verification/Implicit_Spec.thy ===== *)
theory Implicit_Spec
  imports Implicit
begin

text \<open>The properties of the reference allocator, each applied to a sample heap.\<close>

definition gb_area :: heap where
  "gb_area =
     \<lparr>memsys = \<lparr>mem_start_brk = 4096, mem_brk = 4096, mem_max_addr = 4096 + MAX_HEAP, use_mmap = False\<rparr>,
      tags = (\<lambda>_. None), bytes = (\<lambda>_. 0), heap_listp = NULL\<rparr>"

definition gb_heap :: heap where
  "gb_heap = snd (the (mm_init_gb gb_area))"

lemma gb_area_ok: "imp_area gb_area" "mem_ok (memsys gb_area)"
  "mem_heapsize (memsys gb_area) = 0" "mem_start_brk (memsys gb_area) mod 16 = 0"
  by (simp_all add: imp_area_def gb_area_def mem_ok_def MAX_HEAP_def mem_heapsize_def u64_def)

lemma gb_heap_ok: "imp_ok gb_heap [(1024, False)]" "mem_heapsize (memsys gb_heap) = 4112"
  "mm_init_gb gb_area = Some (0, gb_heap)"
  using mm_init_gb_ok [OF gb_area_ok(2-4)] by (auto simp: gb_heap_def)

lemma gb_heap_live: "imp_live gb_heap {}"
  using gb_heap_ok(1) by (auto simp: imp_live_def payloads_def intro!: exI [of _ "[(1024, False)]"])

lemma gb_heap_blocks: "used_set (heap_listp gb_heap) [(1024, False)] = {}"
  "free_set (heap_listp gb_heap) [(1024, False)] = {(heap_listp gb_heap, 1024)}"
  by auto

subsection \<open>The search\<close>

lemma free_set_ge: "pos_blocks bs \<Longrightarrow> (q, k) \<in> free_set a bs \<Longrightarrow> a \<le> q"
  by (induction bs arbitrary: a) (fastforce split: if_splits)+

lemma first_fit_lowest:
  "first_fit asize a bs = p \<Longrightarrow> pos_blocks bs \<Longrightarrow> (q, k) \<in> free_set a bs \<Longrightarrow> q < p \<Longrightarrow> k < asize"
proof (induction asize a bs rule: first_fit.induct)
  case (2 asize a n u bs)
  show ?case
  proof (cases "\<not> u \<and> asize \<le> n")
    case True
    then have "a \<le> q" using free_set_ge [of "(n, u) # bs" q k a] "2.prems"(2,3) by simp
    then show ?thesis using True "2.prems"(1,4) by simp
  next
    case False
    then show ?thesis using 2 by (auto split: if_splits)
  qed
qed simp

text \<open>
  The search of the reference allocator ends on every well-formed heap.  It returns the free
  block of the lowest address that has room for the request, and null only when no free block has.
\<close>

theorem find_fit_gb_first:
  assumes "heap_ok 4 h bs"
  shows "\<exists>p. find_fit_gb h asize = Some p \<and>
    (if p = NULL then \<forall>(q, k)\<in>free_set (heap_listp h) bs. k < asize
     else (\<exists>n. asize \<le> n \<and> (p, n) \<in> free_set (heap_listp h) bs) \<and>
       (\<forall>(q, k)\<in>free_set (heap_listp h) bs. q < p \<longrightarrow> k < asize))"
proof -
  have pos: "pos_blocks bs" "0 < heap_listp h"
    using heap_ok_pos [OF assms] heap_ok_parts [of 4 h bs "[]"] assms by auto
  have "find_fit_gb h asize = Some (first_fit asize (heap_listp h) bs)"
    using find_fit_loop_gb_eq [of h "[]" bs asize] assms by (simp add: find_fit_gb_def)
  moreover have "\<forall>(q, k)\<in>free_set (heap_listp h) bs. k < asize" if "first_fit asize (heap_listp h) bs = NULL"
    using first_fit_complete [OF that pos(2,1)] by auto
  moreover have "\<forall>(q, k)\<in>free_set (heap_listp h) bs. q < first_fit asize (heap_listp h) bs \<longrightarrow> k < asize"
    using first_fit_lowest [OF refl pos(1)] by auto
  ultimately show ?thesis
    using first_fit_sound [OF refl, of asize "heap_listp h" bs] by auto
qed

theorem find_fit_gb_first_witness:
  "find_fit_gb gb_heap 100 = Some (heap_listp gb_heap) \<and> find_fit_gb gb_heap 1028 = Some NULL"
proof -
  have h: "heap_ok 4 gb_heap [(1024, False)]" using gb_heap_ok(1) by (simp add: imp_ok_def)
  have "find_fit_gb gb_heap 100 = Some (heap_listp gb_heap)"
    using find_fit_gb_first [OF h, of 100] by (auto split: if_splits)
  moreover have "find_fit_gb gb_heap 1028 = Some NULL"
    using find_fit_gb_first [OF h, of 1028] by (auto split: if_splits)
  ultimately show ?thesis by blast
qed

subsection \<open>Allocation\<close>

text \<open>
  C14: A request that the reference allocator can meet gets an aligned block inside the heap, apart
  from every live block and of at least the requested size; no payload byte changes.  It returns
  null, and changes nothing, only when no free block fits and the area cannot grow far enough.
\<close>

theorem mm_malloc_gb_correct:
  assumes "imp_ok h bs" "0 < sz" "sz \<le> 2 ^ 31 - 24"
  shows "\<exists>r h'. mm_malloc_gb h sz = Some (r, h') \<and>
    (if r = NULL then h' = h \<and> MAX_HEAP < mem_heapsize (memsys h) + 4 * max (words_min 4 sz) 1024 \<and>
         (\<forall>(q, k)\<in>free_set (heap_listp h) bs. k < words_min 4 sz)
     else \<exists>n bs'. imp_ok h' bs' \<and> sz \<le> 4 * n - 8 \<and> r mod 16 = 0 \<and>
       mem_heap_lo (memsys h') \<le> r \<and> r + (4 * n - 8) - 1 \<le> mem_heap_hi (memsys h') \<and>
       used_set (heap_listp h') bs' = insert (r - 4, n) (used_set (heap_listp h) bs) \<and>
       (\<forall>(q, k)\<in>used_set (heap_listp h) bs. q + 4 * k \<le> r - 4 \<or> r - 4 + 4 * n \<le> q) \<and>
       bytes h' = bytes h)"
  using mm_malloc_gb_ok [OF assms]
proof (elim disjE exE conjE)
  fix p n h' bs'
  assume m: "mm_malloc_gb h sz = Some (p + 4, h')" "imp_ok h' bs'" "words_min 4 sz \<le> n" "p + 4 \<noteq> NULL"
    "heap_listp h' = heap_listp h" "bytes h' = bytes h"
    "used_set (heap_listp h) bs' = insert (p, n) (used_set (heap_listp h) bs)"
    "\<forall>(q, k)\<in>used_set (heap_listp h) bs. q + 4 * k \<le> p \<or> p + 4 * n \<le> q"
  have "heap_ok 4 h' bs'" using m(2) by (simp add: imp_ok_def)
  from used_set_aligned [OF this, of p n] m words_gb(7) [OF assms(2,3)] show ?thesis
    by (intro exI [of _ "p + 4"] exI [of _ h']) (auto intro!: exI [of _ n] exI [of _ bs'])
qed auto

theorem mm_malloc_gb_correct_witness:
  "\<exists>r h' n bs. mm_malloc_gb gb_heap 100 = Some (r, h') \<and> 100 \<le> 4 * n - 8 \<and> r mod 16 = 0 \<and>
     used_set (heap_listp h') bs = {(r - 4, n)}"
proof -
  have "\<not> MAX_HEAP < mem_heapsize (memsys gb_heap) + 4 * max (words_min 4 100) 1024"
    using gb_heap_ok(2) by (simp add: words_min_def MAX_HEAP_def)
  then obtain r h' n bs where "mm_malloc_gb gb_heap 100 = Some (r, h')" "100 \<le> 4 * n - 8" "r mod 16 = 0"
    "used_set (heap_listp h') bs = {(r - 4, n)}"
    using mm_malloc_gb_correct [OF gb_heap_ok(1), of 100] by (auto simp: gb_heap_blocks split: if_splits)
  then show ?thesis by (intro exI conjI)
qed

subsection \<open>Reallocation\<close>

text \<open>
  C13: The reference allocator's \<open>mm_realloc\<close> never aborts.  It returns null and leaves the heap
  as it was, or a block with room for the new size that holds the old contents up to the smaller
  of both sizes; the old block is released, and every other live payload keeps its bytes.
\<close>

theorem mm_realloc_gb_correct:
  assumes "imp_live h U" "(p, c) \<in> U" "0 < sz" "sz \<le> max_request"
  shows "\<exists>r h'. mm_realloc_gb h p sz = Some (r, h') \<and>
    (if r = NULL then h' = h
     else \<exists>d\<ge>sz. imp_live h' (insert (r, d) (U - {(p, c)})) \<and> r mod 16 = 0 \<and>
       (\<forall>i. 0 \<le> i \<and> i < min sz c \<longrightarrow> bytes h' (r + i) = bytes h (p + i)) \<and>
       same_payloads (U - {(p, c)}) (bytes h) (bytes h'))"
proof -
  obtain r h' where r: "op_realloc imp_ops h p sz = Some (r, h')"
    using imp.realloc_total [OF assms] by auto
  show ?thesis
  proof (cases "r = NULL")
    case True
    then show ?thesis using imp.realloc [OF assms r] r by (simp add: imp_ops_def)
  next
    case False
    then obtain d where d: "sz \<le> d" "imp_live h' (insert (r, d) (U - {(p, c)}))"
      "\<forall>i. 0 \<le> i \<and> i < min sz c \<longrightarrow> bytes h' (r + i) = bytes h (p + i)"
      "same_payloads (U - {(p, c)}) (bytes h) (bytes h')"
      using imp.realloc [OF assms r] by (auto simp: imp_ops_def)
    then show ?thesis using False r imp.payload [OF d(2), of r d] by (auto simp: imp_ops_def)
  qed
qed

theorem mm_realloc_gb_correct_witness:
  "\<exists>p h r h'. mm_malloc_gb gb_heap 100 = Some (p, h) \<and> mm_realloc_gb h p 300 = Some (r, h') \<and>
     (r \<noteq> NULL \<longrightarrow> r mod 16 = 0 \<and> (\<forall>i. 0 \<le> i \<and> i < 100 \<longrightarrow> bytes h' (r + i) = bytes h (p + i)))"
proof -
  obtain p h n bs where m: "mm_malloc_gb gb_heap 100 = Some (p + 4, h)" "words_min 4 100 \<le> n" "imp_ok h bs"
    "used_set (heap_listp gb_heap) bs = {(p, n)}" "heap_listp h = heap_listp gb_heap"
    using mm_malloc_gb_ok [OF gb_heap_ok(1), of 100] gb_heap_ok(2)
    by (auto simp: MAX_HEAP_def words_min_def)
  have u: "imp_live h {(p + 4, 4 * n - 8)}"
    using m(3,4,5) by (auto simp: imp_live_def payloads_def payload_of_def intro!: exI [of _ bs])
  have "100 \<le> 4 * n - 8" using m(2) by (simp add: words_min_def)
  then show ?thesis
    using m(1) mm_realloc_gb_correct [OF u, of "p + 4" "4 * n - 8" 300]
    by (fastforce simp: max_request_def split: if_splits)
qed

end
