(* ===== verification/Mdriver_Alloc.thy ===== *)
theory Mdriver_Alloc
  imports Mdriver_Util Mdriver_Threads MM_Alloc Implicit_Spec
begin

text \<open>
  The driver with the two allocators of the repository: the lemmas of the interface, applied to
  their interpretations.
\<close>

interpretation gbd: total_tested_alloc imp_ops imp_area imp_live by unfold_locales

interpretation mmd: tested_alloc mm_ops mm_area mm_live by unfold_locales

lemma sample_trace_wf: "wf_trace sample_trace"
  by (simp add: wf_trace_def sample_trace_def request_def int_of_double_def cint_def max_request_def)

subsection \<open>The reference allocator\<close>


definition gb_driver :: "heap driver" where
  "gb_driver = \<lparr>alloc = gb_area, errors = 0, check_heap_bounds = True, ranges = [], printed = []\<rparr>"






subsection \<open>The segregated-fit allocator\<close>


definition mm_driver :: "mm driver" where
  "mm_driver = \<lparr>alloc = sample_area, errors = 0, check_heap_bounds = True, ranges = [], printed = []\<rparr>"

definition plain_trace :: trace_t where
  "plain_trace =
     \<lparr>sugg_heapsize = 20000, num_ids = 2, num_ops = 4, weight = 1, multiplier = 1,
      ops = [ALLOC 0 512, ALLOC 1 128, FREE 0, FREE 1],
      blocks = [None, None], block_sizes = [None, None]\<rparr>"


text \<open>
  The threads over the allocator of \<open>mm.c\<close> behind its lock: the same, unless \<open>mm_realloc\<close> fails its
  assertion.
\<close>

lemma threads_on_mm:
  assumes "mm_area (alloc d)" "wf_trace t" "set sched \<subseteq> {..<n}" "\<not> (\<exists>r\<in>set (ops t). is_realloc r)"
  shows "\<exists>res d' msgs. mt_valid mm_ops n sched tracenum t d = Some (res, d') \<and> printed d' = printed d @ msgs \<and>
    errors d' = errors d + int (length msgs) \<and> list_all (null_result tracenum) msgs \<and>
    (res \<noteq> None \<longrightarrow> res = Some (msgs = [])) \<and>
    ((\<forall>j<n. 2 * length (ops t) < count_list sched j) \<longrightarrow> res \<noteq> None)"
  using mmd.mt_valid_ok [OF assms(1-3), of tracenum] assms(4) by blast

end
