(* ===== verification/Report.thy ===== *)
theory Report
  imports Mdriver Timing
begin

text \<open>
  Parts of the main routine of \<open>malloclab/mdriver.c\<close>: its command line, the check of the team
  structure, the evaluation of each trace with its size multipliers, the tables of results and the
  performance index.  The options are those \<open>getopt\<close> delivers, with their arguments.  A \<open>double\<close> is
  its exact value; a division by a heap size of zero has no value.  A clock reads the state, of which
  the time is a part.
\<close>

subsection \<open>The command line\<close>

record options =
  vary_size :: bool
  use_mmap :: bool
  autograder :: bool
  tracefiles :: "string list option"
  num_tracefiles :: int
  tracedir :: string
  team_check :: bool
  run_libc :: bool
  verbose :: int
  nthreads :: int

definition TRACEDIR :: string where "TRACEDIR = ''/home/courses/cs3214/malloclab/traces/''"

definition default_tracefiles :: "string list" where
  "default_tracefiles = [''amptjp-bal.rep'', ''cccp-bal.rep'', ''cp-decl-bal.rep'', ''expr-bal.rep'',
     ''coalescing-bal.rep'', ''random-bal.rep'', ''random2-bal.rep'', ''binary-bal.rep'',
     ''binary2-bal.rep'', ''realloc-bal.rep'', ''realloc2-bal.rep'']"

definition initial_options :: options where
  "initial_options = \<lparr>vary_size = False, use_mmap = False, autograder = False, tracefiles = None,
     num_tracefiles = 0, tracedir = TRACEDIR, team_check = True, run_libc = False, verbose = 0, nthreads = 0\<rparr>"

definition atoi :: "string \<Rightarrow> int option" where
  "atoi s = (case scan_num s of None \<Rightarrow> Some 0 | Some (n, _) \<Rightarrow> cint n)"

text \<open>One option; a left value is the code of a call of \<open>exit\<close>.\<close>

definition option_step :: "char \<Rightarrow> string \<Rightarrow> options \<Rightarrow> (int + options) option" where
  "option_step c arg opts =
     (if c = CHR ''s'' then Some (Inr (opts\<lparr>vary_size := True\<rparr>))
      else if c = CHR ''n'' then Some (Inr (opts\<lparr>use_mmap := True\<rparr>))
      else if c = CHR ''g'' then Some (Inr (opts\<lparr>autograder := True\<rparr>))
      else if c = CHR ''f'' then
        Some (Inr (opts\<lparr>num_tracefiles := 1, tracefiles := Some [arg], tracedir := ''./''\<rparr>))
      else if c = CHR ''t'' then
        if num_tracefiles opts = 1 then Some (Inr opts)
        else do {
          assert_c (int (length arg) < MAXLINE \<and> arg \<noteq> []);
          if last arg \<noteq> CHR ''/'' then do {
            assert_c (int (length arg) + 1 < MAXLINE);
            Some (Inr (opts\<lparr>tracedir := arg @ ''/''\<rparr>))
          } else Some (Inr (opts\<lparr>tracedir := arg\<rparr>))
        }
      else if c = CHR ''a'' then Some (Inr (opts\<lparr>team_check := False\<rparr>))
      else if c = CHR ''l'' then Some (Inr (opts\<lparr>run_libc := True\<rparr>))
      else if c = CHR ''v'' then Some (Inr (opts\<lparr>verbose := 1\<rparr>))
      else if c = CHR ''V'' then Some (Inr (opts\<lparr>verbose := 2\<rparr>))
      else if c = CHR ''m'' then do { n \<leftarrow> atoi arg; Some (Inr (opts\<lparr>nthreads := n\<rparr>)) }
      else if c = CHR ''h'' then Some (Inl 0)
      else Some (Inl 1))"

fun parse_options :: "(char \<times> string) list \<Rightarrow> options \<Rightarrow> (int + options) option" where
  "parse_options [] opts = Some (Inr opts)"
| "parse_options ((c, arg) # args) opts = do {
     r \<leftarrow> option_step c arg opts;
     case r of Inl e \<Rightarrow> Some (Inl e) | Inr opts \<Rightarrow> parse_options args opts
   }"

definition select_traces :: "options \<Rightarrow> string list \<times> int" where
  "select_traces opts =
     (case tracefiles opts of
        None \<Rightarrow> (default_tracefiles, int (length default_tracefiles))
      | Some fs \<Rightarrow> (fs, num_tracefiles opts))"

record team_t =
  teamname :: string
  name1 :: string
  id1 :: string
  name2 :: string
  id2 :: string

text \<open>\<open>True\<close>: the team structure is accepted; otherwise \<open>exit (1)\<close>.\<close>

definition team_accepted :: "team_t \<Rightarrow> bool" where
  "team_accepted team =
     (if teamname team = [] then False
      else if name1 team = [] \<or> id1 team = [] then False
      else if name2 team \<noteq> [] \<and> id2 team = [] \<or> name2 team = [] \<and> id2 team \<noteq> [] then False
      else True)"

subsection \<open>One trace\<close>

record stats_t =
  s_ops :: rat
  s_valid :: bool
  s_secs :: rat
  s_util :: rat

definition speed_fun ::
    "'s alloc_ops \<Rightarrow> string + trace_t \<times> 's driver \<Rightarrow> (string + trace_t \<times> 's driver) option" where
  "speed_fun A x = (case x of Inl e \<Rightarrow> Some (Inl e) | Inr (t, d) \<Rightarrow> eval_mm_speed A t d)"

fun run_multipliers ::
    "'s alloc_ops \<Rightarrow> (string + trace_t \<times> 's driver \<Rightarrow> timespec) \<Rightarrow> int \<Rightarrow> rat list \<Rightarrow>
     stats_t \<Rightarrow> int \<Rightarrow> trace_t \<Rightarrow> 's driver \<Rightarrow> (string + stats_t \<times> int \<times> trace_t \<times> 's driver) option" where
  "run_multipliers A clock i [] st max_total_size t d = Some (Inr (st, max_total_size, t, d))"
| "run_multipliers A clock i (m # ms) st max_total_size t d = do {
     (thisrunvalid, t, d) \<leftarrow> eval_mm_valid A i (t\<lparr>multiplier := m\<rparr>) (d\<lparr>check_heap_bounds := True\<rparr>);
     let st = (if \<not> thisrunvalid then st\<lparr>s_valid := False\<rparr> else st);
     if s_valid st then do {
       r \<leftarrow> eval_mm_util A t d;
       case r of
         Inl e \<Rightarrow> Some (Inl e)
       | Inr (hwm, t, d) \<Rightarrow> do {
           let max_total_size = (if m = 1 then hwm else max_total_size);
           assert_c (op_heapsize A (alloc d) \<noteq> 0);
           let st = st\<lparr>s_util := s_util st + of_int hwm / of_int (op_heapsize A (alloc d))\<rparr>;
           (secs, r) \<leftarrow> fsecs (speed_fun A) clock (Inr (t, d));
           case r of
             Inl e \<Rightarrow> Some (Inl e)
           | Inr (t, d) \<Rightarrow>
               run_multipliers A clock i ms (st\<lparr>s_secs := s_secs st + secs\<rparr>) max_total_size t d
         }
     } else run_multipliers A clock i ms st max_total_size t d
   }"

definition size_multipliers :: "bool \<Rightarrow> rat list" where
  "size_multipliers vary = (if vary then [3 / 4, 1, 5 / 4] else [1])"

definition eval_trace ::
    "'s alloc_ops \<Rightarrow> (string + trace_t \<times> 's driver \<Rightarrow> timespec) \<Rightarrow> bool \<Rightarrow> int \<Rightarrow> int \<Rightarrow> trace_t \<Rightarrow> 's driver \<Rightarrow>
     (string + stats_t \<times> int \<times> 's driver) option" where
  "eval_trace A clock vary i max_total_size t d = do {
     let st = \<lparr>s_ops = of_int (num_ops t), s_valid = True, s_secs = 0, s_util = 0\<rparr>;
     let ms = size_multipliers vary;
     r \<leftarrow> run_multipliers A clock i ms st max_total_size t d;
     case r of
       Inl e \<Rightarrow> Some (Inl e)
     | Inr (st, max_total_size, t, d) \<Rightarrow>
         Some (Inr (st\<lparr>s_util := s_util st / of_nat (length ms), s_secs := s_secs st / of_nat (length ms)\<rparr>,
           max_total_size, d))
   }"

subsection \<open>The tables\<close>

text \<open>
  The rows that \<open>printresults\<close> prints: for a valid trace its utilization in percent, its requests,
  seconds and thousands of requests per second.  A time of zero seconds prints no rate.
\<close>

datatype row =
    Valid_row int string rat rat rat rat
  | Invalid_row int string
  | Total_row rat rat rat rat
  | Total_errors

fun result_rows :: "int \<Rightarrow> (string \<times> stats_t) list \<Rightarrow> row list" where
  "result_rows i [] = []"
| "result_rows i ((f, st) # rs) =
     (if s_valid st
      then Valid_row i f (s_util st * 100) (s_ops st) (s_secs st) ((s_ops st / 1000) / s_secs st)
      else Invalid_row i f) # result_rows (i + 1) rs"

definition valid_sum :: "(stats_t \<Rightarrow> rat) \<Rightarrow> stats_t list \<Rightarrow> rat" where
  "valid_sum f sts = sum_list (map f (filter s_valid sts))"

definition printresults :: "int \<Rightarrow> string list \<Rightarrow> stats_t list \<Rightarrow> row list" where
  "printresults errs fs sts =
     (let secs = valid_sum s_secs sts; opn = valid_sum s_ops sts; util = valid_sum s_util sts
      in result_rows 0 (zip fs sts) @
         [if errs = 0 then Total_row (util / of_nat (length sts) * 100) opn secs ((opn / 1000) / secs)
          else Total_errors])"

subsection \<open>The performance index\<close>

definition UTIL_WEIGHT :: rat where "UTIL_WEIGHT = 60 / 100"
definition AVG_LIBC_THRUPUT :: rat where "AVG_LIBC_THRUPUT = 29000000"

definition numcorrect :: "stats_t list \<Rightarrow> int" where
  "numcorrect sts = int (length (filter s_valid sts))"

definition avg_mm_util :: "stats_t list \<Rightarrow> rat" where
  "avg_mm_util sts = sum_list (map s_util sts) / of_nat (length sts)"

definition avg_mm_throughput :: "stats_t list \<Rightarrow> rat" where
  "avg_mm_throughput sts = sum_list (map s_ops sts) / sum_list (map s_secs sts)"

definition perf_index :: "int \<Rightarrow> stats_t list \<Rightarrow> rat \<times> rat \<times> rat" where
  "perf_index errs sts =
     (if errs = 0 then
        let p1 = UTIL_WEIGHT * avg_mm_util sts;
            p2 = (if avg_mm_throughput sts > AVG_LIBC_THRUPUT then 1 - UTIL_WEIGHT
                  else (1 - UTIL_WEIGHT) * (avg_mm_throughput sts / AVG_LIBC_THRUPUT))
        in (p1, p2, (p1 + p2) * 100)
      else (0, 0, 0))"

subsection \<open>Properties\<close>

lemma option_step_file:
  assumes "option_step c arg opts = Some (Inr opts')" "num_tracefiles opts = 1" "tracefiles opts = Some [g]" "tracedir opts = ''./''"
  shows "num_tracefiles opts' = 1 \<and> tracedir opts' = ''./'' \<and>
    tracefiles opts' = Some [if c = CHR ''f'' then arg else g]"
  using assms by (auto simp: option_step_def split: if_splits Option.bind_splits)

lemma parse_options_file:
  assumes "parse_options args opts = Some (Inr opts')" "num_tracefiles opts = 1" "tracefiles opts = Some [g]" "tracedir opts = ''./''"
  shows "num_tracefiles opts' = 1 \<and> tracedir opts' = ''./'' \<and>
    tracefiles opts' = Some [last (g # map snd (filter (\<lambda>x. fst x = CHR ''f'') args))]"
  using assms
proof (induction args arbitrary: opts g)
  case (Cons a args)
  obtain c arg where a: "a = (c, arg)" by (cases a)
  obtain o1 where o1: "option_step c arg opts = Some (Inr o1)" "parse_options args o1 = Some (Inr opts')"
    using Cons.prems(1) a by (auto split: Option.bind_splits sum.splits)
  note s = option_step_file [OF o1(1) Cons.prems(2-4)]
  show ?case
    using Cons.IH [OF o1(2), of "if c = CHR ''f'' then arg else g"] s a by auto
qed simp

text \<open>
  The option \<open>-f\<close> decides which trace is read, wherever it stands: after a command line that
  has it, the only trace file is the argument of the last \<open>-f\<close> and the directory is the current
  one, whatever directory options \<open>-t\<close> come before or after it.
\<close>

theorem parse_options_last_file:
  assumes "parse_options (args @ (CHR ''f'', g) # args') opts = Some (Inr opts')"
  shows "select_traces opts' = ([last (g # map snd (filter (\<lambda>x. fst x = CHR ''f'') args'))], 1) \<and> tracedir opts' = ''./''"
  using assms
proof (induction args arbitrary: opts)
  case Nil
  then have "parse_options args' (opts\<lparr>num_tracefiles := 1, tracefiles := Some [g], tracedir := ''./''\<rparr>) = Some (Inr opts')"
    by (simp add: option_step_def)
  from parse_options_file [OF this, of g] show ?case by (simp add: select_traces_def)
next
  case (Cons a args)
  then show ?case by (cases a) (auto split: Option.bind_splits sum.splits)
qed

theorem parse_options_last_file_witness:
  "\<exists>opts. parse_options [(CHR ''t'', ''/tmp''), (CHR ''f'', ''a.rep''), (CHR ''v'', []), (CHR ''t'', ''/usr'')] initial_options =
     Some (Inr opts) \<and> select_traces opts = ([''a.rep''], 1) \<and> tracedir opts = ''./''"
proof -
  let ?args = "[(CHR ''t'', ''/tmp'')] @ (CHR ''f'', ''a.rep'') # [(CHR ''v'', []), (CHR ''t'', ''/usr'')]"
  obtain opts where o: "parse_options ?args initial_options = Some (Inr opts)"
    by (simp add: option_step_def initial_options_def MAXLINE_def)
  from parse_options_last_file [OF o] show ?thesis using o by auto
qed

lemma sum_list_bounds: "\<forall>x\<in>set xs. 0 \<le> f x \<and> f x \<le> 1 \<Longrightarrow>
    0 \<le> sum_list (map f xs) \<and> sum_list (map f xs) \<le> of_nat (length xs)"
  for f :: "'a \<Rightarrow> rat"
  by (induction xs) auto

text \<open>
  The performance index lies between 0 and 100 whenever the utilization of every trace lies
  between 0 and 1 and no time is negative; it is 0 as soon as one error was found, and throughput
  beyond the library's rate adds nothing.
\<close>

theorem perf_index_bounds:
  assumes "\<forall>st\<in>set sts. 0 \<le> s_util st \<and> s_util st \<le> 1 \<and> 0 \<le> s_ops st \<and> 0 \<le> s_secs st" "sts \<noteq> []"
  shows "case perf_index errs sts of (p1, p2, p) \<Rightarrow>
    0 \<le> p \<and> p \<le> 100 \<and> (errs \<noteq> 0 \<longrightarrow> p = 0) \<and>
    (errs = 0 \<longrightarrow> 0 \<le> p1 \<and> p1 \<le> 60 / 100 \<and> 0 \<le> p2 \<and> p2 \<le> 40 / 100 \<and>
      (AVG_LIBC_THRUPUT < avg_mm_throughput sts \<longrightarrow> p2 = 40 / 100))"
proof -
  have "0 \<le> sum_list (map s_util sts) \<and> sum_list (map s_util sts) \<le> of_nat (length sts)"
    by (rule sum_list_bounds) (use assms(1) in auto)
  then have u: "0 \<le> avg_mm_util sts" "avg_mm_util sts \<le> 1"
    using assms(2) by (auto simp: avg_mm_util_def divide_le_eq_1 zero_le_divide_iff)
  have "0 \<le> sum_list (map s_ops sts)" "0 \<le> sum_list (map s_secs sts)"
    using assms(1) by (auto intro!: sum_list_nonneg)
  then have t: "0 \<le> avg_mm_throughput sts" by (simp add: avg_mm_throughput_def)
  show ?thesis
    using u t by (auto simp: perf_index_def Let_def UTIL_WEIGHT_def AVG_LIBC_THRUPUT_def)
qed

theorem perf_index_bounds_witness:
  "case perf_index 0 [\<lparr>s_ops = 1000, s_valid = True, s_secs = 1, s_util = 1 / 2\<rparr>] of (p1, p2, p) \<Rightarrow> 0 \<le> p \<and> p \<le> 100"
  using perf_index_bounds [of "[\<lparr>s_ops = 1000, s_valid = True, s_secs = 1, s_util = 1 / 2\<rparr>]" 0] by auto

end
