(* ===== verification/Report_Main.thy ===== *)
theory Report_Main
  imports Report Mdriver_Threads
begin

text \<open>
  The main routine of \<open>malloclab/mdriver.c\<close> as a whole: the optional run over the allocator of the C
  library, the evaluation of the traces with the multi-threaded measurement, what is printed and the
  results file.  What the scheduler and the clock do in the multi-threaded part is data, one
  \<open>mt_world\<close> for each trace; a schedule that lets some thread not come to its end has no value, as
  \<open>pthread_join\<close> does not return.
\<close>

subsection \<open>The allocator of the C library\<close>

definition libc_speed_fun ::
    "'s alloc_ops \<Rightarrow> string + trace_t \<times> 's driver \<Rightarrow> (string + trace_t \<times> 's driver) option" where
  "libc_speed_fun A x = (case x of Inl e \<Rightarrow> Some (Inl e) | Inr (t, d) \<Rightarrow> eval_libc_speed A t d)"

fun eval_libc_traces ::
    "'s alloc_ops \<Rightarrow> (string + trace_t \<times> 's driver \<Rightarrow> timespec) \<Rightarrow> (string \<Rightarrow> string option) \<Rightarrow> options \<Rightarrow> int \<Rightarrow>
     string list \<Rightarrow> 's driver \<Rightarrow> (string + stats_t list \<times> 's driver) option" where
  "eval_libc_traces A clock files opts i [] d = Some (Inr ([], d))"
| "eval_libc_traces A clock files opts i (f # fs) d = do {
     r \<leftarrow> read_trace files (tracedir opts) f;
     case r of
       Inl e \<Rightarrow> Some (Inl e)
     | Inr t \<Rightarrow> do {
         v \<leftarrow> eval_libc_valid A i t d;
         case v of
           Inl (e, d) \<Rightarrow> Some (Inl e)
         | Inr (t, d) \<Rightarrow> do {
             (secs, r) \<leftarrow> fsecs (libc_speed_fun A) clock (Inr (t, d));
             case r of
               Inl e \<Rightarrow> Some (Inl e)
             | Inr (t, d) \<Rightarrow> do {
                 r \<leftarrow> eval_libc_traces A clock files opts (i + 1) fs d;
                 case r of
                   Inl e \<Rightarrow> Some (Inl e)
                 | Inr (sts, d) \<Rightarrow>
                     Some (Inr (\<lparr>s_ops = of_int (num_ops t), s_valid = True, s_secs = secs, s_util = 0\<rparr> # sts, d))
               }
           }
       }
   }"

subsection \<open>Multi-threaded measurement\<close>

text \<open>A thread of the speed run: its trace and its position; a request is one step, with the call.\<close>

definition speed_step ::
    "'s alloc_ops \<Rightarrow> trace_t \<times> nat \<Rightarrow> 's driver \<Rightarrow> (string + (trace_t \<times> nat) \<times> 's driver) option" where
  "speed_step A th d =
     (case th of (t, i) \<Rightarrow>
        if int i < num_ops t then do {
          assert_c (i < length (ops t));
          x \<leftarrow> speed_request A (ops t ! i) t d;
          case x of Inl e \<Rightarrow> Some (Inl e) | Inr (t, d) \<Rightarrow> Some (Inr ((t, Suc i), d))
        } else Some (Inr (th, d)))"

fun run_speed ::
    "'s alloc_ops \<Rightarrow> nat list \<Rightarrow> (trace_t \<times> nat) list \<Rightarrow> 's driver \<Rightarrow>
     (string + (trace_t \<times> nat) list \<times> 's driver) option" where
  "run_speed A [] ths d = Some (Inr (ths, d))"
| "run_speed A (j # js) ths d = do {
     assert_c (j < length ths);
     x \<leftarrow> speed_step A (ths ! j) d;
     case x of Inl e \<Rightarrow> Some (Inl e) | Inr (th, d) \<Rightarrow> run_speed A js (ths[j := th]) d
   }"

text \<open>The order of the steps, and the readings of the clock by the thread that reports.\<close>

record mt_run =
  mt_sched :: "nat list"
  mt_start :: timeval
  mt_stop :: timeval

record mt_world =
  mt_check :: "nat list"
  mt_speed :: "mt_run list"

definition REPEATS :: nat where "REPEATS = 2"

text \<open>One repetition: the seconds and the heap size that the last thread reports.\<close>

definition eval_mm_speed_single ::
    "'s alloc_ops \<Rightarrow> nat \<Rightarrow> mt_run \<Rightarrow> int \<Rightarrow> trace_t \<Rightarrow> 's driver \<Rightarrow> (string + (rat \<times> int) \<times> 's driver) option" where
  "eval_mm_speed_single A n run tracenum t d = do {
     (_, d) \<leftarrow> reset_heap A tracenum d;
     r \<leftarrow> run_speed A (mt_sched run) (replicate n (t, 0)) d;
     case r of
       Inl e \<Rightarrow> Some (Inl e)
     | Inr (ths, d) \<Rightarrow> do {
         assert_c (list_all (\<lambda>(t, i). num_ops t \<le> int i) ths);
         let secs = of_int (tvl_sec (mt_stop run) - tvl_sec (mt_start run)) +
           of_int (tvl_usec (mt_stop run) - tvl_usec (mt_start run)) / 1000000;
         Some (Inr ((secs, op_heapsize A (alloc d)), d))
       }
   }"

fun repeat_speed ::
    "'s alloc_ops \<Rightarrow> nat \<Rightarrow> mt_run list \<Rightarrow> int \<Rightarrow> trace_t \<Rightarrow> rat \<Rightarrow> int \<Rightarrow> 's driver \<Rightarrow>
     (string + (rat \<times> int) \<times> 's driver) option" where
  "repeat_speed A n [] tracenum t runtime heap_size d = Some (Inr ((runtime, heap_size), d))"
| "repeat_speed A n (run # rest) tracenum t runtime heap_size d = do {
     r \<leftarrow> eval_mm_speed_single A n run tracenum t d;
     case r of
       Inl e \<Rightarrow> Some (Inl e)
     | Inr ((secs, hs), d) \<Rightarrow> repeat_speed A n rest tracenum t (runtime + secs) (heap_size + hs) d
   }"

definition mt_stats ::
    "'s alloc_ops \<Rightarrow> nat \<Rightarrow> mt_world \<Rightarrow> int \<Rightarrow> int \<Rightarrow> trace_t \<Rightarrow> 's driver \<Rightarrow> (string + stats_t \<times> 's driver) option" where
  "mt_stats A n w tracenum max_total_size t d = do {
     opn \<leftarrow> cint (num_ops t * int n);
     (res, d) \<leftarrow> mt_valid A n (mt_check w) tracenum t d;
     valid \<leftarrow> res;
     let ms = \<lparr>s_ops = of_int opn, s_valid = valid, s_secs = 0, s_util = 0\<rparr>;
     if \<not> valid then Some (Inr (ms, d))
     else do {
       assert_c (length (mt_speed w) = REPEATS);
       r \<leftarrow> repeat_speed A n (mt_speed w) tracenum t 0 0 d;
       case r of
         Inl e \<Rightarrow> Some (Inl e)
       | Inr ((runtime, heap_size), d) \<Rightarrow> do {
           let heap_size_avg = heap_size div int REPEATS;
           assert_c (heap_size_avg \<noteq> 0);
           Some (Inr (ms\<lparr>s_util := of_nat n * of_int max_total_size / of_int heap_size_avg,
             s_secs := runtime / of_nat REPEATS\<rparr>, d))
         }
     }
   }"

subsection \<open>All traces\<close>

text \<open>The peak of a trace is kept for the next: \<open>max_total_size\<close> is not reset in the loop.\<close>

fun eval_traces ::
    "'s alloc_ops \<Rightarrow> (string + trace_t \<times> 's driver \<Rightarrow> timespec) \<Rightarrow> (string \<Rightarrow> string option) \<Rightarrow> (int \<Rightarrow> mt_world) \<Rightarrow>
     options \<Rightarrow> int \<Rightarrow> int \<Rightarrow> string list \<Rightarrow> 's driver \<Rightarrow> (string + (stats_t \<times> stats_t option) list \<times> 's driver) option" where
  "eval_traces A clock files w opts i max_total_size [] d = Some (Inr ([], d))"
| "eval_traces A clock files w opts i max_total_size (f # fs) d = do {
     r \<leftarrow> read_trace files (tracedir opts) f;
     case r of
       Inl e \<Rightarrow> Some (Inl e)
     | Inr t \<Rightarrow> do {
         r \<leftarrow> eval_trace A clock (vary_size opts) i max_total_size t d;
         case r of
           Inl e \<Rightarrow> Some (Inl e)
         | Inr (st, max_total_size, d) \<Rightarrow> do {
             r \<leftarrow> (if nthreads opts = 0 then Some (Inr (None, d))
                  else do {
                    assert_c (nthreads opts > 0);
                    r \<leftarrow> mt_stats A (nat (nthreads opts)) (w i) i max_total_size t d;
                    case r of Inl e \<Rightarrow> Some (Inl e) | Inr (ms, d) \<Rightarrow> Some (Inr (Some ms, d))
                  });
             case r of
               Inl e \<Rightarrow> Some (Inl e)
             | Inr (ms, d) \<Rightarrow> do {
                 r \<leftarrow> eval_traces A clock files w opts (i + 1) max_total_size fs d;
                 case r of Inl e \<Rightarrow> Some (Inl e) | Inr (sts, d) \<Rightarrow> Some (Inr ((st, ms) # sts, d))
               }
           }
       }
   }"

subsection \<open>The results file\<close>

text \<open>Literal text, and the values that a conversion specifier prints.\<close>

datatype piece = Text string | Number rat

definition LF :: string where "LF = [CHR 0x0A]"

definition quoted_name :: "string \<Rightarrow> string" where
  "quoted_name s = CHR 0x22 # s @ [CHR 0x22]"

definition field :: "string \<Rightarrow> rat \<Rightarrow> piece list" where
  "field name x = [Text ('', '' @ quoted_name name @ '': ''), Number x, Text LF]"

definition json_trace :: "string \<Rightarrow> stats_t \<Rightarrow> piece list" where
  "json_trace f st =
     Text (''{ '' @ quoted_name ''trace'' @ '': '' @ quoted_name f @ LF) #
     (if s_valid st then
        [Text ('', '' @ quoted_name ''valid'' @ '': true'' @ LF)] @
        field ''util'' (s_util st * 100) @ field ''ops'' (s_ops st) @ field ''secs'' (s_secs st) @
        field ''Kops'' ((s_ops st / 1000) / s_secs st) @ [Text ''}'']
      else [Text ('', '' @ quoted_name ''valid'' @ '': false'' @ LF), Text ''}''])"

fun json_rows :: "(string \<times> stats_t) list \<Rightarrow> piece list" where
  "json_rows [] = []"
| "json_rows [(f, st)] = json_trace f st"
| "json_rows ((f, st) # r # rs) = json_trace f st @ [Text ('','' @ LF)] @ json_rows (r # rs)"

definition printresults_as_json :: "(string \<times> stats_t) list \<Rightarrow> piece list" where
  "printresults_as_json rs = [Text (''['' @ LF)] @ json_rows rs @ [Text ('']'' @ LF)]"

definition results_file :: "bool \<Rightarrow> options \<Rightarrow> int \<Rightarrow> string list \<Rightarrow> stats_t list \<Rightarrow> stats_t list \<Rightarrow> piece list" where
  "results_file thread_safe opts errs fs sts mts =
     [Text ''{'', Text ('' '' @ quoted_name ''version'' @ '': '' @ quoted_name ''1.1'' @ '','' @ LF),
      Text ('' '' @ quoted_name ''varysize'' @ '': ''), Number (if vary_size opts then 1 else 0), Text ('','' @ LF),
      Text ('' '' @ quoted_name ''nthreads'' @ '': ''), Number (of_int (nthreads opts)), Text ('','' @ LF),
      Text ('' '' @ quoted_name ''THREAD_SAFE'' @ '': '' @ (if thread_safe then ''true'' else ''false'') @ '','' @ LF),
      Text ('' '' @ quoted_name ''results'' @ '': '')] @
     printresults_as_json (zip fs sts) @
     (if errs = 0 then
        [Text ('', '' @ quoted_name ''perfindex'' @ '' : { '' @ quoted_name ''avg_mm_util'' @ '': ''), Number (avg_mm_util sts),
         Text ('', '' @ quoted_name ''avg_mm_throughput'' @ '' : ''), Number (avg_mm_throughput sts),
         Text ('', '' @ quoted_name ''perfindex'' @ '': ''), Number (snd (snd (perf_index errs sts))),
         Text ('', '' @ quoted_name ''AVG_LIBC_THRUPUT'' @ '': ''), Number AVG_LIBC_THRUPUT, Text ('' }'' @ LF)]
      else []) @
     (if nthreads opts > 0 then Text ('', '' @ quoted_name ''mtresults'' @ '': '') # printresults_as_json (zip fs mts)
      else []) @
     [Text ''}'']"

subsection \<open>The main routine\<close>

text \<open>
  What the process leaves: the tables (of the library, of the allocator, of the threads) as far as they
  are printed, the number of correct traces, the parts of the index and the index, and the results file.
\<close>

record report =
  libc_table :: "row list"
  mm_table :: "row list"
  mt_table :: "row list"
  correct :: int
  index :: "rat \<times> rat \<times> rat"
  json :: "piece list"

text \<open>The first left value is the code of \<open>exit\<close> when the process ends before.\<close>

definition main_driver ::
    "'l alloc_ops \<Rightarrow> (string + trace_t \<times> 'l driver \<Rightarrow> timespec) \<Rightarrow> 'l driver \<Rightarrow>
     's alloc_ops \<Rightarrow> (string + trace_t \<times> 's driver \<Rightarrow> timespec) \<Rightarrow> (string \<Rightarrow> string option) \<Rightarrow> (int \<Rightarrow> mt_world) \<Rightarrow>
     bool \<Rightarrow> team_t \<Rightarrow> (char \<times> string) list \<Rightarrow> 's driver \<Rightarrow> (int + report) option" where
  "main_driver L lclock ld A clock files w thread_safe team args d = do {
     r \<leftarrow> parse_options args initial_options;
     case r of
       Inl code \<Rightarrow> Some (Inl code)
     | Inr opts \<Rightarrow>
         if team_check opts \<and> \<not> team_accepted team then Some (Inl 1)
         else do {
           let (fs, n) = select_traces opts;
           let fs = take (nat n) fs;
           r \<leftarrow> (if run_libc opts then eval_libc_traces L lclock files opts 0 fs ld else Some (Inr ([], ld)));
           case r of
             Inl e \<Rightarrow> Some (Inl 1)
           | Inr (lsts, ld) \<Rightarrow> do {
               r \<leftarrow> eval_traces A clock files w opts 0 0 fs d;
               case r of
                 Inl e \<Rightarrow> Some (Inl 1)
               | Inr (sts, d) \<Rightarrow> do {
                   let mm = map fst sts;
                   let mt = List.map_filter snd sts;
                   let talk = (verbose opts \<noteq> 0);
                   Some (Inr \<lparr>
                     libc_table = (if run_libc opts \<and> talk then printresults 0 fs lsts else []),
                     mm_table = (if talk then printresults (errors d) fs mm else []),
                     mt_table = (if nthreads opts \<noteq> 0 \<and> talk then printresults (errors d) fs mt else []),
                     correct = numcorrect mm, index = perf_index (errors d) mm,
                     json = results_file thread_safe opts (errors d) fs mm mt\<rparr>)
                 }
             }
         }
   }"

end
