(* ===== verification/Buffer.thy ===== *)
theory Buffer
  imports CStr
begin

text \<open>
  The dynamic buffer of \<open>pserv/src/buffer.h\<close>.  The storage is a block of \<open>cap\<close> bytes, the first
  \<open>len\<close> of which hold data.  A new or larger block is always granted, except that \<open>realloc\<close> to zero
  bytes yields a null pointer, on which the code exits; this and the overflow of an \<open>int\<close> are \<open>None\<close>.
\<close>

record buffer_t =
  buf :: mem
  len :: int
  cap :: int

definition realloc_block :: "mem \<Rightarrow> int \<Rightarrow> mem" where
  "realloc_block m n = take (nat n) m @ replicate (nat n - length m) None"

definition buffer_init :: "int \<Rightarrow> buffer_t option" where
  "buffer_init initialsize =
     (if 0 \<le> initialsize then Some \<lparr>buf = replicate (nat initialsize) None, len = 0, cap = initialsize\<rparr> else None)"

definition buffer_reset :: "buffer_t \<Rightarrow> int \<Rightarrow> buffer_t" where
  "buffer_reset b sz =
     (let b = b\<lparr>len := 0\<rparr> in if cap b > sz then b\<lparr>buf := realloc_block (buf b) sz, cap := sz\<rparr> else b)"

definition buffer_ensure_capacity :: "buffer_t \<Rightarrow> int \<Rightarrow> buffer_t option" where
  "buffer_ensure_capacity b n = do {
     l \<leftarrow> cint (len b + n);
     if l \<ge> cap b then do {
       d \<leftarrow> cint (cap b * 2);
       c \<leftarrow> cint (d + n);
       if c \<le> 0 then None else Some (b\<lparr>buf := realloc_block (buf b) c, cap := c\<rparr>)
     } else Some b
   }"

definition write_at :: "mem \<Rightarrow> int \<Rightarrow> string \<Rightarrow> mem option" where
  "write_at m i s =
     (if 0 \<le> i \<and> nat i + length s \<le> length m
      then Some (take (nat i) m @ map Some s @ drop (nat i + length s) m) else None)"

definition buffer_append :: "buffer_t \<Rightarrow> string \<Rightarrow> buffer_t option" where
  "buffer_append b s = do {
     b \<leftarrow> buffer_ensure_capacity b (int (length s));
     m \<leftarrow> write_at (buf b) (len b) s;
     Some (b\<lparr>buf := m, len := len b + int (length s)\<rparr>)
   }"

definition buffer_appendc :: "buffer_t \<Rightarrow> char \<Rightarrow> buffer_t option" where
  "buffer_appendc b c = do {
     b \<leftarrow> buffer_ensure_capacity b 1;
     m \<leftarrow> write_at (buf b) (len b) [c];
     Some (b\<lparr>buf := m, len := len b + 1\<rparr>)
   }"

definition buffer_appends :: "buffer_t \<Rightarrow> string \<Rightarrow> buffer_t option" where
  "buffer_appends b str = do {
     n \<leftarrow> cint (int (length str));
     buffer_append b str
   }"

subsection \<open>The contents of a buffer\<close>

definition buffer_ok :: "buffer_t \<Rightarrow> bool" where
  "buffer_ok b \<longleftrightarrow> 0 \<le> len b \<and> len b \<le> cap b \<and> length (buf b) = nat (cap b) \<and> None \<notin> set (take (nat (len b)) (buf b))"

definition contents :: "buffer_t \<Rightarrow> string" where
  "contents b = map the (take (nat (len b)) (buf b))"

lemma contents_length: "buffer_ok b \<Longrightarrow> length (contents b) = nat (len b)"
  by (auto simp: contents_def buffer_ok_def min_def)

lemma take_contents: "buffer_ok b \<Longrightarrow> take (nat (len b)) (buf b) = map Some (contents b)"
  by (induction "take (nat (len b)) (buf b)")
    (auto simp: buffer_ok_def contents_def map_idI in_set_conv_nth intro!: nth_equalityI)

lemma buf_split: "buffer_ok b \<Longrightarrow> \<exists>r. buf b = map Some (contents b) @ r \<and> length r = nat (cap b - len b)"
  using take_contents [of b] append_take_drop_id [of "nat (len b)" "buf b"]
  by (intro exI [of _ "drop (nat (len b)) (buf b)"]) (auto simp: buffer_ok_def)

lemma buffer_okI:
  assumes "buf b = map Some s @ r" "len b = int (length s)" "length (buf b) = nat (cap b)" "0 \<le> cap b"
  shows "buffer_ok b" "contents b = s"
proof -
  have "len b \<le> cap b" using assms by auto
  then show "buffer_ok b" "contents b = s"
    using assms by (auto simp: buffer_ok_def contents_def comp_def)
qed

lemma realloc_block_length [simp]: "length (realloc_block m n) = nat n"
  by (simp add: realloc_block_def)

lemma realloc_block_prefix: "int (length us) \<le> n \<Longrightarrow> \<exists>r. realloc_block (us @ m) n = us @ r"
  by (auto simp: realloc_block_def)

lemma ensure_ok:
  assumes "buffer_ok b" "0 \<le> n" "0 < cap b \<or> 0 < n" "2 * cap b + n < 2 ^ 31"
  shows "\<exists>b'. buffer_ensure_capacity b n = Some b' \<and> buffer_ok b' \<and> contents b' = contents b \<and> len b' = len b \<and>
    len b + n \<le> cap b' \<and> cap b \<le> cap b' \<and> cap b' \<le> max (cap b) (2 * (len b + n) + n)"
proof -
  obtain r where r: "buf b = map Some (contents b) @ r" using buf_split [OF assms(1)] by blast
  have l: "0 \<le> len b" "len b \<le> cap b" "length (buf b) = nat (cap b)" "len b = int (length (contents b))"
    using assms(1) contents_length [OF assms(1)] by (auto simp: buffer_ok_def)
  show ?thesis
  proof (cases "len b + n \<ge> cap b")
    case True
    let ?c = "2 * cap b + n"
    obtain r' where r': "realloc_block (buf b) ?c = map Some (contents b) @ r'"
      using realloc_block_prefix [of "map Some (contents b)" ?c r] r l assms(2) by auto
    have len': "length (contents b) + length r' = nat ?c"
      using arg_cong [OF r', of length] by simp
    let ?b = "b\<lparr>buf := realloc_block (buf b) ?c, cap := ?c\<rparr>"
    have "buffer_ensure_capacity b n = Some ?b"
      using True l assms by (auto simp: buffer_ensure_capacity_def cint_def mult.commute)
    moreover have "buffer_ok ?b" "contents ?b = contents b"
      using buffer_okI [of ?b "contents b" r'] r' len' l assms(2) by simp_all
    ultimately show ?thesis using True l assms(2) by (intro exI [of _ ?b]) auto
  next
    case False
    then show ?thesis using l assms by (simp add: buffer_ensure_capacity_def cint_def)
  qed
qed

lemma append_room:
  assumes "buffer_ok b" "len b + int (length s) \<le> cap b"
  shows "\<exists>m. write_at (buf b) (len b) s = Some m \<and>
    buffer_ok (b\<lparr>buf := m, len := len b + int (length s)\<rparr>) \<and>
    contents (b\<lparr>buf := m, len := len b + int (length s)\<rparr>) = contents b @ s"
proof -
  have l: "0 \<le> len b" "length (buf b) = nat (cap b)" "len b = int (length (contents b))"
    using assms(1) contents_length [OF assms(1)] by (auto simp: buffer_ok_def)
  let ?m = "map Some (contents b) @ map Some s @ drop (nat (len b) + length s) (buf b)"
  let ?b = "b\<lparr>buf := ?m, len := len b + int (length s)\<rparr>"
  have w: "write_at (buf b) (len b) s = Some ?m"
    using l assms(2) take_contents [OF assms(1)] by (simp add: write_at_def)
  have "buf ?b = map Some (contents b @ s) @ drop (nat (len b) + length s) (buf b)" by simp
  from buffer_okI [OF this] have "buffer_ok ?b" "contents ?b = contents b @ s"
    using l assms(2) by auto
  then show ?thesis using w by blast
qed

text \<open>
  \<open>buffer_append\<close> implements the appending of bytes: whatever the capacity was, the contents
  afterwards are the old contents followed by the new bytes, and the storage holds them.  The one
  exception in the range of an \<open>int\<close> is to append nothing to a buffer without storage, on which the
  process exits.
\<close>

theorem buffer_append_correct:
  assumes "buffer_ok b" "0 < cap b \<or> s \<noteq> []" "2 * cap b + int (length s) < 2 ^ 31"
  shows "\<exists>b'. buffer_append b s = Some b' \<and> buffer_ok b' \<and> contents b' = contents b @ s \<and>
    cap b' \<le> max (cap b) (2 * (len b + int (length s)) + int (length s))"
proof -
  obtain b1 where b1: "buffer_ensure_capacity b (int (length s)) = Some b1" "buffer_ok b1" "contents b1 = contents b"
    "len b1 = len b" "len b + int (length s) \<le> cap b1" "cap b1 \<le> max (cap b) (2 * (len b + int (length s)) + int (length s))"
    using ensure_ok [OF assms(1), of "int (length s)"] assms(2,3) by auto
  from append_room [OF b1(2), of s] b1(4,5) obtain m where "write_at (buf b1) (len b1) s = Some m"
    "buffer_ok (b1\<lparr>buf := m, len := len b1 + int (length s)\<rparr>)"
    "contents (b1\<lparr>buf := m, len := len b1 + int (length s)\<rparr>) = contents b1 @ s" by auto
  then show ?thesis using b1 by (auto simp: buffer_append_def)
qed

theorem buffer_append_correct_witness:
  "\<exists>b b'. buffer_init 4 = Some b \<and> buffer_append b ''HTTP/1.1 '' = Some b' \<and> contents b' = ''HTTP/1.1 ''"
proof -
  let ?b = "\<lparr>buf = replicate 4 None, len = 0, cap = 4\<rparr>"
  have "buffer_ok ?b" "contents ?b = []" by (simp_all add: buffer_ok_def contents_def)
  then show ?thesis
    using buffer_append_correct [of ?b "''HTTP/1.1 ''"] by (auto simp: buffer_init_def)
qed

end
