(* ===== verification/Bufio.thy ===== *)
theory Bufio
  imports Buffer
begin

text \<open>
  The buffered connection of \<open>pserv/src/bufio.c\<close>.  The socket is what the peer and the network do:
  \<open>incoming\<close> are the pieces that \<open>recv\<close> will deliver (after them the peer has closed the connection),
  \<open>sends\<close> the results of the coming calls that send (when there are no more, everything is sent),
  \<open>outgoing\<close> the bytes sent so far.
\<close>

datatype recv = Received string | Failed

record conn =
  incoming :: "recv list"
  sends :: "int list"
  outgoing :: string

record bufio =
  bufpos :: int
  bbuf :: buffer_t
  sock :: conn

definition BUFSIZE :: int where "BUFSIZE = 8192"
definition READSIZE :: int where "READSIZE = 2048"
definition TRUNCATE_THRESHOLD :: int where "TRUNCATE_THRESHOLD = 10000"

definition bufio_create :: "conn \<Rightarrow> bufio option" where
  "bufio_create socket = do { b \<leftarrow> buffer_init BUFSIZE; Some \<lparr>bufpos = 0, bbuf = b, sock = socket\<rparr> }"

definition bytes_buffered :: "bufio \<Rightarrow> int" where
  "bytes_buffered self = len (bbuf self) - bufpos self"

text \<open>The bytes \<open>from .. from + n\<close> of a block, all of which must have been written.\<close>

definition read_block :: "mem \<Rightarrow> int \<Rightarrow> int \<Rightarrow> string option" where
  "read_block m from n =
     (let s = take (nat n) (drop (nat from) m)
      in if 0 \<le> from \<and> length s = nat n \<and> None \<notin> set s then Some (map the s) else None)"

definition bufio_truncate :: "bufio \<Rightarrow> bufio option" where
  "bufio_truncate self =
     (if len (bbuf self) > TRUNCATE_THRESHOLD then do {
        let unread = bytes_buffered self;
        assert_c (unread \<ge> 0);
        if unread = 0 then Some (self\<lparr>bbuf := buffer_reset (bbuf self) BUFSIZE, bufpos := 0\<rparr>)
        else do {
          let oldbuf = bbuf self;
          b \<leftarrow> buffer_init BUFSIZE;
          s \<leftarrow> read_block (buf oldbuf) (bufpos self) unread;
          b \<leftarrow> buffer_append b s;
          Some (self\<lparr>bbuf := b, bufpos := 0\<rparr>)
        }
      } else Some self)"

text \<open>One call of \<open>recv\<close> for at most \<open>n\<close> bytes: its result, the bytes, and the socket.\<close>

definition recv_call :: "conn \<Rightarrow> int \<Rightarrow> int \<times> string \<times> conn" where
  "recv_call c n =
     (case incoming c of
        [] \<Rightarrow> (0, [], c)
      | Failed # rs \<Rightarrow> (- 1, [], c\<lparr>incoming := rs\<rparr>)
      | Received s # rs \<Rightarrow>
          (int (length (take (nat n) s)), take (nat n) s,
           c\<lparr>incoming := (if drop (nat n) s = [] then rs else Received (drop (nat n) s) # rs)\<rparr>))"

definition read_more :: "bufio \<Rightarrow> (int \<times> bufio) option" where
  "read_more self = do {
     b \<leftarrow> buffer_ensure_capacity (bbuf self) READSIZE;
     let (bread, s, c) = recv_call (sock self) READSIZE;
     let self = self\<lparr>bbuf := b, sock := c\<rparr>;
     if bread < 1 then Some (bread, self)
     else do {
       m \<leftarrow> write_at (buf b) (len b) s;
       Some (bread, self\<lparr>bbuf := b\<lparr>buf := m, len := len b + bread\<rparr>\<rparr>)
     }
   }"

definition bufio_offset2ptr :: "bufio \<Rightarrow> int \<Rightarrow> int option" where
  "bufio_offset2ptr self offset = do { assert_c (offset < len (bbuf self)); Some offset }"

definition bufio_ptr2offset :: "bufio \<Rightarrow> int \<Rightarrow> int option" where
  "bufio_ptr2offset self ptr = do { assert_c (0 \<le> ptr \<and> ptr < len (bbuf self)); Some ptr }"

definition bufio_readbyte :: "bufio \<Rightarrow> (int \<times> char \<times> bufio) option" where
  "bufio_readbyte self = do {
     (rc, self) \<leftarrow> (if bytes_buffered self = 0 then read_more self else Some (1, self));
     if rc \<le> 0 then Some (rc, NUL, self)
     else do {
       s \<leftarrow> read_block (buf (bbuf self)) (bufpos self) 1;
       Some (1, hd s, self\<lparr>bufpos := bufpos self + 1\<rparr>)
     }
   }"

partial_function (option) readline_loop :: "bufio \<Rightarrow> (int \<times> bufio) option" where
  "readline_loop self = do {
     (rc, p, self) \<leftarrow> bufio_readbyte self;
     if rc < 0 then Some (rc, self)
     else if rc = 0 then Some (0, self)
     else if p \<noteq> CHR 0x0A then readline_loop self
     else Some (1, self)
   }"

declare readline_loop.simps [code]

definition bufio_readline :: "bufio \<Rightarrow> (int \<times> int \<times> bufio) option" where
  "bufio_readline self = do {
     let line_offset = bufpos self;
     (rc, self) \<leftarrow> readline_loop self;
     if rc < 0 then Some (rc, line_offset, self)
     else Some (bufpos self - line_offset, line_offset, self)
   }"

partial_function (option) read_loop :: "bufio \<Rightarrow> int \<Rightarrow> (int \<times> bufio) option" where
  "read_loop self count =
     (if bytes_buffered self < count then do {
        (rc, self) \<leftarrow> read_more self;
        if rc < 0 then Some (rc, self)
        else if rc = 0 then Some (0, self)
        else read_loop self count
      } else Some (1, self))"

declare read_loop.simps [code]

definition bufio_read :: "bufio \<Rightarrow> int \<Rightarrow> (int \<times> int \<times> bufio) option" where
  "bufio_read self count = do {
     let buf_offset = bufpos self;
     (rc, self) \<leftarrow> read_loop self count;
     if rc < 0 then Some (rc, buf_offset, self)
     else do {
       let bytes_read = min (bytes_buffered self) count;
       Some (bytes_read, buf_offset, self\<lparr>bufpos := bufpos self + bytes_read\<rparr>)
     }
   }"

text \<open>A call that sends \<open>s\<close>: \<open>-1\<close>, or the number of bytes of \<open>s\<close> that were sent.\<close>

definition send_call :: "conn \<Rightarrow> string \<Rightarrow> int \<times> conn" where
  "send_call c s =
     (case sends c of
        [] \<Rightarrow> (int (length s), c\<lparr>outgoing := outgoing c @ s\<rparr>)
      | r # rs \<Rightarrow>
          if r < 0 then (- 1, c\<lparr>sends := rs\<rparr>)
          else (int (length (take (nat r) s)), c\<lparr>sends := rs, outgoing := outgoing c @ take (nat r) s\<rparr>))"

definition bufio_sendfile :: "bufio \<Rightarrow> string \<Rightarrow> int \<Rightarrow> int \<Rightarrow> int \<times> int \<times> bufio" where
  "bufio_sendfile self file off filesize =
     (let (r, c) = send_call (sock self) (take (nat filesize) (drop (nat off) file))
      in (r, (if r < 0 then off else off + r), self\<lparr>sock := c\<rparr>))"

definition bufio_sendbuffer :: "bufio \<Rightarrow> buffer_t \<Rightarrow> (int \<times> bufio) option" where
  "bufio_sendbuffer self resp = do {
     s \<leftarrow> read_block (buf resp) 0 (len resp);
     let (r, c) = send_call (sock self) s;
     Some (r, self\<lparr>sock := c\<rparr>)
   }"

fun gather :: "buffer_t list \<Rightarrow> string option" where
  "gather [] = Some []"
| "gather (b # bs) = do { s \<leftarrow> read_block (buf b) 0 (len b); r \<leftarrow> gather bs; Some (s @ r) }"

definition bufio_sendbuffers :: "bufio \<Rightarrow> buffer_t list \<Rightarrow> (int \<times> bufio) option" where
  "bufio_sendbuffers self resp = do {
     s \<leftarrow> gather resp;
     let (r, c) = send_call (sock self) s;
     Some (r, self\<lparr>sock := c\<rparr>)
   }"

subsection \<open>The stream behind the buffer\<close>

fun stream :: "recv list \<Rightarrow> string" where
  "stream [] = []"
| "stream (Received s # rs) = s @ stream rs"
| "stream (Failed # rs) = []"

definition unread :: "bufio \<Rightarrow> string" where
  "unread self = drop (nat (bufpos self)) (contents (bbuf self)) @ stream (incoming (sock self))"

definition piece_ok :: "recv \<Rightarrow> bool" where
  "piece_ok r \<longleftrightarrow> (\<exists>s. r = Received s \<and> s \<noteq> [])"

text \<open>
  A connection without failures.  The bound keeps the sizes of the buffer within an \<open>int\<close>.
\<close>

definition bufio_ok :: "bufio \<Rightarrow> bool" where
  "bufio_ok self \<longleftrightarrow> buffer_ok (bbuf self) \<and> 0 \<le> bufpos self \<and> bufpos self \<le> len (bbuf self) \<and>
     (\<forall>r\<in>set (incoming (sock self)). piece_ok r) \<and> 0 < cap (bbuf self) \<and>
     cap (bbuf self) \<le> max BUFSIZE (2 * len (bbuf self) + 6144) \<and>
     len (bbuf self) + int (length (stream (incoming (sock self)))) \<le> 2 ^ 28"

text \<open>Everything the peer sends: what is in the buffer, then what will come.\<close>

definition whole :: "bufio \<Rightarrow> string" where
  "whole self = contents (bbuf self) @ stream (incoming (sock self))"

definition later :: "bufio \<Rightarrow> bufio \<Rightarrow> bool" where
  "later a b \<longleftrightarrow> whole b = whole a \<and> len (bbuf a) \<le> len (bbuf b) \<and>
     sends (sock b) = sends (sock a) \<and> outgoing (sock b) = outgoing (sock a)"

lemma later_refl [simp]: "later a a"
  by (simp add: later_def)

lemma later_trans: "later a b \<Longrightarrow> later b c \<Longrightarrow> later a c"
  by (simp add: later_def)

lemma contents_whole: "bufio_ok a \<Longrightarrow> contents (bbuf a) = take (nat (len (bbuf a))) (whole a)"
  using contents_length [of "bbuf a"] by (auto simp: whole_def bufio_ok_def)

lemma unread_whole: "bufio_ok a \<Longrightarrow> unread a = drop (nat (bufpos a)) (whole a)"
  using contents_length [of "bbuf a"] by (auto simp: whole_def unread_def bufio_ok_def)

lemma read_block_contents:
  assumes "buffer_ok b" "0 \<le> i" "0 \<le> n" "i + n \<le> len b"
  shows "read_block (buf b) i n = Some (take (nat n) (drop (nat i) (contents b)))"
proof -
  obtain r where r: "buf b = map Some (contents b) @ r" using buf_split [OF assms(1)] by blast
  have l: "int (length (contents b)) = len b" using contents_length [OF assms(1)] assms by simp
  have "nat i + nat n \<le> length (contents b)" using l assms(2-4) by linarith
  then have "take (nat n) (drop (nat i) (buf b)) = map Some (take (nat n) (drop (nat i) (contents b)))"
    by (simp add: r take_map drop_map)
  moreover have "length (take (nat n) (drop (nat i) (contents b))) = nat n" using \<open>nat i + nat n \<le> _\<close> by simp
  ultimately show ?thesis using assms(2) by (auto simp: read_block_def Let_def comp_def)
qed

lemma recv_call_ok:
  assumes "\<forall>r\<in>set (incoming c). piece_ok r" "0 < n"
  shows "\<exists>s c'. recv_call c n = (int (length s), s, c') \<and> stream (incoming c) = s @ stream (incoming c') \<and>
    int (length s) \<le> n \<and> (s = [] \<longleftrightarrow> incoming c = []) \<and> (\<forall>r\<in>set (incoming c'). piece_ok r) \<and>
    sends c' = sends c \<and> outgoing c' = outgoing c"
proof (cases "incoming c")
  case (Cons r rs)
  then obtain s where s: "r = Received s" "s \<noteq> []" using assms(1) by (auto simp: piece_ok_def)
  have "s = take (nat n) s @ drop (nat n) s" by simp
  moreover have "take (nat n) s \<noteq> []" using s(2) assms(2) by simp
  ultimately show ?thesis
    using Cons s assms by (auto simp: recv_call_def piece_ok_def)
qed (use assms(2) in \<open>simp add: recv_call_def\<close>)

lemma read_more_ok:
  assumes "bufio_ok self"
  shows "\<exists>n self'. read_more self = Some (n, self') \<and> 0 \<le> n \<and> bufio_ok self' \<and> later self self' \<and>
    bufpos self' = bufpos self \<and> unread self' = unread self \<and> len (bbuf self') = len (bbuf self) + n \<and>
    (n = 0 \<longleftrightarrow> incoming (sock self) = [])"
proof -
  let ?b = "bbuf self"
  have o: "buffer_ok ?b" "0 < cap ?b" "0 \<le> len ?b" "len ?b \<le> cap ?b" "bufpos self \<le> len ?b" "0 \<le> bufpos self"
    using assms by (auto simp: bufio_ok_def buffer_ok_def)
  have small: "2 * cap ?b + READSIZE < 2 ^ 31" using assms by (auto simp: bufio_ok_def BUFSIZE_def READSIZE_def)
  obtain b1 where b1: "buffer_ensure_capacity ?b READSIZE = Some b1" "buffer_ok b1" "contents b1 = contents ?b"
    "len b1 = len ?b" "len ?b + READSIZE \<le> cap b1" "cap ?b \<le> cap b1" "cap b1 \<le> max (cap ?b) (2 * (len ?b + READSIZE) + READSIZE)"
    using ensure_ok [OF o(1) _ _ small] o(2) by (auto simp: READSIZE_def)
  obtain s c where c: "recv_call (sock self) READSIZE = (int (length s), s, c)"
    "stream (incoming (sock self)) = s @ stream (incoming c)" "int (length s) \<le> READSIZE"
    "s = [] \<longleftrightarrow> incoming (sock self) = []" "\<forall>r\<in>set (incoming c). piece_ok r"
    "sends c = sends (sock self)" "outgoing c = outgoing (sock self)"
    using recv_call_ok [of "sock self" READSIZE] assms by (auto simp: bufio_ok_def READSIZE_def)
  have cap: "cap b1 \<le> max BUFSIZE (2 * len ?b + 6144)"
    using b1(7) assms by (auto simp: bufio_ok_def READSIZE_def)
  have len0: "length (contents ?b) = nat (len ?b)" using contents_length [OF o(1)] .
  show ?thesis
  proof (cases "s = []")
    case True
    let ?self = "self\<lparr>bbuf := b1, sock := c\<rparr>"
    have "read_more self = Some (0, ?self)" using b1(1) c(1) True by (simp add: read_more_def)
    moreover have "bufio_ok ?self" using assms b1 c True cap o by (auto simp: bufio_ok_def)
    moreover have "later self ?self" using b1(3,4) c True by (simp add: later_def whole_def)
    ultimately show ?thesis using b1 c True by (intro exI [of _ 0] exI [of _ ?self]) (simp add: unread_def)
  next
    case False
    from append_room [OF b1(2), of s] b1(4,5) c(3) obtain m where m: "write_at (buf b1) (len b1) s = Some m"
      "buffer_ok (b1\<lparr>buf := m, len := len b1 + int (length s)\<rparr>)"
      "contents (b1\<lparr>buf := m, len := len b1 + int (length s)\<rparr>) = contents b1 @ s" by auto
    let ?b' = "b1\<lparr>buf := m, len := len b1 + int (length s)\<rparr>"
    let ?self = "self\<lparr>bbuf := ?b', sock := c\<rparr>"
    have "read_more self = Some (int (length s), ?self)"
      using b1(1) c(1) m(1) False by (simp add: read_more_def Suc_le_eq)
    moreover have "bufio_ok ?self" using assms b1 c m(2) cap o by (auto simp: bufio_ok_def)
    moreover have "later self ?self" using b1(3,4) c m(3) by (simp add: later_def whole_def)
    moreover have "unread ?self = unread self"
      using m(3) b1(3) c(2) len0 o(5,6) by (simp add: unread_def)
    ultimately show ?thesis
      using b1(4) c(4) False by (intro exI [of _ "int (length s)"] exI [of _ ?self]) simp
  qed
qed

lemma unread_buffered: "bufio_ok self \<Longrightarrow> bytes_buffered self = 0 \<Longrightarrow> unread self = stream (incoming (sock self))"
  using contents_length [of "bbuf self"] by (auto simp: unread_def bytes_buffered_def bufio_ok_def)

lemma bufio_readbyte_ok:
  assumes "bufio_ok self"
  shows "\<exists>self'. bufio_ok self' \<and> later self self' \<and>
    (case unread self of
       [] \<Rightarrow> bufio_readbyte self = Some (0, NUL, self') \<and> unread self' = [] \<and> bufpos self' = bufpos self
     | c # cs \<Rightarrow> bufio_readbyte self = Some (1, c, self') \<and> unread self' = cs \<and> bufpos self' = bufpos self + 1 \<and>
         bufpos self' \<le> len (bbuf self'))"
proof -
  obtain rc self1 where s1: "(if bytes_buffered self = 0 then read_more self else Some (1, self)) = Some (rc, self1)"
    "bufio_ok self1" "later self self1" "bufpos self1 = bufpos self" "unread self1 = unread self"
    "rc \<le> 0 \<longleftrightarrow> unread self = []" "rc \<le> 0 \<longrightarrow> rc = 0" "0 < rc \<longrightarrow> bufpos self1 < len (bbuf self1)"
  proof (cases "bytes_buffered self = 0")
    case True
    obtain n self' where n: "read_more self = Some (n, self')" "0 \<le> n" "bufio_ok self'" "later self self'"
      "bufpos self' = bufpos self" "unread self' = unread self" "len (bbuf self') = len (bbuf self) + n"
      "n = 0 \<longleftrightarrow> incoming (sock self) = []" using read_more_ok [OF assms] by blast
    have "unread self = [] \<longleftrightarrow> incoming (sock self) = []"
      using unread_buffered [OF assms True] assms
      by (cases "incoming (sock self)") (auto simp: bufio_ok_def piece_ok_def)
    then show ?thesis using n True by (intro that [of n self']) (auto simp: bytes_buffered_def)
  next
    case False
    then have "bufpos self < len (bbuf self)" using assms by (auto simp: bytes_buffered_def bufio_ok_def)
    moreover from this have "unread self \<noteq> []"
      using assms contents_length [of "bbuf self"] by (auto simp: unread_def bufio_ok_def)
    ultimately show ?thesis using False assms by (intro that [of 1 self]) auto
  qed
  show ?thesis
  proof (cases "unread self")
    case Nil
    then show ?thesis using s1 by (auto simp: bufio_readbyte_def)
  next
    case (Cons c cs)
    have o: "buffer_ok (bbuf self1)" "0 \<le> bufpos self1" "bufpos self1 < len (bbuf self1)"
      using s1(2,6,8) Cons by (auto simp: bufio_ok_def)
    let ?d = "drop (nat (bufpos self1)) (contents (bbuf self1))"
    have "?d \<noteq> []" using contents_length [OF o(1)] o by auto
    then obtain ds where d: "?d = c # ds" using s1(5) Cons by (cases ?d) (auto simp: unread_def)
    have "read_block (buf (bbuf self1)) (bufpos self1) 1 = Some [c]"
      using read_block_contents [OF o(1,2), of 1] o(3) d by simp
    moreover have "unread (self1\<lparr>bufpos := bufpos self1 + 1\<rparr>) = cs"
    proof -
      have "drop (nat (bufpos self1 + 1)) (contents (bbuf self1)) = ds"
      proof -
        have "nat (bufpos self1 + 1) = Suc (nat (bufpos self1))" using o(2) by simp
        then have "drop (nat (bufpos self1 + 1)) (contents (bbuf self1)) = tl (drop (nat (bufpos self1)) (contents (bbuf self1)))"
          by (simp only: drop_Suc tl_drop)
        then show ?thesis using d by simp
      qed
      then show ?thesis using s1(5) Cons d by (simp add: unread_def)
    qed
    moreover have "bufio_ok (self1\<lparr>bufpos := bufpos self1 + 1\<rparr>)" using s1(2) o by (auto simp: bufio_ok_def)
    moreover have "later self (self1\<lparr>bufpos := bufpos self1 + 1\<rparr>)" using s1(3) by (simp add: later_def whole_def)
    ultimately show ?thesis
      using s1(1,4,6) Cons o(3) by (intro exI [of _ "self1\<lparr>bufpos := bufpos self1 + 1\<rparr>"]) (auto simp: bufio_readbyte_def)
  qed
qed

text \<open>The first line of a text, with its line feed, and the rest.\<close>

fun split_line :: "string \<Rightarrow> string \<times> string" where
  "split_line [] = ([], [])"
| "split_line (c # s) = (if c = CHR 0x0A then ([c], s) else let (l, r) = split_line s in (c # l, r))"

lemma readline_loop_ok:
  assumes "bufio_ok self"
  shows "\<exists>rc self'. readline_loop self = Some (rc, self') \<and> 0 \<le> rc \<and> bufio_ok self' \<and> later self self' \<and>
    bufpos self' = bufpos self + int (length (fst (split_line (unread self)))) \<and> unread self' = snd (split_line (unread self))"
  using assms
proof (induction "unread self" arbitrary: self)
  case Nil
  from bufio_readbyte_ok [OF Nil.prems] obtain self' where
    "bufio_readbyte self = Some (0, NUL, self')" "bufio_ok self'" "later self self'"
    "unread self' = []" "bufpos self' = bufpos self"
    by (auto simp: Nil(1) [symmetric])
  then show ?case using Nil(1) by (subst readline_loop.simps) (auto simp: Nil(1) [symmetric])
next
  case (Cons c cs)
  from bufio_readbyte_ok [OF Cons.prems] obtain self1 where
    s1: "bufio_readbyte self = Some (1, c, self1)" "bufio_ok self1" "later self self1"
    "unread self1 = cs" "bufpos self1 = bufpos self + 1"
    by (auto simp: Cons(2) [symmetric])
  show ?case
  proof (cases "c = CHR 0x0A")
    case True
    then show ?thesis using s1 by (subst readline_loop.simps) (simp add: Cons(2) [symmetric])
  next
    case False
    obtain rc self' where s2: "readline_loop self1 = Some (rc, self')" "0 \<le> rc" "bufio_ok self'" "later self1 self'"
      "bufpos self' = bufpos self1 + int (length (fst (split_line cs)))" "unread self' = snd (split_line cs)"
      using Cons(1) [of self1] s1 by auto
    then show ?thesis
      using False s1 later_trans [OF s1(3) s2(4)]
      by (subst readline_loop.simps) (simp add: Cons(2) [symmetric] case_prod_beta Let_def)
  qed
qed

lemma split_line_append: "fst (split_line s) @ snd (split_line s) = s"
  by (induction s) (auto simp: case_prod_beta Let_def)

text \<open>The bytes between two positions of the same stream are in the buffer of the later one.\<close>

lemma unread_prefix:
  assumes "bufio_ok a" "bufio_ok b" "later a b" "unread a = l @ unread b" "bufpos b = bufpos a + int (length l)"
  shows "take (length l) (drop (nat (bufpos a)) (contents (bbuf b))) = l"
proof -
  have W: "whole b = whole a" using assms(3) by (simp add: later_def)
  have "take (length l) (drop (nat (bufpos a)) (whole a)) = l"
    using assms(4) unread_whole [OF assms(1)] by (metis append_eq_conv_conj)
  moreover have "nat (bufpos a) + length l \<le> nat (len (bbuf b))" "0 \<le> bufpos a"
    using assms(1,2,5) by (auto simp: bufio_ok_def)
  ultimately show ?thesis
    using contents_whole [OF assms(2)] W by (auto simp: drop_take min_def)
qed

lemma bufio_readline_ok:
  assumes "bufio_ok self"
  shows "\<exists>self'. bufio_readline self = Some (int (length (fst (split_line (unread self)))), bufpos self, self') \<and>
    bufio_ok self' \<and> later self self' \<and> bufpos self' = bufpos self + int (length (fst (split_line (unread self)))) \<and>
    unread self' = snd (split_line (unread self)) \<and>
    take (length (fst (split_line (unread self)))) (drop (nat (bufpos self)) (contents (bbuf self'))) = fst (split_line (unread self))"
proof -
  obtain rc self' where s: "readline_loop self = Some (rc, self')" "0 \<le> rc" "bufio_ok self'" "later self self'"
    "bufpos self' = bufpos self + int (length (fst (split_line (unread self))))" "unread self' = snd (split_line (unread self))"
    using readline_loop_ok [OF assms] by blast
  have "unread self = fst (split_line (unread self)) @ unread self'" using s(6) split_line_append by metis
  from unread_prefix [OF assms s(3,4) this s(5)] show ?thesis
    using s by (intro exI [of _ self']) (simp add: bufio_readline_def)
qed

text \<open>
  C25: However the network cuts the stream into pieces, \<open>bufio_readline\<close> ends and delivers the first
  line of the unread bytes with its line feed, or all of them when the peer closes before a line
  feed; the line stands in the buffer at the offset it returns, and the rest stays unread.
\<close>

theorem bufio_readline_line:
  assumes "bufio_ok self"
  shows "\<exists>n off self'. bufio_readline self = Some (n, off, self') \<and> bufio_ok self' \<and> off = bufpos self \<and>
    n = int (length (fst (split_line (unread self)))) \<and> unread self' = snd (split_line (unread self)) \<and>
    take (nat n) (drop (nat off) (contents (bbuf self'))) = fst (split_line (unread self)) \<and> whole self' = whole self"
  using bufio_readline_ok [OF assms] by (auto simp: later_def)

lemma read_loop_ok:
  assumes "bufio_ok self"
  shows "\<exists>rc self'. read_loop self n = Some (rc, self') \<and> 0 \<le> rc \<and> bufio_ok self' \<and> later self self' \<and>
    bufpos self' = bufpos self \<and> unread self' = unread self \<and>
    (bytes_buffered self' < n \<longrightarrow> incoming (sock self') = [])"
  using assms
proof (induction "length (stream (incoming (sock self)))" arbitrary: self rule: less_induct)
  case less
  show ?case
  proof (cases "bytes_buffered self < n")
    case True
    obtain k s1 where s1: "read_more self = Some (k, s1)" "0 \<le> k" "bufio_ok s1" "later self s1" "bufpos s1 = bufpos self"
      "unread s1 = unread self" "len (bbuf s1) = len (bbuf self) + k" "k = 0 \<longleftrightarrow> incoming (sock self) = []"
      using read_more_ok [OF less.prems] by blast
    have wl: "length (whole s1) = length (whole self)" using s1(4) by (simp add: later_def)
    have ls: "length (contents (bbuf x)) = nat (len (bbuf x))" "0 \<le> len (bbuf x)" if "bufio_ok x" for x
      using that contents_length by (auto simp: bufio_ok_def)
    show ?thesis
    proof (cases "k = 0")
      case True
      then have "incoming (sock s1) = []" "bytes_buffered s1 = bytes_buffered self"
      proof -
        have "stream (incoming (sock s1)) = []"
          using wl s1(7,8) True ls [OF less.prems] ls [OF s1(3)] by (simp add: whole_def)
        then show "incoming (sock s1) = []"
          using s1(3) by (cases "incoming (sock s1)") (auto simp: bufio_ok_def piece_ok_def)
        show "bytes_buffered s1 = bytes_buffered self" using s1(5,7) True by (simp add: bytes_buffered_def)
      qed
      then show ?thesis
        using True \<open>bytes_buffered self < n\<close> s1 by (subst read_loop.simps) auto
    next
      case False
      have "length (stream (incoming (sock s1))) < length (stream (incoming (sock self)))"
        using wl s1(2,7) False ls [OF less.prems] ls [OF s1(3)] by (simp add: whole_def)
      from less.hyps [OF this s1(3)] obtain rc s2 where s2: "read_loop s1 n = Some (rc, s2)" "0 \<le> rc" "bufio_ok s2"
        "later s1 s2" "bufpos s2 = bufpos s1" "unread s2 = unread s1" "bytes_buffered s2 < n \<longrightarrow> incoming (sock s2) = []"
        by blast
      have "read_loop self n = Some (rc, s2)"
        using True s1(1,2) s2(1) False by (subst read_loop.simps) simp
      then show ?thesis using s1 s2 later_trans [OF s1(4) s2(4)] by (intro exI [of _ rc] exI [of _ s2]) simp
    qed
  next
    case False
    then show ?thesis using less.prems by (subst read_loop.simps) auto
  qed
qed

text \<open>
  \<open>bufio_read\<close> delivers the next \<open>count\<close> unread bytes, or all that come before the peer closes
  the connection, whatever the pieces are.
\<close>

theorem bufio_read_bytes:
  assumes "bufio_ok self" "0 \<le> count"
  shows "\<exists>n off self'. bufio_read self count = Some (n, off, self') \<and> bufio_ok self' \<and> off = bufpos self \<and>
    n = min count (int (length (unread self))) \<and> unread self' = drop (nat n) (unread self) \<and>
    take (nat n) (drop (nat off) (contents (bbuf self'))) = take (nat n) (unread self) \<and> whole self' = whole self"
proof -
  obtain rc s1 where s1: "read_loop self count = Some (rc, s1)" "0 \<le> rc" "bufio_ok s1" "later self s1"
    "bufpos s1 = bufpos self" "unread s1 = unread self" "bytes_buffered s1 < count \<longrightarrow> incoming (sock s1) = []"
    using read_loop_ok [OF assms(1)] by blast
  let ?n = "min (bytes_buffered s1) count"
  let ?s = "s1\<lparr>bufpos := bufpos s1 + ?n\<rparr>"
  have b: "0 \<le> bufpos s1" "bufpos s1 \<le> len (bbuf s1)" "length (contents (bbuf s1)) = nat (len (bbuf s1))"
    using s1(3) contents_length by (auto simp: bufio_ok_def)
  then have bb: "0 \<le> bytes_buffered s1" "bytes_buffered s1 \<le> int (length (unread s1))"
    by (auto simp: bytes_buffered_def unread_def)
  have n: "?n = min count (int (length (unread self)))"
  proof (cases "bytes_buffered s1 < count")
    case True
    then have "int (length (unread s1)) = bytes_buffered s1"
      using s1(7) b by (simp add: unread_def bytes_buffered_def)
    then show ?thesis using s1(6) by simp
  next
    case False
    then show ?thesis using bb s1(6) by simp
  qed
  have ok: "bufio_ok ?s" using s1(3) bb assms(2) b by (auto simp: bufio_ok_def bytes_buffered_def)
  have w: "whole ?s = whole self" "later self ?s" using s1(4) by (simp_all add: later_def whole_def)
  have bp: "nat (bufpos s1 + ?n) = nat (bufpos s1) + nat ?n" using b(1) bb(1) assms(2) by (simp add: nat_add_distrib)
  have u: "unread ?s = drop (nat ?n) (unread self)"
    using unread_whole [OF ok] unread_whole [OF assms(1)] w(1) s1(5) bp by (simp add: add.commute)
  have "unread self = take (nat ?n) (unread self) @ unread ?s" using u by simp
  moreover have "length (take (nat ?n) (unread self)) = nat ?n" using n assms(2) by auto
  ultimately have "take (nat ?n) (drop (nat (bufpos self)) (contents (bbuf ?s))) = take (nat ?n) (unread self)"
    using unread_prefix [OF assms(1) ok w(2), of "take (nat ?n) (unread self)"] s1(5) bb(1) assms(2) by simp
  then show ?thesis
    using s1(1,2,5) ok u w(1) n by (simp add: bufio_read_def Let_def)
qed

text \<open>A request in three pieces.\<close>

definition sample_conn :: conn where
  "sample_conn = \<lparr>incoming = [Received ''GET / HT'', Received (''TP/1.1'' @ [CHR 0x0D, CHR 0x0A] @ ''Host''), Received '': x''],
     sends = [], outgoing = []\<rparr>"

definition sample_bufio :: bufio where
  "sample_bufio = the (bufio_create sample_conn)"

lemma fresh_bufio:
  assumes "\<forall>r\<in>set (incoming c). piece_ok r" "int (length (stream (incoming c))) \<le> 2 ^ 28"
  shows "\<exists>b. bufio_create c = Some b \<and> bufio_ok b \<and> unread b = stream (incoming c)"
  using assms by (auto simp: bufio_create_def buffer_init_def BUFSIZE_def bufio_ok_def buffer_ok_def unread_def contents_def)

lemma sample_bufio_ok: "bufio_ok sample_bufio" "unread sample_bufio = ''GET / HTTP/1.1'' @ [CHR 0x0D, CHR 0x0A] @ ''Host: x''"
  using fresh_bufio [of sample_conn] by (auto simp: sample_bufio_def sample_conn_def piece_ok_def)

theorem bufio_readline_line_witness:
  "\<exists>off self'. bufio_readline sample_bufio = Some (16, off, self') \<and> unread self' = ''Host: x''"
  using bufio_readline_line [OF sample_bufio_ok(1)] by (auto simp: sample_bufio_ok(2))

theorem bufio_read_bytes_witness:
  "\<exists>off self'. bufio_read sample_bufio 10 = Some (10, off, self') \<and>
     take 10 (drop (nat off) (contents (bbuf self'))) = ''GET / HTTP''"
  using bufio_read_bytes [OF sample_bufio_ok(1), of 10] by (auto simp: sample_bufio_ok(2) eval_nat_numeral)

end
