(* ===== verification/Http.thy ===== *)
theory Http
  imports Bufio
begin

text \<open>
  The HTTP transactions of \<open>pserv/src/http.c\<close>.  The file system, the JSON parser and the JSON web
  token library are fields of the record \<open>env\<close>, as are the server's settings and the time; the
  strings handed to the formatting functions are the formatted ones.  \<open>hexdump\<close> only prints to the
  server's terminal.
\<close>

datatype http_method = HTTP_GET | HTTP_POST | HTTP_UNKNOWN

datatype http_version = HTTP_1_0 | HTTP_1_1

datatype http_response_status =
    HTTP_NONE | HTTP_OK | HTTP_PARTIAL_CONTENT | HTTP_BAD_REQUEST | HTTP_PERMISSION_DENIED | HTTP_NOT_FOUND
  | HTTP_METHOD_NOT_ALLOWED | HTTP_REQUEST_TIMEOUT | HTTP_REQUEST_TOO_LONG | HTTP_INTERNAL_ERROR
  | HTTP_NOT_IMPLEMENTED | HTTP_SERVICE_UNAVAILABLE

record http_transaction =
  req_method :: http_method
  req_version :: http_version
  req_path :: int
  req_body :: int
  req_content_len :: int
  resp_status :: http_response_status
  resp_headers :: buffer_t
  resp_body :: buffer_t
  client :: bufio

datatype access_result = Readable | No_access | Missing

datatype grant = Grant_int string int | Grant_str string string

record env =
  access_file :: "string \<Rightarrow> access_result"
  stat_size :: "string \<Rightarrow> int option"
  open_file :: "string \<Rightarrow> string option"
  json_login :: "string \<Rightarrow> (string \<times> string) option"
  jwt_new :: bool
  jwt_add :: "grant \<Rightarrow> grant list \<Rightarrow> grant list option"
  jwt_set_alg :: "grant list \<Rightarrow> string \<Rightarrow> bool"
  jwt_encode_str :: "grant list \<Rightarrow> string option"
  jwt_decode :: "string \<Rightarrow> string \<Rightarrow> grant list option"
  jwt_get_grants_json :: "grant list \<Rightarrow> string option"
  time_now :: int
  token_expiration_time :: int
  server_root :: "string option"

definition CRLF :: string where "CRLF = [CHR 0x0D, CHR 0x0A]"
definition KEY :: string where "KEY = ''key''"
definition PATH_MAX :: int where "PATH_MAX = 4096"
definition MAX_HEADER_LEN :: int where "MAX_HEADER_LEN = 2048"
definition MAX_ERROR_LEN :: int where "MAX_ERROR_LEN = 2048"

subsection \<open>Reading a request\<close>

text \<open>Access to the storage of the connection's buffer.\<close>

definition mem_of :: "http_transaction \<Rightarrow> mem" where
  "mem_of ta = buf (bbuf (client ta))"

definition set_mem :: "http_transaction \<Rightarrow> mem \<Rightarrow> http_transaction" where
  "set_mem ta m = ta\<lparr>client := (client ta)\<lparr>bbuf := (bbuf (client ta))\<lparr>buf := m\<rparr>\<rparr>\<rparr>"

definition http_parse_request :: "http_transaction \<Rightarrow> (bool \<times> http_transaction) option" where
  "http_parse_request ta = do {
     (n, req_offset, c) \<leftarrow> bufio_readline (client ta);
     let ta = ta\<lparr>client := c\<rparr>;
     if n < 2 then Some (False, ta)
     else do {
       request \<leftarrow> bufio_offset2ptr (client ta) req_offset;
       m \<leftarrow> poke (mem_of ta) (nat (request + n - 2)) NUL;
       (tok, endptr, m) \<leftarrow> strtok_r m (nat request) '' '';
       let ta = set_mem ta m;
       case tok of
         None \<Rightarrow> Some (False, ta)
       | Some method \<Rightarrow> do {
           s \<leftarrow> cstr_at (mem_of ta) method;
           let ta = ta\<lparr>req_method := (if s = ''GET'' then HTTP_GET else if s = ''POST'' then HTTP_POST else HTTP_UNKNOWN)\<rparr>;
           (tok, endptr, m) \<leftarrow> strtok_r (mem_of ta) endptr '' '';
           let ta = set_mem ta m;
           case tok of
             None \<Rightarrow> Some (False, ta)
           | Some path \<Rightarrow> do {
               path \<leftarrow> bufio_ptr2offset (client ta) (int path);
               let ta = ta\<lparr>req_path := path\<rparr>;
               (tok, endptr, m) \<leftarrow> strtok_r (mem_of ta) endptr [CHR 0x0D];
               let ta = set_mem ta m;
               case tok of
                 None \<Rightarrow> Some (False, ta)
               | Some version \<Rightarrow> do {
                   s \<leftarrow> cstr_at (mem_of ta) version;
                   if s = ''HTTP/1.1'' then Some (True, ta\<lparr>req_version := HTTP_1_1\<rparr>)
                   else if s = ''HTTP/1.0'' then Some (True, ta\<lparr>req_version := HTTP_1_0\<rparr>)
                   else Some (False, ta)
                 }
             }
         }
     }
   }"

definition skip_lws :: "string \<Rightarrow> string" where
  "skip_lws s = dropWhile (\<lambda>c. c = CHR '' '' \<or> c = CHR 0x09) s"

partial_function (option) http_process_headers :: "http_transaction \<Rightarrow> (bool \<times> http_transaction) option" where
  "http_process_headers ta = do {
     (n, header_offset, c) \<leftarrow> bufio_readline (client ta);
     let ta = ta\<lparr>client := c\<rparr>;
     if n \<le> 0 then Some (False, ta)
     else do {
       header \<leftarrow> bufio_offset2ptr (client ta) header_offset;
       two \<leftarrow> (if n = 2 then read_block (mem_of ta) header 2 else Some []);
       if n = 2 \<and> two = CRLF then Some (True, ta)
       else do {
         assert_c (0 \<le> header + n - 2);
         m \<leftarrow> poke (mem_of ta) (nat (header + n - 2)) NUL;
         (tok, endptr, m) \<leftarrow> strtok_r m (nat header) '':'';
         let ta = set_mem ta m;
         case tok of
           None \<Rightarrow> Some (False, ta)
         | Some field_name \<Rightarrow> do {
             name \<leftarrow> cstr_at (mem_of ta) field_name;
             field_value \<leftarrow> cstr_at (mem_of ta) endptr;
             if same_nocase name ''Content-Length'' then do {
               v \<leftarrow> atoi_c (skip_lws field_value);
               http_process_headers (ta\<lparr>req_content_len := v\<rparr>)
             } else http_process_headers ta
           }
       }
     }
   }"

declare http_process_headers.simps [code]

subsection \<open>Sending a response\<close>

text \<open>
  \<open>vsnprintf\<close> of \<open>s\<close> into \<open>maxlen\<close> bytes behind the data of a buffer, and the update of its length:
  a string of exactly \<open>maxlen\<close> characters counts as \<open>maxlen\<close>, one more than is written.
\<close>

definition append_formatted :: "buffer_t \<Rightarrow> string \<Rightarrow> int \<Rightarrow> buffer_t option" where
  "append_formatted b s maxlen = do {
     b \<leftarrow> buffer_ensure_capacity b maxlen;
     m \<leftarrow> write_at (buf b) (len b) (take (nat (maxlen - 1)) s @ [NUL]);
     n \<leftarrow> cint (int (length s));
     Some (b\<lparr>buf := m, len := len b + (if n > maxlen then maxlen - 1 else n)\<rparr>)
   }"

definition http_add_header :: "buffer_t \<Rightarrow> string \<Rightarrow> string \<Rightarrow> buffer_t option" where
  "http_add_header resp key value = do {
     resp \<leftarrow> buffer_appends resp key;
     resp \<leftarrow> buffer_appends resp '': '';
     resp \<leftarrow> append_formatted resp value MAX_HEADER_LEN;
     buffer_appends resp CRLF
   }"

definition add_content_length :: "buffer_t \<Rightarrow> int \<Rightarrow> buffer_t option" where
  "add_content_length res n = http_add_header res ''Content-Length'' (show_int n)"

fun version_prefix :: "http_version \<Rightarrow> string" where
  "version_prefix HTTP_1_0 = ''HTTP/1.0 ''"
| "version_prefix HTTP_1_1 = ''HTTP/1.1 ''"

fun status_text :: "http_response_status \<Rightarrow> string" where
  "status_text HTTP_OK = ''200 OK''"
| "status_text HTTP_PARTIAL_CONTENT = ''206 Partial Content''"
| "status_text HTTP_BAD_REQUEST = ''400 Bad Request''"
| "status_text HTTP_PERMISSION_DENIED = ''403 Permission Denied''"
| "status_text HTTP_NOT_FOUND = ''404 Not Found''"
| "status_text HTTP_METHOD_NOT_ALLOWED = ''405 Method Not Allowed''"
| "status_text HTTP_REQUEST_TIMEOUT = ''408 Request Timeout''"
| "status_text HTTP_REQUEST_TOO_LONG = ''414 Request Too Long''"
| "status_text HTTP_NOT_IMPLEMENTED = ''501 Not Implemented''"
| "status_text HTTP_SERVICE_UNAVAILABLE = ''503 Service Unavailable''"
| "status_text HTTP_INTERNAL_ERROR = ''500 Internal Server Error''"
| "status_text HTTP_NONE = ''500 Internal Server Error''"

definition start_response :: "http_transaction \<Rightarrow> buffer_t option" where
  "start_response ta = do {
     res \<leftarrow> buffer_init 80;
     res \<leftarrow> buffer_appends res (version_prefix (req_version ta));
     res \<leftarrow> buffer_appends res (status_text (resp_status ta));
     buffer_appends res CRLF
   }"

definition send_response_header :: "http_transaction \<Rightarrow> (bool \<times> http_transaction) option" where
  "send_response_header ta = do {
     response \<leftarrow> start_response ta;
     h \<leftarrow> buffer_appends (resp_headers ta) CRLF;
     let ta = ta\<lparr>resp_headers := h\<rparr>;
     (rc, c) \<leftarrow> bufio_sendbuffers (client ta) [response, resp_headers ta];
     Some (rc \<noteq> - 1, ta\<lparr>client := c\<rparr>)
   }"

definition send_response :: "http_transaction \<Rightarrow> (bool \<times> http_transaction) option" where
  "send_response ta = do {
     h \<leftarrow> add_content_length (resp_headers ta) (len (resp_body ta));
     h \<leftarrow> buffer_appends h CRLF;
     let ta = ta\<lparr>resp_headers := h\<rparr>;
     response \<leftarrow> start_response ta;
     (rc, c) \<leftarrow> bufio_sendbuffers (client ta) [response, resp_headers ta, resp_body ta];
     Some (rc \<noteq> - 1, ta\<lparr>client := c\<rparr>)
   }"

definition send_error :: "http_transaction \<Rightarrow> http_response_status \<Rightarrow> string \<Rightarrow> (bool \<times> http_transaction) option" where
  "send_error ta status msg = do {
     b \<leftarrow> append_formatted (resp_body ta) msg MAX_ERROR_LEN;
     let ta = ta\<lparr>resp_body := b, resp_status := status\<rparr>;
     h \<leftarrow> http_add_header (resp_headers ta) ''Content-Type'' ''text/plain'';
     send_response (ta\<lparr>resp_headers := h\<rparr>)
   }"

definition path_of :: "http_transaction \<Rightarrow> string option" where
  "path_of ta = do { p \<leftarrow> bufio_offset2ptr (client ta) (req_path ta); cstr_at (mem_of ta) (nat p) }"

definition send_not_found :: "http_transaction \<Rightarrow> (bool \<times> http_transaction) option" where
  "send_not_found ta = do {
     p \<leftarrow> path_of ta;
     send_error ta HTTP_NOT_FOUND (''File '' @ p @ '' not found'')
   }"

subsection \<open>Static files\<close>

definition guess_mime_type :: "string \<Rightarrow> string" where
  "guess_mime_type filename =
     (case strrchr filename CHR ''.'' of
        None \<Rightarrow> ''text/plain''
      | Some suffix \<Rightarrow>
          if same_nocase suffix ''.html'' then ''text/html''
          else if same_nocase suffix ''.gif'' then ''image/gif''
          else if same_nocase suffix ''.png'' then ''image/png''
          else if same_nocase suffix ''.jpg'' then ''image/jpeg''
          else if same_nocase suffix ''.js'' then ''text/javascript''
          else if same_nocase suffix ''.svg'' then ''image/svg+xml''
          else if same_nocase suffix ''.mp4'' then ''video/mp4''
          else if same_nocase suffix ''.css'' then ''text/css''
          else ''text/plain'')"

partial_function (option) sendfile_loop ::
    "string \<Rightarrow> int \<Rightarrow> int \<Rightarrow> http_transaction \<Rightarrow> (bool \<times> http_transaction) option" where
  "sendfile_loop file from to ta =
     (if from \<le> to then
        let (r, from', c) = bufio_sendfile (client ta) file from (to + 1 - from); ta = ta\<lparr>client := c\<rparr>
        in if r > 0 then sendfile_loop file from' to ta else Some (False, ta)
      else Some (True, ta))"

declare sendfile_loop.simps [code]

definition handle_static_asset :: "env \<Rightarrow> http_transaction \<Rightarrow> (bool \<times> http_transaction) option" where
  "handle_static_asset E ta = do {
     basedir \<leftarrow> server_root E;
     p \<leftarrow> path_of ta;
     let fname = take (nat (PATH_MAX - 1)) (basedir @ p);
     if strstr p ''../'' then send_not_found ta
     else case access_file E fname of
       No_access \<Rightarrow> send_error ta HTTP_PERMISSION_DENIED ''Permission denied.''
     | Missing \<Rightarrow> send_not_found ta
     | Readable \<Rightarrow> do {
         h \<leftarrow> http_add_header (resp_headers ta) ''Accept-Ranges'' ''bytes'';
         let ta = ta\<lparr>resp_headers := h\<rparr>;
         case stat_size E fname of
           None \<Rightarrow> send_error ta HTTP_INTERNAL_ERROR ''Could not stat file.''
         | Some st_size \<Rightarrow>
             (case open_file E fname of
                None \<Rightarrow> send_not_found ta
              | Some file \<Rightarrow> do {
                  let ta = ta\<lparr>resp_status := HTTP_OK\<rparr>;
                  h \<leftarrow> http_add_header (resp_headers ta) ''Content-Type'' (guess_mime_type fname);
                  h \<leftarrow> add_content_length h st_size;
                  (success, ta) \<leftarrow> send_response_header (ta\<lparr>resp_headers := h\<rparr>);
                  if \<not> success then Some (False, ta) else sendfile_loop file 0 (st_size - 1) ta
                })
       }
   }"

subsection \<open>The login service\<close>

definition token_claims :: "env \<Rightarrow> grant list option" where
  "token_claims E = do {
     t \<leftarrow> jwt_add E (Grant_int ''exp'' (time_now E + token_expiration_time E)) [];
     t \<leftarrow> jwt_add E (Grant_int ''iat'' (time_now E)) t;
     jwt_add E (Grant_str ''sub'' ''user2023'') t
   }"

definition send_token :: "env \<Rightarrow> http_transaction \<Rightarrow> string \<Rightarrow> string \<Rightarrow> (bool \<times> http_transaction) option" where
  "send_token E ta json_string claims = do {
     let ta = ta\<lparr>resp_status := HTTP_OK\<rparr>;
     h \<leftarrow> http_add_header (resp_headers ta) ''Set-Cookie''
       (''auth_token='' @ json_string @ ''; Path=/; Max-Age='' @
        show_int (token_expiration_time E) @ ''; HttpOnly'');
     h \<leftarrow> http_add_header h ''Content-Type'' ''application/json'';
     b \<leftarrow> buffer_appends (resp_body ta) claims;
     send_response (ta\<lparr>resp_headers := h, resp_body := b\<rparr>)
   }"

definition handle_login :: "env \<Rightarrow> http_transaction \<Rightarrow> (bool \<times> http_transaction) option" where
  "handle_login E ta = do {
     b \<leftarrow> bufio_offset2ptr (client ta) (req_body ta);
     assert_c (0 \<le> req_content_len ta);
     json \<leftarrow> read_block (mem_of ta) b (req_content_len ta);
     (case json_login E json of
        None \<Rightarrow> send_error ta HTTP_BAD_REQUEST ''Bad Request''
      | Some (username, password) \<Rightarrow>
          if username \<noteq> ''user2023'' \<or> password \<noteq> ''passwordf23''
          then send_error ta HTTP_PERMISSION_DENIED ''Forbidden''
          else if \<not> jwt_new E then send_error ta HTTP_INTERNAL_ERROR ''Internal Server Error''
          else
            (case token_claims E of
               None \<Rightarrow> send_error ta HTTP_INTERNAL_ERROR ''Internal Server Error''
             | Some token \<Rightarrow>
                 if \<not> jwt_set_alg E token KEY
                 then send_error ta HTTP_INTERNAL_ERROR ''Internal Server Error''
                 else
                   (case jwt_encode_str E token of
                      None \<Rightarrow> send_error ta HTTP_INTERNAL_ERROR ''Internal Server Error''
                    | Some json_string \<Rightarrow>
                        (case jwt_decode E json_string KEY of
                           None \<Rightarrow> send_error ta HTTP_PERMISSION_DENIED ''Forbidden''
                         | Some new_token \<Rightarrow>
                             (case jwt_get_grants_json E new_token of
                                None \<Rightarrow> send_error ta HTTP_INTERNAL_ERROR ''Internal Error''
                              | Some claims \<Rightarrow> send_token E ta json_string claims)))))
   }"

definition handle_api :: "env \<Rightarrow> http_transaction \<Rightarrow> string \<Rightarrow> (bool \<times> http_transaction) option" where
  "handle_api E ta path =
     (if strstr path ''login'' then
        (case req_method ta of
           HTTP_POST \<Rightarrow> handle_login E ta
         | HTTP_GET \<Rightarrow> do {
             let ta = ta\<lparr>resp_status := HTTP_OK\<rparr>;
             b \<leftarrow> buffer_appends (resp_body ta) ''{}'';
             send_response (ta\<lparr>resp_body := b\<rparr>)
           }
         | HTTP_UNKNOWN \<Rightarrow> send_error ta HTTP_NOT_IMPLEMENTED ''API not implemented'')
      else send_error ta HTTP_NOT_FOUND ''API not found'')"

subsection \<open>A transaction\<close>

definition no_buffer :: buffer_t where
  "no_buffer = \<lparr>buf = [], len = 0, cap = 0\<rparr>"

definition new_transaction :: "bufio \<Rightarrow> http_transaction" where
  "new_transaction self =
     \<lparr>req_method = HTTP_GET, req_version = HTTP_1_0, req_path = 0, req_body = 0, req_content_len = 0,
      resp_status = HTTP_NONE, resp_headers = no_buffer, resp_body = no_buffer, client = self\<rparr>"

definition respond :: "env \<Rightarrow> http_transaction \<Rightarrow> (bool \<times> http_transaction) option" where
  "respond E ta = do {
     h \<leftarrow> buffer_init 1024;
     h \<leftarrow> http_add_header h ''Server'' ''CS3214-Personal-Server'';
     b \<leftarrow> buffer_init 0;
     let ta = ta\<lparr>resp_headers := h, resp_body := b\<rparr>;
     path \<leftarrow> path_of ta;
     (rc, ta) \<leftarrow> (if starts_with_nocase path ''/api'' then handle_api E ta path
                  else if starts_with_nocase path ''/private'' then Some (False, ta)
                  else handle_static_asset E ta);
     if req_version ta \<noteq> HTTP_1_1 then Some (False, ta) else Some (rc, ta)
   }"

definition http_handle_transaction :: "env \<Rightarrow> bufio \<Rightarrow> (bool \<times> bufio) option" where
  "http_handle_transaction E self = do {
     (fine, ta) \<leftarrow> http_parse_request (new_transaction self);
     if \<not> fine then Some (False, client ta)
     else do {
       (fine, ta) \<leftarrow> http_process_headers ta;
       if \<not> fine then Some (False, client ta)
       else if req_content_len ta > 0 then do {
         (rc, off, c) \<leftarrow> bufio_read (client ta) (req_content_len ta);
         let ta = ta\<lparr>client := c, req_body := off\<rparr>;
         if rc \<noteq> req_content_len ta then Some (False, client ta)
         else do {
           body \<leftarrow> bufio_offset2ptr (client ta) (req_body ta);
           (rc, ta) \<leftarrow> respond E ta;
           Some (rc, client ta)
         }
       } else do {
         (rc, ta) \<leftarrow> respond E ta;
         Some (rc, client ta)
       }
     }
   }"

partial_function (option) connection_loop :: "env \<Rightarrow> bufio \<Rightarrow> bufio option" where
  "connection_loop E self = do {
     (online, self) \<leftarrow> http_handle_transaction E self;
     if online then connection_loop E self else Some self
   }"

declare connection_loop.simps [code]

text \<open>The thread of one connection; the result is what was sent.\<close>

definition connection_handler :: "env \<Rightarrow> conn \<Rightarrow> string option" where
  "connection_handler E socket = do {
     self \<leftarrow> bufio_create socket;
     self \<leftarrow> connection_loop E self;
     Some (outgoing (sock self))
   }"

end
