(* ===== verification/Http_Spec.thy ===== *)
theory Http_Spec
  imports Http
begin

text \<open>The properties of the transactions of the web server.\<close>

subsection \<open>Request lines\<close>

definition plain :: "string \<Rightarrow> bool" where
  "plain w \<longleftrightarrow> w \<noteq> [] \<and> set w \<inter> {NUL, CHR '' '', CHR 0x0D, CHR 0x0A} = {}"

definition request_line :: "string \<Rightarrow> string \<Rightarrow> string \<Rightarrow> string" where
  "request_line verb path version = verb @ CHR '' '' # path @ CHR '' '' # version @ CRLF"

lemma split_line_lf: "CHR 0x0A \<notin> set w \<Longrightarrow> split_line (w @ CHR 0x0A # r) = (w @ [CHR 0x0A], r)"
  by (induction w) auto

text \<open>Overwriting bytes before the read position does not touch what is unread.\<close>

lemma set_mem_ok:
  assumes "bufio_ok (client ta)" "length m = length (mem_of ta)"
    "drop (nat (bufpos (client ta))) m = drop (nat (bufpos (client ta))) (mem_of ta)"
    "None \<notin> set (take (nat (bufpos (client ta))) m)"
  shows "bufio_ok (client (set_mem ta m)) \<and> unread (client (set_mem ta m)) = unread (client ta)"
proof -
  let ?c = "client ta" and ?p = "nat (bufpos (client ta))" and ?n = "nat (len (bbuf (client ta)))"
  have b: "0 \<le> bufpos ?c" "bufpos ?c \<le> len (bbuf ?c)" using assms(1) by (auto simp: bufio_ok_def)
  then have pn: "?p \<le> ?n" by simp
  have t: "drop ?p (take ?n m) = drop ?p (take ?n (mem_of ta))"
    using assms(3) pn by (simp add: drop_take)
  have "take ?n m = take ?p m @ drop ?p (take ?n m)"
    using pn by (metis append_take_drop_id min.absorb1 take_take)
  then have "None \<notin> set (take ?n m)"
    using assms(1,4) t by (auto simp: bufio_ok_def buffer_ok_def mem_of_def dest: in_set_dropD)
  then have "bufio_ok (client (set_mem ta m))"
    using assms(1,2) by (auto simp: bufio_ok_def buffer_ok_def set_mem_def mem_of_def)
  moreover have "unread (client (set_mem ta m)) = unread ?c"
    using t by (simp add: unread_def set_mem_def mem_of_def contents_def drop_map)
  ultimately show ?thesis by blast
qed

lemma set_mem_simps [simp]:
  "mem_of (set_mem ta m) = m" "bufpos (client (set_mem ta m)) = bufpos (client ta)"
  "len (bbuf (client (set_mem ta m))) = len (bbuf (client ta))" "set_mem (set_mem ta m) m' = set_mem ta m'"
  "req_method (set_mem ta m) = req_method ta" "req_version (set_mem ta m) = req_version ta"
  "mem_of (ta\<lparr>req_method := me\<rparr>) = mem_of ta" "mem_of (ta\<lparr>req_path := p\<rparr>) = mem_of ta"
  "mem_of (ta\<lparr>req_version := v\<rparr>) = mem_of ta" "mem_of (ta\<lparr>req_content_len := n\<rparr>) = mem_of ta"
  "set_mem (ta\<lparr>req_method := me\<rparr>) m = (set_mem ta m)\<lparr>req_method := me\<rparr>"
  "set_mem (ta\<lparr>req_path := p\<rparr>) m = (set_mem ta m)\<lparr>req_path := p\<rparr>"
  by (simp_all add: mem_of_def set_mem_def)

text \<open>
  C20: A request line of a method, a path and a supported version, single spaces between them and
  CRLF at the end, is parsed back into the three, however the network has cut it into pieces, and
  nothing behind the line is consumed.
\<close>

theorem http_parse_request_line:
  assumes "bufio_ok self" "unread self = request_line verb path version @ rest" "plain verb" "plain path"
    "version = (if v = HTTP_1_0 then ''HTTP/1.0'' else ''HTTP/1.1'')"
  shows "\<exists>ta. http_parse_request (new_transaction self) = Some (True, ta) \<and>
    req_method ta = (if verb = ''GET'' then HTTP_GET else if verb = ''POST'' then HTTP_POST else HTTP_UNKNOWN) \<and>
    path_of ta = Some path \<and> req_version ta = v \<and> bufio_ok (client ta) \<and> unread (client ta) = rest"
proof -
  let ?w = "verb @ CHR '' '' # path @ CHR '' '' # version"
  let ?line = "?w @ CRLF"
  have pv: "plain version" using assms(5) by (auto simp: plain_def)
  have chars: "NUL \<notin> set ?w" "CHR 0x0A \<notin> set (?w @ [CHR 0x0D])"
    using assms(3,4) pv by (auto simp: plain_def)
  have sp: "split_line (unread self) = (?line, rest)"
    using split_line_lf [OF chars(2), of rest] assms(2) by (simp add: request_line_def CRLF_def)
  obtain c where c: "bufio_readline self = Some (int (length ?line), bufpos self, c)" "bufio_ok c"
    "bufpos c = bufpos self + int (length ?line)" "unread c = rest"
    "take (length ?line) (drop (nat (bufpos self)) (contents (bbuf c))) = ?line"
    using bufio_readline_ok [OF assms(1)] unfolding sp by auto
  define off where "off = nat (bufpos self)"
  have o: "0 \<le> bufpos self" "bufpos self = int off" using assms(1) by (auto simp: bufio_ok_def off_def)
  define us where "us = map Some (take off (contents (bbuf c)))"
  have bo: "buffer_ok (bbuf c)" "bufpos c \<le> len (bbuf c)" using c(2) by (auto simp: bufio_ok_def)
  obtain r where r: "buf (bbuf c) = map Some (contents (bbuf c)) @ r" using buf_split [OF bo(1)] by blast
  have lc: "length (contents (bbuf c)) = nat (len (bbuf c))" using contents_length [OF bo(1)] .
  have lu: "length us = off" using lc bo(2) c(3) o by (simp add: us_def)
  have "contents (bbuf c) = take off (contents (bbuf c)) @ ?line @ drop (length ?line) (drop off (contents (bbuf c)))"
    using c(5) unfolding off_def by (metis append_take_drop_id)
  then obtain vs where m0: "buf (bbuf c) = us @ map Some ?line @ vs"
    using r by (metis append.assoc map_append us_def)
  let ?ta = "(new_transaction self)\<lparr>client := c\<rparr>"
  define m1 where "m1 = us @ map Some ?w @ Some NUL # Some CHR 0x0A # vs"
  have k1: "poke (buf (bbuf c)) (nat (bufpos self + int (length ?line) - 2)) NUL = Some m1"
  proof -
    have "nat (bufpos self + int (length ?line) - 2) = length us + length ?w" using o lu by (simp add: CRLF_def)
    then show ?thesis by (simp add: poke_def m0 m1_def CRLF_def list_update_append)
  qed
  define us2 where "us2 = us @ map Some verb @ [Some NUL]"
  define m2 where "m2 = us2 @ map Some (path @ CHR '' '' # version) @ Some NUL # Some CHR 0x0A # vs"
  have k2: "strtok_r m1 (nat (bufpos self)) '' '' = Some (Some off, length us2, m2)"
    using strtok_r_delim [of verb "path @ CHR '' '' # version" "'' ''" "CHR '' ''" us "Some CHR 0x0A # vs"] assms(3,4) pv
    by (auto simp: plain_def m1_def m2_def us2_def lu o(2))
  have s2: "cstr_at m2 off = Some verb"
    using cstr_at_word [of verb us] assms(3) by (simp add: m2_def us2_def lu plain_def)
  define us3 where "us3 = us2 @ map Some path @ [Some NUL]"
  define m3 where "m3 = us3 @ map Some version @ Some NUL # Some CHR 0x0A # vs"
  have k3: "strtok_r m2 (length us2) '' '' = Some (Some (length us2), length us3, m3)"
    using strtok_r_delim [of path version "'' ''" "CHR '' ''" us2 "Some CHR 0x0A # vs"] assms(4) pv
    by (auto simp: plain_def m2_def m3_def us3_def)
  have k4: "strtok_r m3 (length us3) [CHR 0x0D] = Some (Some (length us3), length us3 + length version, m3)"
    using strtok_r_last [of version "[CHR 0x0D]" us3 "Some CHR 0x0A # vs"] pv
    by (auto simp: plain_def m3_def)
  have s3: "cstr_at m3 (length us3) = Some version" "cstr_at m3 (length us2) = Some path"
    using cstr_at_word [of version us3] cstr_at_word [of path us2] pv assms(4)
    by (auto simp: m3_def us3_def plain_def)
  have inb: "int (length us2) < len (bbuf c)" using bo(2) c(3) o lu by (simp add: us2_def CRLF_def)
  have lens: "length m3 = length (buf (bbuf c))"
    by (simp add: m3_def us3_def us2_def m0 CRLF_def)
  have bp: "nat (bufpos c) = length us + length ?line" using c(3) o lu by simp
  have ok: "bufio_ok (client (set_mem ?ta m3)) \<and> unread (client (set_mem ?ta m3)) = rest"
  proof -
    define X where "X = us3 @ map Some version @ [Some NUL, Some CHR 0x0A]"
    have X: "m3 = X @ vs" "length X = nat (bufpos c)" "length (us @ map Some ?line) = nat (bufpos c)"
      by (simp_all add: X_def m3_def bp us3_def us2_def CRLF_def)
    have "drop (nat (bufpos c)) m3 = vs" unfolding X(1) X(2) [symmetric] by simp
    moreover have "drop (nat (bufpos c)) (buf (bbuf c)) = vs"
      unfolding m0 X(3) [symmetric] append_assoc [symmetric] by simp
    moreover have "None \<notin> set (take (nat (bufpos c)) m3)"
    proof -
      have "take (nat (bufpos c)) m3 = X" unfolding X(1) X(2) [symmetric] by simp
      then show ?thesis by (auto simp: X_def us3_def us2_def us_def)
    qed
    ultimately show ?thesis
      using set_mem_ok [of ?ta m3] c(2,4) lens by (simp add: mem_of_def)
  qed
  have ge: "\<not> int (length ?line) < 2" by (simp add: CRLF_def)
  let ?me = "if verb = ''GET'' then HTTP_GET else if verb = ''POST'' then HTTP_POST else HTTP_UNKNOWN"
  let ?r = "(set_mem ?ta m3)\<lparr>req_method := ?me, req_path := int (length us2), req_version := v\<rparr>"
  have off_len: "bufpos self < len (bbuf c)" using inb o lu by (simp add: us2_def)
  have "http_parse_request (new_transaction self) = Some (True, ?r)"
    using c(1) k1 k2 k3 k4 s2 s3(1) inb off_len ge assms(5)
    by (cases v) (simp_all add: http_parse_request_def new_transaction_def bufio_offset2ptr_def
        bufio_ptr2offset_def mem_of_def set_mem_def Let_def)
  moreover have "path_of ?r = Some path"
    using s3(2) inb by (simp add: path_of_def bufio_offset2ptr_def mem_of_def set_mem_def)
  ultimately show ?thesis using ok by (intro exI [of _ ?r]) (simp add: set_mem_def)
qed

theorem http_parse_request_line_witness:
  "\<exists>ta. http_parse_request (new_transaction sample_bufio) = Some (True, ta) \<and> req_method ta = HTTP_GET \<and>
     path_of ta = Some ''/'' \<and> req_version ta = HTTP_1_1"
  using http_parse_request_line [OF sample_bufio_ok(1), of "''GET''" "''/''" "''HTTP/1.1''" "''Host: x''" HTTP_1_1]
  by (auto simp: sample_bufio_ok(2) request_line_def CRLF_def plain_def)

subsection \<open>Responses\<close>

text \<open>Appending to a buffer of moderate size always succeeds.\<close>

definition roomy :: "buffer_t \<Rightarrow> nat \<Rightarrow> bool" where
  "roomy b n \<longleftrightarrow> buffer_ok b \<and> 0 < cap b \<and> cap b < 2 ^ 29 - 3 * int n \<and> len b < 2 ^ 26 - int n"

lemma append_roomy:
  assumes "roomy b (k + length s)"
  shows "\<exists>b'. buffer_append b s = Some b' \<and> roomy b' k \<and> contents b' = contents b @ s"
proof -
  have b: "buffer_ok b" "0 < cap b" "2 * cap b + int (length s) < 2 ^ 31" "0 \<le> len b"
    using assms by (auto simp: roomy_def buffer_ok_def)
  then obtain b' where b': "buffer_append b s = Some b'" "buffer_ok b'" "contents b' = contents b @ s"
    "cap b' \<le> max (cap b) (2 * (len b + int (length s)) + int (length s))"
    using buffer_append_correct [of b s] by auto
  have "len b' = len b + int (length s)" "len b' \<le> cap b'"
    using contents_length [OF b'(2)] contents_length [OF b(1)] b'(2,3) b(4) by (auto simp: buffer_ok_def)
  moreover have "0 < cap b'"
  proof (cases "s = []")
    case True
    then show ?thesis using b' b by (auto simp: buffer_append_def buffer_ensure_capacity_def split: Option.bind_splits if_splits)
  next
    case False
    then have "0 < length s" by simp
    then show ?thesis using calculation b(4) by linarith
  qed
  ultimately show ?thesis using b' b(4) assms by (auto simp: roomy_def)
qed

lemma appends_roomy:
  assumes "roomy b (k + length s)"
  shows "\<exists>b'. buffer_appends b s = Some b' \<and> roomy b' k \<and> contents b' = contents b @ s"
proof -
  have "int (length s) < 2 ^ 31" using assms by (auto simp: roomy_def buffer_ok_def)
  then show ?thesis using append_roomy [OF assms] by (simp add: buffer_appends_def cint_def)
qed

lemma formatted_roomy:
  assumes "roomy b (k + n)" "length s < n"
  shows "\<exists>b'. append_formatted b s (int n) = Some b' \<and> roomy b' k \<and> contents b' = contents b @ s"
proof -
  have b: "buffer_ok b" "0 < cap b" "2 * cap b + int n < 2 ^ 31" "0 \<le> len b"
    using assms by (auto simp: roomy_def buffer_ok_def)
  obtain b1 where b1: "buffer_ensure_capacity b (int n) = Some b1" "buffer_ok b1" "contents b1 = contents b"
    "len b1 = len b" "len b + int n \<le> cap b1" "cap b \<le> cap b1" "cap b1 \<le> max (cap b) (2 * (len b + int n) + int n)"
    using ensure_ok [OF b(1), of "int n"] b(2,3) by auto
  have fits: "len b1 + int (length (s @ [NUL])) \<le> cap b1" using b1(4,5) assms(2) by simp
  obtain m where m: "write_at (buf b1) (len b1) (s @ [NUL]) = Some m"
    "buffer_ok (b1\<lparr>buf := m, len := len b1 + int (length (s @ [NUL]))\<rparr>)"
    "contents (b1\<lparr>buf := m, len := len b1 + int (length (s @ [NUL]))\<rparr>) = contents b1 @ s @ [NUL]"
    using append_room [OF b1(2) fits] by auto
  let ?b = "b1\<lparr>buf := m, len := len b1 + int (length s)\<rparr>"
  let ?B = "b1\<lparr>buf := m, len := len b1 + int (length (s @ [NUL]))\<rparr>"
  obtain r where "buf ?B = map Some (contents ?B) @ r" using buf_split [OF m(2)] by blast
  then have split: "buf ?b = map Some (contents b1 @ s) @ Some NUL # r" using m(3) by simp
  have "len ?b = int (length (contents b1 @ s))"
    using b1(4) b(4) contents_length [OF b1(2)] b1(3) by simp
  moreover have "length (buf ?b) = nat (cap ?b)" "0 \<le> cap ?b" using m(2) by (auto simp: buffer_ok_def)
  ultimately have "buffer_ok ?b" "contents ?b = contents b1 @ s"
    using buffer_okI [OF split] by auto
  moreover have "append_formatted b s (int n) = Some ?b"
    using b1(1) m(1) assms b(4) by (simp add: append_formatted_def cint_def roomy_def)
  moreover have "roomy ?b k"
    using \<open>buffer_ok ?b\<close> b1(4,6,7) b assms by (auto simp: roomy_def)
  ultimately show ?thesis using b1(3) by auto
qed

lemma header_roomy:
  assumes "roomy b (k + length key + 2052)" "length value < 2048"
  shows "\<exists>b'. http_add_header b key value = Some b' \<and> roomy b' k \<and>
    contents b' = contents b @ key @ '': '' @ value @ CRLF"
proof -
  obtain b1 where b1: "buffer_appends b key = Some b1" "roomy b1 (k + 2052)" "contents b1 = contents b @ key"
    using appends_roomy [of b "k + 2052" key] assms(1) by (auto simp: add_ac)
  obtain b2 where b2: "buffer_appends b1 '': '' = Some b2" "roomy b2 (k + 2050)" "contents b2 = contents b1 @ '': ''"
    using appends_roomy [of b1 "k + 2050" "'': ''"] b1(2) by (auto simp: add_ac)
  obtain b3 where b3: "append_formatted b2 value 2048 = Some b3" "roomy b3 (k + 2)" "contents b3 = contents b2 @ value"
    using formatted_roomy [of b2 "k + 2" 2048 "value"] b2(2) assms(2) by (auto simp: add_ac)
  obtain b4 where b4: "buffer_appends b3 CRLF = Some b4" "roomy b4 k" "contents b4 = contents b3 @ CRLF"
    using appends_roomy [of b3 k CRLF] b3(2) by (auto simp: CRLF_def)
  show ?thesis
    using b1 b2 b3 b4 by (simp add: http_add_header_def MAX_HEADER_LEN_def)
qed

lemma init_roomy: "0 < n \<Longrightarrow> n \<le> 1024 \<Longrightarrow> k < 2 ^ 25 \<Longrightarrow>
    \<exists>b. buffer_init n = Some b \<and> roomy b k \<and> contents b = []"
  by (auto simp: buffer_init_def roomy_def buffer_ok_def contents_def)

lemma start_response_ok:
  "\<exists>b. start_response ta = Some b \<and> buffer_ok b \<and>
     contents b = version_prefix (req_version ta) @ status_text (resp_status ta) @ CRLF"
proof -
  let ?v = "version_prefix (req_version ta)" and ?s = "status_text (resp_status ta)"
  have lens: "length ?v = 9" "length ?s \<le> 25" by (cases "req_version ta"; simp) (cases "resp_status ta"; simp)
  obtain b0 where b0: "buffer_init 80 = Some b0" "roomy b0 (2 + length ?s + 9)" "contents b0 = []"
    using init_roomy [of 80 "2 + length ?s + 9"] lens by auto
  obtain b1 where b1: "buffer_appends b0 ?v = Some b1" "roomy b1 (2 + length ?s)" "contents b1 = contents b0 @ ?v"
    using appends_roomy [of b0 "2 + length ?s" ?v] b0(2) lens by auto
  obtain b2 where b2: "buffer_appends b1 ?s = Some b2" "roomy b2 2" "contents b2 = contents b1 @ ?s"
    using appends_roomy [of b1 2 ?s] b1(2) by auto
  obtain b3 where b3: "buffer_appends b2 CRLF = Some b3" "roomy b3 0" "contents b3 = contents b2 @ CRLF"
    using appends_roomy [of b2 0 CRLF] b2(2) by (auto simp: CRLF_def eval_nat_numeral)
  show ?thesis using b0 b1 b2 b3 by (simp add: start_response_def roomy_def)
qed

lemma read_contents: "buffer_ok b \<Longrightarrow> read_block (buf b) 0 (len b) = Some (contents b)"
  using read_block_contents [of b 0 "len b"] contents_length [of b] by (auto simp: buffer_ok_def)

lemma show_nat_length: "n < 10 ^ k \<Longrightarrow> 0 < k \<Longrightarrow> length (show_nat n) \<le> k"
proof (induction n arbitrary: k rule: show_nat.induct)
  case (1 n)
  show ?case
  proof (cases "n < 10")
    case False
    then obtain i where "k = Suc (Suc i)" using "1.prems" by (cases k; cases "k - 1") auto
    then obtain j where j: "k = Suc j" "0 < j" by blast
    then have "n div 10 < 10 ^ j" using "1.prems"(1) by (simp add: less_mult_imp_div_less mult.commute)
    then show ?thesis using "1.IH" [OF False, of j] j False by (subst show_nat.simps) simp
  qed (use "1.prems" in \<open>subst show_nat.simps, simp\<close>)
qed

lemma send_response_any:
  assumes "roomy (resp_headers ta) 2068" "buffer_ok (resp_body ta)" "cap (resp_body ta) < 2 ^ 31"
    "sends (sock (client ta)) = []"
  shows "\<exists>ta'. send_response ta = Some (True, ta') \<and>
    outgoing (sock (client ta')) = outgoing (sock (client ta)) @
      version_prefix (req_version ta) @ status_text (resp_status ta) @ CRLF @
      contents (resp_headers ta) @ ''Content-Length: '' @ show_nat (length (contents (resp_body ta))) @ CRLF @ CRLF @
      contents (resp_body ta)"
proof -
  let ?n = "len (resp_body ta)"
  have n: "0 \<le> ?n" "?n < 2 ^ 31" "length (contents (resp_body ta)) = nat ?n"
    using assms(2,3) contents_length [OF assms(2)] by (auto simp: buffer_ok_def)
  have "nat ?n < 10 ^ 10" using n(2) by (simp add: nat_less_iff)
  then have "length (show_nat (nat ?n)) < 2048" using show_nat_length [of "nat ?n" 10] by simp
  then obtain h where h: "add_content_length (resp_headers ta) ?n = Some h" "roomy h 2"
    "contents h = contents (resp_headers ta) @ ''Content-Length'' @ '': '' @ show_nat (nat ?n) @ CRLF"
    using header_roomy [of "resp_headers ta" 2 "''Content-Length''" "show_nat (nat ?n)"] assms(1) n(1)
    by (auto simp: add_content_length_def show_int_def)
  obtain h2 where h2: "buffer_appends h CRLF = Some h2" "roomy h2 0" "contents h2 = contents h @ CRLF"
    using appends_roomy [of h 0 CRLF] h(2) by (auto simp: CRLF_def eval_nat_numeral)
  obtain b where b: "start_response (ta\<lparr>resp_headers := h2\<rparr>) = Some b" "buffer_ok b"
    "contents b = version_prefix (req_version ta) @ status_text (resp_status ta) @ CRLF"
    using start_response_ok [of "ta\<lparr>resp_headers := h2\<rparr>"] by auto
  have g: "gather [b, h2, resp_body ta] = Some (contents b @ contents h2 @ contents (resp_body ta))"
    using read_contents b(2) h2(2) assms(2) by (simp add: roomy_def)
  show ?thesis
    using h h2 b g n(3) assms(4) by (simp add: send_response_def bufio_sendbuffers_def send_call_def del: gather.simps)
qed

text \<open>
  The bytes of a response, when the network takes them all: the status line in the version of the
  request, the headers collected so far, the length of the body, an empty line, and the body.
\<close>

theorem send_response_format:
  assumes "roomy (resp_headers ta) 2068" "buffer_ok (resp_body ta)" "cap (resp_body ta) < 2 ^ 31"
    "sends (sock (client ta)) = []"
  shows "\<exists>ta'. send_response ta = Some (True, ta') \<and>
    outgoing (sock (client ta')) = outgoing (sock (client ta)) @
      version_prefix (req_version ta) @ status_text (resp_status ta) @ CRLF @
      contents (resp_headers ta) @ ''Content-Length: '' @ show_nat (length (contents (resp_body ta))) @ CRLF @ CRLF @
      contents (resp_body ta)"
  using send_response_any [OF assms] .

text \<open>
  A formatted value of exactly the maximal length is not treated as too long: the buffer grows by
  one byte more than was formatted, and a null byte goes out at the end of the value.
\<close>

theorem append_formatted_off_by_one:
  assumes "buffer_ok b" "0 < cap b" "2 * cap b + int (length s) < 2 ^ 31" "s \<noteq> []"
  shows "\<exists>b'. append_formatted b s (int (length s)) = Some b' \<and> contents b' = contents b @ butlast s @ [NUL]"
proof -
  let ?n = "int (length s)"
  obtain b1 where b1: "buffer_ensure_capacity b ?n = Some b1" "buffer_ok b1" "contents b1 = contents b"
    "len b1 = len b" "len b + ?n \<le> cap b1"
    using ensure_ok [OF assms(1), of ?n] assms(2-4) by auto
  have t: "take (nat (?n - 1)) s @ [NUL] = butlast s @ [NUL]" 
  proof -
    have "nat (?n - 1) = length s - 1" by arith
    then show ?thesis by (simp only: butlast_conv_take)
  qed
  have l: "length (butlast s @ [NUL]) = length s" using assms(4) by (cases s) auto
  have fits: "len b1 + int (length (butlast s @ [NUL])) \<le> cap b1" using b1(4,5) l by simp
  obtain m where m: "write_at (buf b1) (len b1) (butlast s @ [NUL]) = Some m"
    "contents (b1\<lparr>buf := m, len := len b1 + int (length (butlast s @ [NUL]))\<rparr>) = contents b1 @ butlast s @ [NUL]"
    using append_room [OF b1(2) fits] by auto
  have "cint ?n = Some ?n" using assms(1,3) by (simp add: buffer_ok_def cint_def)
  then have "append_formatted b s ?n = Some (b1\<lparr>buf := m, len := len b1 + ?n\<rparr>)"
    using b1(1) m(1) t by (simp add: append_formatted_def del: cint_Some)
  moreover have "int (length (butlast s @ [NUL])) = ?n" using l by simp
  ultimately show ?thesis using m(2) b1(3) by (simp del: length_append length_butlast)
qed


definition sample_answer :: http_transaction where
  "sample_answer = (new_transaction \<lparr>bufpos = 0, bbuf = no_buffer, sock = sample_conn\<rparr>)
     \<lparr>req_version := HTTP_1_1, resp_status := HTTP_OK,
      resp_headers := \<lparr>buf = replicate 8 None, len = 0, cap = 8\<rparr>,
      resp_body := \<lparr>buf = map Some ''hello'', len = 5, cap = 5\<rparr>\<rparr>"

lemma sample_answer_facts:
  "roomy (resp_headers sample_answer) 2068" "buffer_ok (resp_body sample_answer)" "cap (resp_body sample_answer) = 5"
  "contents (resp_headers sample_answer) = []" "contents (resp_body sample_answer) = ''hello''"
  "sock (client sample_answer) = sample_conn" "sends sample_conn = []" "outgoing sample_conn = []"
  "req_version sample_answer = HTTP_1_1" "resp_status sample_answer = HTTP_OK" "show_nat (Suc (Suc (Suc (Suc (Suc 0))))) = ''5''"
  by (auto simp: sample_answer_def sample_conn_def new_transaction_def roomy_def buffer_ok_def contents_def)
     code_simp

theorem send_response_format_witness:
  "\<exists>ta'. send_response sample_answer = Some (True, ta') \<and>
    outgoing (sock (client ta')) =
      ''HTTP/1.1 '' @ ''200 OK'' @ CRLF @ ''Content-Length: '' @ ''5'' @ CRLF @ CRLF @ ''hello''"
  using send_response_format [of sample_answer] sample_answer_facts by simp

theorem append_formatted_off_by_one_witness:
  "\<exists>b'. append_formatted \<lparr>buf = [None, None], len = 0, cap = 2\<rparr> ''abc'' 3 = Some b' \<and>
    contents b' = ''ab'' @ [NUL]"
  using append_formatted_off_by_one [of "\<lparr>buf = [None, None], len = 0, cap = 2\<rparr>" "''abc''"]
  by (simp add: buffer_ok_def contents_def)

subsection \<open>Static files\<close>

text \<open>
  C24: The loop over \<open>sendfile\<close> returns and has sent the rest of the file exactly once, into however
  many pieces the kernel cuts it, as long as no call fails or sends nothing.
\<close>

theorem sendfile_loop_complete:
  assumes "0 \<le> from" "from \<le> int (length file)" "\<forall>r\<in>set (sends (sock (client ta))). 0 < r"
  shows "\<exists>ta'. sendfile_loop file from (int (length file) - 1) ta = Some (True, ta') \<and>
    outgoing (sock (client ta')) = outgoing (sock (client ta)) @ drop (nat from) file"
  using assms
proof (induction "length file - nat from" arbitrary: "from" ta rule: less_induct)
  case less
  let ?c = "sock (client ta)" and ?rest = "drop (nat from) file"
  show ?case
  proof (cases "from = int (length file)")
    case True
    then show ?thesis by (simp add: sendfile_loop.simps)
  next
    case False
    then have lt: "from < int (length file)" using less.prems(2) by simp
    then have at: "nat from < length file" using less.prems(1) by linarith
    define n where "n = (case sends ?c of [] \<Rightarrow> length ?rest | r # _ \<Rightarrow> min (nat r) (length ?rest))"
    have n: "0 < n" "nat from + n \<le> length file" "\<forall>r rs. sends ?c = r # rs \<longrightarrow> 0 < r"
      using less.prems(3) at by (auto simp: n_def split: list.splits)
    have nn: "nat (from + int n) = nat from + n" using less.prems(1) by simp
    obtain ta1 where call: "bufio_sendfile (client ta) file from (int (length file) - 1 + 1 - from) =
        (int n, from + int n, client ta1)" "ta1 = ta\<lparr>client := client ta1\<rparr>"
      "outgoing (sock (client ta1)) = outgoing ?c @ take n ?rest" "set (sends (sock (client ta1))) \<subseteq> set (sends ?c)"
    proof -
      let ?c' = "snd (send_call ?c ?rest)"
      have tk: "take (nat (int (length file) - from)) ?rest = ?rest" by simp
      show ?thesis
        by (rule that [of "ta\<lparr>client := (client ta)\<lparr>sock := ?c'\<rparr>\<rparr>"])
          (use n less.prems(1) in \<open>auto simp: bufio_sendfile_def send_call_def tk n_def min_def not_less split: list.splits\<close>)
    qed
    have "\<exists>ta'. sendfile_loop file (from + int n) (int (length file) - 1) ta1 = Some (True, ta') \<and>
        outgoing (sock (client ta')) = outgoing (sock (client ta1)) @ drop (nat (from + int n)) file"
      using n at less.prems call(4) by (intro less.hyps) (auto simp: nn)
    moreover have "sendfile_loop file from (int (length file) - 1) ta =
        sendfile_loop file (from + int n) (int (length file) - 1) ta1"
      using call(1) n(1) lt call(2) by (subst sendfile_loop.simps) (simp add: Let_def)
    moreover have "take n ?rest @ drop (nat (from + int n)) file = ?rest"
      by (metis append_take_drop_id drop_drop nn add.commute)
    ultimately show ?thesis using call(3) by auto
  qed
qed

theorem sendfile_loop_complete_witness:
  "\<exists>ta'. sendfile_loop ''hello'' 0 4 (sample_answer\<lparr>client := (client sample_answer)\<lparr>sock := sample_conn\<lparr>sends := [2, 1]\<rparr>\<rparr>\<rparr>)
      = Some (True, ta') \<and> outgoing (sock (client ta')) = ''hello''"
  using sendfile_loop_complete [of 0 "''hello''"
    "sample_answer\<lparr>client := (client sample_answer)\<lparr>sock := sample_conn\<lparr>sends := [2, 1]\<rparr>\<rparr>\<rparr>"]
  by (simp add: sample_conn_def)

end
