(* ===== verification/Http_Safe.thy ===== *)
theory Http_Safe
  imports Http_Spec
begin

text \<open>
  What the web server does not give away: no file outside the root directory, no token without the
  password.
\<close>

subsection \<open>The file system behind the server\<close>

text \<open>Two environments that differ in their files only, and agree on the names a request may reach.\<close>

definition allowed_name :: "string \<Rightarrow> string \<Rightarrow> bool" where
  "allowed_name root fname \<longleftrightarrow> (\<exists>p. \<not> strstr p ''../'' \<and> fname = take (nat (PATH_MAX - 1)) (root @ p))"

definition same_allowed :: "env \<Rightarrow> env \<Rightarrow> bool" where
  "same_allowed E E' \<longleftrightarrow>
     E' = E\<lparr>access_file := access_file E', stat_size := stat_size E', open_file := open_file E'\<rparr> \<and>
     (\<forall>root fname. server_root E = Some root \<and> allowed_name root fname \<longrightarrow>
        access_file E' fname = access_file E fname \<and> stat_size E' fname = stat_size E fname \<and>
        open_file E' fname = open_file E fname)"

lemma same_allowed_sym: "same_allowed E E' \<Longrightarrow> same_allowed E' E"
  unfolding same_allowed_def by (cases E; cases E') auto

lemma same_allowed_fields:
  assumes "same_allowed E E'"
  shows "json_login E' = json_login E" "jwt_new E' = jwt_new E" "jwt_add E' = jwt_add E"
    "jwt_set_alg E' = jwt_set_alg E" "jwt_encode_str E' = jwt_encode_str E" "jwt_decode E' = jwt_decode E"
    "jwt_get_grants_json E' = jwt_get_grants_json E" "time_now E' = time_now E"
    "token_expiration_time E' = token_expiration_time E" "server_root E' = server_root E"
  using assms unfolding same_allowed_def by (cases E; cases E'; simp)+

lemma handle_login_env:
  assumes "same_allowed E E'"
  shows "handle_login E' ta = handle_login E ta"
  unfolding handle_login_def token_claims_def send_token_def same_allowed_fields [OF assms] by (rule refl)

lemma handle_api_env:
  assumes "same_allowed E E'"
  shows "handle_api E' ta p = handle_api E ta p"
  unfolding handle_api_def handle_login_env [OF assms] by (rule refl)

lemma handle_static_asset_env:
  assumes "same_allowed E E'"
  shows "handle_static_asset E' ta = handle_static_asset E ta"
proof (cases "server_root E")
  case (Some root)
  show ?thesis
  proof (cases "path_of ta")
    case (Some p)
    let ?f = "take (nat (PATH_MAX - 1)) (root @ p)"
    show ?thesis
    proof (cases "strstr p ''../''")
      case False
      then have "allowed_name root ?f" by (auto simp: allowed_name_def)
      then have same: "access_file E' ?f = access_file E ?f" "stat_size E' ?f = stat_size E ?f" "open_file E' ?f = open_file E ?f"
        using assms \<open>server_root E = Some root\<close> by (auto simp: same_allowed_def)
      show ?thesis
        unfolding handle_static_asset_def same_allowed_fields(10) [OF assms] \<open>server_root E = Some root\<close>
          Some Option.bind.bind_lunit Let_def same
        by (rule refl)
    qed (use Some \<open>server_root E = Some root\<close> same_allowed_fields(10) [OF assms] in
        \<open>simp add: handle_static_asset_def\<close>)
  qed (use Some same_allowed_fields(10) [OF assms] in \<open>simp add: handle_static_asset_def\<close>)
qed (use same_allowed_fields(10) [OF assms] in \<open>simp add: handle_static_asset_def\<close>)

lemma http_handle_transaction_env:
  assumes "same_allowed E E'"
  shows "http_handle_transaction E' = http_handle_transaction E"
  unfolding http_handle_transaction_def respond_def handle_api_env [OF assms] handle_static_asset_env [OF assms]
  by (rule refl)

lemma connection_loop_env:
  assumes "same_allowed E E'" "connection_loop E self = Some r"
  shows "connection_loop E' self = Some r"
proof -
  have "F = E \<longrightarrow> connection_loop E' s = Some r" if "connection_loop F s = Some r" for F s r
  proof (rule connection_loop.raw_induct [where P = "\<lambda>F s r. F = E \<longrightarrow> connection_loop E' s = Some r", OF _ that])
    fix f F s r
    assume 1: "\<And>G s r. f G s = Some r \<Longrightarrow> G = E \<longrightarrow> connection_loop E' s = Some r"
      "do { (online, self) \<leftarrow> http_handle_transaction F s; if online then f F self else Some self } = Some r"
    show "F = E \<longrightarrow> connection_loop E' s = Some r"
    proof
      assume F: "F = E"
      obtain on s1 where h: "http_handle_transaction E s = Some (on, s1)" "(if on then f F s1 else Some s1) = Some r"
        using 1(2) F by (auto simp: bind_eq_Some_conv)
      then show "connection_loop E' s = Some r"
        using 1(1) F http_handle_transaction_env [OF assms(1)]
        by (subst connection_loop.simps) (auto split: if_splits)
    qed
  qed
  then show ?thesis using assms(2) by blast
qed


text \<open>An environment with one page and a secret file beside the root.\<close>

definition sample_env :: env where
  "sample_env = \<lparr>access_file = (\<lambda>f. if f = ''/srv/i.html'' \<or> f = ''/etc/shadow'' then Readable else Missing),
     stat_size = (\<lambda>f. if f = ''/srv/i.html'' then Some 5 else if f = ''/etc/shadow'' then Some 6 else None),
     open_file = (\<lambda>f. if f = ''/srv/i.html'' then Some ''hello'' else if f = ''/etc/shadow'' then Some ''secret'' else None),
     json_login = (\<lambda>s. if s = ''good'' then Some (''user2023'', ''passwordf23'') else None), jwt_new = True,
     jwt_add = (\<lambda>g gs. Some (g # gs)), jwt_set_alg = (\<lambda>gs k. True), jwt_encode_str = (\<lambda>gs. Some ''token''),
     jwt_decode = (\<lambda>s k. Some []), jwt_get_grants_json = (\<lambda>gs. Some ''claims''), time_now = 7,
     token_expiration_time = 86400, server_root = Some ''/srv''\<rparr>"


subsection \<open>Logging in\<close>

lemma send_response_status: "send_response ta = Some (ok, ta') \<Longrightarrow> resp_status ta' = resp_status ta"
  by (auto simp: send_response_def bind_eq_Some_conv Let_def)

lemma send_error_status: "send_error ta st msg = Some (ok, ta') \<Longrightarrow> resp_status ta' = st"
  by (auto simp: send_error_def bind_eq_Some_conv Let_def dest!: send_response_status)

text \<open>
  C23: A login is answered with success only when the body of the request parsed to the one known pair
  of user and password, and then the token was made from the subject \<open>user2023\<close> and the times of
  issue and expiry, was signed with the key and has been decoded again with it.
\<close>

theorem handle_login_granted:
  assumes "handle_login E ta = Some (ok, ta')" "resp_status ta' = HTTP_OK"
  shows "\<exists>b json token s new_token.
    bufio_offset2ptr (client ta) (req_body ta) = Some b \<and>
    read_block (mem_of ta) b (req_content_len ta) = Some json \<and>
    json_login E json = Some (''user2023'', ''passwordf23'') \<and>
    token_claims E = Some token \<and> jwt_set_alg E token KEY \<and> jwt_encode_str E token = Some s \<and>
    jwt_decode E s KEY = Some new_token"
proof -
  have err: "send_error ta st msg \<noteq> Some (ok, ta')" if "st \<noteq> HTTP_OK" for st msg
    using send_error_status assms(2) that by metis
  obtain b json where b: "bufio_offset2ptr (client ta) (req_body ta) = Some b" "0 \<le> req_content_len ta"
    "read_block (mem_of ta) b (req_content_len ta) = Some json"
    using assms(1) by (auto simp: handle_login_def bind_eq_Some_conv assert_c_def split: if_splits)
  obtain u p where up: "json_login E json = Some (u, p)"
    using assms(1) b err by (cases "json_login E json") (auto simp: handle_login_def)
  have ok: "u = ''user2023'' \<and> p = ''passwordf23''" "jwt_new E"
    using assms(1) b up err by (auto simp: handle_login_def split: if_splits)
  obtain token where t: "token_claims E = Some token"
    using assms(1) b up err ok by (cases "token_claims E") (auto simp: handle_login_def)
  have alg: "jwt_set_alg E token KEY" using assms(1) b up err ok t by (auto simp: handle_login_def split: if_splits)
  obtain s where s: "jwt_encode_str E token = Some s"
    using assms(1) b up err ok t alg by (cases "jwt_encode_str E token") (auto simp: handle_login_def)
  obtain nt where "jwt_decode E s KEY = Some nt"
    using assms(1) b up err ok t alg s by (cases "jwt_decode E s KEY") (auto simp: handle_login_def)
  then show ?thesis using b up ok t alg s by blast
qed

text \<open>A login request whose body is the good document.\<close>

definition sample_login :: http_transaction where
  "sample_login = sample_answer\<lparr>req_content_len := 4, resp_headers := \<lparr>buf = [None], len = 0, cap = 1\<rparr>,
     resp_body := \<lparr>buf = [None], len = 0, cap = 1\<rparr>,
     client := \<lparr>bufpos = 4, bbuf = \<lparr>buf = map Some ''good'', len = 4, cap = 4\<rparr>, sock = sample_conn\<rparr>\<rparr>"

lemma roomy_mono: "roomy b n \<Longrightarrow> m \<le> n \<Longrightarrow> roomy b m"
  by (auto simp: roomy_def)

lemma sample_env_simps [simp]:
  "json_login sample_env ''good'' = Some (''user2023'', ''passwordf23'')" "jwt_new sample_env"
  "jwt_set_alg sample_env t k" "jwt_encode_str sample_env t = Some ''token''"
  "jwt_decode sample_env ''token'' k = Some []" "jwt_get_grants_json sample_env t = Some ''claims''"
  "token_expiration_time sample_env = 86400"
  by (auto simp: sample_env_def)

lemma sample_claims: "\<exists>t. token_claims sample_env = Some t"
  by (simp add: token_claims_def sample_env_def)

lemma sample_login_body:
  "bufio_offset2ptr (client sample_login) (req_body sample_login) = Some 0"
  "read_block (mem_of sample_login) 0 (req_content_len sample_login) = Some ''good''"
  "0 \<le> req_content_len sample_login"
  by (simp_all add: sample_login_def sample_answer_def new_transaction_def bufio_offset2ptr_def mem_of_def
      read_block_def those_def eval_nat_numeral)

lemma sample_login_rooms:
  "roomy (resp_headers sample_login) 7000" "roomy (resp_body sample_login) (length ''claims'')" "sends (sock (client sample_login)) = []"
  by (auto simp: sample_login_def roomy_def buffer_ok_def sample_conn_def)

lemma send_token_ok:
  assumes "roomy (resp_headers ta) 7000" "roomy (resp_body ta) (length claims)" "sends (sock (client ta)) = []"
    "length (''auth_token='' @ js @ ''; Path=/; Max-Age='' @ show_int (token_expiration_time E) @ ''; HttpOnly'') < 2048"
  shows "\<exists>ta'. send_token E ta js claims = Some (True, ta') \<and> resp_status ta' = HTTP_OK"
proof -
  let ?ta = "ta\<lparr>resp_status := HTTP_OK\<rparr>"
  let ?cookie = "''auth_token='' @ js @ ''; Path=/; Max-Age='' @ show_int (token_expiration_time E) @ ''; HttpOnly''"
  obtain h1 where h1: "http_add_header (resp_headers ?ta) ''Set-Cookie'' ?cookie = Some h1" "roomy h1 4900"
    using header_roomy [of "resp_headers ?ta" 4900 "''Set-Cookie''" ?cookie] roomy_mono [OF assms(1)] assms(4) by auto
  obtain h2 where h2: "http_add_header h1 ''Content-Type'' ''application/json'' = Some h2" "roomy h2 2068"
    using header_roomy [of h1 2068 "''Content-Type''" "''application/json''"] roomy_mono [OF h1(2)] by auto
  obtain b where b: "buffer_appends (resp_body ?ta) claims = Some b" "roomy b 0"
    using appends_roomy [of "resp_body ?ta" 0 claims] assms(2) by auto
  obtain ta' where ta': "send_response (?ta\<lparr>resp_headers := h2, resp_body := b\<rparr>) = Some (True, ta')"
    using send_response_any [of "?ta\<lparr>resp_headers := h2, resp_body := b\<rparr>"] h2(2) b(2) assms(3) by (auto simp: roomy_def)
  moreover have "resp_status ta' = HTTP_OK" using send_response_status [OF ta'] by simp
  ultimately show ?thesis using h1(1) h2(1) b(1) by (simp add: send_token_def)
qed

lemma sample_cookie:
  "length (''auth_token='' @ ''token'' @ ''; Path=/; Max-Age='' @ show_int (token_expiration_time sample_env) @ ''; HttpOnly'') < 2048"
  using show_nat_length [of 86400 10] by (simp add: show_int_def)

lemma sample_login_granted: "\<exists>ok ta'. handle_login sample_env sample_login = Some (ok, ta') \<and> resp_status ta' = HTTP_OK"
proof -
  obtain ta' where "send_token sample_env sample_login ''token'' ''claims'' = Some (True, ta')" "resp_status ta' = HTTP_OK"
    using send_token_ok [of sample_login "''claims''" "''token''" sample_env] sample_login_rooms sample_cookie by auto
  moreover obtain t where "token_claims sample_env = Some t" using sample_claims by blast
  ultimately show ?thesis using sample_login_body by (auto simp: handle_login_def)
qed

theorem handle_login_granted_witness:
  "\<exists>token. token_claims sample_env = Some token \<and> json_login sample_env ''good'' = Some (''user2023'', ''passwordf23'')"
proof -
  obtain ok ta' where t: "handle_login sample_env sample_login = Some (ok, ta')" "resp_status ta' = HTTP_OK"
    using sample_login_granted by blast
  have "json_login sample_env j = Some (''user2023'', ''passwordf23'') \<Longrightarrow> j = ''good''" for j
    by (simp add: sample_env_def split: if_splits)
  then show ?thesis using handle_login_granted [OF t] by blast
qed

subsection \<open>Requests that are never answered\<close>

text \<open>
  A request below \<open>/private\<close> gets no answer at all, and the connection is given up.
\<close>

theorem private_silent:
  assumes "path_of ta = Some (''/private'' @ p)"
  shows "\<exists>ta'. respond E ta = Some (False, ta') \<and> client ta' = client ta"
proof -
  obtain h where h: "buffer_init 1024 = Some h" "roomy h 2058" using init_roomy [of 1024 2058] by auto
  obtain h1 where h1: "http_add_header h ''Server'' ''CS3214-Personal-Server'' = Some h1"
    using header_roomy [of h 0 "''Server''" "''CS3214-Personal-Server''"] h(2) by auto
  have "path_of (ta\<lparr>resp_headers := h1, resp_body := b\<rparr>) = path_of ta" for b
    by (simp add: path_of_def mem_of_def)
  moreover have "starts_with_nocase (''/private'' @ p) ''/private''" "\<not> starts_with_nocase (''/private'' @ p) ''/api''"
    by (auto simp: starts_with_nocase_def same_nocase_def tolower_def)
  moreover have "buffer_init 0 = Some \<lparr>buf = [], len = 0, cap = 0\<rparr>" by (simp add: buffer_init_def)
  ultimately show ?thesis using assms h(1) h1 by (auto simp: respond_def)
qed

definition sample_private :: http_transaction where
  "sample_private = sample_login\<lparr>client := \<lparr>bufpos = 11, bbuf = \<lparr>buf = map Some (''/private/x'' @ [NUL]), len = 11, cap = 11\<rparr>,
     sock = sample_conn\<rparr>\<rparr>"

theorem private_silent_witness:
  "\<exists>ta'. respond sample_env sample_private = Some (False, ta') \<and> client ta' = client sample_private"
proof -
  have "path_of sample_private = Some (''/private'' @ ''/x'')" by code_simp
  then show ?thesis by (rule private_silent)
qed

end
