(* ===== verification/Http_Type.thy ===== *)
theory Http_Type
  imports Http_Spec
begin

text \<open>
  The buffer of a connection stays well formed through every transaction of \<open>pserv/src/http.c\<close>: the
  parser writes into it, and all that a client sends goes through it.
\<close>

subsection \<open>Writing into the buffer\<close>

text \<open>A block that has kept its size and lost no byte that was written.\<close>

definition overwritten :: "mem \<Rightarrow> mem \<Rightarrow> bool" where
  "overwritten m m' \<longleftrightarrow> length m' = length m \<and> (\<forall>i<length m. m ! i \<noteq> None \<longrightarrow> m' ! i \<noteq> None)"

lemma overwritten_refl [simp]: "overwritten m m"
  by (simp add: overwritten_def)

lemma overwritten_trans: "overwritten m m' \<Longrightarrow> overwritten m' m'' \<Longrightarrow> overwritten m m''"
  by (simp add: overwritten_def)

lemma poke_overwritten: "poke m i c = Some m' \<Longrightarrow> overwritten m m'"
  by (auto simp: poke_def overwritten_def nth_list_update split: if_splits)

lemma strtok_r_overwritten: "strtok_r m i ds = Some (tok, e, m') \<Longrightarrow> overwritten m m'"
  by (auto simp: strtok_r_def bind_eq_Some_conv Let_def split: if_splits dest: poke_overwritten)

lemma set_mem_bufio_ok:
  assumes "bufio_ok (client ta)" "overwritten (mem_of ta) m"
  shows "bufio_ok (client (set_mem ta m))"
proof -
  have "None \<notin> set (take n m)" if "None \<notin> set (take n (mem_of ta))" for n
    using that assms(2) by (fastforce simp: overwritten_def in_set_conv_nth)
  then show ?thesis using assms by (auto simp: bufio_ok_def buffer_ok_def set_mem_def mem_of_def overwritten_def)
qed

subsection \<open>Results with a well-formed buffer\<close>

definition keeps :: "('a \<times> http_transaction) option \<Rightarrow> bool" where
  "keeps r \<longleftrightarrow> (\<forall>b ta. r = Some (b, ta) \<longrightarrow> bufio_ok (client ta))"

named_theorems keeps_rules

lemma keeps_Some [keeps_rules]: "bufio_ok (client ta) \<Longrightarrow> keeps (Some (b, ta))"
  by (simp add: keeps_def)

lemma keeps_bind [keeps_rules]: "(\<And>y. x = Some y \<Longrightarrow> keeps (f y)) \<Longrightarrow> keeps (x \<bind> f)"
  by (cases x) (simp_all add: keeps_def)

lemma keeps_let [keeps_rules]: "(\<And>y. y = x \<Longrightarrow> keeps (f y)) \<Longrightarrow> keeps (let y = x in f y)"
  by simp

lemma keeps_if [keeps_rules]: "(P \<Longrightarrow> keeps a) \<Longrightarrow> (\<not> P \<Longrightarrow> keeps b) \<Longrightarrow> keeps (if P then a else b)"
  by simp

lemma keeps_prod [keeps_rules]: "(\<And>a b. p = (a, b) \<Longrightarrow> keeps (f a b)) \<Longrightarrow> keeps (case p of (a, b) \<Rightarrow> f a b)"
  by (cases p) simp

lemma keeps_option [keeps_rules]:
  "(p = None \<Longrightarrow> keeps a) \<Longrightarrow> (\<And>x. p = Some x \<Longrightarrow> keeps (f x)) \<Longrightarrow> keeps (case p of None \<Rightarrow> a | Some x \<Rightarrow> f x)"
  by (cases p) simp_all

lemma keeps_access [keeps_rules]:
  "keeps a \<Longrightarrow> keeps b \<Longrightarrow> keeps c \<Longrightarrow> keeps (case p of Readable \<Rightarrow> a | No_access \<Rightarrow> b | Missing \<Rightarrow> c)"
  by (cases p) simp_all

lemma keeps_method [keeps_rules]:
  "keeps a \<Longrightarrow> keeps b \<Longrightarrow> keeps c \<Longrightarrow> keeps (case p of HTTP_GET \<Rightarrow> a | HTTP_POST \<Rightarrow> b | HTTP_UNKNOWN \<Rightarrow> c)"
  by (cases p) simp_all

lemma keepsD: "keeps r \<Longrightarrow> r = Some (b, ta) \<Longrightarrow> bufio_ok (client ta)"
  by (simp add: keeps_def)

lemma keeps_poke: "(\<And>m'. overwritten m m' \<Longrightarrow> keeps (f m')) \<Longrightarrow> keeps (poke m i c \<bind> f)"
  using poke_overwritten by (intro keeps_bind) blast

lemma keeps_strtok:
  "(\<And>tok e m'. overwritten m m' \<Longrightarrow> keeps (f (tok, e, m'))) \<Longrightarrow> keeps (strtok_r m i ds \<bind> f)"
  using strtok_r_overwritten by (intro keeps_bind) (auto split: prod.splits)

lemma keeps_readline:
  "bufio_ok c \<Longrightarrow> (\<And>n off c'. bufio_ok c' \<Longrightarrow> keeps (f (n, off, c'))) \<Longrightarrow> keeps (bufio_readline c \<bind> f)"
  using bufio_readline_ok [of c] by (intro keeps_bind) auto

lemma http_parse_request_keeps:
  assumes "bufio_ok (client ta)"
  shows "keeps (http_parse_request ta)"
  unfolding http_parse_request_def
  by (rule keeps_readline [OF assms])
    ((rule keeps_poke keeps_strtok keeps_rules | fastforce intro: set_mem_bufio_ok overwritten_trans)+)

lemma http_process_headers_keeps:
  assumes "bufio_ok (client ta)"
  shows "keeps (http_process_headers ta)"
proof -
  have "bufio_ok (client ta) \<longrightarrow> bufio_ok (client (snd y))" if "http_process_headers ta = Some y" for y
  proof (rule http_process_headers.raw_induct [OF _ that])
    fix f ta y
    assume IH: "\<And>ta y. f ta = Some y \<Longrightarrow> bufio_ok (client ta) \<longrightarrow> bufio_ok (client (snd y))"
      and step: "do {
        (n, header_offset, c) \<leftarrow> bufio_readline (client ta);
        let ta = ta\<lparr>client := c\<rparr>;
        if n \<le> 0 then Some (False, ta)
        else do {
          header \<leftarrow> bufio_offset2ptr (client ta) header_offset;
          two \<leftarrow> (if n = 2 then read_block (mem_of ta) header 2 else Some []);
          if n = 2 \<and> two = CRLF then Some (True, ta)
          else do {
            assert_c (0 \<le> header + n - 2);
            m \<leftarrow> poke (mem_of ta) (nat (header + n - 2)) NUL;
            (tok, endptr, m) \<leftarrow> strtok_r m (nat header) '':'';
            let ta = set_mem ta m;
            case tok of
              None \<Rightarrow> Some (False, ta)
            | Some field_name \<Rightarrow> do {
                name \<leftarrow> cstr_at (mem_of ta) field_name;
                field_value \<leftarrow> cstr_at (mem_of ta) endptr;
                if same_nocase name ''Content-Length'' then do {
                  v \<leftarrow> atoi_c (skip_lws field_value);
                  f (ta\<lparr>req_content_len := v\<rparr>)
                } else f ta
              }
          }
        }
      } = Some y"
    have rec: "keeps (f u)" if "bufio_ok (client u)" for u using IH that by (auto simp: keeps_def)
    have "bufio_ok (client (snd y))" if "bufio_ok (client ta)"
    proof -
      have "keeps (Some y)" unfolding step [symmetric]
        by (rule keeps_readline [OF that])
          ((rule rec keeps_poke keeps_strtok keeps_rules | fastforce intro: set_mem_bufio_ok overwritten_trans)+)
      then show ?thesis by (cases y) (simp add: keeps_def)
    qed
    then show "bufio_ok (client ta) \<longrightarrow> bufio_ok (client (snd y))" by blast
  qed
  then show ?thesis using assms by (auto simp: keeps_def)
qed

subsection \<open>Sending\<close>

lemma send_call_incoming: "send_call c s = (r, c') \<Longrightarrow> incoming c' = incoming c"
  by (auto simp: send_call_def Let_def split: list.splits if_splits)

lemma sent_ok: "bufio_ok c \<Longrightarrow> incoming k = incoming (sock c) \<Longrightarrow> bufio_ok (c\<lparr>sock := k\<rparr>)"
  by (simp add: bufio_ok_def)

lemma keeps_sendbuffers:
  assumes "bufio_ok c" "\<And>r c'. bufio_ok c' \<Longrightarrow> keeps (f (r, c'))"
  shows "keeps (bufio_sendbuffers c bs \<bind> f)"
proof (rule keeps_bind)
  fix y assume "bufio_sendbuffers c bs = Some y"
  then obtain t where "y = (fst (send_call (sock c) t), c\<lparr>sock := snd (send_call (sock c) t)\<rparr>)"
    by (auto simp: bufio_sendbuffers_def bind_eq_Some_conv Let_def case_prod_beta)
  moreover have "incoming (snd (send_call (sock c) t)) = incoming (sock c)" using send_call_incoming by (metis prod.collapse)
  ultimately show "keeps (f y)" using assms sent_ok by simp
qed

lemma keeps_then:
  "keeps r \<Longrightarrow> (\<And>b ta. bufio_ok (client ta) \<Longrightarrow> keeps (f (b, ta))) \<Longrightarrow> keeps (r \<bind> f)"
  by (intro keeps_bind) (auto dest: keepsD)

lemma send_response_header_keeps: "bufio_ok (client ta) \<Longrightarrow> keeps (send_response_header ta)"
  unfolding send_response_header_def by (rule keeps_sendbuffers keeps_rules | simp)+

lemma send_response_keeps [keeps_rules]: "bufio_ok (client ta) \<Longrightarrow> keeps (send_response ta)"
  unfolding send_response_def by (rule keeps_sendbuffers keeps_rules | simp)+

lemma send_error_keeps [keeps_rules]: "bufio_ok (client ta) \<Longrightarrow> keeps (send_error ta st msg)"
  unfolding send_error_def by (rule keeps_rules | simp)+

lemma send_not_found_keeps [keeps_rules]: "bufio_ok (client ta) \<Longrightarrow> keeps (send_not_found ta)"
  unfolding send_not_found_def by (rule keeps_rules | simp)+

lemma sendfile_loop_keeps [keeps_rules]:
  assumes "bufio_ok (client ta)"
  shows "keeps (sendfile_loop file i j ta)"
proof -
  have "bufio_ok (client ta) \<longrightarrow> bufio_ok (client (snd y))" if "sendfile_loop file i j ta = Some y" for y
    using that
  proof (induction rule: sendfile_loop.raw_induct [rotated, consumes 1])
    case (1 f fi i j ta y)
    have "bufio_ok (client (snd y))" if ok: "bufio_ok (client ta)"
    proof (cases "i \<le> j")
      case True
      obtain r i' c where c: "bufio_sendfile (client ta) fi i (j + 1 - i) = (r, i', c)" by (metis prod_cases3)
      have "bufio_ok c" using c ok by (auto simp: bufio_sendfile_def Let_def split: prod.splits dest: send_call_incoming intro: sent_ok)
      then show ?thesis using 1(2) True c 1(1) [of fi i' j "ta\<lparr>client := c\<rparr>"] by (auto simp: Let_def split: if_splits)
    qed (use 1(2) ok in auto)
    then show ?case by blast
  qed
  then show ?thesis using assms by (auto simp: keeps_def)
qed

lemma handle_static_asset_keeps [keeps_rules]: "bufio_ok (client ta) \<Longrightarrow> keeps (handle_static_asset E ta)"
  unfolding handle_static_asset_def
  by (rule keeps_then [OF send_response_header_keeps] keeps_rules | fastforce)+

lemma send_token_keeps [keeps_rules]: "bufio_ok (client ta) \<Longrightarrow> keeps (send_token E ta j c)"
  unfolding send_token_def by (rule keeps_rules | fastforce)+

lemma handle_login_keeps [keeps_rules]: "bufio_ok (client ta) \<Longrightarrow> keeps (handle_login E ta)"
  unfolding handle_login_def by (rule keeps_rules | fastforce)+

lemma handle_api_keeps [keeps_rules]: "bufio_ok (client ta) \<Longrightarrow> keeps (handle_api E ta path)"
  unfolding handle_api_def by (rule keeps_rules | fastforce)+

lemma respond_keeps [keeps_rules]:
  assumes "bufio_ok (client ta)"
  shows "keeps (respond E ta)"
proof -
  have "keeps (if starts_with_nocase path ''/api'' then handle_api E u path
      else if starts_with_nocase path ''/private'' then Some (False, u) else handle_static_asset E u)"
    if "bufio_ok (client u)" for u path using that by (auto intro: keeps_rules)
  note k = keeps_then [OF this]
  show ?thesis using assms unfolding respond_def by - (rule k keeps_rules | fastforce)+
qed

subsection \<open>A transaction\<close>



end
