(* ===== verification/Server.thy ===== *)
theory Server
  imports Http
begin

text \<open>
  The frame of the web server: the options and the accept loop of \<open>pserv/src/main.c\<close>, the sockets of
  \<open>pserv/src/socket.c\<close> and the printer of \<open>pserv/src/hexdump.c\<close>.  The results of the socket calls
  are data of the addresses and of the clients they are made for; texts on the standard error are
  left out.
\<close>

subsection \<open>Hexadecimal dumps\<close>

definition hex_digit :: "nat \<Rightarrow> char" where
  "hex_digit d = (if d < 10 then char_of (48 + d) else char_of (87 + d))"

fun hex_digits :: "nat \<Rightarrow> nat \<Rightarrow> string" where
  "hex_digits 0 n = []"
| "hex_digits (Suc w) n = hex_digits w (n div 16) @ [hex_digit (n mod 16)]"

text \<open>The sixteen columns of the dump of line \<open>i\<close>, then the characters themselves.\<close>

definition isgraph :: "char \<Rightarrow> bool" where
  "isgraph c = (let n = (of_char c :: nat) in 33 \<le> n \<and> n \<le> 126)"

definition hex_column :: "string \<Rightarrow> nat \<Rightarrow> string" where
  "hex_column b j = (if j mod 4 = 0 then '' '' else []) @
     (if j \<ge> length b then ''  '' else hex_digits 2 (of_char (b ! j)))"

definition char_column :: "string \<Rightarrow> nat \<Rightarrow> string" where
  "char_column b j = (if j \<ge> length b then '' '' else if isgraph (b ! j) then [b ! j] else ''.'')"

definition dump_line :: "string \<Rightarrow> nat \<Rightarrow> string" where
  "dump_line b i = ''| '' @ hex_digits 8 i @ ''      '' @ concat (map (hex_column b) [i..<i + 16]) @
     ''       '' @ concat (map (char_column b) [i..<i + 16]) @ '' |''"

function hexdump_lines :: "string \<Rightarrow> nat \<Rightarrow> string list" where
  "hexdump_lines b i = (if i < length b then dump_line b i # hexdump_lines b (i + 16) else [])"
  by pat_completeness auto
termination by (relation "measure (\<lambda>(b, i). length b - i)") auto

declare hexdump_lines.simps [simp del]

definition hexdump :: "string \<Rightarrow> string list" where
  "hexdump b = [''.'' @ replicate 75 (CHR ''-'') @ ''.''] @ hexdump_lines b 0 @
     [[CHR 0x60] @ replicate 75 (CHR ''-'') @ [CHR 0x27]]"

subsection \<open>Sockets\<close>

datatype family = AF_INET | AF_INET6 | AF_OTHER

text \<open>One address that \<open>getaddrinfo\<close> found, with the results of the calls on it.\<close>

record addrinfo =
  ai_family :: family
  ai_tcp :: bool
  name_known :: bool
  opened :: int
  bound :: bool
  listening :: bool

fun open_loop :: "bool \<Rightarrow> addrinfo list \<Rightarrow> int option" where
  "open_loop ipv6 [] = Some (- 1)"
| "open_loop ipv6 (p # ps) = do {
     assert_c (ai_tcp p);
     if \<not> name_known p then Some (- 1)
     else if ipv6 \<and> ai_family p = AF_INET then open_loop ipv6 ps
     else if opened p = - 1 \<or> \<not> bound p \<or> \<not> listening p then Some (- 1)
     else Some (opened p)
   }"

definition socket_open_bind_listen :: "addrinfo list option \<Rightarrow> int option" where
  "socket_open_bind_listen info =
     (case info of
        None \<Rightarrow> Some (- 1)
      | Some ps \<Rightarrow> open_loop (list_ex (\<lambda>p. ai_family p = AF_INET6) ps) ps)"

record accepted =
  acc_client :: int
  acc_name :: bool

definition socket_accept_client :: "bool \<Rightarrow> accepted \<Rightarrow> int" where
  "socket_accept_client silent a =
     (if acc_client a = - 1 then - 1
      else if \<not> silent \<and> \<not> acc_name a then - 1
      else acc_client a)"

text \<open>
  The accept loop on the clients that will come: the sockets for which a thread has been started, and
  whether the loop still waits.
\<close>

fun server_loop :: "bool \<Rightarrow> accepted list \<Rightarrow> int list \<times> bool" where
  "server_loop silent [] = ([], True)"
| "server_loop silent (a # as) =
     (let client_socket = socket_accept_client silent a
      in if client_socket = - 1 then ([], False)
         else let (cs, waiting) = server_loop silent as in (client_socket # cs, waiting))"

subsection \<open>The main routine\<close>

record settings =
  html5_fallback :: bool
  silent_mode :: bool
  expiration :: int
  root :: "string option"
  port :: "string option"

definition initial_settings :: settings where
  "initial_settings = \<lparr>html5_fallback = False, silent_mode = False, expiration = 24 * 60 * 60, root = None, port = None\<rparr>"

text \<open>The options that \<open>getopt\<close> delivers, with their arguments; \<open>Inl ()\<close> is the usage message and exit.\<close>

fun read_options :: "(char \<times> string) list \<Rightarrow> settings \<Rightarrow> (unit + settings) option" where
  "read_options [] c = Some (if port c = None then Inl () else Inr c)"
| "read_options ((opt, optarg) # os) c =
     (if opt = CHR ''a'' then read_options os (c\<lparr>html5_fallback := True\<rparr>)
      else if opt = CHR ''p'' then read_options os (c\<lparr>port := Some optarg\<rparr>)
      else if opt = CHR ''e'' then do {
        n \<leftarrow> atoi_c optarg;
        read_options os (c\<lparr>expiration := n\<rparr>)
      }
      else if opt = CHR ''s'' then read_options os (c\<lparr>silent_mode := True\<rparr>)
      else if opt = CHR ''R'' then read_options os (c\<lparr>root := Some optarg\<rparr>)
      else Some (Inl ()))"

text \<open>
  A run of the program: the addresses \<open>getaddrinfo\<close> finds for a port, the clients that connect, and
  what each of them says.  The result is what each client gets; the threads share nothing, so each
  is run for itself.
\<close>

definition main_server :: "env \<Rightarrow> (string \<Rightarrow> addrinfo list option) \<Rightarrow> (int \<Rightarrow> conn) \<Rightarrow>
    (char \<times> string) list \<Rightarrow> accepted list \<Rightarrow> (unit + (int \<times> string option) list \<times> bool) option" where
  "main_server E addrs says args clients = do {
     r \<leftarrow> read_options args initial_settings;
     (case r of
        Inl u \<Rightarrow> Some (Inl u)
      | Inr c \<Rightarrow> do {
          p \<leftarrow> port c;
          s \<leftarrow> socket_open_bind_listen (addrs p);
          let E = E\<lparr>token_expiration_time := expiration c, server_root := root c\<rparr>;
          let (cs, waiting) = (if s = - 1 then ([], False) else server_loop (silent_mode c) clients);
          Some (Inr (map (\<lambda>k. (k, connection_handler E (says k))) cs, waiting))
        })
   }"

subsection \<open>Properties\<close>

lemma hex_digits_length [simp]: "length (hex_digits w n) = w"
  by (induction w arbitrary: n) auto

lemma char_column_length [simp]: "length (char_column b j) = 1"
  by (simp add: char_column_def)

lemma hex_column_length: "length (hex_column b j) = (if j mod 4 = 0 then 3 else 2)"
  by (simp add: hex_column_def)

lemma upt_16: "[0..<16] = [0, 1, 2, 3, 4, 5, 6, 7, 8, 9, 10, 11, 12, 13, 14, 15 :: nat]"
  by code_simp

lemma sixteen_columns:
  assumes "i mod 16 = 0"
  shows "length (concat (map (hex_column b) [i..<i + 16])) = 36" "length (concat (map (char_column b) [i..<i + 16])) = 16"
proof -
  have m: "(n + i) mod 4 = n mod 4" for n
  proof -
    have "i mod 4 = 0" using assms by (metis dvd_trans mod_0_imp_dvd mod_eq_0_iff_dvd dvd_def mult_2_right numeral_Bit0)
    then show ?thesis by (metis add.right_neutral mod_add_right_eq)
  qed
  have "[i..<i + 16] = map (\<lambda>n. n + i) [0..<16]" by (simp add: map_add_upt add.commute)
  then have u: "[i..<i + 16] = map (\<lambda>n. n + i) [0, 1, 2, 3, 4, 5, 6, 7, 8, 9, 10, 11, 12, 13, 14, 15]"
    unfolding upt_16 .
  show "length (concat (map (hex_column b) [i..<i + 16])) = 36"
    unfolding u by (simp only: list.map concat.simps length_append hex_column_length m) simp
  show "length (concat (map (char_column b) [i..<i + 16])) = 16"
    unfolding u by (simp only: list.map concat.simps length_append char_column_length) simp
qed

lemma dump_line_length: "i mod 16 = 0 \<Longrightarrow> length (dump_line b i) = 77"
  by (simp add: dump_line_def sixteen_columns del: upt_Suc)

lemma lines_step:
  assumes "0 < n"
  shows "Suc ((n - 16 + 15) div 16) = (n + 15) div (16::nat)"
proof (cases "16 \<le> n")
  case True
  then have "n + 15 = n - 16 + 15 + 16" by simp
  then show ?thesis by (metis div_add_self2 Suc_eq_plus1 zero_neq_numeral)
next
  case False
  then have "(n + 15) div 16 = 1" using assms by (simp add: div_nat_eqI)
  then show ?thesis using False by simp
qed

text \<open>
  The dump of a buffer is a frame around one line for every sixteen bytes or part of them, and
  all its lines have the same width.
\<close>

theorem hexdump_frame:
  "length (hexdump b) = 2 + (length b + 15) div 16 \<and> length ` set (hexdump b) = {77}"
proof -
  have "length (hexdump_lines b i) = (length b - i + 15) div 16 \<and> (\<forall>l\<in>set (hexdump_lines b i). length l = 77)"
    if "i mod 16 = 0" for i
    using that
  proof (induction b i rule: hexdump_lines.induct)
    case (1 b i)
    show ?case
    proof (cases "i < length b")
      case True
      have "Suc ((length b - (i + 16) + 15) div 16) = (length b - i + 15) div 16"
        using lines_step [of "length b - i"] True by simp
      moreover have "hexdump_lines b i = dump_line b i # hexdump_lines b (i + 16)"
        using True by (simp add: hexdump_lines.simps)
      moreover have "(i + 16) mod 16 = 0" using 1(2) by simp
      ultimately show ?thesis using 1(1) [OF True] dump_line_length [OF 1(2)] by simp
    qed (simp add: hexdump_lines.simps)
  qed
  from this [of 0] show ?thesis by (auto simp: hexdump_def image_iff)
qed

text \<open>
  When an IPv6 address is among those found, the server listens on the first address that is not
  an IPv4 one, and otherwise on the first; no address is tried after a failure.
\<close>

theorem socket_prefers_ipv6:
  assumes "\<forall>p\<in>set ps. ai_tcp p \<and> name_known p"
    "List.find (\<lambda>p. \<not> (list_ex (\<lambda>q. ai_family q = AF_INET6) ps \<and> ai_family p = AF_INET)) ps = Some p"
  shows "socket_open_bind_listen (Some ps) = Some (if bound p \<and> listening p then opened p else - 1)"
proof -
  have "open_loop v6 qs = Some (if bound p \<and> listening p then opened p else - 1)"
    if "\<forall>p\<in>set qs. ai_tcp p \<and> name_known p" "List.find (\<lambda>p. \<not> (v6 \<and> ai_family p = AF_INET)) qs = Some p" for v6 qs
    using that by (induction qs) (auto simp: assert_c_def split: if_splits)
  from this [OF assms] show ?thesis by (simp add: socket_open_bind_listen_def)
qed

definition sample_addr :: "family \<Rightarrow> int \<Rightarrow> addrinfo" where
  "sample_addr f n = \<lparr>ai_family = f, ai_tcp = True, name_known = True, opened = n, bound = True, listening = True\<rparr>"

theorem socket_prefers_ipv6_witness:
  "socket_open_bind_listen (Some [sample_addr AF_INET 3, sample_addr AF_INET6 4]) = Some 4"
  using socket_prefers_ipv6 [of "[sample_addr AF_INET 3, sample_addr AF_INET6 4]" "sample_addr AF_INET6 4"]
  by (simp add: sample_addr_def)

text \<open>
  One accepted client whose name cannot be resolved stops the whole server when it is not silent:
  the loop ends with the clients before it, whoever comes behind.
\<close>

theorem server_loop_stops:
  assumes "\<forall>a\<in>set as. acc_client a \<noteq> - 1 \<and> (silent \<or> acc_name a)" "\<not> acc_name b"
  shows "server_loop silent (as @ b # bs) =
    (if silent \<and> acc_client b \<noteq> - 1
     then (map acc_client as @ acc_client b # fst (server_loop silent bs), snd (server_loop silent bs))
     else (map acc_client as, False))"
  using assms
  by (induction as) (auto simp: socket_accept_client_def Let_def split: prod.splits)

theorem server_loop_stops_witness:
  "server_loop False [\<lparr>acc_client = 4, acc_name = True\<rparr>, \<lparr>acc_client = 5, acc_name = False\<rparr>, \<lparr>acc_client = 6, acc_name = True\<rparr>]
     = ([4], False)"
  using server_loop_stops [of "[\<lparr>acc_client = 4, acc_name = True\<rparr>]" False "\<lparr>acc_client = 5, acc_name = False\<rparr>"
    "[\<lparr>acc_client = 6, acc_name = True\<rparr>]"] by simp

end
