(* ===== verification/Shell.thy ===== *)
theory Shell
  imports Grammar
begin

text \<open>
  The job control of the shell \<open>cush/src/cush.c\<close>.  Jobs live at addresses; the job list holds them in
  order and the table \<open>jid2job\<close> finds them by number.  What the world answers is data: the results of
  \<open>pipe2\<close>, \<open>posix_spawnp\<close>, \<open>killpg\<close> and \<open>tcsetpgrp\<close>, and the reports of \<open>waitpid\<close>, with the points
  at which the signal handler runs.  A field or variable that has no value yet is \<open>None\<close>, and reading
  it is undefined.  Command lines are given as syntax trees (their grammar is not C).
\<close>

datatype job_status = FOREGROUND | BACKGROUND | STOPPED | NEEDSTERMINAL | EXITED | TERMINATED | KILLED
  | DNE | FPE | SEGV | ABRT

record job =
  jid :: int
  pipe :: ast_pipeline
  status :: job_status
  num_processes_alive :: int
  saved_tty_state :: "nat option"
  pids :: "int option list"
  pgrp :: "int option"

datatype wait_status = Stopped_by int | Exited_with int | Signaled_by int

datatype open_mode = For_reading | Appending | Truncating

datatype file_action = Dup2 int int | Open int string open_mode

text \<open>What is handed to one call of \<open>posix_spawnp\<close>.\<close>

record request =
  r_argv :: "string list"
  r_tcsetpgroup :: bool
  r_tty :: "int option"
  r_pgroup :: int
  r_actions :: "file_action list"

record shell = terminal +
  job_at :: "nat \<Rightarrow> job option"
  fresh :: nat
  job_list :: "nat list"
  jid2job :: "int \<Rightarrow> nat option"
  printed :: string
  history :: "string list"
  killed :: "(int \<times> int) list"
  requests :: "request list"
  closed :: "int list"
  prompt_data :: "(string \<times> string \<times> string) option"

type_synonym report = "int \<times> wait_status"

definition MAXJOBS :: int where "MAXJOBS = 2 ^ 16"

definition print_out :: "string \<Rightarrow> shell \<Rightarrow> shell" where
  "print_out t s = s\<lparr>printed := printed s @ t\<rparr>"

definition upd_job :: "nat \<Rightarrow> (job \<Rightarrow> job) \<Rightarrow> shell \<Rightarrow> shell" where
  "upd_job a f s = s\<lparr>job_at := (job_at s)(a := map_option f (job_at s a))\<rparr>"

subsection \<open>The prompt\<close>

text \<open>
  The host name up to the first dot, the last component of the directory, and the text formatted into
  an array of 100 characters under the bound of 300.
\<close>

definition basename :: "string \<Rightarrow> string" where
  "basename p = rev (takeWhile (\<lambda>c. c \<noteq> CHR ''/'') (rev p))"

definition build_prompt :: "string \<Rightarrow> string \<Rightarrow> string \<Rightarrow> string option" where
  "build_prompt username host_name directory = do {
     assert_c (length host_name < 100 \<and> length directory < 100);
     let system_name = takeWhile (\<lambda>c. c \<noteq> CHR ''.'') host_name;
     let prompt = ''<'' @ username @ ''@'' @ system_name @ '' '' @ basename directory @ ''>$ '';
     assert_c (min (length prompt) 299 < 100);
     Some prompt
   }"

subsection \<open>The jobs\<close>

definition get_job_from_jid :: "shell \<Rightarrow> int \<Rightarrow> nat option" where
  "get_job_from_jid s n = (if n > 0 \<and> n < MAXJOBS then jid2job s n else None)"

function free_jid :: "(int \<Rightarrow> nat option) \<Rightarrow> int \<Rightarrow> int option" where
  "free_jid tab i = (if i \<ge> MAXJOBS then None else if tab i = None then Some i else free_jid tab (i + 1))"
  by pat_completeness auto
termination by (relation "measure (\<lambda>(tab, i). nat (MAXJOBS - i))") (auto simp: MAXJOBS_def)

declare free_jid.simps [simp del]

text \<open>The status is written by the caller before it is read.\<close>

definition add_job :: "ast_pipeline \<Rightarrow> shell \<Rightarrow> (nat \<times> shell) option" where
  "add_job p s = do {
     let a = fresh s;
     let job = \<lparr>jid = 0, pipe = p, status = FOREGROUND, num_processes_alive = 0, saved_tty_state = None,
       pids = [], pgrp = None\<rparr>;
     let s = s\<lparr>fresh := a + 1, job_list := job_list s @ [a]\<rparr>;
     i \<leftarrow> free_jid (jid2job s) 1;
     Some (a, s\<lparr>jid2job := (jid2job s)(i := Some a), job_at := (job_at s)(a := Some (job\<lparr>jid := i\<rparr>))\<rparr>)
   }"

definition delete_job :: "nat \<Rightarrow> shell \<Rightarrow> shell option" where
  "delete_job a s = do {
     job \<leftarrow> job_at s a;
     assert_c (jid job \<noteq> - 1);
     assert_c (0 \<le> jid job \<and> jid job < MAXJOBS);
     b \<leftarrow> jid2job s (jid job);
     other \<leftarrow> job_at s b;
     let s = upd_job b (jid_update (\<lambda>_. - 1)) s;
     Some (s\<lparr>jid2job := (jid2job s)(jid job := None), job_at := (job_at s)(a := None)\<rparr>)
   }"

fun to_delete_job :: "job \<Rightarrow> bool" where
  "to_delete_job j = (case status j of EXITED \<Rightarrow> True | TERMINATED \<Rightarrow> True | KILLED \<Rightarrow> True | FPE \<Rightarrow> True
     | SEGV \<Rightarrow> True | ABRT \<Rightarrow> True | DNE \<Rightarrow> True | _ \<Rightarrow> False)"

fun delete_finished_loop :: "nat list \<Rightarrow> shell \<Rightarrow> shell option" where
  "delete_finished_loop [] s = Some s"
| "delete_finished_loop (a # as) s = do {
     curr \<leftarrow> job_at s a;
     if to_delete_job curr then do {
       s \<leftarrow> delete_job a (s\<lparr>job_list := remove1 a (job_list s)\<rparr>);
       delete_finished_loop as s
     } else delete_finished_loop as s
   }"

definition delete_all_finished_jobs :: "shell \<Rightarrow> shell option" where
  "delete_all_finished_jobs s = delete_finished_loop (job_list s) s"

fun get_status :: "job_status \<Rightarrow> string" where
  "get_status FOREGROUND = ''Foreground''"
| "get_status BACKGROUND = ''Running''"
| "get_status STOPPED = ''Stopped''"
| "get_status NEEDSTERMINAL = ''Stopped (tty)''"
| "get_status EXITED = ''Exited''"
| "get_status TERMINATED = ''Terminated''"
| "get_status KILLED = ''Killed''"
| "get_status FPE = ''Floating Point Exception''"
| "get_status SEGV = ''Segmentation Fault''"
| "get_status ABRT = ''Aborted''"
| "get_status DNE = ''Unknown''"

fun words :: "string list \<Rightarrow> string" where
  "words [] = []"
| "words (w # ws) = w @ concat (map (\<lambda>v. '' '' @ v) ws)"

fun print_cmdline :: "ast_command list \<Rightarrow> string" where
  "print_cmdline [] = []"
| "print_cmdline (c # cs) = words (argv c) @ concat (map (\<lambda>d. ''| '' @ words (argv d)) cs)"

definition print_job :: "job \<Rightarrow> string" where
  "print_job j = ''['' @ show_int (jid j) @ '']'' @ TAB @ get_status (status j) @ TAB @ TAB @ ''('' @
     print_cmdline (commands (pipe j)) @ '')'' @ NL"

definition print_job_at :: "nat \<Rightarrow> shell \<Rightarrow> shell option" where
  "print_job_at a s = do { j \<leftarrow> job_at s a; Some (print_out (print_job j) s) }"

subsection \<open>Reports on children\<close>

fun pid_among :: "int \<Rightarrow> int option list \<Rightarrow> bool option" where
  "pid_among p [] = Some False"
| "pid_among p (None # ps) = None"
| "pid_among p (Some q # ps) = (if q = p then Some True else pid_among p ps)"

fun job_of_pid :: "shell \<Rightarrow> int \<Rightarrow> nat list \<Rightarrow> nat option option" where
  "job_of_pid s p [] = Some None"
| "job_of_pid s p (a # as) = do {
     j \<leftarrow> job_at s a;
     found \<leftarrow> pid_among p (pids j);
     if found then Some (Some a) else job_of_pid s p as
   }"

definition get_job_from_pid :: "shell \<Rightarrow> int \<Rightarrow> nat option option" where
  "get_job_from_pid s p = job_of_pid s p (job_list s)"

definition stopped_child :: "nat \<Rightarrow> int \<Rightarrow> shell \<Rightarrow> (int + shell) option" where
  "stopped_child a sig s =
     (let s = upd_job a (status_update (\<lambda>_. STOPPED)) s
      in andthen (termstate_save s) (\<lambda>t.
           let s = upd_job a (saved_tty_state_update (\<lambda>_. Some t)) s
           in if sig = SIGTSTP then do { s \<leftarrow> print_job_at a s; Some (Inr s) }
              else if sig = SIGSTOP then Some (Inr s)
              else if sig = SIGTTOU \<or> sig = SIGTTIN
                then Some (Inr (upd_job a (status_update (\<lambda>_. NEEDSTERMINAL)) s))
              else Some (Inr s)))"

definition exited_child :: "nat \<Rightarrow> shell \<Rightarrow> (int + shell) option" where
  "exited_child a s = do {
     j \<leftarrow> job_at s a;
     andthen (if status j = FOREGROUND then termstate_sample s else Some (Inr s)) (\<lambda>s.
       let s = upd_job a (num_processes_alive_update (\<lambda>n. n - 1)) s
       in Some (Inr (if num_processes_alive j - 1 = 0 then upd_job a (status_update (\<lambda>_. EXITED)) s else s)))
   }"

definition signaled_child :: "nat \<Rightarrow> int \<Rightarrow> shell \<Rightarrow> (int + shell) option" where
  "signaled_child a sig s =
     (let s = upd_job a (num_processes_alive_update (\<lambda>n. n - 1)) (upd_job a (status_update (\<lambda>_. TERMINATED)) s);
          printed_as = (\<lambda>st. do { s \<leftarrow> print_job_at a (upd_job a (status_update (\<lambda>_. st)) s); Some (Inr s) })
      in if sig = SIGTERM then do { s \<leftarrow> print_job_at a s; Some (Inr s) }
         else if sig = SIGKILL then printed_as KILLED
         else if sig = SIGFPE then printed_as FPE
         else if sig = SIGSEGV then printed_as SEGV
         else if sig = SIGABRT then printed_as ABRT
         else Some (Inr s))"

definition handle_child_status :: "int \<Rightarrow> wait_status \<Rightarrow> shell \<Rightarrow> (int + shell) option" where
  "handle_child_status p st s = do {
     assert_c (signal_is_blocked SIGCHLD s);
     curr \<leftarrow> get_job_from_pid s p;
     (case curr of
        None \<Rightarrow> Some (Inr s)
      | Some a \<Rightarrow>
          (case st of
             Stopped_by sig \<Rightarrow> stopped_child a sig s
           | Exited_with code \<Rightarrow> exited_child a s
           | Signaled_by sig \<Rightarrow> signaled_child a sig s))
   }"

fun handle_reports :: "report list \<Rightarrow> shell \<Rightarrow> (int + shell) option" where
  "handle_reports [] s = Some (Inr s)"
| "handle_reports ((p, st) # rs) s = andthen (handle_child_status p st s) (handle_reports rs)"

text \<open>The signal is blocked while its handler runs; it cannot run while the signal is blocked.\<close>

definition sigchld_handler :: "report list \<Rightarrow> shell \<Rightarrow> (int + shell) option" where
  "sigchld_handler rs s = do {
     assert_c (\<not> mask s SIGCHLD \<and> caught s SIGCHLD);
     andthen (handle_reports rs (s\<lparr>mask := (mask s)(SIGCHLD := True)\<rparr>))
       (\<lambda>s. Some (Inr (s\<lparr>mask := (mask s)(SIGCHLD := False)\<rparr>)))
   }"

text \<open>The handler runs when there is something to report.\<close>

definition run_handler :: "report list \<Rightarrow> shell \<Rightarrow> (int + shell) option" where
  "run_handler rs s = (if rs = [] then Some (Inr s) else sigchld_handler rs s)"

text \<open>
  The reports are those \<open>waitpid\<close> will deliver; when there are no more it fails for lack of children.
\<close>

fun wait_loop :: "nat \<Rightarrow> report list \<Rightarrow> shell \<Rightarrow> (int + report list \<times> shell) option" where
  "wait_loop a rs s = do {
     j \<leftarrow> job_at s a;
     if status j = FOREGROUND \<and> num_processes_alive j > 0
     then (case rs of
             [] \<Rightarrow> utils_fatal_error
           | (child, st) # rs' \<Rightarrow> andthen (handle_child_status child st s) (wait_loop a rs'))
     else Some (Inr (rs, s))
   }"

declare wait_loop.simps [simp del]

definition wait_for_job :: "nat \<Rightarrow> report list \<Rightarrow> shell \<Rightarrow> (int + report list \<times> shell) option" where
  "wait_for_job a rs s = do { assert_c (signal_is_blocked SIGCHLD s); wait_loop a rs s }"

text \<open>
  Blocking the signal, waiting and unblocking it, as the callers do; what is left is reported by the
  handler as soon as the signal is unblocked.
\<close>

definition wait_blocked :: "nat \<Rightarrow> report list \<Rightarrow> shell \<Rightarrow> (int + shell) option" where
  "wait_blocked a rs s =
     andthen (wait_for_job a rs (snd (signal_block SIGCHLD s)))
       (\<lambda>(rs, s). run_handler rs (snd (signal_unblock SIGCHLD s)))"

subsection \<open>Builtin commands\<close>

text \<open>
  What the world answers while one pipeline is handled: whether \<open>tcsetpgrp\<close> and \<open>killpg\<close> succeed for
  its job, the pipes that \<open>pipe2\<close> opens, for each command the process \<open>posix_spawnp\<close> starts and the
  reports the handler gets before and after the process is recorded, and the reports while waiting.
\<close>

record spawned =
  sp_pid :: "int option"
  sp_early :: "report list"
  sp_late :: "report list"

record answers =
  tcsetpgrp_ok :: bool
  killpg_ok :: bool
  pipe_fds :: "(int \<times> int) option list"
  spawns :: "spawned list"
  waits :: "report list"

text \<open>The job whose number is the first argument.\<close>

definition job_of_arg :: "string list \<Rightarrow> shell \<Rightarrow> (nat \<times> job) option" where
  "job_of_arg args s =
     (if length args < 2 then None
      else do { n \<leftarrow> atoi_c (args ! 1); a \<leftarrow> get_job_from_jid s n; j \<leftarrow> job_at s a; Some (a, j) })"

definition killpg :: "int \<Rightarrow> int \<Rightarrow> shell \<Rightarrow> shell" where
  "killpg pg sig s = s\<lparr>killed := killed s @ [(pg, sig)]\<rparr>"

definition do_fg :: "answers \<Rightarrow> string list \<Rightarrow> shell \<Rightarrow> (int + shell) option" where
  "do_fg w args s = do {
     (a, j) \<leftarrow> job_of_arg args s;
     t \<leftarrow> saved_tty_state j;
     pg \<leftarrow> pgrp j;
     andthen (termstate_give_terminal_to (tcsetpgrp_ok w) (Some t) pg s) (\<lambda>s.
       let s = killpg pg SIGCONT s
       in if killpg_ok w then
            let s = print_out (print_cmdline (commands (pipe j)) @ NL) s;
                s = upd_job a (status_update (\<lambda>_. FOREGROUND)) s
            in wait_blocked a (waits w) s
          else Some (Inr s))
   }"

definition do_bg :: "answers \<Rightarrow> string list \<Rightarrow> shell \<Rightarrow> (int + shell) option" where
  "do_bg w args s = do {
     (a, j) \<leftarrow> job_of_arg args s;
     let s = upd_job a (status_update (\<lambda>_. BACKGROUND)) s;
     pg \<leftarrow> pgrp j;
     let s = killpg pg SIGCONT s;
     if killpg_ok w then do { s \<leftarrow> print_job_at a s; Some (Inr s) } else Some (Inr s)
   }"

fun print_jobs :: "nat list \<Rightarrow> shell \<Rightarrow> shell option" where
  "print_jobs [] s = Some s"
| "print_jobs (a # as) s = do { s \<leftarrow> print_job_at a s; print_jobs as s }"

definition do_jobs :: "shell \<Rightarrow> (int + shell) option" where
  "do_jobs s = do { s \<leftarrow> print_jobs (job_list s) s; Some (Inr s) }"

definition do_stop :: "answers \<Rightarrow> string list \<Rightarrow> shell \<Rightarrow> (int + shell) option" where
  "do_stop w args s = do {
     (a, j) \<leftarrow> job_of_arg args s;
     pg \<leftarrow> pgrp j;
     let s = killpg pg SIGSTOP s;
     Some (Inr (if killpg_ok w then upd_job a (status_update (\<lambda>_. STOPPED)) s else s))
   }"

definition do_kill :: "answers \<Rightarrow> string list \<Rightarrow> shell \<Rightarrow> (int + shell) option" where
  "do_kill w args s = do {
     (a, j) \<leftarrow> job_of_arg args s;
     pg \<leftarrow> pgrp j;
     let s = killpg pg SIGKILL s;
     Some (Inr (if killpg_ok w then upd_job a (status_update (\<lambda>_. KILLED)) s else s))
   }"

definition do_exit :: "shell \<Rightarrow> (int + shell) option" where
  "do_exit s = Some (Inl 0)"

fun numbered_lines :: "nat \<Rightarrow> string list \<Rightarrow> string" where
  "numbered_lines n [] = []"
| "numbered_lines n (l # ls) = TAB @ show_nat n @ '' '' @ l @ NL @ numbered_lines (Suc n) ls"

definition do_history :: "shell \<Rightarrow> (int + shell) option" where
  "do_history s = Some (Inr (print_out (numbered_lines 1 (history s)) s))"

definition builtins :: "string list" where
  "builtins = [''jobs'', ''fg'', ''bg'', ''kill'', ''exit'', ''stop'', ''history'']"

definition is_builtin :: "ast_command \<Rightarrow> bool" where
  "is_builtin c = list_ex (\<lambda>b. hd (argv c) = b) builtins"

definition handle_builtin :: "answers \<Rightarrow> ast_command \<Rightarrow> shell \<Rightarrow> (int + shell) option" where
  "handle_builtin w c s =
     (if hd (argv c) = ''fg'' then do_fg w (argv c) s
      else if hd (argv c) = ''bg'' then do_bg w (argv c) s
      else if hd (argv c) = ''jobs'' then do_jobs s
      else if hd (argv c) = ''stop'' then do_stop w (argv c) s
      else if hd (argv c) = ''kill'' then do_kill w (argv c) s
      else if hd (argv c) = ''exit'' then do_exit s
      else if hd (argv c) = ''history'' then do_history s
      else Some (Inr s))"

subsection \<open>Starting a job\<close>

text \<open>The array of descriptors; a pipe that could not be opened leaves its two places unwritten.\<close>

fun open_pipelines :: "nat \<Rightarrow> (int \<times> int) option list \<Rightarrow> int option list option" where
  "open_pipelines 0 fds = Some []"
| "open_pipelines (Suc n) [] = None"
| "open_pipelines (Suc n) (Some (r, w) # fds) = do { ps \<leftarrow> open_pipelines n fds; Some (Some r # Some w # ps) }"
| "open_pipelines (Suc n) (None # fds) = do { ps \<leftarrow> open_pipelines n fds; Some (None # None # ps) }"

fun close_pipelines :: "int option list \<Rightarrow> shell \<Rightarrow> shell option" where
  "close_pipelines [] s = Some s"
| "close_pipelines (p # ps) s = do { fd \<leftarrow> p; close_pipelines ps (s\<lparr>closed := closed s @ [fd]\<rparr>) }"

definition pipe_end :: "int option list \<Rightarrow> int \<Rightarrow> int option" where
  "pipe_end pl i = (if 0 \<le> i \<and> i < int (length pl) then pl ! nat i else None)"

definition STDIN_FILENO :: int where "STDIN_FILENO = 0"
definition STDOUT_FILENO :: int where "STDOUT_FILENO = 1"
definition STDERR_FILENO :: int where "STDERR_FILENO = 2"

definition connect_pipeline :: "int \<Rightarrow> int option list \<Rightarrow> bool \<Rightarrow> bool \<Rightarrow> file_action list option" where
  "connect_pipeline i pl front back =
     (if front then do { w \<leftarrow> pipe_end pl (i + 1); Some [Dup2 w STDOUT_FILENO] }
      else if \<not> front \<and> \<not> back then do {
        r \<leftarrow> pipe_end pl (i - 2);
        w \<leftarrow> pipe_end pl (i + 1);
        Some [Dup2 r STDIN_FILENO, Dup2 w STDOUT_FILENO]
      }
      else if back then do { r \<leftarrow> pipe_end pl (i - 2); Some [Dup2 r STDIN_FILENO] }
      else Some [])"

definition redirections :: "ast_pipeline \<Rightarrow> ast_command \<Rightarrow> bool \<Rightarrow> bool \<Rightarrow> file_action list" where
  "redirections p c front back =
     (case iored_input p of Some f \<Rightarrow> if front then [Open STDIN_FILENO f For_reading] else [] | None \<Rightarrow> []) @
     (case iored_output p of
        Some f \<Rightarrow> if back then [Open STDOUT_FILENO f (if append_to_output p then Appending else Truncating)] else []
      | None \<Rightarrow> []) @
     (if dup_stderr_to_stdout c then [Dup2 STDOUT_FILENO STDERR_FILENO] else [])"

text \<open>What one call of \<open>posix_spawnp\<close> is handed, then the call and the record of the process.\<close>

definition spawn_request ::
    "ast_pipeline \<Rightarrow> nat \<Rightarrow> int option list \<Rightarrow> int \<Rightarrow> ast_command \<Rightarrow> bool \<Rightarrow> bool \<Rightarrow> shell \<Rightarrow> request option" where
  "spawn_request p a pl i c front back s = do {
     job \<leftarrow> job_at s a;
     let fg = (status job = FOREGROUND);
     fd \<leftarrow> (if front \<and> fg then do { fd \<leftarrow> termstate_get_tty_fd s; Some (Some fd) } else Some None);
     pg \<leftarrow> (if front then Some 0 else pgrp job);
     joined \<leftarrow> (if pl \<noteq> [] then connect_pipeline i pl front back else Some []);
     Some \<lparr>r_argv = argv c, r_tcsetpgroup = fg, r_tty = fd, r_pgroup = pg,
       r_actions = joined @ redirections p c front back\<rparr>
   }"

definition after_spawn :: "nat \<Rightarrow> bool \<Rightarrow> spawned \<Rightarrow> shell \<Rightarrow> shell" where
  "after_spawn a front out s =
     (case sp_pid out of
        Some pid \<Rightarrow> if front then upd_job a (pgrp_update (\<lambda>_. Some pid)) s else s
      | None \<Rightarrow> upd_job a (status_update (\<lambda>_. DNE)) s)"

definition record_pid :: "nat \<Rightarrow> spawned \<Rightarrow> shell \<Rightarrow> shell" where
  "record_pid a out s =
     upd_job a (\<lambda>j. j\<lparr>pids := pids j @ [sp_pid out], num_processes_alive := num_processes_alive j + 1\<rparr>) s"

definition spawn_command ::
    "ast_pipeline \<Rightarrow> nat \<Rightarrow> int option list \<Rightarrow> int \<Rightarrow> ast_command \<Rightarrow> bool \<Rightarrow> bool \<Rightarrow> spawned \<Rightarrow> shell \<Rightarrow>
       (int + shell) option" where
  "spawn_command p a pl i c front back out s = do {
     r \<leftarrow> spawn_request p a pl i c front back s;
     let s = after_spawn a front out (s\<lparr>requests := requests s @ [r]\<rparr>);
     andthen (run_handler (sp_early out) s) (\<lambda>s. run_handler (sp_late out) (record_pid a out s))
   }"

fun spawn_commands ::
    "ast_pipeline \<Rightarrow> nat \<Rightarrow> int option list \<Rightarrow> int \<Rightarrow> bool \<Rightarrow> ast_command list \<Rightarrow> spawned list \<Rightarrow> shell \<Rightarrow>
       (int + shell) option" where
  "spawn_commands p a pl i front [] os s = Some (Inr s)"
| "spawn_commands p a pl i front (c # cs) [] s = None"
| "spawn_commands p a pl i front (c # cs) (out # os) s =
     andthen (spawn_command p a pl i c front (cs = []) out s) (spawn_commands p a pl (i + 2) False cs os)"

definition handle_job :: "answers \<Rightarrow> ast_pipeline \<Rightarrow> nat \<Rightarrow> shell \<Rightarrow> (int + shell) option" where
  "handle_job w p a s = do {
     pl \<leftarrow> open_pipelines (length (commands p) - 1) (pipe_fds w);
     andthen (spawn_commands p a pl 0 True (commands p) (spawns w) s)
       (\<lambda>s. do { s \<leftarrow> close_pipelines pl s; Some (Inr s) })
   }"

definition print_started :: "nat \<Rightarrow> shell \<Rightarrow> (int + shell) option" where
  "print_started a s = do {
     j \<leftarrow> job_at s a;
     pg \<leftarrow> pgrp j;
     Some (Inr (print_out (''['' @ show_int (jid j) @ ''] '' @ show_int pg @ NL) s))
   }"

definition handle_pipeline :: "answers \<Rightarrow> ast_pipeline \<Rightarrow> shell \<Rightarrow> (int + shell) option" where
  "handle_pipeline w p s =
     (if commands p = [] then None
      else if is_builtin (hd (commands p)) then handle_builtin w (hd (commands p)) s
      else do {
        (a, s) \<leftarrow> add_job p s;
        if bg_job p then
          andthen (termstate_save s) (\<lambda>t.
          andthen (handle_job w p a (upd_job a (\<lambda>j. j\<lparr>saved_tty_state := Some t, status := BACKGROUND\<rparr>) s))
            (print_started a))
        else
          andthen (handle_job w p a (upd_job a (status_update (\<lambda>_. FOREGROUND)) s))
            (wait_blocked a (waits w))
      })"

fun handle_command_line :: "(ast_pipeline \<times> answers) list \<Rightarrow> shell \<Rightarrow> (int + shell) option" where
  "handle_command_line [] s = Some (Inr s)"
| "handle_command_line ((p, w) # ps) s = andthen (handle_pipeline w p s) (handle_command_line ps)"

subsection \<open>The main loop\<close>

text \<open>
  What happens at the prompt: the signal handler runs, the input ends, the expansion of the line from
  the history fails, or a line (as expanded) is read; with the line comes what the world answers to each
  of its pipelines.
\<close>

datatype event =
    Sigchld "report list"
  | End_of_input
  | Not_expanded
  | Typed string "answers list"

definition ready :: "shell \<Rightarrow> (int + shell) option" where
  "ready s = do {
     assert_c (\<not> signal_is_blocked SIGCHLD s);
     andthen (termstate_get_current_terminal_owner s) (\<lambda>owner. do {
       assert_c (owner = shell_pgrp s);
       prompt \<leftarrow> (case prompt_data s of None \<Rightarrow> Some [] | Some (u, h, d) \<Rightarrow> build_prompt u h d);
       Some (Inr (print_out prompt s))
     })
   }"

definition run_line :: "(ast_pipeline \<times> answers) list \<Rightarrow> shell \<Rightarrow> (int + shell) option" where
  "run_line ps s =
     andthen (handle_command_line ps s) (\<lambda>s. do {
       s \<leftarrow> delete_all_finished_jobs s;
       termstate_give_terminal_back_to_shell s
     })"

definition main_step :: "event \<Rightarrow> shell \<Rightarrow> (int + shell) option" where
  "main_step e s =
     (case e of
        Sigchld rs \<Rightarrow> sigchld_handler rs s
      | End_of_input \<Rightarrow> Some (Inl 0)
      | Not_expanded \<Rightarrow> ready s
      | Typed line ws \<Rightarrow> do {
          cline \<leftarrow> ast_parse_command_line line;
          let s = s\<lparr>history := history s @ [line]\<rparr>;
          case cline of
            None \<Rightarrow> ready s
          | Some ps \<Rightarrow>
              if ps = [] then ready s
              else do {
                assert_c (length ws = length ps);
                andthen (run_line (zip ps ws) s) ready
              }
        })"

fun main_loop :: "event list \<Rightarrow> shell \<Rightarrow> (int + shell) option" where
  "main_loop [] s = Some (Inr s)"
| "main_loop (e # es) s = andthen (main_step e s) (main_loop es)"

definition start_shell :: "bool \<Rightarrow> int \<Rightarrow> int \<Rightarrow> (int \<Rightarrow> int) \<Rightarrow> int \<Rightarrow> nat \<Rightarrow> (string \<times> string \<times> string) option \<Rightarrow> (int + shell) option" where
  "start_shell ok fd flags setfd pg attr pd = do {
     let s = \<lparr>mask = (\<lambda>_. False), caught = (\<lambda>_. False), tty_attr = attr, tty_owner = pg, tty_ok = ok,
       terminal_fd = - 1, shell_tty_state = 0, shell_pgrp = 0, job_at = Map.empty, fresh = 0, job_list = [],
       jid2job = Map.empty, printed = [], history = [], killed = [], requests = [], closed = [], prompt_data = pd\<rparr>;
     s \<leftarrow> signal_set_handler SIGCHLD s;
     andthen (termstate_init fd flags setfd pg s) ready
   }"

end
