(* ===== verification/Shell_Inv.thy ===== *)
theory Shell_Inv
  imports Shell
begin

text \<open>
  The invariant of the shell's job list: the list and the table hold the same jobs, each under its own
  number, and every path from one prompt to the next keeps it.
\<close>

subsection \<open>Steps that keep the jobs in place\<close>

text \<open>Steps that change neither the list, the table nor a number of a job, nor the frame around them.\<close>

definition keeps :: "shell \<Rightarrow> shell \<Rightarrow> bool" where
  "keeps s s' \<longleftrightarrow> job_list s' = job_list s \<and> jid2job s' = jid2job s \<and> fresh s' = fresh s \<and>
     (\<forall>a. map_option jid (job_at s' a) = map_option jid (job_at s a)) \<and>
     mask s' SIGCHLD = mask s SIGCHLD \<and> caught s' = caught s \<and> shell_pgrp s' = shell_pgrp s \<and>
     terminal_fd s' = terminal_fd s \<and> tty_ok s' = tty_ok s \<and> prompt_data s' = prompt_data s"

definition jobs_ok :: "shell \<Rightarrow> bool" where
  "jobs_ok s \<longleftrightarrow> distinct (job_list s) \<and>
     (\<forall>a\<in>set (job_list s). a < fresh s \<and>
        (\<exists>j. job_at s a = Some j \<and> 1 \<le> jid j \<and> jid j < MAXJOBS \<and> jid2job s (jid j) = Some a)) \<and>
     (\<forall>i a. jid2job s i = Some a \<longrightarrow> a \<in> set (job_list s) \<and> (\<exists>j. job_at s a = Some j \<and> jid j = i))"

lemma keeps_refl [simp]: "keeps s s"
  by (simp add: keeps_def)

lemma keeps_trans: "keeps s t \<Longrightarrow> keeps t u \<Longrightarrow> keeps s u"
  by (simp add: keeps_def)

lemma keeps_sym: "keeps s t \<Longrightarrow> keeps t s"
  by (simp add: keeps_def)

lemma keeps_jobs_ok:
  assumes "keeps s s'" "jobs_ok s"
  shows "jobs_ok s'"
proof -
  have j: "\<exists>j'. job_at s' a = Some j' \<and> jid j' = jid j" if "job_at s a = Some j" for a j
    using assms(1) that by (auto simp: keeps_def dest!: spec [of _ a])
  have e: "job_list s' = job_list s" "jid2job s' = jid2job s" "fresh s' = fresh s"
    using assms(1) by (simp_all add: keeps_def)
  have "a < fresh s \<and> (\<exists>j. job_at s' a = Some j \<and> 1 \<le> jid j \<and> jid j < MAXJOBS \<and> jid2job s (jid j) = Some a)"
    if a: "a \<in> set (job_list s)" for a
  proof -
    obtain i where i: "job_at s a = Some i" "1 \<le> jid i" "jid i < MAXJOBS" "jid2job s (jid i) = Some a" "a < fresh s"
      using assms(2) a by (auto simp: jobs_ok_def)
    then show ?thesis using j [OF i(1)] by auto
  qed
  moreover have "a \<in> set (job_list s) \<and> (\<exists>j. job_at s' a = Some j \<and> jid j = i)" if "jid2job s i = Some a" for i a
    using assms(2) that j unfolding jobs_ok_def by blast
  ultimately show ?thesis using assms(2) unfolding jobs_ok_def e by blast
qed

lemma keeps_upd_job: "(\<And>j. jid (f j) = jid j) \<Longrightarrow> keeps s (upd_job a f s)"
  by (auto simp: keeps_def upd_job_def option.map_comp comp_def)

text \<open>The relation is an equivalence, so a step that keeps the jobs can be dropped on either side.\<close>

lemma keeps_upd_iff:
  assumes "\<And>j. jid (f j) = jid j"
  shows "keeps (upd_job a f s) s' \<longleftrightarrow> keeps s s'" "keeps s' (upd_job a f s) \<longleftrightarrow> keeps s' s"
  using keeps_upd_job [of f, OF assms] by (meson keeps_sym keeps_trans)+

lemma keeps_updates [simp]:
  "keeps (upd_job a (status_update f) s) s' \<longleftrightarrow> keeps s s'" "keeps s' (upd_job a (status_update f) s) \<longleftrightarrow> keeps s' s"
  "keeps (upd_job a (saved_tty_state_update f') s) s' \<longleftrightarrow> keeps s s'"
  "keeps s' (upd_job a (saved_tty_state_update f') s) \<longleftrightarrow> keeps s' s"
  "keeps (upd_job a (num_processes_alive_update g) s) s' \<longleftrightarrow> keeps s s'"
  "keeps s' (upd_job a (num_processes_alive_update g) s) \<longleftrightarrow> keeps s' s"
  "keeps (upd_job a (pgrp_update h) s) s' \<longleftrightarrow> keeps s s'" "keeps s' (upd_job a (pgrp_update h) s) \<longleftrightarrow> keeps s' s"
  "keeps (upd_job a (\<lambda>j. j\<lparr>pids := P j, num_processes_alive := N j\<rparr>) s) s' \<longleftrightarrow> keeps s s'"
  "keeps s' (upd_job a (\<lambda>j. j\<lparr>pids := P j, num_processes_alive := N j\<rparr>) s) \<longleftrightarrow> keeps s' s"
  "keeps (upd_job a (\<lambda>j. j\<lparr>saved_tty_state := T j, status := S j\<rparr>) s) s' \<longleftrightarrow> keeps s s'"
  "keeps s' (upd_job a (\<lambda>j. j\<lparr>saved_tty_state := T j, status := S j\<rparr>) s) \<longleftrightarrow> keeps s' s"
  by (simp_all add: keeps_upd_iff)

lemma keeps_fields [simp]:
  "keeps (s\<lparr>shell_tty_state := t\<rparr>) s' \<longleftrightarrow> keeps s s'" "keeps s' (s\<lparr>shell_tty_state := t\<rparr>) \<longleftrightarrow> keeps s' s"
  "keeps (s\<lparr>killed := k\<rparr>) s' \<longleftrightarrow> keeps s s'" "keeps s' (s\<lparr>killed := k\<rparr>) \<longleftrightarrow> keeps s' s"
  "keeps (s\<lparr>requests := r\<rparr>) s' \<longleftrightarrow> keeps s s'" "keeps s' (s\<lparr>requests := r\<rparr>) \<longleftrightarrow> keeps s' s"
  "keeps (s\<lparr>closed := c\<rparr>) s' \<longleftrightarrow> keeps s s'" "keeps s' (s\<lparr>closed := c\<rparr>) \<longleftrightarrow> keeps s' s"
  "keeps (s\<lparr>history := h\<rparr>) s' \<longleftrightarrow> keeps s s'" "keeps s' (s\<lparr>history := h\<rparr>) \<longleftrightarrow> keeps s' s"
  "keeps (print_out x s) s' \<longleftrightarrow> keeps s s'" "keeps s' (print_out x s) \<longleftrightarrow> keeps s' s"
  "keeps (killpg pg sig s) s' \<longleftrightarrow> keeps s s'" "keeps s' (killpg pg sig s) \<longleftrightarrow> keeps s' s"
  by (simp_all add: keeps_def print_out_def killpg_def)

lemma print_job_at_keeps: "print_job_at a s = Some s' \<Longrightarrow> keeps s s'"
  by (auto simp: print_job_at_def bind_eq_Some_conv)

lemma termstate_sample_keeps: "termstate_sample s = Some (Inr s') \<Longrightarrow> keeps s s'"
  by (auto simp: termstate_sample_def andthen_Inr)

lemma give_terminal_keeps:
  "termstate_give_terminal_to ok (Some a) pg s = Some (Inr s') \<Longrightarrow> keeps s s' \<and> tty_owner s' = pg"
  by (drule give_terminal_Inr(1)) (simp add: keeps_def signal_defs)

lemma stopped_child_keeps: "stopped_child a sig s = Some (Inr s') \<Longrightarrow> keeps s s'"
  unfolding stopped_child_def Let_def
  by (auto simp: andthen_Inr bind_eq_Some_conv split: if_splits dest!: print_job_at_keeps)

lemma exited_child_keeps: "exited_child a s = Some (Inr s') \<Longrightarrow> keeps s s'"
  unfolding exited_child_def Let_def
  by (auto simp: andthen_Inr bind_eq_Some_conv split: if_splits dest!: termstate_sample_keeps)

lemma signaled_child_keeps: "signaled_child a sig s = Some (Inr s') \<Longrightarrow> keeps s s'"
  unfolding signaled_child_def Let_def
  by (auto simp: andthen_Inr bind_eq_Some_conv split: if_splits dest!: print_job_at_keeps)

lemma handle_child_status_keeps: "handle_child_status p st s = Some (Inr s') \<Longrightarrow> keeps s s'"
  unfolding handle_child_status_def
  by (cases st; cases "get_job_from_pid s p"; cases "the (get_job_from_pid s p)")
    (auto simp: bind_eq_Some_conv dest: stopped_child_keeps exited_child_keeps signaled_child_keeps)

lemma handle_reports_keeps: "handle_reports rs s = Some (Inr s') \<Longrightarrow> keeps s s'"
  by (induction rs s rule: handle_reports.induct)
    (auto simp: andthen_Inr dest: handle_child_status_keeps intro: keeps_trans)

lemma sigchld_handler_keeps:
  assumes "sigchld_handler rs s = Some (Inr s')"
  shows "keeps s s'"
proof -
  obtain t where t: "\<not> mask s SIGCHLD" "handle_reports rs (s\<lparr>mask := (mask s)(SIGCHLD := True)\<rparr>) = Some (Inr t)"
    "s' = t\<lparr>mask := (mask t)(SIGCHLD := False)\<rparr>"
    using assms by (auto simp: sigchld_handler_def andthen_Inr bind_eq_Some_conv)
  show ?thesis using handle_reports_keeps [OF t(2)] t(1,3) by (simp add: keeps_def)
qed

lemma wait_loop_keeps: "wait_loop a rs s = Some (Inr (rs', s')) \<Longrightarrow> keeps s s'"
proof (induction rs arbitrary: s)
  case Nil
  then show ?case by (auto simp: wait_loop.simps [of a "[]"] bind_eq_Some_conv split: if_splits)
next
  case (Cons r rs)
  then show ?case
    by (cases r)
      (auto simp: wait_loop.simps [of a "_ # _"] bind_eq_Some_conv andthen_Inr split: if_splits
        dest!: handle_child_status_keeps intro: keeps_trans)
qed

lemma run_handler_keeps: "run_handler rs s = Some (Inr s') \<Longrightarrow> keeps s s'"
  by (auto simp: run_handler_def split: if_splits dest: sigchld_handler_keeps)

lemma wait_blocked_keeps:
  assumes "wait_blocked a rs s = Some (Inr s')" "\<not> mask s SIGCHLD"
  shows "keeps s s'"
proof -
  let ?b = "s\<lparr>mask := (mask s)(SIGCHLD := True)\<rparr>"
  obtain rs' t where t: "wait_loop a rs ?b = Some (Inr (rs', t))"
    "run_handler rs' (t\<lparr>mask := (mask t)(SIGCHLD := False)\<rparr>) = Some (Inr s')"
    using assms(1) by (auto simp: wait_blocked_def wait_for_job_def andthen_Inr split: prod.splits)
  have "keeps s (t\<lparr>mask := (mask t)(SIGCHLD := False)\<rparr>)"
    using wait_loop_keeps [OF t(1)] assms(2) by (simp add: keeps_def)
  then show ?thesis using run_handler_keeps [OF t(2)] keeps_trans by blast
qed

subsection \<open>Builtin commands and new jobs\<close>

lemma print_jobs_keeps: "print_jobs as s = Some s' \<Longrightarrow> keeps s s'"
  by (induction as s rule: print_jobs.induct)
    (auto simp: bind_eq_Some_conv dest: print_job_at_keeps intro: keeps_trans)

lemma keeps_mask: "keeps s s' \<Longrightarrow> mask s' SIGCHLD = mask s SIGCHLD"
  by (simp add: keeps_def)

lemma do_fg_keeps:
  assumes "do_fg w args s = Some (Inr s')" "\<not> mask s SIGCHLD"
  shows "keeps s s'"
proof -
  obtain a j t pg s1 where o: "job_of_arg args s = Some (a, j)" "saved_tty_state j = Some t" "pgrp j = Some pg"
    "termstate_give_terminal_to (tcsetpgrp_ok w) (Some t) pg s = Some (Inr s1)"
    "(let s = killpg pg SIGCONT s1
       in if killpg_ok w then
            let s = print_out (print_cmdline (commands (pipe j)) @ NL) s;
                s = upd_job a (status_update (\<lambda>_. FOREGROUND)) s
            in wait_blocked a (waits w) s
          else Some (Inr s)) = Some (Inr s')"
    using assms(1) by (auto simp: do_fg_def bind_eq_Some_conv andthen_Inr split: prod.splits)
  let ?s2 = "upd_job a (status_update (\<lambda>_. FOREGROUND)) (print_out (print_cmdline (commands (pipe j)) @ NL) (killpg pg SIGCONT s1))"
  have k: "keeps s (killpg pg SIGCONT s1)" "keeps s ?s2"
    using give_terminal_keeps [OF o(4)] by simp_all
  show ?thesis
  proof (cases "killpg_ok w")
    case True
    then have "wait_blocked a (waits w) ?s2 = Some (Inr s')" using o(5) by (simp add: Let_def)
    then show ?thesis using wait_blocked_keeps k(2) keeps_mask [OF k(2)] assms(2) keeps_trans by blast
  next
    case False
    then show ?thesis using o(5) k(1) by (simp add: Let_def)
  qed
qed

lemma do_bg_keeps: "do_bg w args s = Some (Inr s') \<Longrightarrow> keeps s s'"
  unfolding do_bg_def Let_def
  by (auto simp: bind_eq_Some_conv split: prod.splits if_splits dest!: print_job_at_keeps)

lemma do_stop_keeps: "do_stop w args s = Some (Inr s') \<Longrightarrow> keeps s s'"
  unfolding do_stop_def Let_def
  by (auto simp: bind_eq_Some_conv split: prod.splits )

lemma do_kill_keeps: "do_kill w args s = Some (Inr s') \<Longrightarrow> keeps s s'"
  unfolding do_kill_def Let_def
  by (auto simp: bind_eq_Some_conv split: prod.splits )

lemma handle_builtin_keeps: "handle_builtin w c s = Some (Inr s') \<Longrightarrow> \<not> mask s SIGCHLD \<Longrightarrow> keeps s s'"
  unfolding handle_builtin_def
  by (auto simp: do_jobs_def do_exit_def do_history_def bind_eq_Some_conv split: if_splits
      dest: do_fg_keeps do_bg_keeps do_stop_keeps do_kill_keeps print_jobs_keeps)

lemma close_pipelines_keeps: "close_pipelines pl s = Some s' \<Longrightarrow> keeps s s'"
  by (induction pl s rule: close_pipelines.induct) (auto simp: bind_eq_Some_conv intro: keeps_trans)

lemma keeps_spawned [simp]:
  "keeps s' (after_spawn a front out s) \<longleftrightarrow> keeps s' s" "keeps (after_spawn a front out s) s' \<longleftrightarrow> keeps s s'"
  "keeps s' (record_pid a out s) \<longleftrightarrow> keeps s' s" "keeps (record_pid a out s) s' \<longleftrightarrow> keeps s s'"
  by (simp_all add: after_spawn_def record_pid_def split: option.split)

lemma spawn_command_keeps:
  assumes "spawn_command p a pl i c front back out s = Some (Inr s')"
  shows "keeps s s'"
proof -
  obtain r s2 where o: "run_handler (sp_early out) (after_spawn a front out (s\<lparr>requests := requests s @ [r]\<rparr>)) = Some (Inr s2)"
    "run_handler (sp_late out) (record_pid a out s2) = Some (Inr s')"
    using assms by (auto simp: spawn_command_def bind_eq_Some_conv andthen_Inr)
  show ?thesis using run_handler_keeps [OF o(1)] run_handler_keeps [OF o(2)] by (auto intro: keeps_trans)
qed

lemma spawn_commands_keeps: "spawn_commands p a pl i front cs outs s = Some (Inr s') \<Longrightarrow> keeps s s'"
  by (induction p a pl i front cs outs s rule: spawn_commands.induct)
    (auto simp: andthen_Inr dest: spawn_command_keeps intro: keeps_trans)

lemma handle_job_keeps: "handle_job w p a s = Some (Inr s') \<Longrightarrow> keeps s s'"
  by (auto simp: handle_job_def bind_eq_Some_conv andthen_Inr dest!: spawn_commands_keeps close_pipelines_keeps
      intro: keeps_trans)

lemma free_jid_Some:
  "free_jid tab i = Some k \<Longrightarrow> i \<le> k \<and> k < MAXJOBS \<and> tab k = None \<and> (\<forall>m. i \<le> m \<and> m < k \<longrightarrow> tab m \<noteq> None)"
proof (induction tab i rule: free_jid.induct)
  case (1 tab i)
  show ?case
  proof (cases "i \<ge> MAXJOBS \<or> tab i = None")
    case True
    then show ?thesis using "1.prems" by (auto simp: free_jid.simps [of tab i] split: if_splits)
  next
    case False
    then have "free_jid tab (i + 1) = Some k" using "1.prems" by (auto simp: free_jid.simps [of tab i])
    then have "i + 1 \<le> k" "k < MAXJOBS" "tab k = None" "\<forall>m. i + 1 \<le> m \<and> m < k \<longrightarrow> tab m \<noteq> None"
      using "1.IH" False by auto
    moreover have "m = i \<or> i + 1 \<le> m" if "i \<le> m" for m using that by linarith
    ultimately show ?thesis using False by (metis add_le_imp_le_right zle_add1_eq_le zless_add1_eq)
  qed
qed

lemma free_jid_None: "free_jid tab i = None \<Longrightarrow> i \<le> m \<Longrightarrow> m < MAXJOBS \<Longrightarrow> tab m \<noteq> None"
proof (induction tab i rule: free_jid.induct)
  case (1 tab i)
  then have "i < MAXJOBS" "tab i \<noteq> None" by (auto simp: free_jid.simps [of tab i] split: if_splits)
  then show ?case using 1 by (cases "m = i") (auto simp: free_jid.simps [of tab i])
qed

lemma add_job_ok:
  assumes "add_job p s = Some (a, s')" "jobs_ok s"
  shows "jobs_ok s'" "a = fresh s" "job_list s' = job_list s @ [a]" "mask s' = mask s" "caught s' = caught s"
    "shell_pgrp s' = shell_pgrp s" "tty_ok s' = tty_ok s" "terminal_fd s' = terminal_fd s" "prompt_data s' = prompt_data s"
proof -
  let ?j = "\<lparr>jid = 0, pipe = p, status = FOREGROUND, num_processes_alive = 0, saved_tty_state = None, pids = [], pgrp = None\<rparr>"
  obtain i where i: "free_jid (jid2job s) 1 = Some i" "a = fresh s"
    "s' = s\<lparr>fresh := fresh s + 1, job_list := job_list s @ [a], jid2job := (jid2job s)(i := Some a),
       job_at := (job_at s)(a := Some (?j\<lparr>jid := i\<rparr>))\<rparr>"
    using assms(1) by (auto simp: add_job_def bind_eq_Some_conv Let_def)
  have free: "1 \<le> i" "i < MAXJOBS" "jid2job s i = None" using free_jid_Some [OF i(1)] by auto
  have new: "a \<notin> set (job_list s)" using assms(2) i(2) by (auto simp: jobs_ok_def)
  show "jobs_ok s'"
    unfolding jobs_ok_def
  proof (intro conjI ballI allI impI)
    show "distinct (job_list s')" using assms(2) new i(3) by (simp add: jobs_ok_def)
  next
    fix b assume "b \<in> set (job_list s')"
    then consider "b = a" | "b \<in> set (job_list s)" "b \<noteq> a" using i(3) by auto
    then show "b < fresh s'" "\<exists>j. job_at s' b = Some j \<and> 1 \<le> jid j \<and> jid j < MAXJOBS \<and> jid2job s' (jid j) = Some b"
      using assms(2) free i(2,3) unfolding jobs_ok_def by (cases; force)+
  next
    fix k b assume k: "jid2job s' k = Some b"
    show "b \<in> set (job_list s')" "\<exists>j. job_at s' b = Some j \<and> jid j = k"
      using k assms(2) free i(3) new unfolding jobs_ok_def by (cases "k = i"; force)+
  qed
qed (use assms(1) in \<open>auto simp: add_job_def bind_eq_Some_conv Let_def\<close>)

lemma delete_job_ok:
  assumes "jobs_ok s" "a \<in> set (job_list s)" "delete_job a (s\<lparr>job_list := remove1 a (job_list s)\<rparr>) = Some s'"
  shows "jobs_ok s' \<and> job_list s' = remove1 a (job_list s) \<and> (\<forall>b. b \<noteq> a \<longrightarrow> job_at s' b = job_at s b) \<and>
    terminal.truncate s' = terminal.truncate s \<and> prompt_data s' = prompt_data s"
proof -
  obtain j where j: "job_at s a = Some j" "1 \<le> jid j" "jid j < MAXJOBS" "jid2job s (jid j) = Some a"
    using assms(1,2) by (auto simp: jobs_ok_def)
  have s': "s' = s\<lparr>job_list := remove1 a (job_list s), jid2job := (jid2job s)(jid j := None), job_at := (job_at s)(a := None)\<rparr>"
    using assms(3) j by (simp add: delete_job_def upd_job_def bind_eq_Some_conv)
  have d: "distinct (job_list s)" using assms(1) by (simp add: jobs_ok_def)
  have "jobs_ok s'"
    unfolding jobs_ok_def
  proof (intro conjI ballI allI impI)
    show "distinct (job_list s')" using d s' by simp
  next
    fix b assume "b \<in> set (job_list s')"
    then have b: "b \<in> set (job_list s)" "b \<noteq> a" using d s' by auto
    then obtain i where i: "b < fresh s" "job_at s b = Some i" "1 \<le> jid i" "jid i < MAXJOBS" "jid2job s (jid i) = Some b"
      using assms(1) by (auto simp: jobs_ok_def)
    then have "jid i \<noteq> jid j" using b j by auto
    then show "b < fresh s'" "\<exists>j. job_at s' b = Some j \<and> 1 \<le> jid j \<and> jid j < MAXJOBS \<and> jid2job s' (jid j) = Some b"
      using i b s' by auto
  next
    fix k b assume "jid2job s' k = Some b"
    then have k: "jid2job s k = Some b" "k \<noteq> jid j" using s' by (auto split: if_splits)
    then obtain i where i: "b \<in> set (job_list s)" "job_at s b = Some i" "jid i = k"
      using assms(1) k(1) unfolding jobs_ok_def by blast
    then have "b \<noteq> a" using k j by auto
    then show "b \<in> set (job_list s')" "\<exists>j. job_at s' b = Some j \<and> jid j = k" using i d s' by auto
  qed
  then show ?thesis using s' by (simp add: terminal.truncate_def)
qed

lemma delete_finished_ok:
  assumes "delete_finished_loop as s = Some s'" "jobs_ok s" "distinct as" "set as \<subseteq> set (job_list s)"
  shows "jobs_ok s' \<and> terminal.truncate s' = terminal.truncate s \<and> prompt_data s' = prompt_data s \<and>
    job_list s' = filter (\<lambda>a. \<not> (a \<in> set as \<and> to_delete_job (the (job_at s a)))) (job_list s) \<and>
    (\<forall>a\<in>set (job_list s'). job_at s' a = job_at s a)"
  using assms
proof (induction as arbitrary: s)
  case Nil
  then show ?case by simp
next
  case (Cons a as)
  obtain curr where curr: "job_at s a = Some curr" using Cons.prems(1) by (auto simp: bind_eq_Some_conv)
  show ?case
  proof (cases "to_delete_job curr")
    case True
    then obtain t where t: "delete_job a (s\<lparr>job_list := remove1 a (job_list s)\<rparr>) = Some t" "delete_finished_loop as t = Some s'"
      using Cons.prems(1) curr by (auto simp: bind_eq_Some_conv simp del: to_delete_job.simps)
    have d: "jobs_ok t" "job_list t = remove1 a (job_list s)" "\<And>b. b \<noteq> a \<Longrightarrow> job_at t b = job_at s b"
      "terminal.truncate t = terminal.truncate s" "prompt_data t = prompt_data s"
      using delete_job_ok [OF Cons.prems(2) _ t(1)] Cons.prems(4) by auto
    have ds: "distinct (job_list s)" using Cons.prems(2) by (simp add: jobs_ok_def)
    have ih: "jobs_ok s' \<and> terminal.truncate s' = terminal.truncate t \<and> prompt_data s' = prompt_data t \<and>
        job_list s' = filter (\<lambda>b. \<not> (b \<in> set as \<and> to_delete_job (the (job_at t b)))) (job_list t) \<and>
        (\<forall>b\<in>set (job_list s'). job_at s' b = job_at t b)"
      using d(1,2) Cons.prems(3,4) ds by (intro Cons.IH [OF t(2)]) auto
    have e: "filter (\<lambda>b. \<not> (b \<in> set as \<and> to_delete_job (the (job_at t b)))) (job_list t) =
        filter (\<lambda>b. \<not> (b \<in> set (a # as) \<and> to_delete_job (the (job_at s b)))) (job_list s)"
    proof -
      have "(x \<noteq> a \<and> \<not> (x \<in> set as \<and> to_delete_job (the (job_at t x)))) =
          (\<not> (x \<in> set (a # as) \<and> to_delete_job (the (job_at s x))))" for x
        using True curr d(3) by (cases "x = a") (auto simp del: to_delete_job.simps)
      then show ?thesis
        unfolding d(2) distinct_remove1_removeAll [OF ds] removeAll_filter_not_eq filter_filter
        by (auto intro!: filter_cong simp del: to_delete_job.simps)
    qed
    have "b \<noteq> a" if "b \<in> set (job_list s')" for b
      using that ih d(2) ds by auto
    then have "\<forall>b\<in>set (job_list s'). job_at s' b = job_at s b" using ih d(3) by simp
    then show ?thesis using ih e d(4,5) by metis
  next
    case False
    then have "delete_finished_loop as s = Some s'" using Cons.prems(1) curr by (simp del: to_delete_job.simps)
    from Cons.IH [OF this] show ?thesis
      using Cons.prems False curr by (auto simp del: to_delete_job.simps intro!: filter_cong)
  qed
qed

subsection \<open>From prompt to prompt\<close>

lemma truncate_fields:
  "terminal.truncate s' = terminal.truncate s \<Longrightarrow> mask s' = mask s \<and> caught s' = caught s \<and> shell_pgrp s' = shell_pgrp s"
  by (simp add: terminal.truncate_def)

lemma handle_pipeline_ok:
  assumes "handle_pipeline w p s = Some (Inr s')" "jobs_ok s" "\<not> mask s SIGCHLD"
  shows "jobs_ok s' \<and> \<not> mask s' SIGCHLD \<and> caught s' = caught s \<and> shell_pgrp s' = shell_pgrp s"
proof (cases "is_builtin (hd (commands p))")
  case True
  then have "keeps s s'" using assms by (auto simp: handle_pipeline_def split: if_splits dest: handle_builtin_keeps)
  then show ?thesis using keeps_jobs_ok assms(2,3) by (auto simp: keeps_def)
next
  case False
  then obtain a t where a: "add_job p s = Some (a, t)"
    using assms(1) by (auto simp: handle_pipeline_def bind_eq_Some_conv split: if_splits)
  have t: "\<not> mask t SIGCHLD" using add_job_ok(4) [OF a assms(2)] assms(3) by simp
  have "keeps t s'"
  proof (cases "bg_job p")
    case True
    then show ?thesis
      using assms(1) False a
      by (auto simp: handle_pipeline_def andthen_Inr print_started_def bind_eq_Some_conv split: if_splits
          dest!: handle_job_keeps)
  next
    case fg: False
    then obtain u where u: "handle_job w p a (upd_job a (status_update (\<lambda>_. FOREGROUND)) t) = Some (Inr u)"
      "wait_blocked a (waits w) u = Some (Inr s')"
      using assms(1) False a by (auto simp: handle_pipeline_def andthen_Inr split: if_splits)
    have "keeps t u" using handle_job_keeps [OF u(1)] by simp
    then show ?thesis using wait_blocked_keeps [OF u(2)] keeps_mask t keeps_trans by blast
  qed
  then have "jobs_ok s'" "mask s' SIGCHLD = mask t SIGCHLD" "caught s' = caught t" "shell_pgrp s' = shell_pgrp t"
    using keeps_jobs_ok add_job_ok(1) [OF a assms(2)] by (blast, simp_all add: keeps_def)
  then show ?thesis using add_job_ok [OF a assms(2)] t by simp
qed

lemma handle_command_line_ok:
  "handle_command_line ps s = Some (Inr s') \<Longrightarrow> jobs_ok s \<Longrightarrow> \<not> mask s SIGCHLD \<Longrightarrow>
    jobs_ok s' \<and> \<not> mask s' SIGCHLD \<and> caught s' = caught s \<and> shell_pgrp s' = shell_pgrp s"
proof (induction ps s rule: handle_command_line.induct)
  case (2 p w ps s)
  then obtain t where t: "handle_pipeline w p s = Some (Inr t)" "handle_command_line ps t = Some (Inr s')"
    by (auto simp: andthen_Inr)
  then show ?case using "2.IH" [of t] handle_pipeline_ok [OF t(1) "2.prems"(2,3)] by auto
qed simp

lemma run_line_ok:
  assumes "run_line ps s = Some (Inr s')" "jobs_ok s" "\<not> mask s SIGCHLD"
  shows "jobs_ok s'" "\<not> mask s' SIGCHLD" "caught s' = caught s" "shell_pgrp s' = shell_pgrp s" "tty_owner s' = shell_pgrp s'"
    "\<forall>a\<in>set (job_list s'). \<not> to_delete_job (the (job_at s' a))"
proof -
  obtain t u where tu: "handle_command_line ps s = Some (Inr t)" "delete_finished_loop (job_list t) t = Some u"
    "termstate_give_terminal_back_to_shell u = Some (Inr s')"
    using assms(1) by (auto simp: run_line_def andthen_Inr bind_eq_Some_conv delete_all_finished_jobs_def)
  have t: "jobs_ok t" "\<not> mask t SIGCHLD" "caught t = caught s" "shell_pgrp t = shell_pgrp s"
    using handle_command_line_ok [OF tu(1) assms(2,3)] by auto
  have u: "jobs_ok u" "terminal.truncate u = terminal.truncate t"
    "job_list u = filter (\<lambda>a. \<not> to_delete_job (the (job_at t a))) (job_list t)"
    "\<forall>a\<in>set (job_list u). job_at u a = job_at t a"
    using delete_finished_ok [OF tu(2) t(1)] t(1) by (auto simp: jobs_ok_def simp del: to_delete_job.simps intro!: filter_cong)
  have s': "s' = u\<lparr>mask := (mask u)(SIGTTOU := False), tty_owner := shell_pgrp u, tty_attr := shell_tty_state u\<rparr>"
    using tu(3) give_terminal_Inr(1) by (auto simp: termstate_give_terminal_back_to_shell_def bind_eq_Some_conv)
  show "jobs_ok s'" using u(1) s' by (simp add: jobs_ok_def)
  show "\<not> mask s' SIGCHLD" "caught s' = caught s" "shell_pgrp s' = shell_pgrp s" "tty_owner s' = shell_pgrp s'"
    using t truncate_fields [OF u(2)] s' by auto
  show "\<forall>a\<in>set (job_list s'). \<not> to_delete_job (the (job_at s' a))"
    using u(3,4) s' by (auto simp del: to_delete_job.simps)
qed

text \<open>The states at the prompt: those after the start and after any event.\<close>

inductive shell_reach :: "shell \<Rightarrow> bool" where
  start: "start_shell ok fd flags setfd pg attr pd = Some (Inr s) \<Longrightarrow> shell_reach s"
| step: "shell_reach s \<Longrightarrow> main_step e s = Some (Inr s') \<Longrightarrow> shell_reach s'"

inductive_cases shell_reachE: "shell_reach s"

lemma upd_job_owner [simp]: "tty_owner (upd_job a f s) = tty_owner s" "tty_owner (print_out x s) = tty_owner s"
  "requests (upd_job a f s) = requests s" "requests (print_out x s) = requests s"
  by (simp_all add: upd_job_def print_out_def)

lemma print_job_owner: "print_job_at a s = Some s' \<Longrightarrow> tty_owner s' = tty_owner s \<and> requests s' = requests s"
  by (auto simp: print_job_at_def bind_eq_Some_conv)

lemma handle_child_status_owner: "handle_child_status p st s = Some (Inr s') \<Longrightarrow> tty_owner s' = tty_owner s \<and> requests s' = requests s"
  unfolding handle_child_status_def
  by (cases st; cases "get_job_from_pid s p"; cases "the (get_job_from_pid s p)")
    (auto simp: bind_eq_Some_conv andthen_Inr stopped_child_def exited_child_def signaled_child_def
      termstate_sample_def Let_def split: if_splits dest!: print_job_owner)

lemma handle_reports_owner: "handle_reports rs s = Some (Inr s') \<Longrightarrow> tty_owner s' = tty_owner s \<and> requests s' = requests s"
  by (induction rs s rule: handle_reports.induct) (auto simp: andthen_Inr dest: handle_child_status_owner)

lemma sigchld_handler_owner: "sigchld_handler rs s = Some (Inr s') \<Longrightarrow> tty_owner s' = tty_owner s \<and> requests s' = requests s"
  by (auto simp: sigchld_handler_def andthen_Inr bind_eq_Some_conv dest!: handle_reports_owner)

lemma ready_Inr: "ready s = Some (Inr s') \<Longrightarrow> \<not> mask s SIGCHLD \<and> tty_owner s = shell_pgrp s \<and> (\<exists>x. s' = print_out x s)"
  by (auto simp: ready_def andthen_Inr bind_eq_Some_conv termstate_get_current_terminal_owner_def split: if_splits)



end
