(* ===== verification/Shell_Spec.thy ===== *)
theory Shell_Spec
  imports Shell_Inv
begin

text \<open>
  The properties of the shell's jobs: waiting, the plumbing of a pipeline, and what goes wrong when a
  report comes too early or a signal ends one process of several.
\<close>

subsection \<open>Waiting for a job\<close>

text \<open>Every listed job is there, and all its processes have been started.\<close>

definition pids_ok :: "shell \<Rightarrow> bool" where
  "pids_ok s \<longleftrightarrow> (\<forall>a\<in>set (job_list s). \<exists>j. job_at s a = Some j \<and> None \<notin> set (pids j))"

definition same_pids :: "shell \<Rightarrow> shell \<Rightarrow> bool" where
  "same_pids s s' \<longleftrightarrow> job_list s' = job_list s \<and> mask s' = mask s \<and> tty_ok s' = tty_ok s \<and>
     (\<forall>a. map_option pids (job_at s' a) = map_option pids (job_at s a))"

lemma pid_among_Some: "None \<notin> set ps \<Longrightarrow> pid_among p ps = Some (Some p \<in> set ps)"
  by (induction p ps rule: pid_among.induct) auto

lemma job_of_pid_cong:
  assumes "\<And>a. map_option pids (job_at s' a) = map_option pids (job_at s a)"
  shows "job_of_pid s' p as = job_of_pid s p as"
proof (induction as)
  case (Cons a as)
  then show ?case using assms [of a] by (cases "job_at s a"; cases "job_at s' a"; cases "pid_among p (pids (the (job_at s a)))") auto
qed simp

lemma same_pids_job: "same_pids s s' \<Longrightarrow> get_job_from_pid s' p = get_job_from_pid s p"
  using job_of_pid_cong [of s' s] by (simp add: same_pids_def get_job_from_pid_def)

lemma same_pids_ok:
  assumes "same_pids s s'" "pids_ok s"
  shows "pids_ok s'"
  unfolding pids_ok_def
proof
  fix a assume "a \<in> set (job_list s')"
  then obtain j where j: "job_at s a = Some j" "None \<notin> set (pids j)"
    using assms by (auto simp: same_pids_def pids_ok_def)
  have "map_option pids (job_at s' a) = Some (pids j)" using assms(1) j(1) by (simp add: same_pids_def)
  then show "\<exists>j. job_at s' a = Some j \<and> None \<notin> set (pids j)" using j(2) by auto
qed

lemma job_of_pid_total:
  assumes "\<forall>a\<in>set as. \<exists>j. job_at s a = Some j \<and> None \<notin> set (pids j)"
  shows "\<exists>r. job_of_pid s p as = Some r \<and> (\<forall>a. r = Some a \<longrightarrow> a \<in> set as)"
  using assms
proof (induction as)
  case (Cons a as)
  then obtain j where "job_at s a = Some j" "None \<notin> set (pids j)" by auto
  then show ?case using Cons by (auto simp: pid_among_Some)
qed simp

lemma get_job_total: "pids_ok s \<Longrightarrow> \<exists>r. get_job_from_pid s p = Some r \<and> (\<forall>a. r = Some a \<longrightarrow> a \<in> set (job_list s))"
  using job_of_pid_total [of "job_list s" s p] by (simp add: pids_ok_def get_job_from_pid_def)

lemma upd_job_simps [simp]:
  "job_at (upd_job a f s) = (job_at s)(a := map_option f (job_at s a))" "job_list (upd_job a f s) = job_list s"
  "mask (upd_job a f s) = mask s" "tty_ok (upd_job a f s) = tty_ok s" "tty_attr (upd_job a f s) = tty_attr s"
  "job_at (print_out x s) = job_at s" "job_list (print_out x s) = job_list s" "mask (print_out x s) = mask s"
  "tty_ok (print_out x s) = tty_ok s"
  by (simp_all add: upd_job_def print_out_def)

text \<open>A report is always handled; it changes no other job and no job's processes.\<close>

lemma handle_child_status_total:
  assumes "mask s SIGCHLD" "tty_ok s" "pids_ok s"
  shows "\<exists>s'. handle_child_status p st s = Some (Inr s') \<and> same_pids s s' \<and>
    (\<forall>b. get_job_from_pid s p \<noteq> Some (Some b) \<longrightarrow> job_at s' b = job_at s b)"
proof -
  obtain r where r: "get_job_from_pid s p = Some r" "\<forall>a. r = Some a \<longrightarrow> a \<in> set (job_list s)"
    using get_job_total [OF assms(3)] by blast
  show ?thesis
  proof (cases r)
    case None
    then show ?thesis using assms r(1) by (auto simp: handle_child_status_def same_pids_def)
  next
    case (Some a)
    then obtain j where j: "job_at s a = Some j" using r(2) assms(3) by (auto simp: pids_ok_def)
    show ?thesis
      using assms(1,2) r(1) j Some
      by (cases st) (auto simp: handle_child_status_def stopped_child_def exited_child_def signaled_child_def
          termstate_save_def termstate_sample_def print_job_at_def same_pids_def Let_def)
  qed
qed

lemma exit_report:
  assumes "mask s SIGCHLD" "tty_ok s" "get_job_from_pid s p = Some (Some a)" "job_at s a = Some j"
  shows "\<exists>s' j'. handle_child_status p (Exited_with c) s = Some (Inr s') \<and> job_at s' a = Some j' \<and>
    num_processes_alive j' = num_processes_alive j - 1 \<and>
    status j' = (if num_processes_alive j = 1 then EXITED else status j)"
  using assms
  by (auto simp: handle_child_status_def exited_child_def termstate_sample_def termstate_save_def Let_def)

text \<open>
  C30: Waiting for a foreground job returns: when the reports to come contain one exit for each of its
  live processes, in any order and mixed with reports on other jobs, the job is recorded as exited
  with no process alive.
\<close>

theorem wait_for_job_returns:
  assumes "mask s SIGCHLD" "tty_ok s" "pids_ok s" "job_at s a = Some j" "status j = FOREGROUND"
    "num_processes_alive j = int (length (filter (\<lambda>r. get_job_from_pid s (fst r) = Some (Some a)) rs))"
    "0 < num_processes_alive j"
    "\<forall>(p, st)\<in>set rs. get_job_from_pid s p = Some (Some a) \<longrightarrow> (\<exists>c. st = Exited_with c)"
  shows "\<exists>rest s' j'. wait_for_job a rs s = Some (Inr (rest, s')) \<and> job_at s' a = Some j' \<and>
    status j' = EXITED \<and> num_processes_alive j' = 0"
proof -
  have "\<exists>rest s' j'. wait_loop a rs s = Some (Inr (rest, s')) \<and> job_at s' a = Some j' \<and>
      status j' = EXITED \<and> num_processes_alive j' = 0"
    using assms
  proof (induction rs arbitrary: s j)
    case Nil
    then show ?case by simp
  next
    case (Cons r rs)
    obtain p st where r: "r = (p, st)" by (cases r)
    obtain s' where s': "handle_child_status p st s = Some (Inr s')" "same_pids s s'"
      "\<forall>b. get_job_from_pid s p \<noteq> Some (Some b) \<longrightarrow> job_at s' b = job_at s b"
      using handle_child_status_total [OF Cons.prems(1-3)] by blast
    have step: "wait_loop a (r # rs) s = wait_loop a rs s'"
      using Cons.prems(4,5,7) s'(1) r by (simp add: wait_loop.simps [of a "_ # _"])
    have pre: "mask s' SIGCHLD" "tty_ok s'" "pids_ok s'" "\<And>q. get_job_from_pid s' q = get_job_from_pid s q"
      using s'(2) Cons.prems(1-3) same_pids_ok same_pids_job by (auto simp: same_pids_def)
    have rest: "\<forall>(p, st)\<in>set rs. get_job_from_pid s' p = Some (Some a) \<longrightarrow> (\<exists>c. st = Exited_with c)"
      using Cons.prems(8) pre(4) by auto
    show ?case
    proof (cases "get_job_from_pid s p = Some (Some a)")
      case True
      then obtain c where c: "st = Exited_with c" using Cons.prems(8) r by auto
      obtain j' where j': "job_at s' a = Some j'" "num_processes_alive j' = num_processes_alive j - 1"
        "status j' = (if num_processes_alive j = 1 then EXITED else status j)"
        using exit_report [OF Cons.prems(1,2) True Cons.prems(4), of c] s'(1) c by auto
      show ?thesis
      proof (cases "num_processes_alive j = 1")
        case True
        then show ?thesis using j' step by (cases rs) (auto simp: wait_loop.simps)
      next
        case False
        then show ?thesis
          using Cons.IH [OF pre(1-3) j'(1)] j'(2,3) Cons.prems(5-7) step rest pre(4) r True by simp
      qed
    next
      case False
      then have "job_at s' a = Some j" using s'(3) Cons.prems(4) by simp
      then show ?thesis using Cons.IH [OF pre(1-3)] Cons.prems(5-7) step rest pre(4) r False by simp
    qed
  qed
  then show ?thesis using assms(1) by (simp add: wait_for_job_def)
qed

text \<open>
  C31: When a signal ends one process of a foreground job, waiting stops at once although other
  processes of the job are alive, and the job counts as finished: the next clean-up deletes it.
\<close>

theorem signaled_job_given_up:
  assumes "mask s SIGCHLD" "get_job_from_pid s p = Some (Some a)" "job_at s a = Some j" "status j = FOREGROUND"
    "1 < num_processes_alive j"
  shows "\<exists>s' j'. wait_for_job a ((p, Signaled_by sig) # rs) s = Some (Inr (rs, s')) \<and> job_at s' a = Some j' \<and>
    0 < num_processes_alive j' \<and> to_delete_job j'"
  using assms
  by (auto simp: wait_for_job_def wait_loop.simps [of a "_ # _"] wait_loop.simps [of a rs] handle_child_status_def
      signaled_child_def print_job_at_def Let_def signal_defs)

text \<open>A shell that waits for a job of two processes.\<close>

definition sample_command :: "string \<Rightarrow> ast_command" where
  "sample_command w = \<lparr>argv = [w], dup_stderr_to_stdout = False\<rparr>"

definition sample_pipeline :: "string list \<Rightarrow> ast_pipeline" where
  "sample_pipeline ws = \<lparr>commands = map sample_command ws, iored_input = None, iored_output = None,
     append_to_output = False, bg_job = False\<rparr>"

definition sample_job :: job where
  "sample_job = \<lparr>jid = 1, pipe = sample_pipeline [''ls'', ''wc''], status = FOREGROUND, num_processes_alive = 2,
     saved_tty_state = None, pids = [Some 201, Some 202], pgrp = Some 201\<rparr>"

definition empty_shell :: shell where
  "empty_shell = \<lparr>mask = (\<lambda>_. False), caught = (\<lambda>g. g = SIGCHLD), tty_attr = 7, tty_owner = 100, tty_ok = True,
     terminal_fd = 3, shell_tty_state = 7, shell_pgrp = 100, job_at = Map.empty, fresh = 0, job_list = [],
     jid2job = Map.empty, printed = [], history = [], killed = [], requests = [], closed = [], prompt_data = None\<rparr>"

definition sample_shell :: shell where
  "sample_shell = empty_shell\<lparr>mask := (\<lambda>g. g = SIGCHLD), job_at := [5 \<mapsto> sample_job], fresh := 6, job_list := [5],
     jid2job := [1 \<mapsto> 5]\<rparr>"

lemmas sample_defs = sample_shell_def empty_shell_def sample_job_def sample_pipeline_def sample_command_def

lemma sample_shell_facts:
  "mask sample_shell SIGCHLD" "tty_ok sample_shell" "pids_ok sample_shell" "job_at sample_shell 5 = Some sample_job"
  "get_job_from_pid sample_shell 201 = Some (Some 5)" "get_job_from_pid sample_shell 202 = Some (Some 5)"
  "get_job_from_pid sample_shell 300 = Some None" "status sample_job = FOREGROUND" "num_processes_alive sample_job = 2"
  by (simp_all add: sample_defs pids_ok_def get_job_from_pid_def)

theorem wait_for_job_returns_witness:
  "\<exists>rest s' j'. wait_for_job 5 [(202, Exited_with 0), (300, Signaled_by 9), (201, Exited_with 1)] sample_shell = Some (Inr (rest, s')) \<and>
    job_at s' 5 = Some j' \<and> status j' = EXITED \<and> num_processes_alive j' = 0"
  using wait_for_job_returns [of sample_shell 5 sample_job "[(202, Exited_with 0), (300, Signaled_by 9), (201, Exited_with 1)]"]
  by (simp add: sample_shell_facts)

theorem signaled_job_given_up_witness:
  "\<exists>s' j'. wait_for_job 5 [(201, Signaled_by 15)] sample_shell = Some (Inr ([], s')) \<and> job_at s' 5 = Some j' \<and>
    0 < num_processes_alive j' \<and> to_delete_job j'"
  using signaled_job_given_up [of sample_shell 201 5 sample_job 15 "[]"] sample_shell_facts by (simp del: to_delete_job.simps)

subsection \<open>A report that comes too early\<close>

lemma job_of_pid_new:
  assumes "\<forall>a\<in>set as. \<exists>j. job_at s a = Some j \<and> None \<notin> set (pids j) \<and> Some p \<notin> set (pids j)"
  shows "job_of_pid s p as = Some None"
  using assms by (induction as) (auto simp: pid_among_Some)

text \<open>
  SIGCHLD is not blocked while a job is started.  When the only process of a foreground command
  ends and is reported before the shell has recorded it, the report is lost and the shell itself
  exits: it waits for a child that no longer exists.
\<close>

theorem early_report_lost:
  assumes "jobs_ok s" "\<not> mask s SIGCHLD" "caught s SIGCHLD" "terminal_fd s \<noteq> - 1"
    "\<forall>a\<in>set (job_list s). \<exists>j. job_at s a = Some j \<and> None \<notin> set (pids j) \<and> Some p \<notin> set (pids j)"
    "free_jid (jid2job s) 1 = Some i"
    "commands pl = [c]" "\<not> is_builtin c" "\<not> bg_job pl"
    "spawns w = [\<lparr>sp_pid = Some p, sp_early = [(p, Exited_with code)], sp_late = []\<rparr>]" "waits w = []"
  shows "handle_pipeline w pl s = utils_fatal_error"
proof -
  obtain a t where at: "add_job pl s = Some (a, t)" using assms(6) by (auto simp: add_job_def Let_def)
  obtain j where j: "job_at t a = Some j" "pids j = []" "num_processes_alive j = 0" "pgrp j = None"
    "\<And>b. b \<noteq> a \<Longrightarrow> job_at t b = job_at s b" "job_list t = job_list s @ [a]" "mask t = mask s" "caught t = caught s"
    "terminal_fd t = terminal_fd s" "a = fresh s"
    using at by (auto simp: add_job_def bind_eq_Some_conv Let_def)
  have new: "\<forall>b\<in>set (job_list s). b \<noteq> a" using assms(1) j(10) by (auto simp: jobs_ok_def)
  define u where "u = upd_job a (status_update (\<lambda>_. FOREGROUND)) t"
  define r where "r = \<lparr>r_argv = argv c, r_tcsetpgroup = True, r_tty = Some (terminal_fd s), r_pgroup = 0,
    r_actions = redirections pl c True True\<rparr>"
  define v where "v = upd_job a (pgrp_update (\<lambda>_. Some p)) (u\<lparr>requests := requests u @ [r]\<rparr>)"
  define y where "y = upd_job a (\<lambda>j. j\<lparr>pids := pids j @ [Some p], num_processes_alive := num_processes_alive j + 1\<rparr>) v"
  have lost: "job_of_pid (v\<lparr>mask := m\<rparr>) p (job_list v) = Some None" for m
  proof (rule job_of_pid_new)
    show "\<forall>b\<in>set (job_list v). \<exists>j. job_at (v\<lparr>mask := m\<rparr>) b = Some j \<and> None \<notin> set (pids j) \<and> Some p \<notin> set (pids j)"
    proof
      fix b assume "b \<in> set (job_list v)"
      then consider "b = a" | "b \<in> set (job_list s)" "b \<noteq> a" using new j(6) by (auto simp: v_def u_def)
      then show "\<exists>j. job_at (v\<lparr>mask := m\<rparr>) b = Some j \<and> None \<notin> set (pids j) \<and> Some p \<notin> set (pids j)"
        by cases (use j assms(5) in \<open>auto simp: v_def u_def\<close>)
    qed
  qed
  have flags: "\<not> mask v SIGCHLD" "caught v SIGCHLD"
    using assms(2,3) j(7,8) by (auto simp: v_def u_def upd_job_def)
  have same: "v\<lparr>mask := (mask v)(SIGCHLD := False)\<rparr> = v"
  proof -
    have "(mask v)(SIGCHLD := False) = mask v" using flags(1) by (simp add: fun_upd_idem)
    then show ?thesis by simp
  qed
  have "sigchld_handler [(p, Exited_with code)] v = Some (Inr v)"
    using lost flags same by (simp add: sigchld_handler_def handle_child_status_def get_job_from_pid_def)
  moreover have "termstate_get_tty_fd u = Some (terminal_fd s)"
    using assms(4) j(9) by (simp add: termstate_get_tty_fd_def u_def upd_job_def)
  ultimately have "spawn_command pl a [] 0 c True True (hd (spawns w)) u = Some (Inr y)"
    using assms(10) j(1) by (simp add: spawn_command_def spawn_request_def run_handler_def after_spawn_def record_pid_def u_def v_def y_def r_def)
  then have hj: "handle_job w pl a u = Some (Inr y)"
    using assms(7,10) by (simp add: handle_job_def)
  have "wait_blocked a (waits w) y = utils_fatal_error"
    using assms(11) j(1,2,3) by (simp add: wait_blocked_def wait_for_job_def wait_loop.simps y_def v_def u_def)
  then show ?thesis using at hj assms(7-9) by (simp add: handle_pipeline_def u_def)
qed

theorem early_report_lost_witness:
  "handle_pipeline \<lparr>tcsetpgrp_ok = True, killpg_ok = True, pipe_fds = [],
     spawns = [\<lparr>sp_pid = Some 201, sp_early = [(201, Exited_with 0)], sp_late = []\<rparr>], waits = []\<rparr>
     (sample_pipeline [''ls'']) empty_shell = utils_fatal_error"
  by (rule early_report_lost [where p = 201 and code = 0 and i = 1 and c = "sample_command ''ls''"])
    (simp_all add: empty_shell_def jobs_ok_def sample_pipeline_def sample_command_def is_builtin_def builtins_def
      free_jid.simps MAXJOBS_def)

subsection \<open>The plumbing of a pipeline\<close>

lemma run_handler_requests: "run_handler rs s = Some (Inr s') \<Longrightarrow> requests s' = requests s"
  by (auto simp: run_handler_def split: if_splits dest: sigchld_handler_owner)

lemma spawn_command_request:
  assumes "spawn_command p a pl i c front back out s = Some (Inr s')"
  shows "\<exists>r. requests s' = requests s @ [r] \<and> spawn_request p a pl i c front back s = Some r"
proof -
  obtain r s2 where o: "spawn_request p a pl i c front back s = Some r"
    "run_handler (sp_early out) (after_spawn a front out (s\<lparr>requests := requests s @ [r]\<rparr>)) = Some (Inr s2)"
    "run_handler (sp_late out) (record_pid a out s2) = Some (Inr s')"
    using assms(1) by (auto simp: spawn_command_def bind_eq_Some_conv andthen_Inr)
  have "requests s' = requests s @ [r]"
    using run_handler_requests [OF o(2)] run_handler_requests [OF o(3)]
    by (auto simp: after_spawn_def record_pid_def split: option.splits if_splits)
  then show ?thesis using o(1) by blast
qed

lemma spawn_commands_requests:
  "spawn_commands p a pl i front cs outs s = Some (Inr s') \<Longrightarrow>
    \<exists>rs. requests s' = requests s @ rs \<and> length rs = length cs \<and>
      (\<forall>k<length cs. \<exists>u. spawn_request p a pl (i + 2 * int k) (cs ! k) (front \<and> k = 0) (k = length cs - 1) u = Some (rs ! k))"
proof (induction p a pl i front cs outs s rule: spawn_commands.induct)
  case (3 p a pl i front c cs out outs s)
  obtain t where t: "spawn_command p a pl i c front (cs = []) out s = Some (Inr t)"
    "spawn_commands p a pl (i + 2) False cs outs t = Some (Inr s')"
    using "3.prems"(1) by (auto simp: andthen_Inr)
  obtain r where r: "requests t = requests s @ [r]" "spawn_request p a pl i c front (cs = []) s = Some r"
    using spawn_command_request [OF t(1)] by blast
  obtain rs where rs: "requests s' = requests t @ rs" "length rs = length cs"
    "\<forall>k<length cs. \<exists>u. spawn_request p a pl (i + 2 + 2 * int k) (cs ! k) (False \<and> k = 0) (k = length cs - 1) u = Some (rs ! k)"
    using "3.IH" [OF t(2)] by blast
  have "\<exists>u. spawn_request p a pl (i + 2 * int k) ((c # cs) ! k) (front \<and> k = 0) (k = length (c # cs) - 1) u = Some ((r # rs) ! k)"
    if k: "k < length (c # cs)" for k
  proof (cases k)
    case 0
    then show ?thesis using r by auto
  next
    case (Suc m)
    then have m: "m < length cs" using k by simp
    have e: "i + 2 * int k = i + 2 + 2 * int m" "(k = length (c # cs) - 1) = (m = length cs - 1)" "(front \<and> k = 0) = (False \<and> m = 0)"
      using Suc m by auto
    show ?thesis unfolding e using rs(3) m Suc by auto
  qed
  then show ?case using rs(1,2) r(1) by (intro exI [of _ "r # rs"]) auto
qed auto

text \<open>What a request holds.\<close>

lemma spawn_request_Some:
  assumes "spawn_request p a pl i c front back u = Some r"
  shows "r_argv r = argv c" "pl \<noteq> [] \<Longrightarrow> connect_pipeline i pl front back \<noteq> None"
    "r_actions r = (if pl = [] then [] else the (connect_pipeline i pl front back)) @ redirections p c front back"
  using assms by (auto simp: spawn_request_def bind_eq_Some_conv Let_def)

lemma open_pipelines_ends:
  "open_pipelines n fds = Some pl \<Longrightarrow> fds = map Some ends \<Longrightarrow> length ends = n \<Longrightarrow>
    length pl = 2 * n \<and> (\<forall>k<n. pl ! (2 * k) = Some (fst (ends ! k)) \<and> pl ! (2 * k + 1) = Some (snd (ends ! k)))"
proof (induction n fds arbitrary: pl ends rule: open_pipelines.induct)
  case (3 n r w fds)
  obtain es where es: "ends = (r, w) # es" "fds = map Some es" "length es = n"
    using "3.prems"(2,3) by (cases ends) auto
  obtain ps where ps: "open_pipelines n fds = Some ps" "pl = Some r # Some w # ps"
    using "3.prems"(1) by (auto simp: bind_eq_Some_conv)
  have ih: "length ps = 2 * n" "\<forall>k<n. ps ! (2 * k) = Some (fst (es ! k)) \<and> ps ! (2 * k + 1) = Some (snd (es ! k))"
    using "3.IH" [OF ps(1) es(2,3)] by auto
  have "pl ! (2 * k) = Some (fst (ends ! k)) \<and> pl ! (2 * k + 1) = Some (snd (ends ! k))" if "k < Suc n" for k
    using that ih(2) ps(2) es(1) by (cases k) auto
  then show ?case using ps(2) ih(1) by simp
qed auto

lemma pipe_end_nth: "k < length pl \<Longrightarrow> pipe_end pl (int k) = pl ! k"
  by (simp add: pipe_end_def)

text \<open>The duplications of one command of a pipeline.\<close>

definition joined_actions :: "(int \<times> int) list \<Rightarrow> nat \<Rightarrow> file_action list" where
  "joined_actions ends k =
     (if 0 < k then [Dup2 (fst (ends ! (k - 1))) STDIN_FILENO] else []) @
     (if k < length ends then [Dup2 (snd (ends ! k)) STDOUT_FILENO] else [])"

lemma handle_job_requests:
  assumes "handle_job w p a s = Some (Inr s')" "pipe_fds w = map Some ends" "length (commands p) = length ends + 1"
  shows "\<exists>rs. requests s' = requests s @ rs \<and> length rs = length (commands p) \<and>
    (\<forall>k<length (commands p). r_argv (rs ! k) = argv (commands p ! k) \<and> r_actions (rs ! k) =
       joined_actions ends k @ redirections p (commands p ! k) (k = 0) (k = length ends))"
proof -
  obtain pl t where pl: "open_pipelines (length ends) (pipe_fds w) = Some pl"
    "spawn_commands p a pl 0 True (commands p) (spawns w) s = Some (Inr t)" "close_pipelines pl t = Some s'"
    using assms(1,3) by (auto simp: handle_job_def bind_eq_Some_conv andthen_Inr)
  have closed: "requests s' = requests t"
  proof -
    have "close_pipelines ps x = Some y \<Longrightarrow> requests y = requests x" for ps x y
      by (induction ps x rule: close_pipelines.induct) (auto simp: bind_eq_Some_conv)
    then show ?thesis using pl(3) by blast
  qed
  have e: "length pl = 2 * length ends"
    "\<And>k. k < length ends \<Longrightarrow> pl ! (2 * k) = Some (fst (ends ! k)) \<and> pl ! (2 * k + 1) = Some (snd (ends ! k))"
    using open_pipelines_ends [OF pl(1) assms(2)] by auto
  have ends: "pipe_end pl (2 * int k) = Some (fst (ends ! k))" "pipe_end pl (2 * int k + 1) = Some (snd (ends ! k))"
    if "k < length ends" for k
    using e(2) [OF that] pipe_end_nth [of "2 * k" pl] pipe_end_nth [of "2 * k + 1" pl] that e(1) by (auto simp: add.commute)
  obtain rs where rs: "requests t = requests s @ rs" "length rs = length (commands p)"
    "\<forall>k<length (commands p). \<exists>u. spawn_request p a pl (0 + 2 * int k) (commands p ! k) (True \<and> k = 0)
       (k = length (commands p) - 1) u = Some (rs ! k)"
    using spawn_commands_requests [OF pl(2)] by blast
  have "r_argv (rs ! k) = argv (commands p ! k) \<and> r_actions (rs ! k) =
      joined_actions ends k @ redirections p (commands p ! k) (k = 0) (k = length ends)" if k: "k < length (commands p)" for k
  proof -
    obtain u where u: "spawn_request p a pl (2 * int k) (commands p ! k) (k = 0) (k = length ends) u = Some (rs ! k)"
      using rs(3) k assms(3) by auto
    have joined: "the (connect_pipeline (2 * int k) pl (k = 0) (k = length ends)) = joined_actions ends k" if ne: "pl \<noteq> []"
    proof (cases "k = 0")
      case True
      have "0 < length ends" using ne e(1) by auto
      then show ?thesis using ends(2) [of 0] True by (simp add: connect_pipeline_def joined_actions_def)
    next
      case False
      then have "k - 1 < length ends" "2 * int k - 2 = 2 * int (k - 1)" using k assms(3) by auto
      then have r: "pipe_end pl (2 * int k - 2) = Some (fst (ends ! (k - 1)))" using ends(1) by metis
      have "pipe_end pl (2 * int k + 1) = Some (snd (ends ! k))" if "k \<noteq> length ends"
        using ends(2) [of k] that k assms(3) by simp
      then show ?thesis using r False k assms(3) by (auto simp: connect_pipeline_def joined_actions_def)
    qed
    have "joined_actions ends k = []" if "pl = []"
      using that e(1) k assms(3) by (simp add: joined_actions_def)
    then show ?thesis using spawn_request_Some [OF u] joined by auto
  qed
  then show ?thesis using rs closed by auto
qed

text \<open>
  A pipeline is started with one call per command, in order; each command but the first reads from
  the pipe that the one before it writes to, and each but the last writes to the pipe that the next
  one reads from.
\<close>

theorem pipeline_connected:
  assumes "handle_job w p a s = Some (Inr s')" "pipe_fds w = map Some ends"
    "length (commands p) = length ends + 1" "ends \<noteq> []"
  shows "\<exists>rs. requests s' = requests s @ rs \<and> length rs = length (commands p) \<and>
    (\<forall>k<length (commands p). r_argv (rs ! k) = argv (commands p ! k)) \<and>
    (\<forall>k<length ends. Dup2 (snd (ends ! k)) STDOUT_FILENO \<in> set (r_actions (rs ! k)) \<and>
       Dup2 (fst (ends ! k)) STDIN_FILENO \<in> set (r_actions (rs ! (k + 1))))"
proof -
  obtain rs where rs: "requests s' = requests s @ rs" "length rs = length (commands p)"
    "\<forall>k<length (commands p). r_argv (rs ! k) = argv (commands p ! k) \<and> r_actions (rs ! k) =
       joined_actions ends k @ redirections p (commands p ! k) (k = 0) (k = length ends)"
    using handle_job_requests [OF assms(1-3)] by blast
  have "Dup2 (snd (ends ! k)) STDOUT_FILENO \<in> set (r_actions (rs ! k)) \<and>
      Dup2 (fst (ends ! k)) STDIN_FILENO \<in> set (r_actions (rs ! (k + 1)))" if "k < length ends" for k
    using rs(3) that assms(3) by (simp add: joined_actions_def)
  then show ?thesis using rs by blast
qed

definition new_shell :: shell where
  "new_shell = empty_shell\<lparr>job_at := [5 \<mapsto> sample_job\<lparr>pids := [], num_processes_alive := 0, pgrp := None\<rparr>], job_list := [5]\<rparr>"

definition sample_answers :: answers where
  "sample_answers = \<lparr>tcsetpgrp_ok = True, killpg_ok = True, pipe_fds = map Some [(6, 7)],
     spawns = [\<lparr>sp_pid = Some 201, sp_early = [], sp_late = []\<rparr>, \<lparr>sp_pid = Some 202, sp_early = [], sp_late = []\<rparr>], waits = []\<rparr>"

lemma sample_started: "\<exists>s'. handle_job sample_answers (sample_pipeline [''ls'', ''wc'']) 5 new_shell = Some (Inr s')"
  by (simp add: handle_job_def sample_answers_def new_shell_def sample_defs spawn_command_def spawn_request_def
      run_handler_def after_spawn_def record_pid_def connect_pipeline_def pipe_end_def redirections_def
      termstate_get_tty_fd_def upd_job_def eval_nat_numeral Let_def)

theorem pipeline_connected_witness:
  "\<exists>s' rs. handle_job sample_answers (sample_pipeline [''ls'', ''wc'']) 5 new_shell = Some (Inr s') \<and> requests s' = rs \<and>
    length rs = 2 \<and> Dup2 7 STDOUT_FILENO \<in> set (r_actions (rs ! 0)) \<and> Dup2 6 STDIN_FILENO \<in> set (r_actions (rs ! 1))"
proof -
  obtain s' where s': "handle_job sample_answers (sample_pipeline [''ls'', ''wc'']) 5 new_shell = Some (Inr s')"
    using sample_started by blast
  have "requests new_shell = []" by (simp add: new_shell_def empty_shell_def)
  then show ?thesis
    using pipeline_connected [OF s', of "[(6, 7)]"] s' by (simp add: sample_answers_def sample_pipeline_def)
qed


end
