(* ===== verification/Spawn.thy ===== *)
theory Spawn
  imports Prelude "HOL-Library.Word"
begin

unbundle bit_operations_syntax

text \<open>
  How the shell starts a process: \<open>posix_spawn/spawni.c\<close> with the types of \<open>spawn.h\<close> and
  \<open>spawn_int.h\<close>.  A process is what the calls of the child read and change: its group, session and
  identities, the signals, the open files and the directory.  The system calls have the effect their
  documentation gives; on top of the errors that follow from the state of the process, a kernel given
  may refuse any of them, but those on signals, with an error number of its choice.  The result of
  the child is \<open>Inl\<close>, an exit with an error left for the parent, or \<open>Inr\<close>, the program executed.
\<close>

subsection \<open>Attributes and actions\<close>

datatype spawn_action =
    spawn_do_close int
  | spawn_do_dup2 int int
  | spawn_do_open int string int int
  | spawn_do_chdir string
  | spawn_do_fchdir int

record posix_spawnattr_t =
  attr_flags :: int
  attr_pgrp :: int
  attr_sd :: "int set"
  attr_ss :: "int set"
  attr_sp :: int
  attr_policy :: int
  attr_tcpgrp :: int

definition zero_attr :: posix_spawnattr_t where
  "zero_attr = \<lparr>attr_flags = 0, attr_pgrp = 0, attr_sd = {}, attr_ss = {}, attr_sp = 0, attr_policy = 0, attr_tcpgrp = 0\<rparr>"

definition POSIX_SPAWN_RESETIDS :: int where "POSIX_SPAWN_RESETIDS = 0x01"
definition POSIX_SPAWN_SETPGROUP :: int where "POSIX_SPAWN_SETPGROUP = 0x02"
definition POSIX_SPAWN_SETSIGDEF :: int where "POSIX_SPAWN_SETSIGDEF = 0x04"
definition POSIX_SPAWN_SETSIGMASK :: int where "POSIX_SPAWN_SETSIGMASK = 0x08"
definition POSIX_SPAWN_SETSCHEDPARAM :: int where "POSIX_SPAWN_SETSCHEDPARAM = 0x10"
definition POSIX_SPAWN_SETSCHEDULER :: int where "POSIX_SPAWN_SETSCHEDULER = 0x20"
definition POSIX_SPAWN_USEVFORK :: int where "POSIX_SPAWN_USEVFORK = 0x40"
definition POSIX_SPAWN_SETSID :: int where "POSIX_SPAWN_SETSID = 0x80"
definition POSIX_SPAWN_TCSETPGROUP :: int where "POSIX_SPAWN_TCSETPGROUP = 0x100"

lemmas spawn_flag_defs = POSIX_SPAWN_RESETIDS_def POSIX_SPAWN_SETPGROUP_def POSIX_SPAWN_SETSIGDEF_def
  POSIX_SPAWN_SETSIGMASK_def POSIX_SPAWN_SETSCHEDPARAM_def POSIX_SPAWN_SETSCHEDULER_def POSIX_SPAWN_USEVFORK_def
  POSIX_SPAWN_SETSID_def POSIX_SPAWN_TCSETPGROUP_def

definition ALL_FLAGS :: int where
  "ALL_FLAGS = POSIX_SPAWN_RESETIDS OR POSIX_SPAWN_SETPGROUP OR POSIX_SPAWN_SETSIGDEF OR POSIX_SPAWN_SETSIGMASK OR
     POSIX_SPAWN_SETSCHEDPARAM OR POSIX_SPAWN_SETSCHEDULER OR POSIX_SPAWN_SETSID OR POSIX_SPAWN_USEVFORK OR
     POSIX_SPAWN_TCSETPGROUP"

definition EPERM :: nat where "EPERM = 1"
definition E2BIG :: nat where "E2BIG = 7"
definition EBADF :: nat where "EBADF = 9"
definition ECHILD :: nat where "ECHILD = 10"
definition EINVAL :: nat where "EINVAL = 22"
definition EMFILE :: nat where "EMFILE = 24"
definition ENOTTY :: nat where "ENOTTY = 25"

definition posix_spawnattr_setflags :: "posix_spawnattr_t \<Rightarrow> int \<Rightarrow> int \<times> posix_spawnattr_t" where
  "posix_spawnattr_setflags attr flags =
     (if flags AND NOT ALL_FLAGS \<noteq> 0 then (int EINVAL, attr) else (0, attr\<lparr>attr_flags := flags\<rparr>))"

definition posix_spawnattr_tcsetpgrp_np :: "posix_spawnattr_t \<Rightarrow> int \<Rightarrow> int \<times> posix_spawnattr_t" where
  "posix_spawnattr_tcsetpgrp_np attr fd = (0, attr\<lparr>attr_tcpgrp := fd\<rparr>)"

definition flagged :: "posix_spawnattr_t \<Rightarrow> int \<Rightarrow> bool" where
  "flagged attr f \<longleftrightarrow> attr_flags attr AND f \<noteq> 0"

subsection \<open>Processes\<close>

datatype handler = SIG_DFL | SIG_IGN | Catch nat

text \<open>Files and directories by the way they were reached.\<close>

datatype location = Start | Into location string | Of_file open_file
  and open_file = Terminal nat | Pipe_read nat | Pipe_write nat | Other nat | Opened location string int int

record process =
  pr_pid :: int
  pr_pgrp :: int
  pr_sid :: int
  foreground :: "nat \<Rightarrow> int"
  handlers :: "int \<Rightarrow> handler"
  blocked :: "int set"
  files :: "int \<Rightarrow> open_file option"
  cloexec :: "int set"
  cwd :: location
  nofile :: nat
  uid :: int
  gid :: int
  euid :: int
  egid :: int
  sched :: "int \<times> int"
  program :: "(string \<times> string list \<times> string list) option"

datatype syscall =
    Sched_setparam int
  | Sched_setscheduler int int
  | Setsid
  | Setpgid int
  | Tcsetpgrp int int
  | Seteuid int
  | Setegid int
  | Close_fd int
  | Open_path string int int
  | Dup_to int int
  | Getfd int
  | Setfd int int
  | Chdir string
  | Fchdir int

definition FD_CLOEXEC :: int where "FD_CLOEXEC = 1"
definition O_CLOEXEC :: int where "O_CLOEXEC = 0x80000"
definition O_LARGEFILE :: int where "O_LARGEFILE = 0"

text \<open>A file gets the lowest descriptor that is free.\<close>

definition free_fd :: "process \<Rightarrow> int option" where
  "free_fd p = find (\<lambda>fd. files p fd = None) [0..int (nofile p) - 1]"

fun perform :: "syscall \<Rightarrow> process \<Rightarrow> nat + int \<times> process" where
  "perform (Sched_setparam v) p = Inr (0, p\<lparr>sched := (fst (sched p), v)\<rparr>)"
| "perform (Sched_setscheduler policy v) p = Inr (0, p\<lparr>sched := (policy, v)\<rparr>)"
| "perform Setsid p =
     (if pr_pgrp p = pr_pid p then Inl EPERM
      else Inr (pr_pid p, p\<lparr>pr_sid := pr_pid p, pr_pgrp := pr_pid p\<rparr>))"
| "perform (Setpgid pg) p = Inr (0, p\<lparr>pr_pgrp := (if pg = 0 then pr_pid p else pg)\<rparr>)"
| "perform (Tcsetpgrp fd pg) p =
     (case files p fd of
        None \<Rightarrow> Inl EBADF
      | Some (Terminal t) \<Rightarrow> Inr (0, p\<lparr>foreground := (foreground p)(t := pg)\<rparr>)
      | Some _ \<Rightarrow> Inl ENOTTY)"
| "perform (Seteuid u) p = Inr (0, p\<lparr>euid := u\<rparr>)"
| "perform (Setegid g) p = Inr (0, p\<lparr>egid := g\<rparr>)"
| "perform (Close_fd fd) p =
     (if files p fd = None then Inl EBADF
      else Inr (0, p\<lparr>files := (files p)(fd := None), cloexec := cloexec p - {fd}\<rparr>))"
| "perform (Open_path path oflag mode) p =
     (case free_fd p of
        None \<Rightarrow> Inl EMFILE
      | Some fd \<Rightarrow> Inr (fd, p\<lparr>files := (files p)(fd \<mapsto> Opened (cwd p) path oflag mode),
          cloexec := (if oflag AND O_CLOEXEC \<noteq> 0 then insert fd (cloexec p) else cloexec p - {fd})\<rparr>))"
| "perform (Dup_to fd newfd) p =
     (if files p fd = None \<or> newfd < 0 \<or> newfd \<ge> int (nofile p) then Inl EBADF
      else if fd = newfd then Inr (newfd, p)
      else Inr (newfd, p\<lparr>files := (files p)(newfd := files p fd), cloexec := cloexec p - {newfd}\<rparr>))"
| "perform (Getfd fd) p =
     (if files p fd = None then Inl EBADF else Inr (if fd \<in> cloexec p then FD_CLOEXEC else 0, p))"
| "perform (Setfd fd v) p =
     (if files p fd = None then Inl EBADF
      else Inr (0, p\<lparr>cloexec := (if v AND FD_CLOEXEC \<noteq> 0 then insert fd (cloexec p) else cloexec p - {fd})\<rparr>))"
| "perform (Chdir path) p = Inr (0, p\<lparr>cwd := Into (cwd p) path\<rparr>)"
| "perform (Fchdir fd) p =
     (case files p fd of None \<Rightarrow> Inl EBADF | Some f \<Rightarrow> Inr (0, p\<lparr>cwd := Of_file f\<rparr>))"

text \<open>What a kernel refuses; \<open>exec_refuses\<close> is asked with whether the path is searched.\<close>

record kernel =
  refuses :: "syscall \<Rightarrow> process \<Rightarrow> nat option"
  exec_refuses :: "bool \<Rightarrow> string \<Rightarrow> string list \<Rightarrow> string list \<Rightarrow> process \<Rightarrow> nat option"

record child =
  errno :: nat
  proc :: process

definition sys :: "kernel \<Rightarrow> syscall \<Rightarrow> child \<Rightarrow> int \<times> child" where
  "sys k c s =
     (case refuses k c (proc s) of
        Some e \<Rightarrow> (- 1, s\<lparr>errno := e\<rparr>)
      | None \<Rightarrow> (case perform c (proc s) of
            Inl e \<Rightarrow> (- 1, s\<lparr>errno := e\<rparr>)
          | Inr (r, p) \<Rightarrow> (r, s\<lparr>proc := p\<rparr>)))"

text \<open>
  The calls on signals.  Two signals cannot be caught or blocked, and the library keeps two to itself:
  it rejects them and never puts them into a full set.
\<close>

definition NSIG :: int where "NSIG = 65"

definition uncatchable :: "int set" where "uncatchable = {9, 19}"

definition internal :: "int set" where "internal = {32, 33}"

definition all_signals :: "int set" where
  "all_signals = {1..<NSIG} - internal"

definition get_handler :: "int \<Rightarrow> child \<Rightarrow> handler option" where
  "get_handler sig s = (if sig \<in> all_signals then Some (handlers (proc s) sig) else None)"

definition set_handler :: "int \<Rightarrow> handler \<Rightarrow> child \<Rightarrow> child" where
  "set_handler sig h s =
     (if sig \<in> all_signals - uncatchable
      then s\<lparr>proc := (proc s)\<lparr>handlers := (handlers (proc s))(sig := h)\<rparr>\<rparr> else s\<lparr>errno := EINVAL\<rparr>)"

definition set_mask :: "int set \<Rightarrow> process \<Rightarrow> process" where
  "set_mask m p = p\<lparr>blocked := m - uncatchable\<rparr>"

subsection \<open>The child\<close>

text \<open>Steps one after the other, each of which may jump to the exit.\<close>

fun steps :: "('s \<Rightarrow> 's + 's) list \<Rightarrow> 's \<Rightarrow> 's + 's" where
  "steps [] s = Inr s"
| "steps (f # fs) s = (case f s of Inl t \<Rightarrow> Inl t | Inr t \<Rightarrow> steps fs t)"

definition check :: "bool \<Rightarrow> 's \<Rightarrow> 's + 's" where
  "check b s = (if b then Inr s else Inl s)"

text \<open>The variable \<open>sa\<close> keeps the handler of an earlier signal when it cannot be read for the next.\<close>

fun reset_signals :: "posix_spawnattr_t \<Rightarrow> int set \<Rightarrow> int list \<Rightarrow> handler \<Rightarrow> child \<Rightarrow> child" where
  "reset_signals attr hset [] sa s = s"
| "reset_signals attr hset (sig # sigs) sa s =
     (if flagged attr POSIX_SPAWN_SETSIGDEF \<and> sig \<in> attr_sd attr
      then reset_signals attr hset sigs SIG_DFL (set_handler sig SIG_DFL s)
      else if sig \<in> hset then
        (case get_handler sig s of
           Some SIG_IGN \<Rightarrow> reset_signals attr hset sigs SIG_IGN s
         | Some h \<Rightarrow> reset_signals attr hset sigs SIG_DFL (set_handler sig SIG_DFL s)
         | None \<Rightarrow>
             if sa = SIG_IGN then reset_signals attr hset sigs sa (s\<lparr>errno := EINVAL\<rparr>)
             else reset_signals attr hset sigs SIG_DFL (set_handler sig SIG_DFL s))
      else reset_signals attr hset sigs sa s)"

definition set_signals :: "posix_spawnattr_t \<Rightarrow> child \<Rightarrow> child" where
  "set_signals attr s = reset_signals attr (blocked (proc s)) [1..NSIG - 1] SIG_DFL s"

definition set_scheduling :: "kernel \<Rightarrow> posix_spawnattr_t \<Rightarrow> child \<Rightarrow> child + child" where
  "set_scheduling k attr s =
     (if attr_flags attr AND (POSIX_SPAWN_SETSCHEDPARAM OR POSIX_SPAWN_SETSCHEDULER) = POSIX_SPAWN_SETSCHEDPARAM
      then (let (r, s) = sys k (Sched_setparam (attr_sp attr)) s in check (r \<noteq> - 1) s)
      else if flagged attr POSIX_SPAWN_SETSCHEDULER
      then (let (r, s) = sys k (Sched_setscheduler (attr_policy attr) (attr_sp attr)) s in check (r \<noteq> - 1) s)
      else Inr s)"

definition set_session :: "kernel \<Rightarrow> posix_spawnattr_t \<Rightarrow> child \<Rightarrow> child + child" where
  "set_session k attr s =
     (if flagged attr POSIX_SPAWN_SETSID then (let (r, s) = sys k Setsid s in check (\<not> r < 0) s) else Inr s)"

definition set_group :: "kernel \<Rightarrow> posix_spawnattr_t \<Rightarrow> child \<Rightarrow> child + child" where
  "set_group k attr s =
     (if flagged attr POSIX_SPAWN_SETPGROUP
      then (let (r, s) = sys k (Setpgid (attr_pgrp attr)) s in check (r = 0) s) else Inr s)"

definition set_terminal :: "kernel \<Rightarrow> posix_spawnattr_t \<Rightarrow> child \<Rightarrow> child + child" where
  "set_terminal k attr s =
     (if flagged attr POSIX_SPAWN_TCSETPGROUP
      then (let pg = (if flagged attr POSIX_SPAWN_SETPGROUP \<and> attr_pgrp attr \<noteq> 0 then attr_pgrp attr
                      else pr_pgrp (proc s));
                (r, s) = sys k (Tcsetpgrp (attr_tcpgrp attr) pg) s
            in check (r = 0) s)
      else Inr s)"

definition reset_ids :: "kernel \<Rightarrow> posix_spawnattr_t \<Rightarrow> child \<Rightarrow> child + child" where
  "reset_ids k attr s =
     (if flagged attr POSIX_SPAWN_RESETIDS
      then (let (r, s) = sys k (Seteuid (uid (proc s))) s
            in if r \<noteq> 0 then Inl s else (let (r, s) = sys k (Setegid (gid (proc s))) s in check (r = 0) s))
      else Inr s)"

fun do_action :: "kernel \<Rightarrow> spawn_action \<Rightarrow> child \<Rightarrow> child + child" where
  "do_action k (spawn_do_close fd) s =
     (let (r, s) = sys k (Close_fd fd) s
      in if r \<noteq> 0 then check (\<not> (fd < 0 \<or> fd \<ge> int (nofile (proc s)))) s else Inr s)"
| "do_action k (spawn_do_open fd path oflag mode) s =
     (let (_, s) = sys k (Close_fd fd) s;
          (new_fd, s) = sys k (Open_path path (oflag OR O_LARGEFILE) mode) s
      in if new_fd = - 1 then Inl s
         else if new_fd \<noteq> fd then
           (let (r, s) = sys k (Dup_to new_fd fd) s
            in if r \<noteq> fd then Inl s
               else (let (r, s) = sys k (Close_fd new_fd) s in check (r = 0) s))
         else Inr s)"
| "do_action k (spawn_do_dup2 fd newfd) s =
     (if fd = newfd
      then (let (flags, s) = sys k (Getfd newfd) s
            in if flags = - 1 then Inl s
               else (let (r, s) = sys k (Setfd newfd (flags AND NOT FD_CLOEXEC)) s in check (r \<noteq> - 1) s))
      else (let (r, s) = sys k (Dup_to fd newfd) s in check (r = newfd) s))"
| "do_action k (spawn_do_chdir path) s = (let (r, s) = sys k (Chdir path) s in check (r = 0) s)"
| "do_action k (spawn_do_fchdir fd) s = (let (r, s) = sys k (Fchdir fd) s in check (r = 0) s)"

record posix_spawn_args =
  oldmask :: "int set"
  path_file :: string
  search_path :: bool
  fa :: "spawn_action list"
  args_attr :: posix_spawnattr_t
  args_argv :: "string list"
  args_envp :: "string list"

text \<open>The image of the program: files marked are closed and handlers, which the new program lacks, are reset.\<close>

definition executed :: "string \<Rightarrow> string list \<Rightarrow> string list \<Rightarrow> process \<Rightarrow> process" where
  "executed f argv envp p =
     p\<lparr>files := (\<lambda>fd. if fd \<in> cloexec p then None else files p fd), cloexec := {},
       handlers := (\<lambda>n. case handlers p n of Catch h \<Rightarrow> SIG_DFL | h \<Rightarrow> h), program := Some (f, argv, envp)\<rparr>"

definition exit_error :: "child \<Rightarrow> nat" where
  "exit_error s = (if errno s \<noteq> 0 then errno s else ECHILD)"

definition prepare :: "kernel \<Rightarrow> posix_spawn_args \<Rightarrow> child \<Rightarrow> child + child" where
  "prepare k a s =
     steps ([set_scheduling k (args_attr a), set_session k (args_attr a), set_group k (args_attr a), set_terminal k (args_attr a),
       reset_ids k (args_attr a)] @ map (do_action k) (fa a)) (set_signals (args_attr a) s)"

definition spawni_child :: "kernel \<Rightarrow> posix_spawn_args \<Rightarrow> child \<Rightarrow> nat + process" where
  "spawni_child k a s =
     (case prepare k a s of
        Inl s \<Rightarrow> Inl (exit_error s)
      | Inr s \<Rightarrow>
          let p = set_mask (if flagged (args_attr a) POSIX_SPAWN_SETSIGMASK then attr_ss (args_attr a) else oldmask a) (proc s)
          in (case exec_refuses k (search_path a) (path_file a) (args_argv a) (args_envp a) p of
                None \<Rightarrow> Inr (executed (path_file a) (args_argv a) (args_envp a) p)
              | Some e \<Rightarrow> Inl (exit_error (s\<lparr>errno := e\<rparr>))))"

subsection \<open>The parent\<close>

definition ALIGN_DOWN :: "64 word \<Rightarrow> 64 word \<Rightarrow> 64 word" where
  "ALIGN_DOWN base sz = base AND - sz"

definition ALIGN_UP :: "64 word \<Rightarrow> 64 word \<Rightarrow> 64 word" where
  "ALIGN_UP base sz = ALIGN_DOWN (base + sz - 1) sz"

text \<open>The number of the configuration variable, not the size of a page, which the code takes it for.\<close>

definition dl_pagesize :: "64 word" where "dl_pagesize = 30"

definition stack_size :: "int \<Rightarrow> 64 word" where
  "stack_size argc =
     (let argv_size = word_of_int argc * 8 + 512;
          argv_size = argv_size + 32 * 1024
      in ALIGN_UP argv_size dl_pagesize)"

definition arg_limit :: int where "arg_limit = 2 ^ 31 - 1 - 1"

fun count_args :: "string list \<Rightarrow> int \<Rightarrow> int option" where
  "count_args [] argc = Some (argc + 1)"
| "count_args (a # as) argc = (if argc + 1 = arg_limit then None else count_args as (argc + 1))"

text \<open>
  The calling thread: its process, whether it may be cancelled, the stacks it has mapped and the
  children it has waited for.  The answers are those of \<open>mmap\<close> and \<open>clone\<close>, and whether a signal
  ends the child before it executes a program.
\<close>

record parent =
  self :: process
  cancellable :: bool
  stacks :: "64 word list"
  reaped :: "int list"

record spawn_answers =
  mmap_error :: "nat option"
  clone_result :: "nat + int"
  dies :: bool

definition block_all :: "process \<Rightarrow> process" where
  "block_all p = set_mask (blocked p \<union> all_signals) p"

definition spawnix ::
    "kernel \<Rightarrow> spawn_answers \<Rightarrow> string \<Rightarrow> spawn_action list option \<Rightarrow> posix_spawnattr_t option \<Rightarrow> string list \<Rightarrow>
      string list \<Rightarrow> bool \<Rightarrow> int option \<Rightarrow> parent \<Rightarrow> int \<times> int option \<times> process option \<times> parent" where
  "spawnix k w file acts attrp argv envp use_path pid p =
     (case count_args argv 0 of
        None \<Rightarrow> (int E2BIG, pid, None, p)
      | Some argc \<Rightarrow>
     (case mmap_error w of
        Some e \<Rightarrow> (int e, pid, None, p)
      | None \<Rightarrow>
          let sz = stack_size argc;
              p = p\<lparr>stacks := sz # stacks p\<rparr>;
              state = cancellable p;
              p = p\<lparr>cancellable := False\<rparr>;
              old = blocked (self p);
              a = \<lparr>oldmask = old, path_file = file, search_path = use_path, fa = (case acts of None \<Rightarrow> [] | Some fs \<Rightarrow> fs),
                   args_attr = (case attrp of None \<Rightarrow> zero_attr | Some t \<Rightarrow> t), args_argv = argv, args_envp = envp\<rparr>;
              p = p\<lparr>self := block_all (self p)\<rparr>;
              (new_pid, ec, started, p) =
                (case clone_result w of
                   Inl e \<Rightarrow> (- 1, 1, None, p)
                 | Inr n \<Rightarrow>
                     (if dies w then (n, 0, None, p)
                      else (case spawni_child k a \<lparr>errno = 0, proc = (self p)\<lparr>pr_pid := n\<rparr>\<rparr> of
                             Inl e \<Rightarrow> (n, int e, None, if 0 < e then p\<lparr>reaped := n # reaped p\<rparr> else p)
                           | Inr q \<Rightarrow> (n, 0, Some q, p))));
              p = p\<lparr>stacks := remove1 sz (stacks p)\<rparr>;
              pid = (if ec = 0 then Some new_pid else pid);
              p = p\<lparr>self := set_mask old (self p)\<rparr>
          in (ec, pid, started, p\<lparr>cancellable := state\<rparr>)))"

definition posix_spawnp ::
    "kernel \<Rightarrow> spawn_answers \<Rightarrow> int option \<Rightarrow> string \<Rightarrow> spawn_action list option \<Rightarrow> posix_spawnattr_t option \<Rightarrow>
      string list \<Rightarrow> string list \<Rightarrow> parent \<Rightarrow> int \<times> int option \<times> process option \<times> parent" where
  "posix_spawnp k w pid file acts attrp argv envp p = spawnix k w file acts attrp argv envp True pid p"

end
