(* ===== verification/Spawn_Spec.thy ===== *)
theory Spawn_Spec
  imports Spawn
begin

text \<open>
  What \<open>posix_spawnp\<close> promises: the state in which the program starts, the table of its open files,
  and what is left in the caller, whatever the kernel refuses.
\<close>

subsection \<open>Calls and their frames\<close>

lemma sys_cases:
  "sys k c s = (r, t) \<Longrightarrow> r = - 1 \<and> proc t = proc s \<or> perform c (proc s) = Inr (r, proc t)"
  by (auto simp: sys_def split: option.splits sum.splits)

lemma sys_done:
  assumes "sys k c s = (r, t)" "r \<noteq> - 1"
  shows "perform c (proc s) = Inr (r, proc t)"
  using sys_cases [OF assms(1)] assms(2) by blast

lemma check_Inr [simp]: "check b s = Inr t \<longleftrightarrow> b \<and> t = s"
  by (auto simp: check_def)

lemma steps_append: "steps (fs @ gs) s = (case steps fs s of Inl t \<Rightarrow> Inl t | Inr t \<Rightarrow> steps gs t)"
  by (induction fs arbitrary: s) (auto split: sum.splits)

lemma steps_Cons_Inr: "steps (f # fs) s = Inr t \<longleftrightarrow> (\<exists>u. f s = Inr u \<and> steps fs u = Inr t)"
  by (auto split: sum.splits)

lemma steps_append_Inr: "steps (fs @ gs) s = Inr t \<longleftrightarrow> (\<exists>u. steps fs s = Inr u \<and> steps gs u = Inr t)"
  by (auto simp: steps_append split: sum.splits)

lemma steps_invariant:
  assumes "steps fs s = Inr t" "I s" "\<forall>f\<in>set fs. \<forall>s t. f s = Inr t \<longrightarrow> I s \<longrightarrow> I t"
  shows "I t"
  using assms by (induction fs arbitrary: s) (auto split: sum.splits)

text \<open>Everything but the files and the directory: what the actions leave as it is.\<close>

definition same_process :: "process \<Rightarrow> process \<Rightarrow> bool" where
  "same_process p q \<longleftrightarrow> q\<lparr>files := files p, cloexec := cloexec p, cwd := cwd p\<rparr> = p"

lemma same_process_refl [simp]: "same_process p p"
  by (simp add: same_process_def)

lemma same_process_trans: "same_process p q \<Longrightarrow> same_process q r \<Longrightarrow> same_process p r"
  unfolding same_process_def by (cases p; cases q; cases r) simp

lemma same_processD:
  assumes "same_process p q"
  shows "pr_pid q = pr_pid p" "pr_pgrp q = pr_pgrp p" "pr_sid q = pr_sid p" "foreground q = foreground p"
    "handlers q = handlers p" "blocked q = blocked p" "nofile q = nofile p" "uid q = uid p" "gid q = gid p"
    "euid q = euid p" "egid q = egid p"
  using assms unfolding same_process_def by (cases p; cases q; simp)+

fun file_call :: "syscall \<Rightarrow> bool" where
  "file_call (Close_fd fd) = True"
| "file_call (Open_path path oflag mode) = True"
| "file_call (Dup_to fd newfd) = True"
| "file_call (Getfd fd) = True"
| "file_call (Setfd fd v) = True"
| "file_call (Chdir path) = True"
| "file_call (Fchdir fd) = True"
| "file_call c = False"

lemma perform_frame: "perform c p = Inr (r, q) \<Longrightarrow> file_call c \<Longrightarrow> same_process p q"
  by (cases c) (auto simp: same_process_def split: if_splits option.splits)

lemma sys_frame:
  assumes "sys k c s = (r, t)" "file_call c"
  shows "same_process (proc s) (proc t)"
  using sys_cases [OF assms(1)] perform_frame assms(2) by auto

lemma sys_frames:
  assumes "sys k c s = (r, t)" "file_call c" "same_process (proc z) (proc s)"
  shows "same_process (proc z) (proc t)"
  using sys_frame [OF assms(1,2)] assms(3) same_process_trans by blast

lemma do_action_frame:
  assumes ok: "do_action k a s = Inr t"
  shows "same_process (proc s) (proc t)"
proof (cases a)
  case (spawn_do_open fd path oflag mode)
  obtain r1 s1 where 1: "sys k (Close_fd fd) s = (r1, s1)" by fastforce
  obtain n s2 where 2: "sys k (Open_path path (oflag OR O_LARGEFILE) mode) s1 = (n, s2)" by fastforce
  obtain r3 s3 where 3: "sys k (Dup_to n fd) s2 = (r3, s3)" by fastforce
  obtain r4 s4 where 4: "sys k (Close_fd n) s3 = (r4, s4)" by fastforce
  have f1: "same_process (proc s) (proc s1)" using sys_frame [OF 1] by simp
  have f2: "same_process (proc s) (proc s2)" using sys_frames [OF 2 _ f1] by simp
  have f3: "same_process (proc s) (proc s3)" using sys_frames [OF 3 _ f2] by simp
  have f4: "same_process (proc s) (proc s4)" using sys_frames [OF 4 _ f3] by simp
  have "t = s2 \<or> t = s4" using ok 1 2 3 4 by (simp add: spawn_do_open split: if_splits)
  then show ?thesis using f2 f4 by blast
next
  case (spawn_do_dup2 fd newfd)
  obtain r1 s1 where 1: "sys k (Getfd newfd) s = (r1, s1)" by fastforce
  obtain r2 s2 where 2: "sys k (Setfd newfd (r1 AND NOT FD_CLOEXEC)) s1 = (r2, s2)" by fastforce
  obtain r3 s3 where 3: "sys k (Dup_to fd newfd) s = (r3, s3)" by fastforce
  have f1: "same_process (proc s) (proc s1)" using sys_frame [OF 1] by simp
  have f2: "same_process (proc s) (proc s2)" using sys_frames [OF 2 _ f1] by simp
  have f3: "same_process (proc s) (proc s3)" using sys_frame [OF 3] by simp
  have "t = s2 \<or> t = s3" using ok 1 2 3 by (simp add: spawn_do_dup2 split: if_splits)
  then show ?thesis using f2 f3 by blast
qed (use ok in \<open>auto dest: sys_frame split: prod.splits if_splits\<close>)

lemma actions_frame: "steps (map (do_action k) as) s = Inr t \<Longrightarrow> same_process (proc s) (proc t)"
  by (erule steps_invariant [where I = "\<lambda>u. same_process (proc s) (proc u)"])
    (auto dest: do_action_frame intro: same_process_trans)

subsection \<open>Signals\<close>

lemma set_handler_proc [simp]:
  "handlers (proc (set_handler sig h s)) = (if sig \<in> all_signals - uncatchable then (handlers (proc s))(sig := h) else handlers (proc s))"
  "(proc (set_handler sig h s))\<lparr>handlers := f\<rparr> = (proc s)\<lparr>handlers := f\<rparr>"
  by (simp_all add: set_handler_def)

lemma reset_signals_frame [simp]: "(proc (reset_signals attr hset sigs sa s))\<lparr>handlers := f\<rparr> = (proc s)\<lparr>handlers := f\<rparr>"
  by (induction attr hset sigs sa s rule: reset_signals.induct) (auto split: option.splits handler.splits)

lemma reset_signals_step:
  assumes "hset \<subseteq> all_signals"
  shows "reset_signals attr hset (sig # sigs) sa s =
    (if flagged attr POSIX_SPAWN_SETSIGDEF \<and> sig \<in> attr_sd attr \<or> sig \<in> hset \<and> handlers (proc s) sig \<noteq> SIG_IGN
     then reset_signals attr hset sigs SIG_DFL (set_handler sig SIG_DFL s)
     else reset_signals attr hset sigs (if sig \<in> hset then SIG_IGN else sa) s)"
  using assms by (auto simp: get_handler_def split: handler.splits)

lemma reset_signals_handlers:
  assumes "hset \<subseteq> all_signals"
  shows "distinct sigs \<Longrightarrow> handlers (proc (reset_signals attr hset sigs sa s)) n =
    (if n \<in> set sigs \<inter> (all_signals - uncatchable) \<and> (flagged attr POSIX_SPAWN_SETSIGDEF \<and> n \<in> attr_sd attr \<or>
       n \<in> hset \<and> handlers (proc s) n \<noteq> SIG_IGN) then SIG_DFL else handlers (proc s) n)"
proof (induction sigs arbitrary: sa s)
  case (Cons sig sigs)
  have new: "handlers (proc (set_handler sig SIG_DFL s)) n =
      (if n = sig \<and> sig \<in> all_signals - uncatchable then SIG_DFL else handlers (proc s) n)" by simp
  show ?case
  proof (cases "flagged attr POSIX_SPAWN_SETSIGDEF \<and> sig \<in> attr_sd attr \<or> sig \<in> hset \<and> handlers (proc s) sig \<noteq> SIG_IGN")
    case True
    then show ?thesis
      unfolding reset_signals_step [OF assms] if_P [OF True]
      using Cons.IH [of SIG_DFL "set_handler sig SIG_DFL s"] Cons.prems new by auto
  next
    case False
    then show ?thesis
      unfolding reset_signals_step [OF assms] if_not_P [OF False]
      using Cons.IH [of "if sig \<in> hset then SIG_IGN else sa" s] Cons.prems by auto
  qed
qed simp

lemma set_signals_handlers:
  assumes "blocked (proc s) = all_signals - uncatchable"
  shows "handlers (proc (set_signals attr s)) n =
    (if n \<in> all_signals - uncatchable \<and> (flagged attr POSIX_SPAWN_SETSIGDEF \<and> n \<in> attr_sd attr \<or> handlers (proc s) n \<noteq> SIG_IGN)
     then SIG_DFL else handlers (proc s) n)"
proof -
  have "n \<in> set [1..NSIG - 1]" if "n \<in> all_signals" using that by (simp add: all_signals_def NSIG_def)
  moreover have "all_signals - uncatchable \<subseteq> all_signals" "distinct [1..NSIG - 1]" by auto
  ultimately show ?thesis unfolding set_signals_def assms by (subst reset_signals_handlers) auto
qed

lemma set_signals_frame [simp]: "(proc (set_signals attr s))\<lparr>handlers := f\<rparr> = (proc s)\<lparr>handlers := f\<rparr>"
  by (simp add: set_signals_def)

lemma set_signals_proc:
  "proc (set_signals attr s) = (proc s)\<lparr>handlers := handlers (proc (set_signals attr s))\<rparr>"
proof -
  have "p\<lparr>handlers := handlers p\<rparr> = p" for p :: process by simp
  then show ?thesis using set_signals_frame [of "handlers (proc (set_signals attr s))" attr s] by metis
qed

subsection \<open>The attributes\<close>

lemma set_scheduling_proc:
  assumes "set_scheduling k a s = Inr t"
  shows "\<exists>v. proc t = (proc s)\<lparr>sched := v\<rparr>"
proof -
  have "p\<lparr>sched := sched p\<rparr> = p" for p :: process by simp
  moreover obtain r1 s1 where 1: "sys k (Sched_setparam (attr_sp a)) s = (r1, s1)" by fastforce
  moreover obtain r2 s2 where 2: "sys k (Sched_setscheduler (attr_policy a) (attr_sp a)) s = (r2, s2)" by fastforce
  ultimately consider "proc t = (proc s)\<lparr>sched := sched (proc s)\<rparr>" | "r1 \<noteq> - 1" "t = s1" | "r2 \<noteq> - 1" "t = s2"
    using assms by (auto simp: set_scheduling_def split: if_splits)
  then show ?thesis
  proof cases
    case 2
    then have "proc t = (proc s)\<lparr>sched := (fst (sched (proc s)), attr_sp a)\<rparr>" using sys_done [OF 1] by simp
    then show ?thesis by blast
  next
    case 3
    then have "proc t = (proc s)\<lparr>sched := (attr_policy a, attr_sp a)\<rparr>" using sys_done [OF 2] by simp
    then show ?thesis by blast
  qed blast
qed

lemma set_session_proc:
  "set_session k a s = Inr t \<Longrightarrow> proc t = (if flagged a POSIX_SPAWN_SETSID
    then (proc s)\<lparr>pr_sid := pr_pid (proc s), pr_pgrp := pr_pid (proc s)\<rparr> else proc s)"
  by (auto simp: set_session_def split: if_splits prod.splits dest!: sys_cases)

lemma set_group_proc:
  "set_group k a s = Inr t \<Longrightarrow> proc t = (if flagged a POSIX_SPAWN_SETPGROUP
    then (proc s)\<lparr>pr_pgrp := (if attr_pgrp a = 0 then pr_pid (proc s) else attr_pgrp a)\<rparr> else proc s)"
  by (auto simp: set_group_def split: if_splits prod.splits dest!: sys_cases)

lemma set_terminal_proc:
  "set_terminal k a s = Inr t \<Longrightarrow> (if flagged a POSIX_SPAWN_TCSETPGROUP
    then \<exists>n. files (proc s) (attr_tcpgrp a) = Some (Terminal n) \<and> proc t = (proc s)\<lparr>foreground := (foreground (proc s))(n :=
      (if flagged a POSIX_SPAWN_SETPGROUP \<and> attr_pgrp a \<noteq> 0 then attr_pgrp a else pr_pgrp (proc s)))\<rparr>
    else proc t = proc s)"
  by (auto simp: set_terminal_def Let_def split: if_splits prod.splits option.splits open_file.splits dest!: sys_cases)

lemma reset_ids_proc:
  assumes "reset_ids k a s = Inr t"
  shows "proc t = (if flagged a POSIX_SPAWN_RESETIDS
    then (proc s)\<lparr>euid := uid (proc s), egid := gid (proc s)\<rparr> else proc s)"
proof (cases "flagged a POSIX_SPAWN_RESETIDS")
  case True
  obtain r1 s1 where 1: "sys k (Seteuid (uid (proc s))) s = (r1, s1)" by fastforce
  obtain r2 s2 where 2: "sys k (Setegid (gid (proc s1))) s1 = (r2, s2)" by fastforce
  have z: "r1 = 0" "r2 = 0" "t = s2" using assms True 1 2 by (auto simp: reset_ids_def split: if_splits)
  have "proc s1 = (proc s)\<lparr>euid := uid (proc s)\<rparr>" using sys_done [OF 1] z(1) by simp
  moreover have "proc t = (proc s1)\<lparr>egid := gid (proc s1)\<rparr>" using sys_done [OF 2] z(2,3) by simp
  ultimately show ?thesis using True by simp
qed (use assms in \<open>simp add: reset_ids_def\<close>)

lemma prepare_fields:
  assumes "prepare k a s = Inr u"
  defines "t \<equiv> args_attr a"
  shows "handlers (proc u) = handlers (proc (set_signals t s))" "pr_pid (proc u) = pr_pid (proc s)"
    "pr_sid (proc u) = (if flagged t POSIX_SPAWN_SETSID then pr_pid (proc s) else pr_sid (proc s))"
    "pr_pgrp (proc u) = (if flagged t POSIX_SPAWN_SETPGROUP then (if attr_pgrp t = 0 then pr_pid (proc s) else attr_pgrp t)
       else if flagged t POSIX_SPAWN_SETSID then pr_pid (proc s) else pr_pgrp (proc s))"
    "euid (proc u) = (if flagged t POSIX_SPAWN_RESETIDS then uid (proc s) else euid (proc s))"
    "egid (proc u) = (if flagged t POSIX_SPAWN_RESETIDS then gid (proc s) else egid (proc s))"
    "if flagged t POSIX_SPAWN_TCSETPGROUP then \<exists>n. files (proc s) (attr_tcpgrp t) = Some (Terminal n) \<and>
       foreground (proc u) = (foreground (proc s))(n := pr_pgrp (proc u)) else foreground (proc u) = foreground (proc s)"
    "\<exists>v. steps (map (do_action k) (fa a)) v = Inr u \<and> files (proc v) = files (proc s) \<and> cloexec (proc v) = cloexec (proc s) \<and>
       cwd (proc v) = cwd (proc s) \<and> nofile (proc v) = nofile (proc s) \<and> blocked (proc v) = blocked (proc s)"
proof -
  define s0 where "s0 = set_signals t s"
  obtain s1 s2 s3 s4 s5 where st: "set_scheduling k t s0 = Inr s1" "set_session k t s1 = Inr s2"
    "set_group k t s2 = Inr s3" "set_terminal k t s3 = Inr s4" "reset_ids k t s4 = Inr s5"
    "steps (map (do_action k) (fa a)) s5 = Inr u"
    using assms(1) unfolding prepare_def s0_def t_def
    by (auto simp: steps_append_Inr steps_Cons_Inr simp del: steps.simps(2))
  obtain H where p0: "proc s0 = (proc s)\<lparr>handlers := H\<rparr>" using set_signals_proc [of t s] unfolding s0_def by blast
  obtain v where p1: "proc s1 = (proc s0)\<lparr>sched := v\<rparr>" using set_scheduling_proc [OF st(1)] by blast
  note p2 = set_session_proc [OF st(2)] and p3 = set_group_proc [OF st(3)] and p4 = set_terminal_proc [OF st(4)]
    and p5 = reset_ids_proc [OF st(5)] and p6 = same_processD [OF actions_frame [OF st(6)]]
  have keeps: "handlers (proc s4) = handlers (proc s3)" "pr_pid (proc s4) = pr_pid (proc s3)" "pr_pgrp (proc s4) = pr_pgrp (proc s3)"
    "pr_sid (proc s4) = pr_sid (proc s3)" "uid (proc s4) = uid (proc s3)" "gid (proc s4) = gid (proc s3)"
    "euid (proc s4) = euid (proc s3)" "egid (proc s4) = egid (proc s3)" "files (proc s4) = files (proc s3)"
    "cloexec (proc s4) = cloexec (proc s3)" "cwd (proc s4) = cwd (proc s3)" "nofile (proc s4) = nofile (proc s3)"
    "blocked (proc s4) = blocked (proc s3)"
    using p4 by (auto split: if_splits)
  have H: "handlers (proc (set_signals t s)) = H" using p0 unfolding s0_def by simp
  show "handlers (proc u) = handlers (proc (set_signals t s))" "pr_pid (proc u) = pr_pid (proc s)"
    "pr_sid (proc u) = (if flagged t POSIX_SPAWN_SETSID then pr_pid (proc s) else pr_sid (proc s))"
    "pr_pgrp (proc u) = (if flagged t POSIX_SPAWN_SETPGROUP then (if attr_pgrp t = 0 then pr_pid (proc s) else attr_pgrp t)
       else if flagged t POSIX_SPAWN_SETSID then pr_pid (proc s) else pr_pgrp (proc s))"
    "euid (proc u) = (if flagged t POSIX_SPAWN_RESETIDS then uid (proc s) else euid (proc s))"
    "egid (proc u) = (if flagged t POSIX_SPAWN_RESETIDS then gid (proc s) else egid (proc s))"
    by (simp_all add: p0 p1 p2 p3 p5 p6 keeps H)
  have pg: "pr_pgrp (proc u) = pr_pgrp (proc s3)" by (simp add: p5 p6 keeps)
  have f3: "files (proc s3) = files (proc s)" "foreground (proc s3) = foreground (proc s)" by (simp_all add: p0 p1 p2 p3)
  have pg3: "(if flagged t POSIX_SPAWN_SETPGROUP \<and> attr_pgrp t \<noteq> 0 then attr_pgrp t else pr_pgrp (proc s3)) = pr_pgrp (proc s3)"
    by (simp add: p3)
  show "if flagged t POSIX_SPAWN_TCSETPGROUP then \<exists>n. files (proc s) (attr_tcpgrp t) = Some (Terminal n) \<and>
      foreground (proc u) = (foreground (proc s))(n := pr_pgrp (proc u)) else foreground (proc u) = foreground (proc s)"
    using p4 unfolding pg pg3 f3 by (auto simp: p5 p6(4) f3 split: if_splits)
  have "files (proc s5) = files (proc s)" "cloexec (proc s5) = cloexec (proc s)" "cwd (proc s5) = cwd (proc s)"
    "nofile (proc s5) = nofile (proc s)" "blocked (proc s5) = blocked (proc s)"
    by (simp_all add: p0 p1 p2 p3 p5 keeps)
  then show "\<exists>v. steps (map (do_action k) (fa a)) v = Inr u \<and> files (proc v) = files (proc s) \<and> cloexec (proc v) = cloexec (proc s) \<and>
      cwd (proc v) = cwd (proc s) \<and> nofile (proc v) = nofile (proc s) \<and> blocked (proc v) = blocked (proc s)"
    using st(6) by blast
qed

lemma spawni_child_fields:
  assumes "spawni_child k a s = Inr q"
  defines "t \<equiv> args_attr a"
  shows "blocked q = (if flagged t POSIX_SPAWN_SETSIGMASK then attr_ss t else oldmask a) - uncatchable"
    "handlers q n = (case handlers (proc (set_signals t s)) n of Catch h \<Rightarrow> SIG_DFL | h \<Rightarrow> h)"
    "pr_pid q = pr_pid (proc s)"
    "pr_sid q = (if flagged t POSIX_SPAWN_SETSID then pr_pid (proc s) else pr_sid (proc s))"
    "pr_pgrp q = (if flagged t POSIX_SPAWN_SETPGROUP then (if attr_pgrp t = 0 then pr_pid (proc s) else attr_pgrp t)
       else if flagged t POSIX_SPAWN_SETSID then pr_pid (proc s) else pr_pgrp (proc s))"
    "if flagged t POSIX_SPAWN_TCSETPGROUP then \<exists>n. files (proc s) (attr_tcpgrp t) = Some (Terminal n) \<and>
       foreground q = (foreground (proc s))(n := pr_pgrp q) else foreground q = foreground (proc s)"
    "euid q = (if flagged t POSIX_SPAWN_RESETIDS then uid (proc s) else euid (proc s))"
    "egid q = (if flagged t POSIX_SPAWN_RESETIDS then gid (proc s) else egid (proc s))"
    "program q = Some (path_file a, args_argv a, args_envp a)"
proof -
  obtain u where prep: "prepare k a s = Inr u"
    and q: "q = executed (path_file a) (args_argv a) (args_envp a)
      (set_mask (if flagged t POSIX_SPAWN_SETSIGMASK then attr_ss t else oldmask a) (proc u))"
    using assms(1) unfolding t_def by (auto simp: spawni_child_def Let_def split: sum.splits option.splits)
  note u = prepare_fields [OF prep, folded t_def]
  show "blocked q = (if flagged t POSIX_SPAWN_SETSIGMASK then attr_ss t else oldmask a) - uncatchable"
    "handlers q n = (case handlers (proc (set_signals t s)) n of Catch h \<Rightarrow> SIG_DFL | h \<Rightarrow> h)"
    "pr_pid q = pr_pid (proc s)"
    "pr_sid q = (if flagged t POSIX_SPAWN_SETSID then pr_pid (proc s) else pr_sid (proc s))"
    "pr_pgrp q = (if flagged t POSIX_SPAWN_SETPGROUP then (if attr_pgrp t = 0 then pr_pid (proc s) else attr_pgrp t)
       else if flagged t POSIX_SPAWN_SETSID then pr_pid (proc s) else pr_pgrp (proc s))"
    "euid q = (if flagged t POSIX_SPAWN_RESETIDS then uid (proc s) else euid (proc s))"
    "egid q = (if flagged t POSIX_SPAWN_RESETIDS then gid (proc s) else egid (proc s))"
    "program q = Some (path_file a, args_argv a, args_envp a)"
    using u(1-6) by (simp_all add: q executed_def set_mask_def)
  show "if flagged t POSIX_SPAWN_TCSETPGROUP then \<exists>n. files (proc s) (attr_tcpgrp t) = Some (Terminal n) \<and>
      foreground q = (foreground (proc s))(n := pr_pgrp q) else foreground q = foreground (proc s)"
    using u(7) by (simp add: q executed_def set_mask_def)
qed

subsection \<open>The program starts as asked\<close>

text \<open>
  C34: A program that is executed starts with the signal mask asked for, or that of the caller, with every
  signal ignored or with its default action, none ignored that was not before; in the session, with the
  identities and in the group asked for; and with this group in the foreground of the terminal when that
  is asked for.
\<close>

theorem child_contract:
  assumes "spawni_child k a s = Inr q" "blocked (proc s) = all_signals - uncatchable"
  shows "blocked q = (if flagged (args_attr a) POSIX_SPAWN_SETSIGMASK then attr_ss (args_attr a) else oldmask a) - uncatchable \<and>
    (\<forall>n\<in>all_signals - uncatchable. handlers q n =
       (if handlers (proc s) n = SIG_IGN \<and> \<not> (flagged (args_attr a) POSIX_SPAWN_SETSIGDEF \<and> n \<in> attr_sd (args_attr a))
        then SIG_IGN else SIG_DFL)) \<and>
    pr_pid q = pr_pid (proc s) \<and>
    pr_sid q = (if flagged (args_attr a) POSIX_SPAWN_SETSID then pr_pid q else pr_sid (proc s)) \<and>
    pr_pgrp q = (if flagged (args_attr a) POSIX_SPAWN_SETPGROUP then
         (if attr_pgrp (args_attr a) = 0 then pr_pid q else attr_pgrp (args_attr a))
       else if flagged (args_attr a) POSIX_SPAWN_SETSID then pr_pid q else pr_pgrp (proc s)) \<and>
    (if flagged (args_attr a) POSIX_SPAWN_TCSETPGROUP
     then \<exists>t. files (proc s) (attr_tcpgrp (args_attr a)) = Some (Terminal t) \<and>
       foreground q = (foreground (proc s))(t := pr_pgrp q)
     else foreground q = foreground (proc s)) \<and>
    euid q = (if flagged (args_attr a) POSIX_SPAWN_RESETIDS then uid (proc s) else euid (proc s)) \<and>
    egid q = (if flagged (args_attr a) POSIX_SPAWN_RESETIDS then gid (proc s) else egid (proc s)) \<and>
    program q = Some (path_file a, args_argv a, args_envp a)"
  using spawni_child_fields [OF assms(1)] set_signals_handlers [OF assms(2)]
  by (auto split: handler.splits if_splits)

definition sample_process :: process where
  "sample_process = \<lparr>pr_pid = 300, pr_pgrp = 100, pr_sid = 100, foreground = (\<lambda>t. 100), handlers = (\<lambda>n. if n = 2 then SIG_IGN else Catch 1),
     blocked = all_signals - uncatchable, files = [0 \<mapsto> Terminal 0, 1 \<mapsto> Terminal 0, 2 \<mapsto> Terminal 0, 4 \<mapsto> Terminal 0],
     cloexec = {4}, cwd = Start, nofile = 16, uid = 1000, gid = 1000, euid = 1000, egid = 1000, sched = (0, 0), program = None\<rparr>"

definition lax_kernel :: kernel where
  "lax_kernel = \<lparr>refuses = (\<lambda>c p. None), exec_refuses = (\<lambda>s f a e p. None)\<rparr>"

definition sample_args :: posix_spawn_args where
  "sample_args = \<lparr>oldmask = {17}, path_file = ''ls'', search_path = True, fa = [],
     args_attr = zero_attr\<lparr>attr_flags := POSIX_SPAWN_SETPGROUP OR POSIX_SPAWN_TCSETPGROUP, attr_tcpgrp := 4\<rparr>,
     args_argv = [''ls''], args_envp = []\<rparr>"

lemma sample_runs: "\<exists>q. spawni_child lax_kernel sample_args \<lparr>errno = 0, proc = sample_process\<rparr> = Inr q"
proof -
  obtain H where "proc (set_signals (args_attr sample_args) \<lparr>errno = 0, proc = sample_process\<rparr>) = sample_process\<lparr>handlers := H\<rparr>"
    using set_signals_proc [of "args_attr sample_args" "\<lparr>errno = 0, proc = sample_process\<rparr>"] by simp
  then show ?thesis
    by (simp add: spawni_child_def prepare_def set_scheduling_def set_session_def set_group_def set_terminal_def reset_ids_def
        sys_def lax_kernel_def check_def sample_args_def zero_attr_def flagged_def spawn_flag_defs sample_process_def Let_def)
qed

theorem child_contract_witness:
  "\<exists>q. spawni_child lax_kernel sample_args \<lparr>errno = 0, proc = sample_process\<rparr> = Inr q \<and> blocked q = {17} \<and>
    pr_pgrp q = 300 \<and> foreground q 0 = 300 \<and> handlers q 2 = SIG_IGN \<and> handlers q 15 = SIG_DFL"
proof -
  obtain q where q: "spawni_child lax_kernel sample_args \<lparr>errno = 0, proc = sample_process\<rparr> = Inr q"
    using sample_runs by blast
  have "blocked (proc \<lparr>errno = 0, proc = sample_process\<rparr>) = all_signals - uncatchable" by (simp add: sample_process_def)
  then show ?thesis
    using child_contract [OF q] q
    by (auto simp: sample_args_def sample_process_def zero_attr_def flagged_def spawn_flag_defs all_signals_def uncatchable_def
        internal_def NSIG_def split: if_splits)
qed

subsection \<open>Open files\<close>

text \<open>The actions that duplicate and open, as they change the table of the files and the set of those to be closed.\<close>

type_synonym file_table = "(int \<Rightarrow> open_file option) \<times> int set"

fun action_effect :: "location \<Rightarrow> spawn_action \<Rightarrow> file_table \<Rightarrow> file_table" where
  "action_effect d (spawn_do_dup2 fd newfd) (F, C) = (F(newfd := F fd), C - {newfd})"
| "action_effect d (spawn_do_open fd path oflag mode) (F, C) = (F(fd \<mapsto> Opened d path oflag mode), C - {fd})"
| "action_effect d a T = T"

fun plain_action :: "spawn_action \<Rightarrow> bool" where
  "plain_action (spawn_do_dup2 fd newfd) = (0 \<le> newfd)"
| "plain_action (spawn_do_open fd path oflag mode) = (0 \<le> fd \<and> oflag AND O_CLOEXEC = 0)"
| "plain_action a = False"

definition marked_open :: "process \<Rightarrow> bool" where
  "marked_open p \<longleftrightarrow> cloexec p \<subseteq> dom (files p)"

definition table :: "process \<Rightarrow> file_table" where
  "table p = (files p, cloexec p)"

lemma dup2_table:
  assumes "do_action k (spawn_do_dup2 fd newfd) s = Inr t" "0 \<le> newfd" "marked_open (proc s)"
  shows "table (proc t) = action_effect d (spawn_do_dup2 fd newfd) (table (proc s))" "marked_open (proc t)"
    "cwd (proc t) = cwd (proc s)"
proof -
  have "files (proc t) = (files (proc s))(newfd := files (proc s) fd) \<and> cloexec (proc t) = cloexec (proc s) - {newfd} \<and>
      files (proc s) fd \<noteq> None \<and> cwd (proc t) = cwd (proc s)"
  proof (cases "fd = newfd")
    case True
    obtain r1 s1 where 1: "sys k (Getfd newfd) s = (r1, s1)" by fastforce
    obtain r2 s2 where 2: "sys k (Setfd newfd (r1 AND NOT FD_CLOEXEC)) s1 = (r2, s2)" by fastforce
    have z: "r1 \<noteq> - 1" "r2 \<noteq> - 1" "t = s2" using assms(1) True 1 2 by (auto split: if_splits)
    have p1: "proc s1 = proc s" "files (proc s) newfd \<noteq> None" using sys_done [OF 1 z(1)] by (auto split: if_splits)
    have "(r1 AND NOT FD_CLOEXEC) AND FD_CLOEXEC = 0" by (simp add: and.assoc)
    then have "proc t = (proc s1)\<lparr>cloexec := cloexec (proc s1) - {newfd}\<rparr>"
      using sys_done [OF 2 z(2)] z(3) p1 by (auto split: if_splits)
    then show ?thesis using p1 True by auto
  next
    case False
    obtain r s1 where 1: "sys k (Dup_to fd newfd) s = (r, s1)" by fastforce
    have z: "r = newfd" "t = s1" "r \<noteq> - 1" using assms(1,2) False 1 by auto
    then have "files (proc s) fd \<noteq> None"
      "proc t = (proc s)\<lparr>files := (files (proc s))(newfd := files (proc s) fd), cloexec := cloexec (proc s) - {newfd}\<rparr>"
      using sys_done [OF 1] False by (auto split: if_splits)
    then show ?thesis by simp
  qed
  then show "table (proc t) = action_effect d (spawn_do_dup2 fd newfd) (table (proc s))" "marked_open (proc t)"
    "cwd (proc t) = cwd (proc s)"
    using assms(3) by (auto simp: table_def marked_open_def)
qed

lemma free_fd_free: "free_fd p = Some fd \<Longrightarrow> files p fd = None"
  by (auto simp: free_fd_def find_Some_iff)

lemma close_table:
  assumes "sys k (Close_fd fd) s = (r, t)" "marked_open (proc s)"
  shows "proc t = proc s \<or> proc t = (proc s)\<lparr>files := (files (proc s))(fd := None), cloexec := cloexec (proc s) - {fd}\<rparr>"
    "r \<noteq> - 1 \<Longrightarrow> proc t = (proc s)\<lparr>files := (files (proc s))(fd := None), cloexec := cloexec (proc s) - {fd}\<rparr>"
    "marked_open (proc t)"
proof -
  let ?p = "(proc s)\<lparr>files := (files (proc s))(fd := None), cloexec := cloexec (proc s) - {fd}\<rparr>"
  have c: "r = - 1 \<and> proc t = proc s \<or> r \<noteq> - 1 \<and> proc t = ?p"
    using sys_cases [OF assms(1)] by (auto split: if_splits)
  then show "proc t = proc s \<or> proc t = ?p" "r \<noteq> - 1 \<Longrightarrow> proc t = ?p" by auto
  show "marked_open (proc t)" using c assms(2) by (auto simp: marked_open_def)
qed

lemma open_table:
  assumes "do_action k (spawn_do_open fd path oflag mode) s = Inr t" "0 \<le> fd" "oflag AND O_CLOEXEC = 0" "marked_open (proc s)"
  shows "table (proc t) = action_effect (cwd (proc s)) (spawn_do_open fd path oflag mode) (table (proc s))" "marked_open (proc t)"
    "cwd (proc t) = cwd (proc s)"
proof -
  let ?x = "Opened (cwd (proc s)) path oflag mode"
  obtain r1 s1 where 1: "sys k (Close_fd fd) s = (r1, s1)" by fastforce
  obtain n s2 where 2: "sys k (Open_path path (oflag OR O_LARGEFILE) mode) s1 = (n, s2)" by fastforce
  obtain r3 s3 where 3: "sys k (Dup_to n fd) s2 = (r3, s3)" by fastforce
  obtain r4 s4 where 4: "sys k (Close_fd n) s3 = (r4, s4)" by fastforce
  have n: "n \<noteq> - 1" using assms(1) 1 2 by auto
  note c1 = close_table [OF 1 assms(4)]
  have cw: "cwd (proc s1) = cwd (proc s)" using c1(1) by auto
  have p2: "proc s2 = (proc s1)\<lparr>files := (files (proc s1))(n \<mapsto> ?x), cloexec := cloexec (proc s1) - {n}\<rparr>"
    and free: "files (proc s1) n = None"
    using sys_done [OF 2 n] free_fd_free assms(3) cw by (auto simp: O_LARGEFILE_def split: option.splits)
  have unmarked: "n \<notin> cloexec (proc s1)" using c1(3) free by (auto simp: marked_open_def)
  have "files (proc t) = (files (proc s))(fd \<mapsto> ?x) \<and> cloexec (proc t) = cloexec (proc s) - {fd} \<and> cwd (proc t) = cwd (proc s)"
  proof (cases "n = fd")
    case True
    then have "t = s2" using assms(1) 1 2 n by simp
    have "files (proc s2) = (files (proc s1))(fd \<mapsto> ?x)" "cloexec (proc s2) = cloexec (proc s1)" "cwd (proc s2) = cwd (proc s)"
      using p2 True unmarked cw by simp_all
    then show ?thesis unfolding \<open>t = s2\<close> using c1(1) unmarked True by (elim disjE) simp_all
  next
    case False
    then have z: "r3 = fd" "r4 = 0" "t = s4" using assms(1) 1 2 3 4 n by (auto split: if_splits)
    then have p3: "proc s3 = (proc s2)\<lparr>files := (files (proc s2))(fd := files (proc s2) n), cloexec := cloexec (proc s2) - {fd}\<rparr>"
      using sys_done [OF 3] False assms(2) by (auto split: if_splits)
    have p4: "proc t = (proc s3)\<lparr>files := (files (proc s3))(n := None), cloexec := cloexec (proc s3) - {n}\<rparr>"
      using sys_done [OF 4] z by (auto split: if_splits)
    have "((files (proc s1))(n \<mapsto> ?x, fd \<mapsto> ?x))(n := None) = (files (proc s1))(fd \<mapsto> ?x)" using False free by auto
    then have "files (proc t) = (files (proc s1))(fd \<mapsto> ?x)" by (simp add: p2 p3 p4)
    moreover have "cloexec (proc t) = cloexec (proc s1) - {fd}" using unmarked by (auto simp: p2 p3 p4)
    moreover have "cwd (proc t) = cwd (proc s)" by (simp add: p2 p3 p4 cw)
    ultimately show ?thesis using c1(1) by (elim disjE) simp_all
  qed
  then show "table (proc t) = action_effect (cwd (proc s)) (spawn_do_open fd path oflag mode) (table (proc s))" "marked_open (proc t)"
    "cwd (proc t) = cwd (proc s)"
    using assms(4) by (auto simp: table_def marked_open_def)
qed

lemma actions_table:
  "steps (map (do_action k) as) s = Inr t \<Longrightarrow> list_all plain_action as \<Longrightarrow> marked_open (proc s) \<Longrightarrow>
    table (proc t) = fold (action_effect (cwd (proc s))) as (table (proc s))"
proof (induction "as" arbitrary: s)
  case (Cons a "as")
  then obtain u where u: "do_action k a s = Inr u" "steps (map (do_action k) as) u = Inr t"
    by (auto split: sum.splits)
  have a: "table (proc u) = action_effect (cwd (proc s)) a (table (proc s)) \<and> marked_open (proc u) \<and> cwd (proc u) = cwd (proc s)"
    using Cons.prems(2,3) u(1) dup2_table open_table by (cases a) (auto simp del: do_action.simps)
  then show ?case using Cons.IH [OF u(2)] Cons.prems(2) by auto
qed simp

text \<open>The files of the program: those the actions leave in the table, without the ones marked.\<close>

definition kept_files :: "file_table \<Rightarrow> int \<Rightarrow> open_file option" where
  "kept_files T = (\<lambda>fd. if fd \<in> snd T then None else fst T fd)"

lemma child_files:
  assumes "spawni_child k a s = Inr q" "list_all plain_action (fa a)" "marked_open (proc s)"
  shows "files q = kept_files (fold (action_effect (cwd (proc s))) (fa a) (table (proc s)))"
proof -
  obtain u m where u: "prepare k a s = Inr u" "q = executed (path_file a) (args_argv a) (args_envp a) (set_mask m (proc u))"
    using assms(1) by (auto simp: spawni_child_def Let_def split: sum.splits option.splits)
  obtain v where v: "steps (map (do_action k) (fa a)) v = Inr u" "files (proc v) = files (proc s)"
    "cloexec (proc v) = cloexec (proc s)" "cwd (proc v) = cwd (proc s)"
    using prepare_fields(8) [OF u(1)] by blast
  then have "table (proc u) = fold (action_effect (cwd (proc s))) (fa a) (table (proc s))"
    using actions_table [OF v(1) assms(2)] assms(3) by (simp add: marked_open_def table_def)
  moreover have "files q = kept_files (table (proc u))"
    unfolding u(2) executed_def set_mask_def kept_files_def table_def by (simp add: fun_eq_iff)
  ultimately show ?thesis by simp
qed

subsection \<open>The caller\<close>

lemma exit_error_pos: "0 < exit_error s"
  by (simp add: exit_error_def ECHILD_def)

lemma spawni_child_error: "spawni_child k a s = Inl e \<Longrightarrow> 0 < e"
  using exit_error_pos by (auto simp: spawni_child_def Let_def split: sum.splits option.splits)

lemma set_mask_restores: "blocked p \<inter> uncatchable = {} \<Longrightarrow> set_mask (blocked p) (block_all p) = p"
proof -
  assume "blocked p \<inter> uncatchable = {}"
  then have "blocked p - uncatchable = blocked p" by blast
  then show ?thesis by (simp add: set_mask_def block_all_def)
qed

lemma block_all_blocked: "blocked p \<subseteq> all_signals \<Longrightarrow> blocked (block_all p) = all_signals - uncatchable"
  by (auto simp: block_all_def set_mask_def)

lemma block_all_fields [simp]: "files (block_all p) = files p" "cloexec (block_all p) = cloexec p" "cwd (block_all p) = cwd p"
  "nofile (block_all p) = nofile p" "pr_pgrp (block_all p) = pr_pgrp p" "foreground (block_all p) = foreground p"
  "handlers (block_all p) = handlers p" "pr_sid (block_all p) = pr_sid p"
  by (simp_all add: block_all_def set_mask_def)

definition spawn_args :: "string \<Rightarrow> spawn_action list option \<Rightarrow> posix_spawnattr_t option \<Rightarrow> string list \<Rightarrow> string list \<Rightarrow> parent \<Rightarrow>
    posix_spawn_args" where
  "spawn_args file acts attrp argv envp p =
     \<lparr>oldmask = blocked (self p), path_file = file, search_path = True, fa = (case acts of None \<Rightarrow> [] | Some fs \<Rightarrow> fs),
      args_attr = (case attrp of None \<Rightarrow> zero_attr | Some t \<Rightarrow> t), args_argv = argv, args_envp = envp\<rparr>"

lemma posix_spawnp_cases:
  assumes "blocked (self p) \<inter> uncatchable = {}"
  shows "posix_spawnp k w pid file acts attrp argv envp p =
    (case count_args argv 0 of None \<Rightarrow> (int E2BIG, pid, None, p)
     | Some argc \<Rightarrow> (case mmap_error w of Some e \<Rightarrow> (int e, pid, None, p)
     | None \<Rightarrow> (case clone_result w of Inl e \<Rightarrow> (1, pid, None, p)
     | Inr n \<Rightarrow> if dies w then (0, Some n, None, p)
        else (case spawni_child k (spawn_args file acts attrp argv envp p)
                    \<lparr>errno = 0, proc = (block_all (self p))\<lparr>pr_pid := n\<rparr>\<rparr> of
                Inl e \<Rightarrow> (int e, pid, None, p\<lparr>reaped := n # reaped p\<rparr>)
              | Inr q \<Rightarrow> (0, Some n, Some q, p)))))"
  using spawni_child_error
  by (auto simp: posix_spawnp_def spawnix_def Let_def set_mask_restores [OF assms] spawn_args_def
      split: option.splits sum.splits)

text \<open>
  C35: Whatever fails, the caller goes on with its signal mask, its cancellation state and its mappings as
  they were; it gets 0 and the number of the process exactly when there is one that has executed the
  program or was ended by a signal before; and a process that could not execute it has been waited for.
\<close>

theorem posix_spawnp_outcome:
  assumes "posix_spawnp k w pid file acts attrp argv envp p = (ec, pid', started, p')"
    "blocked (self p) \<inter> uncatchable = {}" "mmap_error w \<noteq> Some 0"
  shows "self p' = self p \<and> cancellable p' = cancellable p \<and> stacks p' = stacks p \<and> 0 \<le> ec \<and>
    (if ec = 0 then \<exists>n. clone_result w = Inr n \<and> pid' = Some n \<and> reaped p' = reaped p \<and> (started = None) = dies w
     else pid' = pid \<and> started = None \<and> reaped p' =
       (if count_args argv 0 = None \<or> mmap_error w \<noteq> None then reaped p
        else case clone_result w of Inl e \<Rightarrow> reaped p | Inr n \<Rightarrow> n # reaped p))"
  using assms(1,3) unfolding posix_spawnp_cases [OF assms(2)]
  by (auto simp: E2BIG_def split: option.splits sum.splits if_splits dest: spawni_child_error)

definition sample_parent :: parent where
  "sample_parent = \<lparr>self = sample_process\<lparr>blocked := {17}\<rparr>, cancellable = True, stacks = [], reaped = []\<rparr>"

definition started_child :: spawn_answers where
  "started_child = \<lparr>mmap_error = None, clone_result = Inr 300, dies = False\<rparr>"

theorem posix_spawnp_outcome_witness:
  "\<exists>ec pid started p. posix_spawnp lax_kernel started_child None ''ls'' None None [''ls''] [] sample_parent = (ec, pid, started, p) \<and>
    blocked (self p) = {17} \<and> stacks p = [] \<and> (ec = 0 \<longrightarrow> pid = Some 300)"
proof -
  obtain ec pid started p where r: "posix_spawnp lax_kernel started_child None ''ls'' None None [''ls''] [] sample_parent = (ec, pid, started, p)"
    by (metis prod_cases4)
  then show ?thesis
    using posix_spawnp_outcome [OF r] by (auto simp: sample_parent_def sample_process_def started_child_def uncatchable_def split: if_splits)
qed

text \<open>When \<open>clone\<close> fails, the caller is told 1, which is \<open>EPERM\<close>, instead of the error of \<open>clone\<close>.\<close>

lemma clone_error_lost:
  assumes "clone_result w = Inl e" "mmap_error w = None" "count_args argv 0 \<noteq> None" "blocked (self p) \<inter> uncatchable = {}"
  shows "fst (posix_spawnp k w pid file acts attrp argv envp p) = int EPERM"
  using assms(1-3) by (auto simp: posix_spawnp_cases [OF assms(4)] EPERM_def)

subsection \<open>The stack\<close>

lemma and_not_mask: "(x :: 64 word) AND NOT m = x - (x AND m)"
proof -
  have "(x AND m) + (x AND NOT m) = (x AND m) OR (x AND NOT m)"
    by (rule disjunctive_add) (auto simp: bit_simps)
  also have "\<dots> = x" by (intro bit_word_eqI) (auto simp: bit_simps)
  finally show ?thesis by (metis add_diff_cancel_left')
qed

text \<open>
  The stack of the child has room for the arguments and 32768 bytes besides, although it is rounded
  up to the number 30 of a configuration variable in place of the size of a page; its size is then no
  multiple of 16 in general.
\<close>

theorem stack_size_bounds:
  assumes "0 \<le> argc" "argc < 2 ^ 31"
  shows "8 * argc + 33280 \<le> uint (stack_size argc) \<and> uint (stack_size argc) < 8 * argc + 33280 + 30"
proof -
  define a where "a = (word_of_int argc * 8 + 512 + 32 * 1024 :: 64 word)"
  define y where "y = a + 29"
  have ua: "uint a = 8 * argc + 33280"
    using assms by (simp add: a_def uint_word_ariths uint_word_of_int mult.commute)
  have uy: "uint y = 8 * argc + 33280 + 29" using assms ua by (simp add: y_def uint_word_ariths)
  have "stack_size argc = y AND NOT 29"
    by (simp add: stack_size_def Let_def ALIGN_UP_def ALIGN_DOWN_def dl_pagesize_def a_def y_def ac_simps)
  also have "\<dots> = y - (y AND 29)" by (rule and_not_mask)
  finally have s: "stack_size argc = y - (y AND 29)" .
  have le: "y AND 29 \<le> 29" by (rule word_and_le1)
  then have "uint (y AND 29) \<le> 29" by (simp add: word_le_def)
  moreover have "y AND 29 \<le> y" by (rule word_and_le2)
  then have "uint (y - (y AND 29)) = uint y - uint (y AND 29)" by (simp add: uint_minus_simple_alt word_le_def)
  moreover have "0 \<le> uint (y AND 29)" by simp
  ultimately show ?thesis using uy unfolding s by linarith
qed

theorem stack_size_bounds_witness: "uint (stack_size 2) = 33312 \<and> 8 * 2 + 33280 \<le> uint (stack_size 2)"
  using stack_size_bounds [of 2]
  by (simp add: stack_size_def ALIGN_UP_def ALIGN_DOWN_def dl_pagesize_def)

end
