(* ===== verification/Pipeline.thy ===== *)
theory Pipeline
  imports Shell_Spec Spawn_Spec
begin

text \<open>
  The shell and the processes it starts together: a request of \<open>handle_job\<close> in \<open>cush.c\<close> is carried out
  by \<open>posix_spawnp\<close>, and each program of a pipeline gets the files its place in the pipeline asks for.
\<close>

definition O_RDONLY :: int where "O_RDONLY = 0"
definition O_WRONLY :: int where "O_WRONLY = 1"
definition O_CREAT :: int where "O_CREAT = 64"
definition O_TRUNC :: int where "O_TRUNC = 512"
definition O_APPEND :: int where "O_APPEND = 1024"
definition S_IRWXU :: int where "S_IRWXU = 448"

lemmas open_flag_defs = O_RDONLY_def O_WRONLY_def O_CREAT_def O_TRUNC_def O_APPEND_def S_IRWXU_def O_CLOEXEC_def

text \<open>The flags and the mode that \<open>handle_job\<close> opens a file with; 384 is \<open>0600\<close>.\<close>

fun flags_and_mode :: "open_mode \<Rightarrow> int \<times> int" where
  "flags_and_mode For_reading = (O_RDONLY, S_IRWXU)"
| "flags_and_mode Appending = (O_CREAT OR O_WRONLY OR O_APPEND, 384)"
| "flags_and_mode Truncating = (O_CREAT OR O_WRONLY OR O_TRUNC, 384)"

fun spawn_action_of :: "file_action \<Rightarrow> spawn_action" where
  "spawn_action_of (Dup2 fd newfd) = spawn_do_dup2 fd newfd"
| "spawn_action_of (Open fd path m) = spawn_do_open fd path (fst (flags_and_mode m)) (snd (flags_and_mode m))"

definition request_attr :: "request \<Rightarrow> posix_spawnattr_t" where
  "request_attr r =
     (let (_, t) = posix_spawnattr_setflags zero_attr
            (if r_tcsetpgroup r then POSIX_SPAWN_SETPGROUP OR POSIX_SPAWN_TCSETPGROUP else POSIX_SPAWN_SETPGROUP);
          t = t\<lparr>attr_pgrp := r_pgroup r\<rparr>
      in case r_tty r of Some fd \<Rightarrow> snd (posix_spawnattr_tcsetpgrp_np t fd) | None \<Rightarrow> t)"

definition launch :: "kernel \<Rightarrow> spawn_answers \<Rightarrow> request \<Rightarrow> string list \<Rightarrow> parent \<Rightarrow> int \<times> int option \<times> process option \<times> parent" where
  "launch k w r envp p =
     posix_spawnp k w None (hd (r_argv r)) (Some (map spawn_action_of (r_actions r))) (Some (request_attr r)) (r_argv r) envp p"

subsection \<open>What one program gets\<close>

lemma request_attr_eq:
  "request_attr r = zero_attr\<lparr>attr_flags := (if r_tcsetpgroup r then 0x102 else 0x02), attr_pgrp := r_pgroup r,
     attr_tcpgrp := (case r_tty r of Some fd \<Rightarrow> fd | None \<Rightarrow> 0)\<rparr>"
  by (simp add: request_attr_def Let_def posix_spawnattr_setflags_def posix_spawnattr_tcsetpgrp_np_def ALL_FLAGS_def
      spawn_flag_defs zero_attr_def split: option.splits)

lemma request_attr_flags:
  "flagged (request_attr r) POSIX_SPAWN_SETPGROUP" "flagged (request_attr r) POSIX_SPAWN_TCSETPGROUP = r_tcsetpgroup r"
  "\<not> flagged (request_attr r) POSIX_SPAWN_SETSID" "\<not> flagged (request_attr r) POSIX_SPAWN_SETSIGMASK"
  "attr_pgrp (request_attr r) = r_pgroup r" "attr_tcpgrp (request_attr r) = (case r_tty r of Some fd \<Rightarrow> fd | None \<Rightarrow> 0)"
  by (simp_all add: request_attr_eq flagged_def spawn_flag_defs)

lemma launch_executed:
  assumes "launch k w r envp p = (ec, pid, Some q, p')" "blocked (self p) \<inter> uncatchable = {}"
  shows "\<exists>n a. spawni_child k a \<lparr>errno = 0, proc = (block_all (self p))\<lparr>pr_pid := n\<rparr>\<rparr> = Inr q \<and>
    fa a = map spawn_action_of (r_actions r) \<and> args_attr a = request_attr r \<and> oldmask a = blocked (self p) \<and> pid = Some n"
proof -
  let ?a = "spawn_args (hd (r_argv r)) (Some (map spawn_action_of (r_actions r))) (Some (request_attr r)) (r_argv r) envp p"
  have "\<exists>n. spawni_child k ?a \<lparr>errno = 0, proc = (block_all (self p))\<lparr>pr_pid := n\<rparr>\<rparr> = Inr q \<and> pid = Some n"
    using assms(1) unfolding launch_def posix_spawnp_cases [OF assms(2)]
    by (auto split: option.splits sum.splits if_splits)
  moreover have "fa ?a = map spawn_action_of (r_actions r)" "args_attr ?a = request_attr r" "oldmask ?a = blocked (self p)" by (simp_all add: spawn_args_def)
  ultimately show ?thesis by blast
qed

lemma plain_requests:
  "list_all plain_action (map spawn_action_of (joined_actions ends k @ redirections p c front back))"
  by (auto simp: joined_actions_def redirections_def STDIN_FILENO_def STDOUT_FILENO_def STDERR_FILENO_def open_flag_defs
      split: option.splits)

lemma launch_files:
  assumes "launch k w r envp pa = (ec, pid, Some q, pa')" "blocked (self pa) \<inter> uncatchable = {}" "marked_open (self pa)"
    "r_actions r = joined_actions ends j @ redirections p c front back"
  shows "files q = kept_files (fold (action_effect (cwd (self pa))) (map spawn_action_of (r_actions r)) (table (self pa)))"
proof -
  obtain n a where a: "spawni_child k a \<lparr>errno = 0, proc = (block_all (self pa))\<lparr>pr_pid := n\<rparr>\<rparr> = Inr q"
    "fa a = map spawn_action_of (r_actions r)"
    using launch_executed [OF assms(1,2)] by blast
  show ?thesis
    using child_files [OF a(1)] a(2) plain_requests assms(3,4) by (simp add: table_def marked_open_def)
qed

fun target :: "spawn_action \<Rightarrow> int option" where
  "target (spawn_do_dup2 fd newfd) = Some newfd"
| "target (spawn_do_open fd path oflag mode) = Some fd"
| "target a = None"

lemma fold_marked:
  "fd \<in> snd T \<Longrightarrow> \<forall>a\<in>set as. target a \<noteq> Some fd \<Longrightarrow> fd \<in> snd (fold (action_effect d) as T)"
proof (induction "as" arbitrary: T)
  case (Cons a "as")
  have "fd \<in> snd (action_effect d a T)" using Cons.prems by (cases T; cases a) auto
  then show ?case using Cons by simp
qed simp

lemma request_targets:
  "a \<in> set (map spawn_action_of (joined_actions ends k @ redirections p c front back)) \<Longrightarrow> target a \<in> {Some 0, Some 1, Some 2}"
  by (auto simp: joined_actions_def redirections_def STDIN_FILENO_def STDOUT_FILENO_def STDERR_FILENO_def
      split: option.splits if_splits)

lemma redirected:
  fixes d :: location and p :: ast_pipeline and c :: ast_command and front last_one :: bool and F :: "int \<Rightarrow> open_file option"
  assumes "0 \<notin> C" "1 \<notin> C" "2 \<notin> C"
  defines "R \<equiv> kept_files (fold (action_effect d) (map spawn_action_of (redirections p c front last_one)) (F, C))"
  shows "R 0 = (if front then case iored_input p of Some f \<Rightarrow> Some (Opened d f O_RDONLY S_IRWXU) | None \<Rightarrow> F 0 else F 0)"
    "R 1 = (if last_one then case iored_output p of
        Some f \<Rightarrow> Some (Opened d f (O_CREAT OR O_WRONLY OR (if append_to_output p then O_APPEND else O_TRUNC)) 384)
      | None \<Rightarrow> F 1 else F 1)"
    "R 2 = (if dup_stderr_to_stdout c then R 1 else F 2)"
  using assms(1-3) unfolding R_def redirections_def
  by (cases "iored_input p"; cases "iored_output p"; simp add: kept_files_def STDIN_FILENO_def STDOUT_FILENO_def STDERR_FILENO_def)+

text \<open>The pipes as \<open>pipe2\<close> opens them in the shell, above the standard descriptors and closed on execution.\<close>

definition pipes_open :: "(int \<times> int) list \<Rightarrow> process \<Rightarrow> bool" where
  "pipes_open ends p \<longleftrightarrow> marked_open p \<and> cloexec p \<inter> {0, 1, 2} = {} \<and>
     (\<forall>j<length ends. 3 \<le> fst (ends ! j) \<and> 3 \<le> snd (ends ! j) \<and> {fst (ends ! j), snd (ends ! j)} \<subseteq> cloexec p \<and>
        files p (fst (ends ! j)) = Some (Pipe_read j) \<and> files p (snd (ends ! j)) = Some (Pipe_write j))"

text \<open>
  C33: Each program of a pipeline that is executed reads from the pipe of the one before it, the first from
  the input file or as the shell does; writes to the pipe of the next one, the last to the output file or
  as the shell does; has its errors go where its output goes when that is asked for; and holds no other
  end of a pipe, so that the end of the data is seen.
\<close>

theorem pipeline_files:
  assumes "handle_job w p a s = Some (Inr s')" "pipe_fds w = map Some ends" "length (commands p) = length ends + 1"
    "requests s' = requests s @ rs" "j < length (commands p)"
    "launch k sa (rs ! j) envp pa = (ec, pid, Some q, pa')"
    "pipes_open ends (self pa)" "blocked (self pa) \<inter> uncatchable = {}"
  shows "files q 0 =
      (if 0 < j then Some (Pipe_read (j - 1))
       else case iored_input p of Some f \<Rightarrow> Some (Opened (cwd (self pa)) f O_RDONLY S_IRWXU) | None \<Rightarrow> files (self pa) 0) \<and>
    files q 1 =
      (if j < length ends then Some (Pipe_write j)
       else case iored_output p of
          Some f \<Rightarrow> Some (Opened (cwd (self pa)) f (O_CREAT OR O_WRONLY OR (if append_to_output p then O_APPEND else O_TRUNC)) 384)
        | None \<Rightarrow> files (self pa) 1) \<and>
    files q 2 = (if dup_stderr_to_stdout (commands p ! j) then files q 1 else files (self pa) 2) \<and>
    (\<forall>i<length ends. files q (fst (ends ! i)) = None \<and> files q (snd (ends ! i)) = None)"
proof -
  have acts: "r_actions (rs ! j) =
      joined_actions ends j @ redirections p (commands p ! j) (j = 0) (j = length ends)"
    using handle_job_requests [OF assms(1-3)] assms(4,5) by auto
  have m: "marked_open (self pa)" using assms(7) by (simp add: pipes_open_def)
  note f = launch_files [OF assms(6,8) m acts]
  have std: "0 \<notin> cloexec (self pa)" "1 \<notin> cloexec (self pa)" "2 \<notin> cloexec (self pa)" using assms(7) by (auto simp: pipes_open_def)
  have ends: "3 \<le> fst (ends ! i)" "3 \<le> snd (ends ! i)" "fst (ends ! i) \<in> cloexec (self pa)" "snd (ends ! i) \<in> cloexec (self pa)"
    "files (self pa) (fst (ends ! i)) = Some (Pipe_read i)" "files (self pa) (snd (ends ! i)) = Some (Pipe_write i)"
    if "i < length ends" for i using assms(7) that by (auto simp: pipes_open_def)
  have closed: "files q fd = None" if "fd \<in> cloexec (self pa)" "3 \<le> fd" for fd
  proof -
    have "fd \<in> snd (fold (action_effect (cwd (self pa))) (map spawn_action_of (r_actions (rs ! j))) (table (self pa)))"
      using that request_targets by (intro fold_marked) (force simp: table_def acts)+
    then show ?thesis by (simp add: f kept_files_def)
  qed
  let ?T = "fold (action_effect (cwd (self pa))) (map spawn_action_of (joined_actions ends j)) (table (self pa))"
  have joined: "fst ?T 0 = (if 0 < j then Some (Pipe_read (j - 1)) else files (self pa) 0)"
    "fst ?T 1 = (if j < length ends then Some (Pipe_write j) else files (self pa) 1)" "fst ?T 2 = files (self pa) 2"
    "snd ?T \<inter> {0, 1, 2} = {}"
    using ends [of "j - 1"] ends [of j] std assms(3,5)
    by (auto simp: joined_actions_def table_def STDIN_FILENO_def STDOUT_FILENO_def)
  obtain F C where T: "?T = (F, C)" by fastforce
  have q: "files q = kept_files (fold (action_effect (cwd (self pa)))
      (map spawn_action_of (redirections p (commands p ! j) (j = 0) (j = length ends))) (F, C))"
    using f T by (simp add: acts)
  have C: "0 \<notin> C" "1 \<notin> C" "2 \<notin> C" and last: "(j = length ends) = (\<not> j < length ends)"
    using joined(4) T assms(3,5) by auto
  note R = redirected [OF C, of "cwd (self pa)" p "commands p ! j" "j = 0" "j = length ends" F, folded q]
  have F: "F 0 = (if 0 < j then Some (Pipe_read (j - 1)) else files (self pa) 0)"
    "F 1 = (if j < length ends then Some (Pipe_write j) else files (self pa) 1)" "F 2 = files (self pa) 2"
    using joined(1-3) T by simp_all
  show ?thesis
    using R(3) closed ends by (auto simp: R(1,2) F last split: option.splits)
qed

text \<open>The pipeline of two commands of \<open>sample_answers\<close>, started from a shell with its terminal and one pipe open.\<close>

definition first_request :: request where
  "first_request = \<lparr>r_argv = [''ls''], r_tcsetpgroup = True, r_tty = Some 3, r_pgroup = 0, r_actions = [Dup2 7 STDOUT_FILENO]\<rparr>"

definition second_request :: request where
  "second_request = \<lparr>r_argv = [''wc''], r_tcsetpgroup = True, r_tty = None, r_pgroup = 201, r_actions = [Dup2 6 STDIN_FILENO]\<rparr>"

definition piping_shell :: parent where
  "piping_shell = sample_parent\<lparr>self := (self sample_parent)\<lparr>cloexec := {6, 7},
     files := [0 \<mapsto> Terminal 0, 1 \<mapsto> Terminal 0, 2 \<mapsto> Terminal 0, 3 \<mapsto> Terminal 0, 6 \<mapsto> Pipe_read 0, 7 \<mapsto> Pipe_write 0]\<rparr>\<rparr>"

lemma sample_requests:
  "\<exists>s'. handle_job sample_answers (sample_pipeline [''ls'', ''wc'']) 5 new_shell = Some (Inr s') \<and>
    requests s' = [first_request, second_request]"
  by (simp add: handle_job_def sample_answers_def new_shell_def sample_defs spawn_command_def spawn_request_def
      run_handler_def after_spawn_def record_pid_def connect_pipeline_def pipe_end_def redirections_def
      termstate_get_tty_fd_def upd_job_def eval_nat_numeral Let_def first_request_def second_request_def)

lemma sample_launch:
  assumes "r \<in> {first_request, second_request}"
  shows "\<exists>q pa. launch lax_kernel started_child r [] piping_shell = (0, Some 300, Some q, pa)"
proof -
  have d: "blocked (self piping_shell) \<inter> uncatchable = {}"
    by (simp add: piping_shell_def sample_parent_def uncatchable_def)
  let ?s = "\<lparr>errno = 0, proc = (block_all (self piping_shell))\<lparr>pr_pid := 300\<rparr>\<rparr>"
  obtain H where H: "proc (set_signals (request_attr r) ?s) = (proc ?s)\<lparr>handlers := H\<rparr>"
    using set_signals_proc [of "request_attr r" ?s] by blast
  have f: "files (self piping_shell) 0 = Some (Terminal 0)" "files (self piping_shell) 3 = Some (Terminal 0)"
    "files (self piping_shell) 6 = Some (Pipe_read 0)" "files (self piping_shell) 7 = Some (Pipe_write 0)"
    "nofile (self piping_shell) = 16"
    by (simp_all add: piping_shell_def sample_parent_def sample_process_def)
  show ?thesis
    using assms H f unfolding launch_def posix_spawnp_cases [OF d]
    by (auto simp: started_child_def spawn_args_def arg_limit_def spawni_child_def prepare_def set_scheduling_def set_session_def
        set_group_def set_terminal_def reset_ids_def sys_def lax_kernel_def check_def request_attr_eq flagged_def zero_attr_def
        spawn_flag_defs first_request_def second_request_def STDOUT_FILENO_def STDIN_FILENO_def)
qed

theorem pipeline_files_witness:
  "\<exists>q pa. launch lax_kernel started_child second_request [] piping_shell = (0, Some 300, Some q, pa) \<and>
    files q 0 = Some (Pipe_read 0) \<and> files q 1 = Some (Terminal 0) \<and> files q 6 = None \<and> files q 7 = None"
proof -
  obtain s' where s': "handle_job sample_answers (sample_pipeline [''ls'', ''wc'']) 5 new_shell = Some (Inr s')"
    "requests s' = requests new_shell @ [first_request, second_request]"
    using sample_requests by (auto simp: new_shell_def empty_shell_def)
  obtain q pa where q: "launch lax_kernel started_child ([first_request, second_request] ! 1) [] piping_shell = (0, Some 300, Some q, pa)"
    using sample_launch [of second_request] by auto
  have "pipes_open [(6, 7)] (self piping_shell)" "blocked (self piping_shell) \<inter> uncatchable = {}"
    by (auto simp: pipes_open_def marked_open_def piping_shell_def sample_parent_def uncatchable_def)
  then show ?thesis
    using pipeline_files [OF s'(1) _ _ s'(2) _ q, of "[(6, 7)]"] q
    by (auto simp: sample_answers_def sample_pipeline_def piping_shell_def)
qed

subsection \<open>Groups and the terminal\<close>

lemma request_group:
  assumes "spawn_request p a pl i c front lst u = Some r" "job_at u a = Some j"
  shows "r_tcsetpgroup r = (status j = FOREGROUND)"
    "r_tty r = (if front \<and> status j = FOREGROUND then Some (terminal_fd u) else None)"
    "if front then r_pgroup r = 0 else pgrp j = Some (r_pgroup r)"
proof -
  obtain fd pg acts where o: "(if front \<and> status j = FOREGROUND then do { fd \<leftarrow> termstate_get_tty_fd u; Some (Some fd) } else Some None) = Some fd"
    "(if front then Some 0 else pgrp j) = Some pg"
    "r = \<lparr>r_argv = argv c, r_tcsetpgroup = (status j = FOREGROUND), r_tty = fd, r_pgroup = pg, r_actions = acts\<rparr>"
    using assms by (fastforce simp: spawn_request_def bind_eq_Some_conv Let_def)
  show "r_tcsetpgroup r = (status j = FOREGROUND)" "if front then r_pgroup r = 0 else pgrp j = Some (r_pgroup r)"
    using o(2,3) by auto
  show "r_tty r = (if front \<and> status j = FOREGROUND then Some (terminal_fd u) else None)"
    using o(1,3) by (auto simp: termstate_get_tty_fd_def bind_eq_Some_conv split: if_splits)
qed

text \<open>
  C36: The first process of a job leads a new group and the others join the group of the job; a process of a
  foreground job has put its group into the foreground before its program starts, the first one through
  the terminal the shell has opened, the others through descriptor 0.
\<close>

theorem job_process_group:
  assumes "spawn_request p a pl i c front lst u = Some r" "job_at u a = Some j"
    "launch k sa r envp pa = (ec, pid, Some q, pa')" "blocked (self pa) \<subseteq> all_signals - uncatchable"
    "front \<or> pgrp j \<noteq> Some 0"
  shows "pid = Some (pr_pid q) \<and> (if front then pr_pgrp q = pr_pid q else pgrp j = Some (pr_pgrp q)) \<and>
    (if status j = FOREGROUND
     then \<exists>t. files (self pa) (if front then terminal_fd u else 0) = Some (Terminal t) \<and>
       foreground q = (foreground (self pa))(t := pr_pgrp q)
     else foreground q = foreground (self pa)) \<and> blocked q = blocked (self pa)"
proof -
  have d: "blocked (self pa) \<inter> uncatchable = {}" "blocked (self pa) - uncatchable = blocked (self pa)" using assms(4) by auto
  obtain n arg where c: "spawni_child k arg \<lparr>errno = 0, proc = (block_all (self pa))\<lparr>pr_pid := n\<rparr>\<rparr> = Inr q"
    "args_attr arg = request_attr r" "oldmask arg = blocked (self pa)" "pid = Some n"
    using launch_executed [OF assms(3) d(1)] by blast
  note r = request_group [OF assms(1,2)]
  note q = spawni_child_fields [OF c(1), unfolded c(2,3)]
  show ?thesis
    using q(1,3,5,6) r assms(5) c(4) d(2) by (auto simp: request_attr_flags split: if_splits)
qed

theorem job_process_group_witness:
  "\<exists>q pa. launch lax_kernel started_child first_request [] piping_shell = (0, Some 300, Some q, pa) \<and>
    pr_pgrp q = 300 \<and> foreground q 0 = 300"
proof -
  have r: "spawn_request (sample_pipeline [''ls'', ''wc'']) 5 [Some 6, Some 7] 0 (sample_command ''ls'') True False
      (new_shell\<lparr>job_at := [5 \<mapsto> sample_job]\<rparr>) = Some first_request"
    by (simp add: spawn_request_def new_shell_def sample_defs connect_pipeline_def pipe_end_def redirections_def
        termstate_get_tty_fd_def first_request_def)
  obtain q pa where q: "launch lax_kernel started_child first_request [] piping_shell = (0, Some 300, Some q, pa)"
    using sample_launch [of first_request] by auto
  have "blocked (self piping_shell) \<subseteq> all_signals - uncatchable"
    by (simp add: piping_shell_def sample_parent_def all_signals_def uncatchable_def internal_def NSIG_def)
  then show ?thesis
    using job_process_group [OF r _ q, of sample_job] q
    by (auto simp: sample_job_def new_shell_def empty_shell_def piping_shell_def sample_parent_def sample_process_def split: if_splits)
qed

text \<open>
  C37: A shell whose descriptor 0 is not a terminal, as when it reads a script, cannot start the second or a
  later command of a foreground pipeline: the command is reported as missing although it exists.
\<close>

theorem later_command_needs_terminal:
  assumes "spawn_request p a pl i c False lst u = Some r" "job_at u a = Some j" "status j = FOREGROUND"
    "launch k sa r envp pa = (ec, pid, started, pa')" "blocked (self pa) \<subseteq> all_signals - uncatchable"
    "\<forall>t. files (self pa) 0 \<noteq> Some (Terminal t)" "\<not> dies sa" "mmap_error sa \<noteq> Some 0"
  shows "ec \<noteq> 0 \<and> started = None"
proof -
  have d: "blocked (self pa) \<inter> uncatchable = {}" using assms(5) by auto
  have "started = None"
  proof (cases started)
    case (Some q)
    obtain n arg where c: "spawni_child k arg \<lparr>errno = 0, proc = (block_all (self pa))\<lparr>pr_pid := n\<rparr>\<rparr> = Inr q"
      "args_attr arg = request_attr r"
      using launch_executed [OF assms(4) [unfolded Some] d] by blast
    have "r_tcsetpgroup r" "r_tty r = None" using request_group [OF assms(1,2)] assms(3) by auto
    then show ?thesis using spawni_child_fields(6) [OF c(1)] assms(6) by (simp add: c(2) request_attr_flags)
  qed
  moreover have "ec \<noteq> 0" using assms(4,7,8) calculation unfolding launch_def posix_spawnp_cases [OF d]
    by (auto simp: E2BIG_def split: option.splits sum.splits dest: spawni_child_error)
  ultimately show ?thesis by blast
qed

theorem later_command_needs_terminal_witness:
  "fst (launch lax_kernel started_child second_request []
     (piping_shell\<lparr>self := (self piping_shell)\<lparr>files := (files (self piping_shell))(0 \<mapsto> Other 1)\<rparr>\<rparr>)) \<noteq> 0"
proof -
  let ?pa = "piping_shell\<lparr>self := (self piping_shell)\<lparr>files := (files (self piping_shell))(0 \<mapsto> Other 1)\<rparr>\<rparr>"
  have r: "spawn_request (sample_pipeline [''ls'', ''wc'']) 5 [Some 6, Some 7] 2 (sample_command ''wc'') False True
      (new_shell\<lparr>job_at := [5 \<mapsto> sample_job]\<rparr>) = Some second_request"
    by (simp add: spawn_request_def new_shell_def sample_defs connect_pipeline_def pipe_end_def redirections_def second_request_def)
  obtain ec pid st pa where l: "launch lax_kernel started_child second_request [] ?pa = (ec, pid, st, pa)"
    by (metis prod_cases4)
  have "blocked (self ?pa) \<subseteq> all_signals - uncatchable"
    by (simp add: piping_shell_def sample_parent_def all_signals_def uncatchable_def internal_def NSIG_def)
  then show ?thesis
    using later_command_needs_terminal [OF r _ _ l, of sample_job] l
    by (simp add: sample_job_def new_shell_def empty_shell_def started_child_def)
qed

end
