(* ===== verification/Sorts.thy ===== *)
theory Sorts
  imports Prelude "HOL-Library.Multiset"
begin

text \<open>
  The sorting programs \<open>threadlab/tests/mergesort.c\<close> and \<open>quicksort.c\<close>.  An array is the list of its
  elements; an access outside it is undefined.  A task submitted to the thread pool runs, as a whole,
  before or after the work its parent does meanwhile: the schedule, a function of the segment, says
  which.
\<close>

subsection \<open>Arrays\<close>

definition rd :: "int list \<Rightarrow> int \<Rightarrow> int option" where
  "rd a i = (if 0 \<le> i \<and> i < int (length a) then Some (a ! nat i) else None)"

definition wr :: "int list \<Rightarrow> int \<Rightarrow> int \<Rightarrow> int list option" where
  "wr a i v = (if 0 \<le> i \<and> i < int (length a) then Some (a[nat i := v]) else None)"

text \<open>\<open>memcpy\<close> of \<open>n\<close> elements between two different arrays.\<close>

definition copy_elems :: "int list \<Rightarrow> int \<Rightarrow> int list \<Rightarrow> int \<Rightarrow> int \<Rightarrow> int list option" where
  "copy_elems dst d src s n =
     (if 0 \<le> n \<and> 0 \<le> d \<and> d + n \<le> int (length dst) \<and> 0 \<le> s \<and> s + n \<le> int (length src)
      then Some (take (nat d) dst @ take (nat n) (drop (nat s) src) @ drop (nat (d + n)) dst) else None)"

lemma nat_length_add [simp]: "nat (int (length p) + int n) = length p + n"
  by simp

lemma rd_mid [simp]: "rd (p @ x # q) (int (length p)) = Some x"
  by (simp add: rd_def)

lemma wr_mid [simp]: "wr (p @ x # q) (int (length p)) v = Some (p @ v # q)"
  by (simp add: wr_def)

lemma rd_at: "i = int (length p) \<Longrightarrow> rd (p @ x # q) i = Some x"
  by simp

lemma wr_at: "i = int (length p) \<Longrightarrow> wr (p @ x # q) i v = Some (p @ v # q)"
  by simp

lemma copy_mid:
  "length ys = length xs \<Longrightarrow> d = int (length p) \<Longrightarrow> s = int (length p') \<Longrightarrow> n = int (length xs) \<Longrightarrow>
    copy_elems (p @ ys @ q) d (p' @ xs @ q') s n = Some (p @ xs @ q)"
  by (simp add: copy_elems_def nat_add_distrib)

text \<open>A benchmark sorts a copy of the array and aborts when the result is not sorted.\<close>

definition check_sorted :: "int list \<Rightarrow> bool" where
  "check_sorted a = list_all (\<lambda>i. a ! i \<le> a ! (i + 1)) [0..<length a - 1]"

definition benchmark :: "(int list \<Rightarrow> int \<Rightarrow> int list option) \<Rightarrow> int list \<Rightarrow> int \<Rightarrow> int list option" where
  "benchmark sorter a0 n = do { a \<leftarrow> sorter a0 n; assert_c (check_sorted a); Some a }"

lemma check_sorted_sort [simp]: "check_sorted (sort a)"
proof -
  have "sort a ! i \<le> sort a ! (i + 1)" if "i < length a - 1" for i
    using that by (intro sorted_nth_mono) auto
  then show ?thesis by (auto simp: check_sorted_def list_all_iff)
qed

subsection \<open>Insertion sort\<close>

partial_function (option) shift_loop :: "int list \<Rightarrow> int \<Rightarrow> int \<Rightarrow> int \<Rightarrow> (int list \<times> int) option" where
  "shift_loop a lo j t =
     (if j > lo then do {
        x \<leftarrow> rd a (j - 1);
        if t < x then do { a \<leftarrow> wr a j x; shift_loop a lo (j - 1) t } else Some (a, j)
      } else Some (a, j))"

declare shift_loop.simps [code]

partial_function (option) insertion_loop :: "int list \<Rightarrow> int \<Rightarrow> int \<Rightarrow> int \<Rightarrow> int list option" where
  "insertion_loop a lo hi i =
     (if i \<le> hi then do {
        t \<leftarrow> rd a i;
        (a, j) \<leftarrow> shift_loop a lo i t;
        a \<leftarrow> wr a j t;
        insertion_loop a lo hi (i + 1)
      } else Some a)"

declare insertion_loop.simps [code]

definition insertionsort :: "int list \<Rightarrow> int \<Rightarrow> int \<Rightarrow> int list option" where
  "insertionsort a lo hi = insertion_loop a lo hi (lo + 1)"

lemma shift_loop_spec:
  "\<exists>us vs g'. ys = us @ vs \<and> (\<forall>v\<in>set vs. t < v) \<and> (us = [] \<or> last us \<le> t) \<and>
    shift_loop (p @ ys @ g # zs) (int (length p)) (int (length p + length ys)) t =
      Some (p @ us @ g' # vs @ zs, int (length p + length us))"
proof (induction ys arbitrary: g zs rule: rev_induct)
  case Nil
  then show ?case by (intro exI [of _ "[]"] exI [of _ g]) (simp add: shift_loop.simps)
next
  case (snoc x ys)
  let ?lo = "int (length p)" and ?j = "int (length p + length (ys @ [x]))"
  have j: "?j - 1 = int (length (p @ ys))" by simp
  have r: "rd (p @ (ys @ [x]) @ g # zs) (?j - 1) = Some x"
    unfolding j using rd_mid [of "p @ ys" x "g # zs"] by simp
  show ?case
  proof (cases "t < x")
    case True
    obtain us vs g' where ih: "ys = us @ vs" "\<forall>v\<in>set vs. t < v" "us = [] \<or> last us \<le> t"
      "shift_loop (p @ ys @ x # x # zs) ?lo (int (length p + length ys)) t =
         Some (p @ us @ g' # vs @ x # zs, int (length p + length us))"
      using snoc.IH [of x "x # zs"] by blast
    have w: "wr (p @ (ys @ [x]) @ g # zs) ?j x = Some (p @ ys @ x # x # zs)"
      using wr_at [of ?j "p @ ys @ [x]" g zs x] by simp
    have "?j > ?lo" by simp
    then have "shift_loop (p @ (ys @ [x]) @ g # zs) ?lo ?j t = shift_loop (p @ ys @ x # x # zs) ?lo (?j - 1) t"
      using r w True by (subst shift_loop.simps) simp
    also have "?j - 1 = int (length p + length ys)" by simp
    finally show ?thesis using ih True by (intro exI [of _ us] exI [of _ "vs @ [x]"] exI [of _ g']) simp
  next
    case False
    have "?j > ?lo" by simp
    then have "shift_loop (p @ (ys @ [x]) @ g # zs) ?lo ?j t = Some (p @ (ys @ [x]) @ g # zs, ?j)"
      using r False by (subst shift_loop.simps) simp
    then show ?thesis using False by (intro exI [of _ "ys @ [x]"] exI [of _ "[]"] exI [of _ g]) simp
  qed
qed

lemma insort_split:
  assumes "sorted (us @ vs)" "\<forall>v\<in>set vs. t < v" "us = [] \<or> last us \<le> t"
  shows "us @ t # vs = insort t (us @ vs)"
proof -
  have "\<forall>u\<in>set us. u \<le> t"
  proof (cases us rule: rev_cases)
    case (snoc ws w)
    then show ?thesis using assms(1,3) by (auto simp: sorted_append)
  qed simp
  then have "sorted (us @ t # vs)" using assms by (auto simp: sorted_append less_imp_le)
  moreover have "sorted (insort t (us @ vs))" using assms(1) by (rule sorted_insort [THEN iffD2])
  moreover have "mset (us @ t # vs) = mset (insort t (us @ vs))" by simp
  ultimately show ?thesis by (metis properties_for_sort)
qed

lemma sort_snoc_insort: "sorted ys \<Longrightarrow> sort (ys @ z # zs) = sort (insort z ys @ zs)"
  by (rule properties_for_sort) auto

lemma insertion_loop_sorts:
  "sorted ys \<Longrightarrow> insertion_loop (p @ ys @ zs @ q) (int (length p))
      (int (length p + length ys + length zs) - 1) (int (length p + length ys)) = Some (p @ sort (ys @ zs) @ q)"
proof (induction zs arbitrary: ys)
  case Nil
  then show ?case by (simp add: insertion_loop.simps sorted_sort_id)
next
  case (Cons z zs)
  let ?lo = "int (length p)" and ?i = "int (length p + length ys)" and ?hi = "int (length p + length ys + length (z # zs)) - 1"
  obtain us vs g where s: "ys = us @ vs" "\<forall>v\<in>set vs. z < v" "us = [] \<or> last us \<le> z"
    "shift_loop (p @ ys @ z # zs @ q) ?lo ?i z = Some (p @ us @ g # vs @ zs @ q, int (length p + length us))"
    using shift_loop_spec [of ys z p z "zs @ q"] by blast
  have r: "rd (p @ ys @ (z # zs) @ q) ?i = Some z" using rd_at [of ?i "p @ ys" z "zs @ q"] by simp
  have w: "wr (p @ us @ g # vs @ zs @ q) (int (length p + length us)) z = Some (p @ insort z ys @ zs @ q)"
    using wr_at [of "int (length p + length us)" "p @ us" g "vs @ zs @ q" z] insort_split [of us vs z] s(1-3) Cons.prems by simp
  have "insertion_loop (p @ ys @ (z # zs) @ q) ?lo ?hi ?i = insertion_loop (p @ insort z ys @ zs @ q) ?lo ?hi (?i + 1)"
    using r s(4) w by (subst insertion_loop.simps) simp
  also have "?i + 1 = int (length p + length (insort z ys))" by simp
  also have "?hi = int (length p + length (insort z ys) + length zs) - 1" by simp
  also have "insertion_loop (p @ insort z ys @ zs @ q) ?lo \<dots> (int (length p + length (insort z ys))) =
      Some (p @ sort (insort z ys @ zs) @ q)"
    using Cons.IH [of "insort z ys"] Cons.prems by (simp add: sorted_insort)
  finally show ?case using sort_snoc_insort [OF Cons.prems] by simp
qed

lemma insertionsort_sorts:
  assumes "lo = int (length p)" "hi = int (length p + length xs) - 1"
  shows "insertionsort (p @ xs @ q) lo hi = Some (p @ sort xs @ q)"
proof (cases xs)
  case Nil
  then show ?thesis using assms by (simp add: insertionsort_def insertion_loop.simps)
next
  case (Cons x ys)
  then show ?thesis
    using insertion_loop_sorts [of "[x]" p ys q] assms by (simp add: insertionsort_def add.commute)
qed


subsection \<open>Merging\<close>

partial_function (option) merge_loop ::
    "int list \<Rightarrow> int list \<Rightarrow> int \<Rightarrow> int \<Rightarrow> int \<Rightarrow> int \<Rightarrow> (int list \<times> int \<times> int \<times> int) option" where
  "merge_loop a b i j k right =
     (if k < j \<and> j \<le> right then do {
        x \<leftarrow> rd b i;
        y \<leftarrow> rd a j;
        if x < y then do { a \<leftarrow> wr a k x; merge_loop a b (i + 1) j (k + 1) right }
        else do { a \<leftarrow> wr a k y; merge_loop a b i (j + 1) (k + 1) right }
      } else Some (a, i, j, k))"

declare merge_loop.simps [code]

definition merge :: "int list \<Rightarrow> int list \<Rightarrow> int \<Rightarrow> int \<Rightarrow> int \<Rightarrow> int \<Rightarrow> (int list \<times> int list) option" where
  "merge a b bstart left m right = do {
     x \<leftarrow> rd a m;
     y \<leftarrow> rd a (m + 1);
     if x \<le> y then Some (a, b)
     else do {
       b \<leftarrow> copy_elems b bstart a left (m - left + 1);
       (a, i, j, k) \<leftarrow> merge_loop a b bstart (m + 1) left right;
       a \<leftarrow> copy_elems a k b i (j - k);
       Some (a, b)
     }
   }"

fun merge_lists :: "int list \<Rightarrow> int list \<Rightarrow> int list" where
  "merge_lists [] ys = ys"
| "merge_lists (x # xs) [] = x # xs"
| "merge_lists (x # xs) (y # ys) = (if x < y then x # merge_lists xs (y # ys) else y # merge_lists (x # xs) ys)"

lemma merged_Nil [simp]: "merge_lists xs [] = xs"
  by (cases xs) auto

lemma mset_merged [simp]: "mset (merge_lists xs ys) = mset xs + mset ys"
  by (induction xs ys rule: merge_lists.induct) auto

lemma set_merged [simp]: "set (merge_lists xs ys) = set xs \<union> set ys"
  by (metis mset_merged set_mset_mset set_mset_union)

lemma sorted_merged: "sorted xs \<Longrightarrow> sorted ys \<Longrightarrow> sorted (merge_lists xs ys)"
  by (induction xs ys rule: merge_lists.induct) auto

lemma merged_sort: "sorted xs \<Longrightarrow> sorted ys \<Longrightarrow> merge_lists xs ys = sort (xs @ ys)"
  by (rule properties_for_sort [symmetric]) (auto simp: sorted_merged)

text \<open>
  The elements \<open>xs\<close> still in \<open>b\<close> fill a gap of their length before the elements \<open>ys\<close> still in \<open>a\<close>.
\<close>

lemma merge_loop_spec:
  "length gap = length xs \<Longrightarrow>
    \<exists>a' i' j' k'. merge_loop (p @ gap @ ys @ q) (bp @ xs @ bq) (int (length bp)) (int (length p + length gap)) (int (length p))
        (int (length p + length gap + length ys) - 1) = Some (a', i', j', k') \<and>
      copy_elems a' k' (bp @ xs @ bq) i' (j' - k') = Some (p @ merge_lists xs ys @ q)"
proof (induction xs ys arbitrary: p gap bp rule: merge_lists.induct)
  case (1 ys)
  then show ?case by (simp add: merge_loop.simps copy_elems_def)
next
  case (2 x xs)
  then show ?case
    using copy_mid [of gap "x # xs" "int (length p)" p "int (length bp)" bp "int (length (x # xs))" q bq]
    by (simp add: merge_loop.simps)
next
  case (3 x xs y ys)
  then obtain g gs where gap: "gap = g # gs" "length gs = length xs" by (cases gap) auto
  let ?a = "p @ gap @ (y # ys) @ q" and ?b = "bp @ (x # xs) @ bq"
  let ?i = "int (length bp)" and ?j = "int (length p + length gap)" and ?k = "int (length p)"
  let ?right = "int (length p + length gap + length (y # ys)) - 1"
  have r: "rd ?b ?i = Some x" "rd ?a ?j = Some y" using rd_at [of ?j "p @ gap" y "ys @ q"] by auto
  have w: "wr ?a ?k v = Some (p @ v # gs @ (y # ys) @ q)" for v using gap(1) by simp
  have c: "?k < ?j \<and> ?j \<le> ?right" using gap by simp
  show ?case
  proof (cases "x < y")
    case True
    have step: "merge_loop ?a ?b ?i ?j ?k ?right =
        merge_loop (p @ x # gs @ (y # ys) @ q) ?b (?i + 1) ?j (?k + 1) ?right"
      using r w c True by (subst merge_loop.simps) simp
    obtain a' i' j' k' where ih: "merge_loop ((p @ [x]) @ gs @ (y # ys) @ q) ((bp @ [x]) @ xs @ bq) (int (length (bp @ [x])))
        (int (length (p @ [x]) + length gs)) (int (length (p @ [x]))) (int (length (p @ [x]) + length gs + length (y # ys)) - 1)
        = Some (a', i', j', k')"
      "copy_elems a' k' ((bp @ [x]) @ xs @ bq) i' (j' - k') = Some ((p @ [x]) @ merge_lists xs (y # ys) @ q)"
      using "3.IH"(1) [OF True gap(2)] by blast
    have e: "?i + 1 = int (length (bp @ [x]))" "?k + 1 = int (length (p @ [x]))" "?j = int (length (p @ [x]) + length gs)"
      "?right = int (length (p @ [x]) + length gs + length (y # ys)) - 1"
      using gap(1) by simp_all
    have "merge_loop (p @ x # gs @ (y # ys) @ q) ?b (?i + 1) ?j (?k + 1) ?right = Some (a', i', j', k')"
      using ih(1) unfolding e by simp
    then show ?thesis using step ih(2) True by auto
  next
    case False
    have step: "merge_loop ?a ?b ?i ?j ?k ?right =
        merge_loop (p @ y # gs @ (y # ys) @ q) ?b ?i (?j + 1) (?k + 1) ?right"
      using r w c False by (subst merge_loop.simps) simp
    have len: "length (gs @ [y]) = length (x # xs)" using gap by simp
    obtain a' i' j' k' where ih: "merge_loop ((p @ [y]) @ (gs @ [y]) @ ys @ q) (bp @ (x # xs) @ bq) (int (length bp))
        (int (length (p @ [y]) + length (gs @ [y]))) (int (length (p @ [y])))
        (int (length (p @ [y]) + length (gs @ [y]) + length ys) - 1) = Some (a', i', j', k')"
      "copy_elems a' k' (bp @ (x # xs) @ bq) i' (j' - k') = Some ((p @ [y]) @ merge_lists (x # xs) ys @ q)"
      using "3.IH"(2) [OF False len] by blast
    have e: "?k + 1 = int (length (p @ [y]))" "?j + 1 = int (length (p @ [y]) + length (gs @ [y]))"
      "?right = int (length (p @ [y]) + length (gs @ [y]) + length ys) - 1"
      using gap(1) by simp_all
    have "merge_loop (p @ y # gs @ (y # ys) @ q) ?b ?i (?j + 1) (?k + 1) ?right = Some (a', i', j', k')"
      using ih(1) unfolding e by simp
    then show ?thesis using step ih(2) False by auto
  qed
qed

text \<open>Merging two sorted neighbours sorts them together and touches the temporary array inside its bounds.\<close>

lemma merge_sorts:
  assumes "sorted xs" "sorted ys" "xs \<noteq> []" "ys \<noteq> []" "length tmp = length xs"
    "left = int (length p)" "m = int (length p + length xs) - 1" "right = int (length p + length xs + length ys) - 1"
    "bstart = int (length bp)"
  shows "\<exists>tmp'. merge (p @ xs @ ys @ q) (bp @ tmp @ bq) bstart left m right =
      Some (p @ sort (xs @ ys) @ q, bp @ tmp' @ bq) \<and> length tmp' = length tmp"
proof -
  let ?a = "p @ xs @ ys @ q"
  obtain ws w where xs: "xs = ws @ [w]" using assms(3) by (cases xs rule: rev_cases) auto
  obtain y zs where ys: "ys = y # zs" using assms(4) by (cases ys) auto
  have r: "rd ?a m = Some w" "rd ?a (m + 1) = Some y"
    using rd_at [of m "p @ ws" w "ys @ q"] rd_at [of "m + 1" "p @ xs" y "zs @ q"] xs ys assms(7) by auto
  show ?thesis
  proof (cases "w \<le> y")
    case True
    have "x \<le> z" if "x \<in> set xs" "z \<in> set ys" for x z
    proof -
      have "x \<le> w" "y \<le> z" using that assms(1,2) xs ys by (auto simp: sorted_append)
      then show ?thesis using True by simp
    qed
    then have "sorted (xs @ ys)" using assms(1,2) by (simp add: sorted_append)
    then show ?thesis using r True by (auto simp: merge_def sorted_sort_id)
  next
    case False
    have "copy_elems (bp @ tmp @ bq) bstart (p @ xs @ ys @ q) left (m - left + 1) = Some (bp @ xs @ bq)"
      using assms(5-7,9) by (intro copy_mid) auto
    moreover obtain a' i' j' k' where "merge_loop ?a (bp @ xs @ bq) bstart (m + 1) left right = Some (a', i', j', k')"
      "copy_elems a' k' (bp @ xs @ bq) i' (j' - k') = Some (p @ merge_lists xs ys @ q)"
      using merge_loop_spec [of xs xs p ys q bp bq] assms(6-9) by auto
    ultimately show ?thesis using r False merged_sort [OF assms(1,2)] assms(5) by (auto simp: merge_def)
  qed
qed


subsection \<open>Merge sort\<close>

text \<open>
  The temporary array starts at the index \<open>tb\<close>.  The two parameters are the threshold below which
  insertion sort is used and, for the parallel version, the size up to which a task works alone.
\<close>

partial_function (option) mergesort_internal ::
    "int \<Rightarrow> int list \<Rightarrow> int list \<Rightarrow> int \<Rightarrow> int \<Rightarrow> int \<Rightarrow> (int list \<times> int list) option" where
  "mergesort_internal threshold array tmp tb left right =
     (if right - left < threshold then do { array \<leftarrow> insertionsort array left right; Some (array, tmp) }
      else do {
        s \<leftarrow> cint (left + right);
        let m = s div 2;
        (array, tmp) \<leftarrow> mergesort_internal threshold array tmp tb left m;
        (array, tmp) \<leftarrow> mergesort_internal threshold array tmp tb (m + 1) right;
        merge array tmp tb left m right
      })"

declare mergesort_internal.simps [code]

definition mergesort_serial :: "int \<Rightarrow> int list \<Rightarrow> int \<Rightarrow> int list option" where
  "mergesort_serial threshold array n =
     (if n < threshold then insertionsort array 0 n
      else do {
        (array, tmp) \<leftarrow> mergesort_internal threshold array (replicate (nat (n div 2 + 1)) 0) 0 0 (n - 1);
        Some array
      })"

text \<open>
  A submitted task and the work of its parent until it asks for the result: the schedule decides which
  runs first.
\<close>

partial_function (option) mergesort_internal_parallel ::
    "(int \<Rightarrow> int \<Rightarrow> bool) \<Rightarrow> int \<Rightarrow> int \<Rightarrow> int \<Rightarrow> int \<Rightarrow> int list \<times> int list \<Rightarrow> (int list \<times> int list) option" where
  "mergesort_internal_parallel sched threshold min_task_size left right s =
     (if right - left \<le> min_task_size then mergesort_internal threshold (fst s) (snd s) left left right
      else do {
        t \<leftarrow> cint (left + right);
        let m = t div 2;
        (array, tmp) \<leftarrow>
          (if sched left right
           then do {
             s \<leftarrow> mergesort_internal_parallel sched threshold min_task_size left m s;
             mergesort_internal_parallel sched threshold min_task_size (m + 1) right s
           } else do {
             s \<leftarrow> mergesort_internal_parallel sched threshold min_task_size (m + 1) right s;
             mergesort_internal_parallel sched threshold min_task_size left m s
           });
        merge array tmp left left m right
      })"

declare mergesort_internal_parallel.simps [code]

definition mergesort_parallel :: "(int \<Rightarrow> int \<Rightarrow> bool) \<Rightarrow> int \<Rightarrow> int \<Rightarrow> int list \<Rightarrow> int \<Rightarrow> int list option" where
  "mergesort_parallel sched threshold min_task_size array n = do {
     (array, tmp) \<leftarrow> mergesort_internal_parallel sched threshold min_task_size 0 (n - 1) (array, replicate (nat n) 0);
     Some array
   }"

text \<open>Splitting a segment in the middle.\<close>

lemma halves:
  assumes "left = int (length p)" "right = int (length p + length xs) - 1" "right - left \<ge> 1"
  defines "m \<equiv> (left + right) div 2"
  shows "\<exists>us vs. xs = us @ vs \<and> us \<noteq> [] \<and> vs \<noteq> [] \<and> m = int (length p + length us) - 1 \<and>
    length us < length xs \<and> length vs < length xs \<and> length us \<le> length xs div 2 + 1 \<and> length vs \<le> length us"
proof -
  let ?n = "nat (m - left + 1)"
  have b: "left \<le> m" "m < right" "2 * m \<le> left + right" "left + right \<le> 2 * m + 1" using assms(3) unfolding m_def by linarith+
  have xs: "xs = take ?n xs @ drop ?n xs" by simp
  have len: "int (length (take ?n xs)) = m - left + 1" "int (length (drop ?n xs)) = right - m"
    using b assms(1,2) by auto
  show ?thesis
  proof (intro exI conjI)
    show "xs = take ?n xs @ drop ?n xs" by simp
    show "take ?n xs \<noteq> []" "drop ?n xs \<noteq> []" using len b by (metis add_pos_nonneg diff_ge_0_iff_ge int_ops(1) length_0_conv less_irrefl zero_less_one add.commute, metis diff_gt_0_iff_gt int_ops(1) length_0_conv less_irrefl)
    show "m = int (length p + length (take ?n xs)) - 1" using len(1) assms(1) by simp
    show "length (take ?n xs) < length xs" "length (drop ?n xs) < length xs" using b assms(1,2) by auto
    show "length (take ?n xs) \<le> length xs div 2 + 1"
      using len(1) b assms(1,2) by linarith
    show "length (drop ?n xs) \<le> length (take ?n xs)" using len b by linarith
  qed
qed

lemma sort_halves: "sort (sort us @ sort vs) = sort (us @ vs)"
  by (rule properties_for_sort) auto

lemma mergesort_internal_sorts:
  assumes "1 \<le> threshold" "left = int (length p)" "right = int (length p + length xs) - 1" "xs \<noteq> []"
    "tb = int (length bp)" "length xs div 2 + 1 \<le> length tmp" "right < 2 ^ 30"
  shows "\<exists>tmp'. mergesort_internal threshold (p @ xs @ q) (bp @ tmp @ bq) tb left right = Some (p @ sort xs @ q, bp @ tmp' @ bq) \<and>
    length tmp' = length tmp"
  using assms
proof (induction "length xs" arbitrary: xs p q left right tmp rule: less_induct)
  case less
  show ?case
  proof (cases "right - left < threshold")
    case True
    then show ?thesis
      using insertionsort_sorts [OF less.prems(2,3), of q] by (auto simp: mergesort_internal.simps)
  next
    case False
    then have "right - left \<ge> 1" using less.prems(1) by simp
    define m where "m = (left + right) div 2"
    obtain us vs where h: "xs = us @ vs" "us \<noteq> []" "vs \<noteq> []" "m = int (length p + length us) - 1"
      "length us < length xs" "length vs < length xs" "length us \<le> length xs div 2 + 1" "length vs \<le> length us"
      using halves [OF less.prems(2,3) \<open>right - left \<ge> 1\<close>] unfolding m_def by blast
    have m: "m < 2 ^ 30" "m + 1 = int (length (p @ sort us))" "right = int (length (p @ sort us) + length vs) - 1"
      using h less.prems(3,7) by auto
    have room: "length us div 2 + 1 \<le> length tmp" "length vs div 2 + 1 \<le> length tmp" "length us \<le> length tmp"
      using h(5-8) less.prems(6) by linarith+
    obtain t1 where t1: "mergesort_internal threshold (p @ us @ (vs @ q)) (bp @ tmp @ bq) tb left m =
        Some (p @ sort us @ vs @ q, bp @ t1 @ bq)" "length t1 = length tmp"
      using less.hyps [OF h(5) less.prems(1,2) h(4,2) less.prems(5) room(1) m(1)] by blast
    obtain t2 where t2: "mergesort_internal threshold ((p @ sort us) @ vs @ q) (bp @ t1 @ bq) tb (m + 1) right =
        Some ((p @ sort us) @ sort vs @ q, bp @ t2 @ bq)" "length t2 = length tmp"
      using less.hyps [OF h(6) less.prems(1) m(2,3) h(3) less.prems(5) _ less.prems(7), of t1 q] room(2) t1(2) by auto
    have ne: "sort us \<noteq> []" "sort vs \<noteq> []" using h(2,3) by (metis length_0_conv length_sort)+
    obtain ta tz where t2s: "t2 = ta @ tz" "length ta = length us"
      using room(3) t2(2) by (metis append_take_drop_id length_take min.absorb2)
    obtain t3 where t3: "merge (p @ sort us @ sort vs @ q) (bp @ ta @ (tz @ bq)) tb left m right =
        Some (p @ sort (sort us @ sort vs) @ q, bp @ t3 @ (tz @ bq))" "length t3 = length ta"
      using merge_sorts [of "sort us" "sort vs" ta left p m right tb bp q "tz @ bq"]
        ne h(1-4) less.prems(2,3,5) t2s(2) by auto
    have "cint (left + right) = Some (left + right)" using less.prems(2,3,7) h(2) by simp
    then have "mergesort_internal threshold (p @ xs @ q) (bp @ tmp @ bq) tb left right =
        Some (p @ sort xs @ q, bp @ (t3 @ tz) @ bq)"
      using False t1(1) t2(1) t3(1) sort_halves [of us vs] h(1) t2s(1)
      by (subst mergesort_internal.simps) (simp add: m_def [symmetric] Let_def del: cint_Some)
    then show ?thesis using t2(2) t2s t3(2) by auto
  qed
qed

text \<open>Two halves, each sorted in place by its own computation, in either order.\<close>

lemma either_order:
  assumes "\<And>zs ws. \<exists>t. f (p @ us @ zs, bp @ tu @ ws) = Some (p @ sort us @ zs, bp @ t @ ws) \<and> length t = length us"
    "\<And>zs ws. length zs = length us \<Longrightarrow> length ws = length us \<Longrightarrow>
      \<exists>t. g (p @ zs @ vs @ q, bp @ ws @ tv @ bq) = Some (p @ zs @ sort vs @ q, bp @ ws @ t @ bq) \<and> length t = length vs"
    "length tu = length us"
  shows "\<exists>t t'. (if first then do { s \<leftarrow> f (p @ us @ vs @ q, bp @ tu @ tv @ bq); g s }
      else do { s \<leftarrow> g (p @ us @ vs @ q, bp @ tu @ tv @ bq); f s }) =
        Some (p @ sort us @ sort vs @ q, bp @ t @ t' @ bq) \<and> length t = length us \<and> length t' = length vs"
proof (cases first)
  case True
  obtain t where t: "f (p @ us @ (vs @ q), bp @ tu @ (tv @ bq)) = Some (p @ sort us @ (vs @ q), bp @ t @ (tv @ bq))"
    "length t = length us"
    using assms(1) by blast
  obtain t' where "g (p @ sort us @ vs @ q, bp @ t @ tv @ bq) = Some (p @ sort us @ sort vs @ q, bp @ t @ t' @ bq)"
    "length t' = length vs"
    using assms(2) [of "sort us" t] t(2) by auto
  then show ?thesis using t True by auto
next
  case False
  obtain t' where t': "g (p @ us @ vs @ q, bp @ tu @ tv @ bq) = Some (p @ us @ sort vs @ q, bp @ tu @ t' @ bq)"
    "length t' = length vs"
    using assms(2) [of us tu] assms(3) by auto
  obtain t where "f (p @ us @ (sort vs @ q), bp @ tu @ (t' @ bq)) = Some (p @ sort us @ (sort vs @ q), bp @ t @ (t' @ bq))"
    "length t = length us"
    using assms(1) by blast
  then show ?thesis using t' False by auto
qed

lemma mergesort_internal_parallel_sorts:
  assumes "1 \<le> threshold" "0 \<le> min_task_size" "left = int (length p)" "right = int (length p + length xs) - 1" "xs \<noteq> []"
    "length bp = length p" "length tmp = length xs" "right < 2 ^ 30"
  shows "\<exists>tmp'. mergesort_internal_parallel sched threshold min_task_size left right (p @ xs @ q, bp @ tmp @ bq) =
      Some (p @ sort xs @ q, bp @ tmp' @ bq) \<and> length tmp' = length tmp"
  using assms
proof (induction "length xs" arbitrary: xs p q left right tmp bp bq rule: less_induct)
  case less
  show ?case
  proof (cases "right - left \<le> min_task_size")
    case True
    have "length xs div 2 + 1 \<le> length tmp" using less.prems(5,7) by (cases xs) auto
    then show ?thesis
      using mergesort_internal_sorts [OF less.prems(1,3,4,5), of left bp tmp q bq] less.prems(3,6,8) True
      by (simp add: mergesort_internal_parallel.simps)
  next
    case False
    then have "right - left \<ge> 1" using less.prems(2) by simp
    define m where "m = (left + right) div 2"
    obtain us vs where h: "xs = us @ vs" "us \<noteq> []" "vs \<noteq> []" "m = int (length p + length us) - 1"
      "length us < length xs" "length vs < length xs"
      using halves [OF less.prems(3,4) \<open>right - left \<ge> 1\<close>] unfolding m_def by blast
    have m: "m < 2 ^ 30" using h(1,4) less.prems(4,8) by auto
    obtain tu0 tv0 where tmp: "tmp = tu0 @ tv0" "length tu0 = length us" "length tv0 = length vs"
      using less.prems(7) h(1) by (metis append_eq_conv_conj length_append append_take_drop_id length_drop length_take
          add_diff_cancel_left')
    have left_half: "\<exists>t. mergesort_internal_parallel sched threshold min_task_size left m (p @ us @ zs, bp @ tu0 @ ws) =
        Some (p @ sort us @ zs, bp @ t @ ws) \<and> length t = length us" for zs ws
      using less.hyps [OF h(5) less.prems(1-3) h(4,2) less.prems(6) tmp(2) m, of zs ws] tmp(2) by simp
    have right_half: "\<exists>t. mergesort_internal_parallel sched threshold min_task_size (m + 1) right (p @ zs @ vs @ q, bp @ ws @ tv0 @ bq) =
        Some (p @ zs @ sort vs @ q, bp @ ws @ t @ bq) \<and> length t = length vs"
      if "length zs = length us" "length ws = length us" for zs ws
      using less.hyps [OF h(6) less.prems(1,2) _ _ h(3) _ tmp(3) less.prems(8), of "m + 1" "p @ zs" "bp @ ws" q bq]
        that h(1,4) less.prems(4,6) tmp(3) by simp
    obtain tu tv where both: "(if sched left right
           then do {
             s \<leftarrow> mergesort_internal_parallel sched threshold min_task_size left m (p @ us @ vs @ q, bp @ tu0 @ tv0 @ bq);
             mergesort_internal_parallel sched threshold min_task_size (m + 1) right s
           } else do {
             s \<leftarrow> mergesort_internal_parallel sched threshold min_task_size (m + 1) right (p @ us @ vs @ q, bp @ tu0 @ tv0 @ bq);
             mergesort_internal_parallel sched threshold min_task_size left m s
           }) = Some (p @ sort us @ sort vs @ q, bp @ tu @ tv @ bq)" "length tu = length us" "length tv = length vs"
      using either_order [OF left_half right_half tmp(2)] by blast
    have ne: "sort us \<noteq> []" "sort vs \<noteq> []" using h(2,3) by (metis length_0_conv length_sort)+
    obtain t3 where t3: "merge (p @ sort us @ sort vs @ q) (bp @ tu @ (tv @ bq)) left left m right =
        Some (p @ sort (sort us @ sort vs) @ q, bp @ t3 @ (tv @ bq))" "length t3 = length tu"
      using merge_sorts [of "sort us" "sort vs" tu left p m right left bp q "tv @ bq"] ne h(1,4) less.prems(3,4,6) both(2) by auto
    have "cint (left + right) = Some (left + right)" using less.prems(3,4,8) h(1,2) by simp
    then have "mergesort_internal_parallel sched threshold min_task_size left right (p @ xs @ q, bp @ tmp @ bq) =
        Some (p @ sort xs @ q, bp @ (t3 @ tv) @ bq)"
      using False both(1) t3(1) sort_halves [of us vs] h(1) tmp(1)
      by (subst mergesort_internal_parallel.simps)
        (simp add: m_def [symmetric] Let_def del: cint_Some split del: if_split cong: if_cong)
    then show ?thesis using t3(2) both(2,3) less.prems(7) h(1) by auto
  qed
qed



lemma insertion_step:
  assumes "sorted ys"
  shows "insertion_loop (ys @ z # zs) 0 hi (int (length ys)) =
    (if int (length ys) \<le> hi then insertion_loop (insort z ys @ zs) 0 hi (int (length (insort z ys))) else Some (ys @ z # zs))"
proof -
  obtain us vs g where s: "ys = us @ vs" "\<forall>v\<in>set vs. z < v" "us = [] \<or> last us \<le> z"
    "shift_loop ([] @ ys @ z # zs) (int (length ([] :: int list))) (int (length ([] :: int list) + length ys)) z =
       Some ([] @ us @ g # vs @ zs, int (length ([] :: int list) + length us))"
    using shift_loop_spec [of ys z "[]" z zs] by blast
  have sh: "shift_loop (ys @ z # zs) 0 (int (length ys)) z = Some (us @ g # vs @ zs, int (length us))"
    using s(4) by simp
  have r: "rd (ys @ z # zs) (int (length ys)) = Some z" by simp
  have w: "wr (us @ g # vs @ zs) (int (length us)) z = Some (insort z ys @ zs)"
    using insort_split [of us vs z] s(1-3) assms by simp
  have l: "int (length ys) + 1 = int (length (insort z ys))" by simp
  show ?thesis
    by (subst insertion_loop.simps) (simp only: r sh w l Option.bind.bind_lunit prod.case)
qed

lemma insertion_overruns:
  "sorted ys \<Longrightarrow> insertion_loop (ys @ zs) 0 (int (length ys + length zs)) (int (length ys)) = None"
proof (induction zs arbitrary: ys)
  case Nil
  then show ?case by (subst insertion_loop.simps) (simp add: rd_def)
next
  case (Cons z zs)
  have "length (insort z ys) + length zs = length ys + length (z # zs)" by simp
  then have "insertion_loop (insort z ys @ zs) 0 (int (length ys + length (z # zs))) (int (length (insort z ys))) = None"
    using Cons.IH [of "insort z ys"] Cons.prems by (metis sorted_insort)
  then show ?case using insertion_step [OF Cons.prems, of z zs "int (length ys + length (z # zs))"] by simp
qed

text \<open>
  Serial merge sort of \<open>n\<close> elements sorts when \<open>n\<close> reaches the threshold; below it, it hands \<open>n\<close>
  instead of \<open>n - 1\<close> to insertion sort and reads the element behind the end of the array.
\<close>

theorem mergesort_serial_cases:
  assumes "1 \<le> threshold" "length array < 2 ^ 30" "array \<noteq> []"
  shows "mergesort_serial threshold array (int (length array)) =
    (if int (length array) < threshold then None else Some (sort array))"
proof (cases "int (length array) < threshold")
  case False
  have "int (length array) div 2 + 1 = int (length array div 2 + 1)" by (simp add: zdiv_int)
  then have n: "nat (int (length array) div 2 + 1) = length array div 2 + 1" by simp
  obtain tmp' where "mergesort_internal threshold array (replicate (length array div 2 + 1) 0) 0 0 (int (length array) - 1) =
      Some (sort array, tmp')"
    using mergesort_internal_sorts [of threshold 0 "[]" "int (length array) - 1" array 0 "[]"
        "replicate (length array div 2 + 1) 0" "[]" "[]"] assms by auto
  then show ?thesis using False n by (simp add: mergesort_serial_def)
next
  case True
  obtain x xs where a: "array = [x] @ xs" using assms(3) by (cases array) auto
  have "insertion_loop ([x] @ xs) 0 (int (length [x] + length xs)) (int (length [x])) = None"
    by (rule insertion_overruns) simp
  then show ?thesis using True a by (simp add: mergesort_serial_def insertionsort_def)
qed

theorem mergesort_serial_cases_witness:
  "mergesort_serial 16 [2, 1] 2 = None \<and> mergesort_serial 1 [2, 1] 2 = Some [1, 2]"
  using mergesort_serial_cases [of 16 "[2, 1]"] mergesort_serial_cases [of 1 "[2, 1]"] by simp

end
