(* ===== verification/Quicksort.thy ===== *)
theory Quicksort
  imports Sorts
begin

text \<open>
  The sorting program \<open>threadlab/tests/quicksort.c\<close>, serial and on the thread pool, over the arrays of
  the merge sort.
\<close>

subsection \<open>The program\<close>

definition swap_elems :: "int list \<Rightarrow> int \<Rightarrow> int \<Rightarrow> int list option" where
  "swap_elems a i j = do {
     tmp \<leftarrow> rd a i;
     y \<leftarrow> rd a j;
     a \<leftarrow> wr a i y;
     wr a j tmp
   }"

partial_function (option) partition_loop ::
    "int list \<Rightarrow> int \<Rightarrow> int \<Rightarrow> int \<Rightarrow> int \<Rightarrow> (int list \<times> int) option" where
  "partition_loop a left right current lst =
     (if current \<le> right then do {
        x \<leftarrow> rd a current;
        y \<leftarrow> rd a left;
        if x < y then do {
          a \<leftarrow> swap_elems a (lst + 1) current;
          partition_loop a left right (current + 1) (lst + 1)
        } else partition_loop a left right (current + 1) lst
      } else Some (a, lst))"

declare partition_loop.simps [code]

definition qsort_partition :: "int list \<Rightarrow> int \<Rightarrow> int \<Rightarrow> (int list \<times> int) option" where
  "qsort_partition a left right = do {
     let middle = left + (right - left) div 2;
     a \<leftarrow> swap_elems a left middle;
     (a, lst) \<leftarrow> partition_loop a left right (left + 1) left;
     a \<leftarrow> swap_elems a left lst;
     Some (a, lst)
   }"

partial_function (option) qsort_internal_serial :: "int \<Rightarrow> int \<Rightarrow> int list \<Rightarrow> int list option" where
  "qsort_internal_serial left right a =
     (if left \<ge> right then Some a
      else do {
        (a, split) \<leftarrow> qsort_partition a left right;
        a \<leftarrow> qsort_internal_serial left (split - 1) a;
        qsort_internal_serial (split + 1) right a
      })"

declare qsort_internal_serial.simps [code]

definition qsort_serial :: "int list \<Rightarrow> int \<Rightarrow> int list option" where
  "qsort_serial a n = qsort_internal_serial 0 (n - 1) a"

text \<open>The value of a task, the size of its segment, is ignored by all that ask for it.\<close>

partial_function (option) qsort_internal_parallel ::
    "(int \<Rightarrow> int \<Rightarrow> bool) \<Rightarrow> int \<Rightarrow> int \<Rightarrow> int \<Rightarrow> int list \<Rightarrow> (int \<times> int list) option" where
  "qsort_internal_parallel sched depth left right a =
     (if left \<ge> right then Some (0, a)
      else do {
        (a, split) \<leftarrow> qsort_partition a left right;
        if depth < 1 then do {
          a \<leftarrow> qsort_internal_serial left (split - 1) a;
          a \<leftarrow> qsort_internal_serial (split + 1) right a;
          Some (right - left, a)
        } else
          (if sched left right
           then do {
             (_, a) \<leftarrow> qsort_internal_parallel sched (depth - 1) left (split - 1) a;
             (_, a) \<leftarrow> qsort_internal_parallel sched (depth - 1) (split + 1) right a;
             Some (right - left, a)
           } else do {
             (_, a) \<leftarrow> qsort_internal_parallel sched (depth - 1) (split + 1) right a;
             (_, a) \<leftarrow> qsort_internal_parallel sched (depth - 1) left (split - 1) a;
             Some (right - left, a)
           })
      })"

declare qsort_internal_parallel.simps [code]

definition qsort_parallel :: "(int \<Rightarrow> int \<Rightarrow> bool) \<Rightarrow> int \<Rightarrow> int list \<Rightarrow> int \<Rightarrow> int list option" where
  "qsort_parallel sched depth a n = do { (_, a) \<leftarrow> qsort_internal_parallel sched depth 0 (n - 1) a; Some a }"

subsection \<open>Partitioning\<close>

lemma swap_mid:
  "i = int (length p) \<Longrightarrow> j = int (length p + length ys + 1) \<Longrightarrow>
    swap_elems (p @ x # ys @ y # q) i j = Some (p @ y # ys @ x # q)"
  using rd_at [of j "p @ x # ys" y q] wr_at [of j "p @ y # ys" y q x] by (simp add: swap_elems_def)

lemma swap_same: "i = int (length p) \<Longrightarrow> swap_elems (p @ x # q) i i = Some (p @ x # q)"
  by (simp add: swap_elems_def)

lemma partition_loop_spec:
  "\<forall>x\<in>set ls. x < v \<Longrightarrow> \<forall>x\<in>set gs. v \<le> x \<Longrightarrow>
    \<exists>ls' gs'. partition_loop (p @ v # ls @ gs @ rest @ q) (int (length p)) (int (length p + length ls + length gs + length rest))
        (int (length p + length ls + length gs) + 1) (int (length p + length ls)) =
      Some (p @ v # ls' @ gs' @ q, int (length p + length ls')) \<and>
      (\<forall>x\<in>set ls'. x < v) \<and> (\<forall>x\<in>set gs'. v \<le> x) \<and> mset (ls' @ gs') = mset (ls @ gs @ rest)"
proof (induction rest arbitrary: ls gs)
  case Nil
  then show ?case by (intro exI [of _ ls] exI [of _ gs]) (subst partition_loop.simps, simp)
next
  case (Cons x rest)
  let ?a = "p @ v # ls @ gs @ (x # rest) @ q"
  let ?right = "int (length p + length ls + length gs + length (x # rest))"
  let ?c = "int (length p + length ls + length gs) + 1"
  have r: "rd ?a ?c = Some x" "rd ?a (int (length p)) = Some v"
    using rd_at [of ?c "p @ v # ls @ gs" x "rest @ q"] by simp_all
  have c: "?c \<le> ?right" by simp
  show ?case
  proof (cases "x < v")
    case True
    obtain gs1 where sw: "swap_elems ?a (int (length p + length ls) + 1) ?c = Some (p @ v # (ls @ [x]) @ gs1 @ rest @ q)"
      "mset gs1 = mset gs" "length gs1 = length gs"
    proof (cases gs)
      case Nil
      then show ?thesis using that [of "[]"] swap_same [of ?c "p @ v # ls" x "rest @ q"] by simp
    next
      case (Cons g hs)
      then show ?thesis
        using that [of "hs @ [g]"] swap_mid [of "int (length p + length ls) + 1" "p @ v # ls" ?c hs g x "rest @ q"] by simp
    qed
    have ge: "\<forall>y\<in>set gs1. v \<le> y" using Cons.prems(2) sw(2) by (metis set_mset_mset)
    have step: "partition_loop ?a (int (length p)) ?right ?c (int (length p + length ls)) =
        partition_loop (p @ v # (ls @ [x]) @ gs1 @ rest @ q) (int (length p)) ?right (?c + 1) (int (length p + length ls) + 1)"
      by (subst partition_loop.simps) (simp only: r sw(1) c True if_True Option.bind.bind_lunit)
    have e: "?c + 1 = int (length p + length (ls @ [x]) + length gs1) + 1" "int (length p + length ls) + 1 = int (length p + length (ls @ [x]))"
      "?right = int (length p + length (ls @ [x]) + length gs1 + length rest)"
      using sw(3) by simp_all
    obtain ls' gs' where ih: "partition_loop (p @ v # (ls @ [x]) @ gs1 @ rest @ q) (int (length p))
        (int (length p + length (ls @ [x]) + length gs1 + length rest))
        (int (length p + length (ls @ [x]) + length gs1) + 1) (int (length p + length (ls @ [x]))) =
        Some (p @ v # ls' @ gs' @ q, int (length p + length ls'))" "\<forall>x\<in>set ls'. x < v" "\<forall>x\<in>set gs'. v \<le> x"
      "mset (ls' @ gs') = mset ((ls @ [x]) @ gs1 @ rest)"
      using Cons.IH [of "ls @ [x]" gs1] Cons.prems(1) True ge by auto
    have "partition_loop (p @ v # (ls @ [x]) @ gs1 @ rest @ q) (int (length p)) ?right (?c + 1) (int (length p + length ls) + 1) =
        Some (p @ v # ls' @ gs' @ q, int (length p + length ls'))"
      unfolding e by (rule ih(1))
    moreover have "mset (ls' @ gs') = mset (ls @ gs @ x # rest)" using ih(4) sw(2) by simp
    ultimately show ?thesis using step ih(2,3) by metis
  next
    case False
    have step: "partition_loop ?a (int (length p)) ?right ?c (int (length p + length ls)) =
        partition_loop ?a (int (length p)) ?right (?c + 1) (int (length p + length ls))"
      by (subst partition_loop.simps) (simp only: r c False if_True if_False Option.bind.bind_lunit)
    have e: "?c + 1 = int (length p + length ls + length (gs @ [x])) + 1"
      "?right = int (length p + length ls + length (gs @ [x]) + length rest)" "?a = p @ v # ls @ (gs @ [x]) @ rest @ q"
      by simp_all
    obtain ls' gs' where ih: "partition_loop (p @ v # ls @ (gs @ [x]) @ rest @ q) (int (length p))
        (int (length p + length ls + length (gs @ [x]) + length rest))
        (int (length p + length ls + length (gs @ [x])) + 1) (int (length p + length ls)) =
        Some (p @ v # ls' @ gs' @ q, int (length p + length ls'))" "\<forall>x\<in>set ls'. x < v" "\<forall>x\<in>set gs'. v \<le> x"
      "mset (ls' @ gs') = mset (ls @ (gs @ [x]) @ rest)"
      using Cons.IH [of ls "gs @ [x]"] Cons.prems False by auto
    have "partition_loop ?a (int (length p)) ?right (?c + 1) (int (length p + length ls)) =
        Some (p @ v # ls' @ gs' @ q, int (length p + length ls'))"
      unfolding e by (rule ih(1))
    moreover have "mset (ls' @ gs') = mset (ls @ gs @ x # rest)" using ih(4) by simp
    ultimately show ?thesis using step ih(2,3) by metis
  qed
qed

lemma qsort_partition_spec:
  assumes "left = int (length p)" "right = int (length p + length xs) - 1" "left < right"
  shows "\<exists>us v vs. qsort_partition (p @ xs @ q) left right = Some (p @ us @ v # vs @ q, int (length p + length us)) \<and>
    (\<forall>x\<in>set us. x < v) \<and> (\<forall>x\<in>set vs. v \<le> x) \<and> mset (us @ v # vs) = mset xs"
proof -
  define k where "k = nat ((right - left) div 2)"
  have k: "k < length xs" "left + (right - left) div 2 = int (length p + k)"
    using assms by (auto simp: k_def)
  obtain x ys where xs: "xs = x # ys" using k(1) by (cases xs) auto
  obtain v zs where sw: "swap_elems (p @ xs @ q) left (left + (right - left) div 2) = Some (p @ v # zs @ q)"
    "mset (v # zs) = mset xs"
  proof (cases k)
    case 0
    then show ?thesis using that [of x ys] swap_same [OF assms(1), of x "ys @ q"] xs k(2) assms(1) by simp
  next
    case (Suc m)
    then have m: "m < length ys" using k(1) xs by simp
    have ys: "ys = take m ys @ ys ! m # drop (Suc m) ys" using m by (simp add: id_take_nth_drop)
    have "swap_elems (p @ x # take m ys @ ys ! m # drop (Suc m) ys @ q) left (int (length p + k)) =
        Some (p @ ys ! m # take m ys @ x # drop (Suc m) ys @ q)"
      using swap_mid [OF assms(1), of "int (length p + k)" "take m ys" x "ys ! m" "drop (Suc m) ys @ q"] m Suc by simp
    moreover have "p @ xs @ q = p @ x # take m ys @ ys ! m # drop (Suc m) ys @ q" using xs ys by simp
    moreover have "mset (ys ! m # take m ys @ x # drop (Suc m) ys) = mset xs"
    proof -
      have "mset xs = mset (x # take m ys @ ys ! m # drop (Suc m) ys)" using xs ys by simp
      then show ?thesis by simp
    qed
    ultimately show ?thesis using that [of "ys ! m" "take m ys @ x # drop (Suc m) ys"] k(2) by simp
  qed
  have lz: "length xs = Suc (length zs)" using sw(2) by (metis length_Cons size_mset)
  obtain ls gs where l: "partition_loop (p @ v # [] @ [] @ zs @ q) (int (length p)) right (left + 1) left =
      Some (p @ v # ls @ gs @ q, int (length p + length ls))" "\<forall>x\<in>set ls. x < v" "\<forall>x\<in>set gs. v \<le> x"
    "mset (ls @ gs) = mset zs"
    using partition_loop_spec [of "[]" v "[]" p zs q] assms(1,2) lz by auto
  obtain us where us: "swap_elems (p @ v # ls @ gs @ q) left (int (length p + length ls)) = Some (p @ us @ v # gs @ q)"
    "mset us = mset ls"
  proof (cases ls rule: rev_cases)
    case Nil
    then show ?thesis using that [of "[]"] swap_same [OF assms(1), of v "gs @ q"] assms(1) by simp
  next
    case (snoc ms y)
    then show ?thesis
      using that [of "y # ms"] swap_mid [OF assms(1), of "int (length p + length ls)" ms v y "gs @ q"] by simp
  qed
  have "length us = length ls" "set us = set ls" using us(2) by (metis size_mset, metis set_mset_mset)
  moreover have "mset (us @ v # gs) = mset xs" using us(2) l(4) sw(2) by simp
  moreover have "qsort_partition (p @ xs @ q) left right = Some (p @ us @ v # gs @ q, int (length p + length us))"
    using sw(1) l(1) us(1) \<open>length us = length ls\<close> assms(1) by (simp add: qsort_partition_def Let_def)
  ultimately show ?thesis using l(2,3) by metis
qed

lemma sort_partition:
  assumes "\<forall>x\<in>set us. x < v" "\<forall>x\<in>set vs. v \<le> x" "mset (us @ v # vs) = mset xs"
  shows "sort us @ v # sort vs = sort xs"
proof (rule properties_for_sort [symmetric])
  show "mset (sort us @ v # sort vs) = mset xs" using assms(3) by simp
  have "x \<le> y" if "x \<in> set us" "y \<in> set vs" for x y using assms(1,2) that by fastforce
  then show "sorted (sort us @ v # sort vs)" using assms(1,2) by (auto simp: sorted_append intro: less_imp_le)
qed

lemma qsort_internal_serial_sorts:
  "left = int (length p) \<Longrightarrow> right = int (length p + length xs) - 1 \<Longrightarrow>
    qsort_internal_serial left right (p @ xs @ q) = Some (p @ sort xs @ q)"
proof (induction "length xs" arbitrary: xs p q left right rule: less_induct)
  case less
  show ?case
  proof (cases "left \<ge> right")
    case True
    then have "length xs \<le> 1" using less.prems by simp
    then have "sort xs = xs" by (cases xs) auto
    then show ?thesis using True by (subst qsort_internal_serial.simps) simp
  next
    case False
    then obtain us v vs where s: "qsort_partition (p @ xs @ q) left right = Some (p @ us @ v # vs @ q, int (length p + length us))"
      "\<forall>x\<in>set us. x < v" "\<forall>x\<in>set vs. v \<le> x" "mset (us @ v # vs) = mset xs"
      using qsort_partition_spec [OF less.prems] by (metis not_le)
    have l: "length xs = length us + length vs + 1" using s(4) by (metis size_mset length_append length_Cons add_Suc_right Suc_eq_plus1)
    have "qsort_internal_serial left (int (length p + length us) - 1) (p @ us @ (v # vs @ q)) = Some (p @ sort us @ (v # vs @ q))"
      using less.hyps [of us left p "int (length p + length us) - 1" "v # vs @ q"] l less.prems(1) by simp
    moreover have "qsort_internal_serial (int (length p + length us) + 1) right ((p @ sort us @ [v]) @ vs @ q) =
        Some ((p @ sort us @ [v]) @ sort vs @ q)"
      using less.hyps [of vs "int (length p + length us) + 1" "p @ sort us @ [v]" right q] l less.prems(2) by simp
    ultimately have "qsort_internal_serial left right (p @ xs @ q) = Some (p @ (sort us @ v # sort vs) @ q)"
      using False s(1) by (subst qsort_internal_serial.simps) simp
    then show ?thesis unfolding sort_partition [OF s(2-4)] .
  qed
qed

lemma qsort_internal_parallel_sorts:
  "left = int (length p) \<Longrightarrow> right = int (length p + length xs) - 1 \<Longrightarrow>
    \<exists>n. qsort_internal_parallel sched depth left right (p @ xs @ q) = Some (n, p @ sort xs @ q)"
proof (induction "length xs" arbitrary: xs p q left right depth rule: less_induct)
  case less
  show ?case
  proof (cases "left \<ge> right")
    case True
    then have "length xs \<le> 1" using less.prems by simp
    then have "sort xs = xs" by (cases xs) auto
    then show ?thesis using True by (subst qsort_internal_parallel.simps) simp
  next
    case False
    then obtain us v vs where s: "qsort_partition (p @ xs @ q) left right = Some (p @ us @ v # vs @ q, int (length p + length us))"
      "\<forall>x\<in>set us. x < v" "\<forall>x\<in>set vs. v \<le> x" "mset (us @ v # vs) = mset xs"
      using qsort_partition_spec [OF less.prems] by (metis not_le)
    have l: "length us < length xs" "length vs < length xs" "length xs = length us + length vs + 1"
      using arg_cong [OF s(4), of size] by auto
    let ?s = "int (length p + length us)"
    have ls: "qsort_internal_serial left (?s - 1) (p @ us @ (v # vs @ q)) = Some (p @ sort us @ (v # vs @ q))"
      using qsort_internal_serial_sorts [of left p "?s - 1" us "v # vs @ q"] less.prems(1) by simp
    have rs: "qsort_internal_serial (?s + 1) right ((p @ sort us @ [v]) @ vs @ q) = Some ((p @ sort us @ [v]) @ sort vs @ q)"
      using qsort_internal_serial_sorts [of "?s + 1" "p @ sort us @ [v]" right vs q] less.prems(2) l(3) by simp
    have lp: "\<exists>n. qsort_internal_parallel sched d left (?s - 1) (p @ us @ zs) = Some (n, p @ sort us @ zs)" for d zs
      using less.hyps [OF l(1), of left p "?s - 1" d zs] less.prems(1) by simp
    have rp: "\<exists>n. qsort_internal_parallel sched d (?s + 1) right ((p @ zs @ [v]) @ vs @ q) = Some (n, (p @ zs @ [v]) @ sort vs @ q)"
      if "length zs = length us" for d zs
      using less.hyps [OF l(2), of "?s + 1" "p @ zs @ [v]" right d q] less.prems(2) l(3) that by simp
    have "\<exists>n. qsort_internal_parallel sched depth left right (p @ xs @ q) = Some (n, p @ (sort us @ v # sort vs) @ q)"
    proof (cases "depth < 1")
      case True
      then show ?thesis using False s(1) ls rs by (subst qsort_internal_parallel.simps) simp
    next
      case deep: False
      show ?thesis
      proof (cases "sched left right")
        case True
        obtain n1 n2 where "qsort_internal_parallel sched (depth - 1) left (?s - 1) (p @ us @ v # vs @ q) = Some (n1, p @ sort us @ v # vs @ q)"
          "qsort_internal_parallel sched (depth - 1) (?s + 1) right ((p @ sort us @ [v]) @ vs @ q) = Some (n2, (p @ sort us @ [v]) @ sort vs @ q)"
          using lp [of "depth - 1" "v # vs @ q"] rp [of "sort us" "depth - 1"] by auto
        then show ?thesis using False deep True s(1) by (subst qsort_internal_parallel.simps) simp
      next
        case late: False
        obtain n1 n2 where "qsort_internal_parallel sched (depth - 1) (?s + 1) right ((p @ us @ [v]) @ vs @ q) = Some (n1, (p @ us @ [v]) @ sort vs @ q)"
          "qsort_internal_parallel sched (depth - 1) left (?s - 1) (p @ us @ v # sort vs @ q) = Some (n2, p @ sort us @ v # sort vs @ q)"
          using lp [of "depth - 1" "v # sort vs @ q"] rp [of us "depth - 1"] by auto
        then show ?thesis using False deep late s(1) by (subst qsort_internal_parallel.simps) simp
      qed
    qed
    then show ?thesis unfolding sort_partition [OF s(2-4)] .
  qed
qed
text \<open>
  C39: Quick sort ends and sorts the array, so that the check of the benchmark passes: serially, and on
  the thread pool for every depth up to which tasks are submitted and every order in which a task and
  its parent run.
\<close>

theorem qsort_sorts:
  "benchmark qsort_serial array (int (length array)) = Some (sort array) \<and>
   benchmark (qsort_parallel sched depth) array (int (length array)) = Some (sort array)"
  using qsort_internal_serial_sorts [of 0 "[]" "int (length array) - 1" array "[]"]
    qsort_internal_parallel_sorts [of 0 "[]" "int (length array) - 1" array sched depth "[]"]
  by (auto simp: qsort_serial_def qsort_parallel_def benchmark_def)

end
