(* ===== verification/Queens.thy ===== *)
theory Queens
  imports Prelude "HOL-Library.Word"
begin

unbundle bit_operations_syntax

text \<open>
  The search of \<open>threadlab/tests/nqueens.c\<close>: a board is an array of 64-bit words, one bit for each
  square, and an access outside it is undefined.  The tasks of a level work on boards of their own, so
  the order in which the thread pool runs them does not matter; above the depth given they share one
  board, on which each queen is set and taken away again.
\<close>

subsection \<open>The program\<close>

definition MAX_N :: int where "MAX_N = 18"
definition WORD_BITS :: int where "WORD_BITS = 64"
definition MAX_LONGS :: int where "MAX_LONGS = (MAX_N + WORD_BITS - 1) div WORD_BITS * MAX_N"

type_synonym board = "64 word list"

definition get_long :: "board \<Rightarrow> int \<Rightarrow> 64 word option" where
  "get_long b i = (if 0 \<le> i \<and> i < int (length b) then Some (b ! nat i) else None)"

definition set_long :: "board \<Rightarrow> int \<Rightarrow> 64 word \<Rightarrow> board option" where
  "set_long b i w = (if 0 \<le> i \<and> i < int (length b) then Some (b[nat i := w]) else None)"

definition bit_of :: "int \<Rightarrow> 64 word" where
  "bit_of idx = push_bit (nat (idx mod WORD_BITS)) 1"

definition is_queen :: "board \<Rightarrow> int \<Rightarrow> int \<Rightarrow> int \<Rightarrow> bool option" where
  "is_queen b x y N =
     (if x < 0 \<or> x \<ge> N \<or> y < 0 \<or> y \<ge> N then Some False
      else do {
        let idx = x * N + y;
        w \<leftarrow> get_long b (idx div WORD_BITS);
        Some (w AND bit_of idx = bit_of idx)
      })"

definition set_queen :: "board \<Rightarrow> int \<Rightarrow> int \<Rightarrow> int \<Rightarrow> board option" where
  "set_queen b x y N = do {
     let idx = x * N + y;
     w \<leftarrow> get_long b (idx div WORD_BITS);
     set_long b (idx div WORD_BITS) (w OR bit_of idx)
   }"

definition unset_queen :: "board \<Rightarrow> int \<Rightarrow> int \<Rightarrow> int \<Rightarrow> board option" where
  "unset_queen b x y N = do {
     let idx = x * N + y;
     w \<leftarrow> get_long b (idx div WORD_BITS);
     set_long b (idx div WORD_BITS) (w AND NOT (bit_of idx))
   }"

text \<open>Whether a queen stands on a square in line with \<open>(x, y)\<close>, at the distances given, in the order tested.\<close>

fun attacked :: "board \<Rightarrow> int \<Rightarrow> int \<Rightarrow> int \<Rightarrow> int list \<Rightarrow> bool option" where
  "attacked b x y N [] = Some False"
| "attacked b x y N (k # ks) = do {
     q1 \<leftarrow> is_queen b (x + k) y N;
     if q1 then Some True else do {
     q2 \<leftarrow> is_queen b x (y + k) N;
     if q2 then Some True else do {
     q3 \<leftarrow> is_queen b (x + k) (y + k) N;
     if q3 then Some True else do {
     q4 \<leftarrow> is_queen b (x + k) (y - k) N;
     if q4 then Some True else attacked b x y N ks }}}
   }"

fun solved_loop :: "board \<Rightarrow> int \<Rightarrow> (int \<times> int) list \<Rightarrow> int \<Rightarrow> int option" where
  "solved_loop b N [] queens = Some queens"
| "solved_loop b N ((x, y) # sq) queens = do {
     q \<leftarrow> is_queen b x y N;
     if q then do {
       t \<leftarrow> attacked b x y N [1..N - 1];
       if t then Some (- 1) else solved_loop b N sq (queens + 1)
     } else solved_loop b N sq queens
   }"

definition squares :: "int \<Rightarrow> (int \<times> int) list" where
  "squares N = concat (map (\<lambda>x. map (Pair x) [0..N - 1]) [0..N - 1])"

definition solved :: "board \<Rightarrow> int \<Rightarrow> int option" where
  "solved b N = solved_loop b N (squares N) 0"

text \<open>
  The search from a row, with the two loops over the columns: on the one board, and on a copy for each
  column, where the last column is searched by the caller itself and the results of the others are
  added after it.  The rows that are left are counted by \<open>n\<close>; a call returns the number of solutions and its
  board.
\<close>

fun over_columns :: "(board \<Rightarrow> (int \<times> board) option) \<Rightarrow> int \<Rightarrow> int \<Rightarrow> int list \<Rightarrow> board \<Rightarrow> int \<Rightarrow> (int \<times> board) option" where
  "over_columns f row N [] b slns = Some (slns, b)"
| "over_columns f row N (i # is) b slns = do {
     b \<leftarrow> set_queen b row i N;
     (r, b) \<leftarrow> f b;
     b \<leftarrow> unset_queen b row i N;
     over_columns f row N is b (slns + r)
   }"

fun over_copies :: "(board \<Rightarrow> (int \<times> board) option) \<Rightarrow> int \<Rightarrow> int \<Rightarrow> int list \<Rightarrow> board \<Rightarrow> int \<Rightarrow> int option" where
  "over_copies f row N [] b slns = Some slns"
| "over_copies f row N (i # is) b slns = do {
     copy \<leftarrow> set_queen b row i N;
     (r, copy) \<leftarrow> f copy;
     over_copies f row N is b (slns + r)
   }"

fun backtrack :: "int \<Rightarrow> int \<Rightarrow> nat \<Rightarrow> int \<Rightarrow> board \<Rightarrow> (int \<times> board) option" where
  "backtrack depth N 0 row b = do {
     s \<leftarrow> solved b N;
     Some (if s = N then 1 else 0, b)
   }"
| "backtrack depth N (Suc n) row b = do {
     s \<leftarrow> solved b N;
     if s = - 1 then Some (0, b)
     else if row < depth then do {
       slns \<leftarrow> over_copies (backtrack depth N n (row + 1)) row N ((N - 1) # [0..N - 2]) b 0;
       Some (slns, b)
     } else over_columns (backtrack depth N n (row + 1)) row N [0..N - 1] b 0
   }"

text \<open>The search on the empty board; a wrong number of solutions is reported and the program aborts.\<close>

definition valid_solutions :: "int list" where
  "valid_solutions = [0, 1, 0, 0, 2, 10, 4, 40, 92, 352, 724, 2680, 14200, 73712, 365596, 2279184, 14772512,
     95815104, 666090624]"

definition queens_main :: "int \<Rightarrow> int \<Rightarrow> int option" where
  "queens_main depth N = do {
     assert_c (0 \<le> N \<and> N \<le> MAX_N);
     (slns, b) \<leftarrow> backtrack depth N (nat N) 0 (replicate (nat MAX_LONGS) 0);
     assert_c (slns = valid_solutions ! nat N);
     Some slns
   }"

subsection \<open>Boards as sets of squares\<close>

definition queens :: "board \<Rightarrow> int \<Rightarrow> (int \<times> int) set" where
  "queens b N = {(x, y). 0 \<le> x \<and> x < N \<and> 0 \<le> y \<and> y < N \<and>
     bit (b ! nat ((x * N + y) div 64)) (nat ((x * N + y) mod 64))}"

definition board_ok :: "board \<Rightarrow> int \<Rightarrow> bool" where
  "board_ok b N \<longleftrightarrow> length b = 18 \<and> 0 \<le> N \<and> N \<le> 18"

lemma bit_one_at: "bit (push_bit n (1 :: 64 word)) i \<longleftrightarrow> i = n \<and> n < 64"
  by (auto simp: bit_simps)

lemma and_push_bit:
  assumes "n < 64"
  shows "(w AND push_bit n 1 = push_bit n (1 :: 64 word)) = bit w n"
proof
  assume "w AND push_bit n 1 = push_bit n 1"
  then have "bit (w AND push_bit n 1) n" using bit_one_at assms by metis
  then show "bit w n" by (simp add: bit_and_iff)
next
  assume "bit w n"
  then show "w AND push_bit n 1 = push_bit n 1"
    by (intro bit_eqI) (auto simp only: bit_and_iff bit_one_at)
qed

lemma idx_bounds:
  fixes x y N :: int
  assumes "0 \<le> x" "x < N" "0 \<le> y" "y < N" "N \<le> 18"
  shows "0 \<le> x * N + y" "(x * N + y) div 64 < 18"
proof -
  have "x * N \<le> 17 * 18" using assms by (intro mult_mono) auto
  then show "0 \<le> x * N + y" "(x * N + y) div 64 < 18" using assms by simp_all
qed

lemma idx_inj:
  fixes x y x' y' N :: int
  assumes "x * N + y = x' * N + y'" "0 \<le> y" "y < N" "0 \<le> y'" "y' < N"
  shows "x = x' \<and> y = y'"
proof -
  have "(x * N + y) div N = x" "(x' * N + y') div N = x'" using assms(2-5) by simp_all
  then have "x = x'" using assms(1) by simp
  then show ?thesis using assms(1) by simp
qed

lemma is_queen_set:
  assumes "board_ok b N"
  shows "is_queen b x y N = Some ((x, y) \<in> queens b N)"
proof (cases "x < 0 \<or> x \<ge> N \<or> y < 0 \<or> y \<ge> N")
  case False
  then have "0 \<le> x * N + y" "(x * N + y) div 64 < 18" using idx_bounds assms by (auto simp: board_ok_def)
  then show ?thesis
    using False assms and_push_bit [of "nat ((x * N + y) mod 64)"]
    by (auto simp del: push_bit_of_1 simp: is_queen_def get_long_def board_ok_def queens_def WORD_BITS_def bit_of_def
        pos_imp_zdiv_nonneg_iff Let_def)
qed (auto simp: is_queen_def queens_def)

lemma same_square_bits:
  fixes i j :: int
  assumes "0 \<le> i" "0 \<le> j" "nat (i div 64) = nat (j div 64)" "nat (i mod 64) = nat (j mod 64)"
  shows "i = j"
proof -
  have "i div 64 = j div 64" "i mod 64 = j mod 64" using assms by (simp_all add: eq_nat_nat_iff pos_imp_zdiv_nonneg_iff)
  then show ?thesis by (metis mult_div_mod_eq)
qed

lemma queens_update:
  assumes "board_ok b N" "0 \<le> x" "x < N" "0 \<le> y" "y < N"
  defines "k \<equiv> nat ((x * N + y) div 64)" and "n \<equiv> nat ((x * N + y) mod 64)"
  shows "queens (b[k := b ! k OR push_bit n 1]) N = insert (x, y) (queens b N)"
    "queens (b[k := b ! k AND NOT (push_bit n 1)]) N = queens b N - {(x, y)}"
proof -
  have k: "k < length b" "n < 64"
    using idx_bounds [OF assms(2-5)] assms(1) by (auto simp: k_def n_def board_ok_def nat_less_iff)
  have other: "x' = x \<and> y' = y" if "nat ((x' * N + y') div 64) = k" "nat ((x' * N + y') mod 64) = n"
    "0 \<le> x'" "x' < N" "0 \<le> y'" "y' < N" for x' y'
  proof -
    have N: "N \<le> 18" using assms(1) by (simp add: board_ok_def)
    have "x' * N + y' = x * N + y"
    proof (rule same_square_bits)
      show "0 \<le> x' * N + y'" using idx_bounds(1) [OF that(3-6) N] .
      show "0 \<le> x * N + y" using idx_bounds(1) [OF assms(2-5) N] .
      show "nat ((x' * N + y') div 64) = nat ((x * N + y) div 64)" using that(1) unfolding k_def .
      show "nat ((x' * N + y') mod 64) = nat ((x * N + y) mod 64)" using that(2) unfolding n_def .
    qed
    then show ?thesis using idx_inj that assms(4,5) by blast
  qed
  have b1: "bit (b[k := b ! k OR push_bit n 1] ! i) m = (bit (b ! i) m \<or> (i = k \<and> m = n))" for i m
    using k by (cases "i = k") (auto simp del: push_bit_of_1 simp: bit_or_iff bit_one_at)
  have b2: "bit (b[k := b ! k AND NOT (push_bit n 1)] ! i) m = (bit (b ! i) m \<and> \<not> (i = k \<and> m = n))" for i m
    using k by (cases "i = k") (auto simp del: push_bit_of_1 simp: bit_and_iff bit_not_iff bit_one_at dest: bit_imp_le_length)
  have same: "(nat ((x' * N + y') div 64) = k \<and> nat ((x' * N + y') mod 64) = n) = (x' = x \<and> y' = y)"
    if "0 \<le> x' \<and> x' < N \<and> 0 \<le> y' \<and> y' < N" for x' y'
    using other [of x' y'] that unfolding k_def n_def by blast
  define R where "R = (\<lambda>(x', y'). 0 \<le> x' \<and> x' < N \<and> 0 \<le> y' \<and> y' < N)"
  have mem: "((x', y') \<in> queens c N) =
      (R (x', y') \<and> bit (c ! nat ((x' * N + y') div 64)) (nat ((x' * N + y') mod 64)))" for c x' y'
    unfolding queens_def R_def by blast
  have xy: "R (x, y)" using assms(2-5) by (simp add: R_def)
  have same': "(nat ((x' * N + y') div 64) = k \<and> nat ((x' * N + y') mod 64) = n) = ((x', y') = (x, y))" if "R (x', y')" for x' y'
    using same [of x' y'] that by (simp add: R_def)
  have "((x', y') \<in> queens (b[k := b ! k OR push_bit n 1]) N) = ((x', y') \<in> insert (x, y) (queens b N))" for x' y'
    unfolding mem b1 insert_iff using same' [of x' y'] xy by blast
  then show "queens (b[k := b ! k OR push_bit n 1]) N = insert (x, y) (queens b N)" by auto
  have "((x', y') \<in> queens (b[k := b ! k AND NOT (push_bit n 1)]) N) = ((x', y') \<in> queens b N - {(x, y)})" for x' y'
    unfolding mem b2 Diff_iff singleton_iff using same' [of x' y'] by blast
  then show "queens (b[k := b ! k AND NOT (push_bit n 1)]) N = queens b N - {(x, y)}" by auto
qed

lemma set_queen_set:
  assumes "board_ok b N" "0 \<le> x" "x < N" "0 \<le> y" "y < N" "(x, y) \<notin> queens b N"
  shows "\<exists>b'. set_queen b x y N = Some b' \<and> board_ok b' N \<and> queens b' N = insert (x, y) (queens b N) \<and>
    unset_queen b' x y N = Some b"
proof -
  let ?k = "nat ((x * N + y) div 64)" and ?n = "nat ((x * N + y) mod 64)"
  let ?b = "b[?k := b ! ?k OR push_bit ?n 1]"
  have i: "0 \<le> (x * N + y) div 64" "(x * N + y) div 64 < 18"
    using idx_bounds [OF assms(2-5)] assms(1) by (auto simp: board_ok_def pos_imp_zdiv_nonneg_iff)
  have len: "?k < length b" using i assms(1) by (simp add: board_ok_def nat_less_iff)
  have "\<not> bit (b ! ?k) ?n" using assms(2-6) by (simp add: queens_def)
  then have undo: "(b ! ?k OR push_bit ?n 1) AND NOT (push_bit ?n 1) = b ! ?k"
    by (intro bit_eqI) (auto simp only: bit_and_iff bit_or_iff bit_not_iff bit_one_at)
  have "set_queen b x y N = Some ?b"
    using i assms(1) by (simp add: set_queen_def get_long_def set_long_def board_ok_def WORD_BITS_def bit_of_def Let_def)
  moreover have "unset_queen ?b x y N = Some b"
    using i len assms(1) undo
    by (simp add: unset_queen_def get_long_def set_long_def board_ok_def WORD_BITS_def bit_of_def Let_def)
  ultimately show ?thesis using queens_update(1) [OF assms(1-5)] assms(1) by (auto simp: board_ok_def)
qed

subsection \<open>Attacks\<close>

definition attack :: "(int \<times> int) set \<Rightarrow> bool" where
  "attack P \<longleftrightarrow> (\<exists>x y x' y'. (x, y) \<in> P \<and> (x', y') \<in> P \<and> (x, y) \<noteq> (x', y') \<and>
     (x = x' \<or> y = y' \<or> \<bar>x - x'\<bar> = \<bar>y - y'\<bar>))"

definition hit_from :: "(int \<times> int) set \<Rightarrow> int \<Rightarrow> int \<Rightarrow> int \<Rightarrow> bool" where
  "hit_from P x y k \<longleftrightarrow> (x + k, y) \<in> P \<or> (x, y + k) \<in> P \<or> (x + k, y + k) \<in> P \<or> (x + k, y - k) \<in> P"

lemma attacked_set:
  "board_ok b N \<Longrightarrow> attacked b x y N ks = Some (\<exists>k\<in>set ks. hit_from (queens b N) x y k)"
  by (induction ks) (auto simp: is_queen_set hit_from_def)

lemma solved_loop_set:
  assumes "board_ok b N"
  defines "H \<equiv> \<lambda>(x, y). \<exists>k\<in>{1..N - 1}. hit_from (queens b N) x y k"
  shows "solved_loop b N sq n =
    Some (if \<exists>s\<in>set sq. s \<in> queens b N \<and> H s then - 1 else n + int (length (filter (\<lambda>s. s \<in> queens b N) sq)))"
proof (induction sq arbitrary: n)
  case (Cons s sq)
  then show ?case by (cases s) (auto simp: is_queen_set [OF assms(1)] attacked_set [OF assms(1)] H_def)
qed simp

lemma squares_set: "set (squares N) = {(x, y). 0 \<le> x \<and> x < N \<and> 0 \<le> y \<and> y < N}"
  by (auto simp: squares_def)

lemma squares_distinct: "distinct (squares N)"
proof -
  have "distinct (concat (map (\<lambda>x. map (Pair x) ys) xs))" if "distinct xs" "distinct ys" for xs ys :: "int list"
    using that by (induction xs) (auto simp: distinct_map inj_on_def)
  then show ?thesis by (simp add: squares_def)
qed

lemma attack_hit:
  assumes "P \<subseteq> {(x, y). 0 \<le> x \<and> x < N \<and> 0 \<le> y \<and> y < N}"
  shows "attack P = (\<exists>(x, y)\<in>P. \<exists>k\<in>{1..N - 1}. hit_from P x y k)"
proof
  assume "attack P"
  then obtain x y x' y' where a: "(x, y) \<in> P" "(x', y') \<in> P" "(x, y) \<noteq> (x', y')" "x = x' \<or> y = y' \<or> \<bar>x - x'\<bar> = \<bar>y - y'\<bar>"
    by (auto simp: attack_def)
  have r: "0 \<le> x" "x < N" "0 \<le> y" "y < N" "0 \<le> x'" "x' < N" "0 \<le> y'" "y' < N" using a(1,2) assms by auto
  define P1 where "P1 = (if x < x' \<or> x = x' \<and> y < y' then (x, y, x', y') else (x', y', x, y))"
  obtain u v u' v' where o: "P1 = (u, v, u', v')" by (cases P1)
  have uv: "(u, v) \<in> P" "(u', v') \<in> P" "u < u' \<or> u = u' \<and> v < v'" "u = u' \<or> v = v' \<or> \<bar>u - u'\<bar> = \<bar>v - v'\<bar>"
    "0 \<le> u" "u' < N" "0 \<le> v" "v < N" "v' < N" "0 \<le> v'"
    using o a r by (auto simp: P1_def split: if_splits)
  consider "u = u'" "v < v'" | "u < u'" "v = v'" | "u < u'" "v' = v + (u' - u)" | "u < u'" "v' = v - (u' - u)"
    using uv(3,4) by linarith
  then have "\<exists>k\<in>{1..N - 1}. hit_from P u v k"
  proof cases
    case 1
    then show ?thesis using uv by (intro bexI [of _ "v' - v"]) (auto simp: hit_from_def)
  qed (use uv in \<open>(intro bexI [of _ "u' - u"]; auto simp: hit_from_def)+\<close>)
  then show "\<exists>(x, y)\<in>P. \<exists>k\<in>{1..N - 1}. hit_from P x y k" using uv(1) by blast
next
  assume "\<exists>(x, y)\<in>P. \<exists>k\<in>{1..N - 1}. hit_from P x y k"
  then obtain x y k where "(x, y) \<in> P" "1 \<le> k" "hit_from P x y k" by auto
  then show "attack P" unfolding attack_def hit_from_def by (elim disjE) force+
qed

lemma solved_set:
  assumes "board_ok b N"
  shows "solved b N = Some (if attack (queens b N) then - 1 else int (card (queens b N)))"
proof -
  have sub: "queens b N \<subseteq> {(x, y). 0 \<le> x \<and> x < N \<and> 0 \<le> y \<and> y < N}" by (auto simp: queens_def)
  have "length (filter (\<lambda>s. s \<in> queens b N) (squares N)) = card (queens b N)"
  proof -
    have "set (filter (\<lambda>s. s \<in> queens b N) (squares N)) = queens b N" using sub by (auto simp: squares_set)
    then show ?thesis using distinct_card [of "filter (\<lambda>s. s \<in> queens b N) (squares N)"] squares_distinct by simp
  qed
  moreover have "(\<exists>s\<in>set (squares N). s \<in> queens b N \<and> (case s of (x, y) \<Rightarrow> \<exists>k\<in>{1..N - 1}. hit_from (queens b N) x y k))
      = attack (queens b N)"
    unfolding attack_hit [OF sub] squares_set using sub by blast
  ultimately show ?thesis unfolding solved_def solved_loop_set [OF assms] by simp
qed

subsection \<open>Solutions\<close>

text \<open>The squares of the queens of the rows from \<open>row\<close> on, given by their columns, and the ways to fill \<open>n\<close> rows.\<close>

definition squares_of :: "int \<Rightarrow> int list \<Rightarrow> (int \<times> int) set" where
  "squares_of row qs = {(row + int i, qs ! i) | i. i < length qs}"

definition extensions :: "int \<Rightarrow> nat \<Rightarrow> int \<Rightarrow> (int \<times> int) set \<Rightarrow> int list set" where
  "extensions N n row P = {qs. length qs = n \<and> set qs \<subseteq> {0..<N} \<and> \<not> attack (P \<union> squares_of row qs)}"

definition peaceful :: "int list \<Rightarrow> bool" where
  "peaceful qs \<longleftrightarrow> (\<forall>j<length qs. \<forall>i<j. qs ! i \<noteq> qs ! j \<and> \<bar>qs ! i - qs ! j\<bar> \<noteq> int j - int i)"

lemma squares_of_Nil [simp]: "squares_of row [] = {}"
  by (simp add: squares_of_def)

lemma squares_of_Cons: "squares_of row (q # qs) = insert (row, q) (squares_of (row + 1) qs)"
proof -
  have "(\<exists>i. s = (row + int i, (q # qs) ! i) \<and> i < Suc (length qs)) \<longleftrightarrow>
      s = (row, q) \<or> (\<exists>i. s = (row + 1 + int i, qs ! i) \<and> i < length qs)" for s
  proof
    assume "\<exists>i. s = (row + int i, (q # qs) ! i) \<and> i < Suc (length qs)"
    then obtain i where "s = (row + int i, (q # qs) ! i)" "i < Suc (length qs)" by blast
    then show "s = (row, q) \<or> (\<exists>i. s = (row + 1 + int i, qs ! i) \<and> i < length qs)"
      by (cases i) auto
  next
    assume "s = (row, q) \<or> (\<exists>i. s = (row + 1 + int i, qs ! i) \<and> i < length qs)"
    then show "\<exists>i. s = (row + int i, (q # qs) ! i) \<and> i < Suc (length qs)"
      by (elim disjE exE conjE) (force intro: exI [of _ 0], force intro: exI [of _ "Suc _"])
  qed
  then show ?thesis by (auto simp: squares_of_def)
qed

lemma attack_mono: "attack P \<Longrightarrow> P \<subseteq> Q \<Longrightarrow> attack Q"
  unfolding attack_def by blast

lemma extensions_attacked: "attack P \<Longrightarrow> extensions N n row P = {}"
  using attack_mono by (auto simp: extensions_def)

lemma extensions_0: "extensions N 0 row P = (if attack P then {} else {[]})"
  by (auto simp: extensions_def)

lemma extensions_Suc:
  "extensions N (Suc n) row P = (\<Union>i\<in>{0..<N}. (#) i ` extensions N n (row + 1) (insert (row, i) P))"
proof -
  have "qs \<in> extensions N (Suc n) row P \<longleftrightarrow>
      (\<exists>i r. qs = i # r \<and> i \<in> {0..<N} \<and> r \<in> extensions N n (row + 1) (insert (row, i) P))" for qs
    by (cases qs) (auto simp: extensions_def squares_of_Cons)
  then show ?thesis by blast
qed

lemma extensions_finite: "finite (extensions N n row P)"
  by (rule finite_subset [OF _ finite_lists_length_eq [of "{0..<N}" n]]) (auto simp: extensions_def)

lemma card_extensions_Suc:
  "int (card (extensions N (Suc n) row P)) = (\<Sum>i\<in>{0..<N}. int (card (extensions N n (row + 1) (insert (row, i) P))))"
proof -
  have "card (extensions N (Suc n) row P) = (\<Sum>i\<in>{0..<N}. card ((#) i ` extensions N n (row + 1) (insert (row, i) P)))"
    unfolding extensions_Suc by (rule card_UN_disjoint) (auto simp: extensions_finite)
  then show ?thesis by (simp add: card_image)
qed

lemma attack_placed: "attack (squares_of row qs) = (\<not> peaceful qs)"
proof
  assume "attack (squares_of row qs)"
  then obtain i j where ij: "i < length qs" "j < length qs" "(row + int i, qs ! i) \<noteq> (row + int j, qs ! j)"
    "row + int i = row + int j \<or> qs ! i = qs ! j \<or> \<bar>(row + int i) - (row + int j)\<bar> = \<bar>qs ! i - qs ! j\<bar>"
    by (auto simp: attack_def squares_of_def)
  have "i \<noteq> j" using ij(3) by auto
  then consider "i < j" | "j < i" by linarith
  then show "\<not> peaceful qs"
  proof cases
    case 1
    then have "qs ! i = qs ! j \<or> \<bar>qs ! i - qs ! j\<bar> = int j - int i" using ij(4) by auto
    then show ?thesis using 1 ij(2) unfolding peaceful_def by blast
  next
    case 2
    then have "qs ! j = qs ! i \<or> \<bar>qs ! j - qs ! i\<bar> = int i - int j" using ij(4) by auto
    then show ?thesis using 2 ij(1) unfolding peaceful_def by blast
  qed
next
  assume "\<not> peaceful qs"
  then obtain i j where ij: "j < length qs" "i < j" "qs ! i = qs ! j \<or> \<bar>qs ! i - qs ! j\<bar> = int j - int i"
    by (auto simp: peaceful_def)
  have "(row + int i, qs ! i) \<in> squares_of row qs" "(row + int j, qs ! j) \<in> squares_of row qs"
    using ij by (auto simp: squares_of_def)
  moreover have "(row + int i, qs ! i) \<noteq> (row + int j, qs ! j)" using ij(2) by simp
  moreover have "row + int i = row + int j \<or> qs ! i = qs ! j \<or> \<bar>(row + int i) - (row + int j)\<bar> = \<bar>qs ! i - qs ! j\<bar>"
    using ij(2,3) by auto
  ultimately show "attack (squares_of row qs)" unfolding attack_def by blast
qed

subsection \<open>The search\<close>

text \<open>A search that answers for the boards with a queen more in the row, and gives such a board back.\<close>

definition answers_with :: "(board \<Rightarrow> (int \<times> board) option) \<Rightarrow> int \<Rightarrow> nat \<Rightarrow> int \<Rightarrow> (int \<times> int) set \<Rightarrow> bool" where
  "answers_with f N n row P \<longleftrightarrow> (\<forall>b. board_ok b N \<and> queens b N = P \<longrightarrow> f b = Some (int (card (extensions N n row P)), b))"

lemma over_columns_answer:
  assumes "board_ok b N" "0 \<le> row" "row < N" "\<forall>i. (row, i) \<notin> queens b N"
    and "\<And>i. 0 \<le> i \<Longrightarrow> i < N \<Longrightarrow> answers_with f N n (row + 1) (insert (row, i) (queens b N))"
    and "set is \<subseteq> {0..<N}"
  shows "over_columns f row N is b s =
    Some (s + (\<Sum>i\<leftarrow>is. int (card (extensions N n (row + 1) (insert (row, i) (queens b N))))), b)"
  using assms(6)
proof (induction "is" arbitrary: s)
  case (Cons i "is")
  then have i: "0 \<le> i" "i < N" by auto
  obtain b' where b': "set_queen b row i N = Some b'" "board_ok b' N" "queens b' N = insert (row, i) (queens b N)"
    "unset_queen b' row i N = Some b"
    using set_queen_set [OF assms(1-3) i] assms(4) by blast
  then have "f b' = Some (int (card (extensions N n (row + 1) (insert (row, i) (queens b N)))), b')"
    using assms(5) [OF i] by (auto simp: answers_with_def)
  then show ?case using b' Cons by (simp add: add.assoc)
qed simp

lemma over_copies_answer:
  assumes "board_ok b N" "0 \<le> row" "row < N" "\<forall>i. (row, i) \<notin> queens b N"
    and "\<And>i. 0 \<le> i \<Longrightarrow> i < N \<Longrightarrow> answers_with f N n (row + 1) (insert (row, i) (queens b N))"
    and "set is \<subseteq> {0..<N}"
  shows "over_copies f row N is b s =
    Some (s + (\<Sum>i\<leftarrow>is. int (card (extensions N n (row + 1) (insert (row, i) (queens b N))))))"
  using assms(6)
proof (induction "is" arbitrary: s)
  case (Cons i "is")
  then have i: "0 \<le> i" "i < N" by auto
  obtain b' where b': "set_queen b row i N = Some b'" "board_ok b' N" "queens b' N = insert (row, i) (queens b N)"
    using set_queen_set [OF assms(1-3) i] assms(4) by blast
  then have "f b' = Some (int (card (extensions N n (row + 1) (insert (row, i) (queens b N)))), b')"
    using assms(5) [OF i] by (auto simp: answers_with_def)
  then show ?case using b' Cons by (simp add: add.assoc)
qed simp

lemma sum_columns:
  fixes g :: "int \<Rightarrow> int"
  assumes "0 < N"
  shows "(\<Sum>i\<leftarrow>[0..N - 1]. g i) = sum g {0..<N}" "g (N - 1) + (\<Sum>i\<leftarrow>[0..N - 2]. g i) = sum g {0..<N}"
proof -
  have eq: "{0..<N} = {0..N - 1}" "{0..<N} = insert (N - 1) {0..N - 2}" using assms by auto
  show "(\<Sum>i\<leftarrow>[0..N - 1]. g i) = sum g {0..<N}"
    unfolding eq(1) by (simp add: sum_list_distinct_conv_sum_set)
  show "g (N - 1) + (\<Sum>i\<leftarrow>[0..N - 2]. g i) = sum g {0..<N}"
    unfolding eq(2) by (simp add: sum_list_distinct_conv_sum_set)
qed

lemma backtrack_answers:
  assumes "0 \<le> N" "N \<le> 18" "0 \<le> row" "row + int n = N" "finite P" "int (card P) = row" "\<forall>(x, y)\<in>P. x < row"
  shows "answers_with (backtrack depth N n row) N n row P"
  using assms(3-)
proof (induction n arbitrary: row P)
  case 0
  then show ?case by (auto simp: answers_with_def solved_set extensions_0)
next
  case (Suc n)
  have pos: "0 < N" "row < N" using Suc.prems by auto
  have fresh: "(row, i) \<notin> P" for i using Suc.prems(5) by auto
  have IH: "answers_with (backtrack depth N n (row + 1)) N n (row + 1) (insert (row, i) P)" for i
    using Suc.prems fresh [of i] by (intro Suc.IH) auto
  have total: "int (card (extensions N (Suc n) row P)) =
      (\<Sum>i\<in>{0..<N}. int (card (extensions N n (row + 1) (insert (row, i) P))))" by (rule card_extensions_Suc)
  have "backtrack depth N (Suc n) row b = Some (int (card (extensions N (Suc n) row P)), b)"
    if b: "board_ok b N" "queens b N = P" for b
  proof (cases "attack P")
    case False
    have "over_columns (backtrack depth N n (row + 1)) row N [0..N - 1] b 0 =
        Some (int (card (extensions N (Suc n) row P)), b)"
      using over_columns_answer [OF b(1) Suc.prems(1) pos(2), of "backtrack depth N n (row + 1)" n "[0..N - 1]" 0]
        b(2) fresh IH total sum_columns(1) [OF pos(1)] by (simp add: subset_iff)
    moreover have "over_copies (backtrack depth N n (row + 1)) row N ((N - 1) # [0..N - 2]) b 0 =
        Some (int (card (extensions N (Suc n) row P)))"
    proof -
      have "set ((N - 1) # [0..N - 2]) \<subseteq> {0..<N}" using pos by auto
      then show ?thesis
        using over_copies_answer [OF b(1) Suc.prems(1) pos(2), of "backtrack depth N n (row + 1)" n "(N - 1) # [0..N - 2]" 0]
          b(2) fresh IH total sum_columns(2) [OF pos(1)] by simp
    qed
    ultimately show ?thesis using b False by (simp add: solved_set del: over_copies.simps)
  qed (use b in \<open>simp add: solved_set extensions_attacked\<close>)
  then show ?case by (simp add: answers_with_def)
qed

lemma empty_board:
  assumes "0 \<le> N" "N \<le> 18"
  shows "board_ok (replicate 18 0) N" "queens (replicate 18 0) N = {}"
proof -
  show "board_ok (replicate 18 0) N" using assms by (simp add: board_ok_def)
  have "\<not> bit (replicate 18 (0 :: 64 word) ! nat ((x * N + y) div 64)) m" if "0 \<le> x" "x < N" "0 \<le> y" "y < N" for x y m
  proof -
    have "nat ((x * N + y) div 64) < 18" using idx_bounds(2) [OF that assms(2)] by simp
    then show ?thesis by simp
  qed
  then show "queens (replicate 18 0) N = {}" unfolding queens_def by blast
qed

text \<open>
  C40: for every board the program accepts and every depth of the parallel search, the search returns the
  number of ways to place N queens, one in each row, so that no two of them attack each other, and leaves
  the empty board.
\<close>

theorem backtrack_counts:
  assumes "0 \<le> N" "N \<le> MAX_N"
  shows "backtrack depth N (nat N) 0 (replicate (nat MAX_LONGS) 0) =
    Some (int (card {qs. length qs = nat N \<and> set qs \<subseteq> {0..<N} \<and> peaceful qs}), replicate (nat MAX_LONGS) 0)"
proof -
  have N: "N \<le> 18" and L: "nat MAX_LONGS = 18" using assms(2) by (auto simp: MAX_N_def MAX_LONGS_def WORD_BITS_def)
  have "extensions N (nat N) 0 {} = {qs. length qs = nat N \<and> set qs \<subseteq> {0..<N} \<and> peaceful qs}"
    by (simp add: extensions_def attack_placed)
  then show ?thesis
    using backtrack_answers [OF assms(1) N, of 0 "nat N" "{}" depth] empty_board [OF assms(1) N] assms(1)
    by (simp add: answers_with_def L)
qed

theorem backtrack_counts_witness:
  "card {qs. length qs = 2 \<and> set qs \<subseteq> {0..<2} \<and> peaceful qs} = 0"
proof -
  have "map_option fst (backtrack 1 2 (nat 2) 0 (replicate (nat MAX_LONGS) 0)) = Some 0" by code_simp
  then show ?thesis using backtrack_counts [of 2 1] by (simp add: MAX_N_def)
qed

text \<open>The program rejects its own answer for the empty board: no queens can be squares_of in one way.\<close>

lemma queens_main_0: "queens_main depth 0 = None"
  by (simp add: queens_main_def valid_solutions_def MAX_N_def solved_def squares_def assert_c_def)

end
