(* ===== verification/Threadpool.thy ===== *)
theory Threadpool
  imports Prelude
begin

text \<open>
  The thread pool of \<open>threadlab/tests/threadpool.c\<close>: the state of the pool, its workers and futures,
  and one operation per section of the code that runs under one lock.  Threads are numbers: \<open>0\<close> is
  the thread that created the pool (its \<open>curr_worker\<close> is null), \<open>1\<close> to \<open>nthreads\<close> are the workers, and
  \<open>struct worker\<close> is named by its thread.  A future is named by its place in the order of submission.
  Each thread has a stack of frames that says where it is in the code; a task runs in a frame of its
  own and may submit, wait for and free futures.  An operation returns \<open>None\<close> where the thread cannot
  move (it waits at the barrier, for a condition or for another thread).  Waiting for a condition is
  testing it again later, which covers every wake-up.  The function that decides whether all local
  lists are empty does not compile as it stands (\<open>workers_lists_empty\<close> has an \<open>if\<close> without condition);
  its answer is data of the step.  What a thread reads or writes after it was freed is recorded as a
  fault and the machine stops.  The log records what tasks returned and what \<open>future_get\<close> returned.
\<close>

subsection \<open>Data\<close>

datatype status_t = WAITING | RUNNING | FINISHED

text \<open>A result that was not written yet is \<open>None\<close>: \<open>malloc\<close> leaves that field unset.\<close>

record future =
  fut_task :: nat
  fut_args :: nat
  fut_worker :: "nat option"
  fut_result :: "int option"
  fut_state :: status_t
  fut_freed :: bool

text \<open>From where a task was started, which is also the lock that is taken when it ends: from the
  global list, stolen from the list of a worker, or inside \<open>future_get\<close> for a future.\<close>

datatype origin = Global | Stolen nat | Getting nat

text \<open>Places in the code.  \<open>Client\<close> is the code that uses the pool.  A worker is before its first lock
  (\<open>Starting\<close>), at the barrier, before the test of the outer loop (\<open>Top\<close>), woken inside the inner loop
  (\<open>Waiting\<close>), at a worker of the search for a task, or has returned.  \<open>Exec\<close> runs a task, \<open>Stored\<close> has
  written its result and not yet its state; \<open>Blocked\<close> waits in \<open>future_get\<close>; the last three are
  \<open>thread_pool_shutdown_and_destroy\<close>.\<close>

datatype frame = Client | Starting | Barrier | Top | Waiting | Search nat | Exited
  | Exec nat origin | Stored nat origin | Blocked nat | Join | Joining nat | Destroyed

datatype fault = Pool_freed | Worker_freed nat | Future_freed nat

datatype pool_event = Returned nat int | Got nat "int option"

record pool =
  global_tasks_list :: "nat list"
  workers :: "nat list"
  local_tasks_list :: "nat \<Rightarrow> nat list"
  is_shutdown :: bool
  nthreads :: nat
  registered :: nat
  futures :: "future list"
  stack :: "nat \<Rightarrow> frame list"
  freed_workers :: "nat list"
  pool_freed :: bool
  pool_fault :: "fault option"
  log :: "pool_event list"

definition fault_at :: "fault \<Rightarrow> pool \<Rightarrow> pool" where
  "fault_at e s = s\<lparr>pool_fault := Some e\<rparr>"

definition goto :: "nat \<Rightarrow> frame list \<Rightarrow> pool \<Rightarrow> pool" where
  "goto t fs s = s\<lparr>stack := (stack s)(t := fs)\<rparr>"

definition upd_future :: "nat \<Rightarrow> (future \<Rightarrow> future) \<Rightarrow> pool \<Rightarrow> pool" where
  "upd_future f h s = s\<lparr>futures := (futures s)[f := h (futures s ! f)]\<rparr>"

definition set_state :: "nat \<Rightarrow> status_t \<Rightarrow> pool \<Rightarrow> pool" where
  "set_state f st = upd_future f (\<lambda>x. x\<lparr>fut_state := st\<rparr>)"

definition set_local :: "nat \<Rightarrow> nat list \<Rightarrow> pool \<Rightarrow> pool" where
  "set_local w fs s = s\<lparr>local_tasks_list := (local_tasks_list s)(w := fs)\<rparr>"

definition add_log :: "pool_event \<Rightarrow> pool \<Rightarrow> pool" where
  "add_log e s = s\<lparr>log := log s @ [e]\<rparr>"

subsection \<open>The worker\<close>

text \<open>A new pool: its threads are created and have not run yet.\<close>

definition thread_pool_new :: "nat \<Rightarrow> pool" where
  "thread_pool_new n = \<lparr>global_tasks_list = [], workers = [], local_tasks_list = (\<lambda>w. []),
     is_shutdown = False, nthreads = n, registered = 0, futures = [],
     stack = (\<lambda>t. if t = 0 then [Client] else if t \<le> n then [Starting] else []),
     freed_workers = [], pool_freed = False, pool_fault = None, log = []\<rparr>"

text \<open>The first section of \<open>thread_function\<close>: the worker enters the list of workers.\<close>

definition register_worker :: "nat \<Rightarrow> pool \<Rightarrow> pool" where
  "register_worker t s =
     (if pool_freed s then fault_at Pool_freed s
      else goto t [Barrier] ((set_local t [] s)\<lparr>workers := t # workers s, registered := Suc (registered s)\<rparr>))"

text \<open>The element after \<open>w\<close> in the list of workers, or the end, where the search is over.\<close>

fun search_after :: "nat \<Rightarrow> nat list \<Rightarrow> frame" where
  "search_after w [] = Top"
| "search_after w [x] = Top"
| "search_after w (x # y # xs) = (if x = w then Search y else search_after w (y # xs))"

definition search_begin :: "pool \<Rightarrow> frame" where
  "search_begin s = (case workers s of [] \<Rightarrow> Top | w # ws \<Rightarrow> Search w)"

text \<open>The tests of the inner loop while the pool is not shut down, and the taking of a global task;
  \<open>idle\<close> is the answer of \<open>workers_lists_empty\<close>.\<close>

definition find_global :: "nat \<Rightarrow> bool \<Rightarrow> pool \<Rightarrow> pool" where
  "find_global t idle s =
     (if global_tasks_list s \<noteq> [] then
        (let f = last (global_tasks_list s)
         in goto t [Exec f Global, Top]
              (set_state f RUNNING (s\<lparr>global_tasks_list := butlast (global_tasks_list s)\<rparr>)))
      else if idle then goto t [Waiting] s
      else goto t [search_begin s] s)"

text \<open>One worker of the search in the \<open>else\<close> branch.\<close>

definition search_step :: "nat \<Rightarrow> nat \<Rightarrow> pool \<Rightarrow> pool" where
  "search_step t w s =
     (if w \<in> set (freed_workers s) then fault_at (Worker_freed w) s
      else if local_tasks_list s w \<noteq> [] then
        (let f = last (local_tasks_list s w)
         in goto t [Exec f (Stolen w), Top]
              (set_state f RUNNING (set_local w (butlast (local_tasks_list s w)) s)))
      else goto t [search_after w (workers s)] s)"

text \<open>The steps of \<open>thread_function\<close> between the tasks it runs.\<close>

definition thread_function :: "nat \<Rightarrow> bool \<Rightarrow> pool \<Rightarrow> pool option" where
  "thread_function t idle s =
     (case stack s t of
        [Starting] \<Rightarrow> Some (register_worker t s)
      | [Barrier] \<Rightarrow> if registered s = nthreads s then Some (goto t [Top] s) else None
      | [Top] \<Rightarrow> Some (if is_shutdown s then goto t [Exited] s else find_global t idle s)
      | [Waiting] \<Rightarrow> Some (if is_shutdown s then goto t [search_begin s] s else find_global t idle s)
      | [Search w] \<Rightarrow> Some (search_step t w s)
      | _ \<Rightarrow> None)"

subsection \<open>Tasks\<close>

text \<open>The task returns and its result is stored, outside every lock.\<close>

definition store_result :: "nat \<Rightarrow> int \<Rightarrow> pool \<Rightarrow> pool option" where
  "store_result t v s =
     (case stack s t of
        Exec f k # fs \<Rightarrow> Some (if fut_freed (futures s ! f) then fault_at (Future_freed f) s
          else add_log (Returned f v) (goto t (Stored f k # fs)
                 (upd_future f (\<lambda>x. x\<lparr>fut_result := Some v\<rparr>) s)))
      | _ \<Rightarrow> None)"

text \<open>The lock that is taken after a task must not be freed.\<close>

definition lock_fault :: "nat \<Rightarrow> origin \<Rightarrow> pool \<Rightarrow> fault option" where
  "lock_fault f k s =
     (let local = (\<lambda>w. if w \<in> set (freed_workers s) then Some (Worker_freed w) else None)
      in case k of
           Global \<Rightarrow> if pool_freed s then Some Pool_freed else None
         | Stolen w \<Rightarrow> local w
         | Getting a \<Rightarrow> (case fut_worker (futures s ! f) of None \<Rightarrow> None | Some w \<Rightarrow> local w))"

text \<open>The section after a task: its state is set, and \<open>future_get\<close> returns the result of the
  future it ran.\<close>

definition finish_task :: "nat \<Rightarrow> pool \<Rightarrow> pool option" where
  "finish_task t s =
     (case stack s t of
        Stored f k # fs \<Rightarrow> Some
          (if fut_freed (futures s ! f) then fault_at (Future_freed f) s
           else (case lock_fault f k s of
             Some e \<Rightarrow> fault_at e s
           | None \<Rightarrow> (let s' = goto t fs (set_state f FINISHED s)
                     in (case k of Getting a \<Rightarrow> add_log (Got a (fut_result (futures s ! f))) s' | _ \<Rightarrow> s'))))
      | _ \<Rightarrow> None)"

subsection \<open>What a client calls\<close>

text \<open>A thread runs code of the client when it is the first thread outside the pool or in a task.\<close>

fun in_client :: "frame list \<Rightarrow> bool" where
  "in_client (Client # fs) = True"
| "in_client (Exec f k # fs) = True"
| "in_client fs = False"

definition curr_worker :: "nat \<Rightarrow> nat option" where
  "curr_worker t = (if t = 0 then None else Some t)"

definition thread_pool_submit :: "nat \<Rightarrow> nat \<Rightarrow> nat \<Rightarrow> pool \<Rightarrow> pool" where
  "thread_pool_submit t task data s =
     (let f = length (futures s);
          s' = s\<lparr>futures := futures s @ [\<lparr>fut_task = task, fut_args = data, fut_worker = curr_worker t,
                   fut_result = None, fut_state = WAITING, fut_freed = False\<rparr>]\<rparr>
      in case curr_worker t of
           None \<Rightarrow> s'\<lparr>global_tasks_list := f # global_tasks_list s\<rparr>
         | Some w \<Rightarrow> set_local w (f # local_tasks_list s w) s')"

text \<open>\<open>future_get\<close> up to the point where it runs a task, blocks or returns.  In the branch for a
  running future the local variable \<open>future\<close> is rebound to the task that is popped.\<close>

definition future_get :: "nat \<Rightarrow> nat \<Rightarrow> pool \<Rightarrow> pool" where
  "future_get t f s =
     (let x = futures s ! f; fs = stack s t in
      (case fut_worker x of
         None \<Rightarrow> goto t (Blocked f # fs) s
       | Some w \<Rightarrow>
           (if w \<in> set (freed_workers s) then fault_at (Worker_freed w) s
            else (case fut_state x of
              WAITING \<Rightarrow> goto t (Exec f (Getting f) # fs)
                           (set_state f RUNNING (set_local w (remove1 f (local_tasks_list s w)) s))
            | RUNNING \<Rightarrow>
                (case local_tasks_list s w of
                   [] \<Rightarrow> add_log (Got f (fut_result x)) s
                 | g # gs \<Rightarrow> goto t (Exec g (Getting f) # fs) (set_state g RUNNING (set_local w gs s)))
            | FINISHED \<Rightarrow> add_log (Got f (fut_result x)) s))))"

text \<open>The end of the wait for a future of the first thread.\<close>

definition wake_get :: "nat \<Rightarrow> pool \<Rightarrow> pool option" where
  "wake_get t s =
     (case stack s t of
        Blocked f # fs \<Rightarrow>
          if fut_freed (futures s ! f) then Some (fault_at (Future_freed f) s)
          else if fut_state (futures s ! f) = FINISHED
          then Some (add_log (Got f (fut_result (futures s ! f))) (goto t fs s))
          else None
      | _ \<Rightarrow> None)"

definition future_free :: "nat \<Rightarrow> pool \<Rightarrow> pool" where
  "future_free f = upd_future f (\<lambda>x. x\<lparr>fut_freed := True\<rparr>)"

text \<open>The shutdown: the flag, then one worker at a time from the back of the list, then the pool.\<close>

definition thread_pool_shutdown :: "pool \<Rightarrow> pool" where
  "thread_pool_shutdown s = goto 0 [Join] (s\<lparr>is_shutdown := True\<rparr>)"

definition join_step :: "pool \<Rightarrow> pool option" where
  "join_step s =
     (case stack s 0 of
        [Join] \<Rightarrow> Some (if workers s = [] then goto 0 [Destroyed] (s\<lparr>pool_freed := True\<rparr>)
                        else goto 0 [Joining (last (workers s))] s)
      | [Joining w] \<Rightarrow>
          if stack s w = [Exited]
          then Some (goto 0 [Join] (s\<lparr>workers := butlast (workers s), freed_workers := w # freed_workers s\<rparr>))
          else None
      | _ \<Rightarrow> None)"

subsection \<open>Runs\<close>

text \<open>What a client is allowed to do follows the comments of \<open>threadpool.h\<close>: it waits for futures that
  it was given and did not free, and frees a future after \<open>future_get\<close> returned for it, while no other
  thread waits for it.\<close>

fun got :: "nat \<Rightarrow> pool_event list \<Rightarrow> bool" where
  "got f [] = False"
| "got f (Got g v # es) = (f = g \<or> got f es)"
| "got f (e # es) = got f es"

definition awaited :: "nat \<Rightarrow> pool \<Rightarrow> bool" where
  "awaited f s \<longleftrightarrow> (\<exists>t \<in> set [0..<Suc (nthreads s)]. Blocked f \<in> set (stack s t))"

datatype action = Thread nat bool | Store nat int | Finish nat | Submit nat nat nat | Get nat nat
  | Wake nat | Free nat nat | Shutdown | Join_step

fun pool_step :: "action \<Rightarrow> pool \<Rightarrow> pool option" where
  "pool_step (Thread t idle) s = (if t \<noteq> 0 then thread_function t idle s else None)"
| "pool_step (Store t v) s = store_result t v s"
| "pool_step (Finish t) s = finish_task t s"
| "pool_step (Submit t task data) s =
     (if in_client (stack s t) then Some (thread_pool_submit t task data s) else None)"
| "pool_step (Get t f) s =
     (if in_client (stack s t) \<and> f < length (futures s) \<and> \<not> fut_freed (futures s ! f)
      then Some (future_get t f s) else None)"
| "pool_step (Wake t) s = wake_get t s"
| "pool_step (Free t f) s =
     (if in_client (stack s t) \<and> f < length (futures s) \<and> \<not> fut_freed (futures s ! f) \<and> got f (log s)
         \<and> \<not> awaited f s
      then Some (future_free f s) else None)"
| "pool_step Shutdown s = (if stack s 0 = [Client] then Some (thread_pool_shutdown s) else None)"
| "pool_step Join_step s = join_step s"

fun pool_run :: "action list \<Rightarrow> pool \<Rightarrow> pool option" where
  "pool_run [] s = Some s"
| "pool_run (a # as) s =
     (if pool_fault s \<noteq> None then None
      else case pool_step a s of None \<Rightarrow> None | Some s' \<Rightarrow> pool_run as s')"

text \<open>The states that a pool of \<open>n\<close> threads can reach.\<close>

inductive pool_reach :: "nat \<Rightarrow> pool \<Rightarrow> bool" for n where
  init: "pool_reach n (thread_pool_new n)"
| step: "pool_reach n s \<Longrightarrow> pool_fault s = None \<Longrightarrow> pool_step a s = Some s' \<Longrightarrow> pool_reach n s'"

lemma pool_run_reach: "pool_reach n s \<Longrightarrow> pool_run as s = Some s' \<Longrightarrow> pool_reach n s'"
  by (induction as arbitrary: s) (auto split: if_splits option.splits intro: pool_reach.step)

end
