(* ===== verification/Threadpool_Inv.thy ===== *)
theory Threadpool_Inv
  imports Threadpool
begin

text \<open>
  The invariant of the thread pool on its tasks: where each future is in every reachable state, when
  it has a result, and what the log says of it.  It is proved for the changes that the operations are
  made of (a task is taken from a list, its result is stored, it ends, a thread moves, a future is
  submitted or freed) and combined by rule induction over \<open>pool_reach\<close>.
\<close>

subsection \<open>The invariant on tasks\<close>

text \<open>The tasks of the frames of a thread: running, and with their result stored.\<close>

fun exec_of :: "frame \<Rightarrow> nat list" where
  "exec_of (Exec f k) = [f]"
| "exec_of x = []"

fun stored_of :: "frame \<Rightarrow> nat list" where
  "stored_of (Stored f k) = [f]"
| "stored_of x = []"

definition held :: "frame list \<Rightarrow> nat list" where
  "held fs = concat (map (\<lambda>x. exec_of x @ stored_of x) fs)"

definition in_phase :: "future list \<Rightarrow> status_t \<Rightarrow> nat \<Rightarrow> bool" where
  "in_phase xs st f \<longleftrightarrow> f < length xs \<and> fut_state (xs ! f) = st"

text \<open>A list of tasks holds exactly the futures that wait and were submitted by \<open>p\<close>.\<close>

definition list_ok :: "future list \<Rightarrow> nat option \<Rightarrow> nat list \<Rightarrow> bool" where
  "list_ok xs p fs \<longleftrightarrow> distinct fs \<and> set fs = {f. in_phase xs WAITING f \<and> fut_worker (xs ! f) = p}"

text \<open>Each running task is in exactly one frame of one thread.\<close>

definition held_ok :: "future list \<Rightarrow> (nat \<Rightarrow> frame list) \<Rightarrow> bool" where
  "held_ok xs st \<longleftrightarrow> (\<forall>t. distinct (held (st t))) \<and>
     (\<forall>t u f. f \<in> set (held (st t)) \<longrightarrow> f \<in> set (held (st u)) \<longrightarrow> t = u) \<and>
     (\<forall>f. (\<exists>t. f \<in> set (held (st t))) = in_phase xs RUNNING f)"

text \<open>A result is there from the moment the task has returned.\<close>

definition results_ok :: "future list \<Rightarrow> bool" where
  "results_ok xs \<longleftrightarrow> (\<forall>f. in_phase xs WAITING f \<longrightarrow> fut_result (xs ! f) = None) \<and>
     (\<forall>f. in_phase xs FINISHED f \<longrightarrow> fut_result (xs ! f) \<noteq> None)"

definition getting_ok :: "future list \<Rightarrow> nat \<Rightarrow> bool" where
  "getting_ok xs a \<longleftrightarrow> a < length xs \<and> fut_state (xs ! a) \<noteq> WAITING \<and> fut_worker (xs ! a) \<noteq> None"

fun frame_ok :: "future list \<Rightarrow> frame \<Rightarrow> bool" where
  "frame_ok xs (Exec f k) \<longleftrightarrow> f < length xs \<and> fut_result (xs ! f) = None \<and> (\<forall>a. k = Getting a \<longrightarrow> getting_ok xs a)"
| "frame_ok xs (Stored f k) \<longleftrightarrow> f < length xs \<and> fut_result (xs ! f) \<noteq> None \<and> (\<forall>a. k = Getting a \<longrightarrow> getting_ok xs a)"
| "frame_ok xs (Blocked f) \<longleftrightarrow> f < length xs \<and> \<not> fut_freed (xs ! f) \<and> fut_worker (xs ! f) = None"
| "frame_ok xs x = True"

definition frames_ok :: "future list \<Rightarrow> (nat \<Rightarrow> frame list) \<Rightarrow> bool" where
  "frames_ok xs st \<longleftrightarrow> (\<forall>t. \<forall>x \<in> set (st t). frame_ok xs x)"

text \<open>The values that a task has returned, in order.\<close>

fun returns :: "nat \<Rightarrow> pool_event list \<Rightarrow> int list" where
  "returns f [] = []"
| "returns f (Returned g v # es) = (if f = g then v # returns f es else returns f es)"
| "returns f (Got g r # es) = returns f es"

text \<open>What the log may say of a future \<open>x\<close>.\<close>

definition got_ok :: "future \<Rightarrow> int option \<Rightarrow> bool" where
  "got_ok x r \<longleftrightarrow> fut_state x \<noteq> WAITING \<and>
     (fut_worker x = None \<longrightarrow> fut_state x = FINISHED \<and> r = fut_result x)"

definition returned :: "future list \<Rightarrow> nat \<Rightarrow> int list" where
  "returned xs f = (if f < length xs then (case fut_result (xs ! f) of None \<Rightarrow> [] | Some v \<Rightarrow> [v]) else [])"

definition log_ok :: "future list \<Rightarrow> pool_event list \<Rightarrow> bool" where
  "log_ok xs es \<longleftrightarrow> (\<forall>f. returns f es = returned xs f) \<and>
     (\<forall>f r. Got f r \<in> set es \<longrightarrow> f < length xs \<and> got_ok (xs ! f) r) \<and>
     (\<forall>f < length xs. fut_freed (xs ! f) \<longrightarrow> (\<exists>r. Got f r \<in> set es))"

lemma log_okD:
  "log_ok xs es \<Longrightarrow> Got f r \<in> set es \<Longrightarrow> f < length xs \<and> got_ok (xs ! f) r"
  by (simp add: log_ok_def)

text \<open>A thread that has not started has no frames but one and no tasks; there are no other threads.\<close>

definition threads_ok :: "nat \<Rightarrow> (nat \<Rightarrow> frame list) \<Rightarrow> (nat \<Rightarrow> nat list) \<Rightarrow> bool" where
  "threads_ok n st loc \<longleftrightarrow> (\<forall>t. n < t \<longrightarrow> st t = []) \<and>
     (\<forall>t. Starting \<in> set (st t) \<longrightarrow> st t = [Starting] \<and> loc t = [])"

definition tasks_ok :: "pool \<Rightarrow> bool" where
  "tasks_ok s \<longleftrightarrow> list_ok (futures s) None (global_tasks_list s) \<and>
     (\<forall>w. list_ok (futures s) (Some w) (local_tasks_list s w)) \<and>
     held_ok (futures s) (stack s) \<and> results_ok (futures s) \<and> frames_ok (futures s) (stack s) \<and>
     log_ok (futures s) (log s) \<and> threads_ok (nthreads s) (stack s) (local_tasks_list s)"

lemmas pool_changes = goto_def upd_future_def set_state_def set_local_def add_log_def fault_at_def

lemma held_simps [simp]:
  "held [] = []" "held (Exec f k # fs) = f # held fs" "held (Stored f k # fs) = f # held fs"
  "held (Blocked f # fs) = held fs" "held (Client # fs) = held fs" "held (Starting # fs) = held fs"
  "held (Barrier # fs) = held fs" "held (Top # fs) = held fs" "held (Waiting # fs) = held fs"
  "held (Search w # fs) = held fs" "held (Exited # fs) = held fs" "held (Join # fs) = held fs"
  "held (Joining w # fs) = held fs" "held (Destroyed # fs) = held fs"
  by (simp_all add: held_def)

lemma held_Exec: "Exec f k \<in> set fs \<Longrightarrow> f \<in> set (held fs)"
  by (force simp: held_def)

lemma held_Stored: "Stored f k \<in> set fs \<Longrightarrow> f \<in> set (held fs)"
  by (force simp: held_def)

lemma returns_append [simp]: "returns f (es @ es') = returns f es @ returns f es'"
  by (induction f es rule: returns.induct) auto

lemma got_iff: "got f es \<longleftrightarrow> (\<exists>r. Got f r \<in> set es)"
  by (induction f es rule: got.induct) auto

lemma tasks_ok_new: "tasks_ok (thread_pool_new n)"
  by (simp add: tasks_ok_def thread_pool_new_def in_phase_def list_ok_def held_ok_def results_ok_def
      frames_ok_def log_ok_def returned_def threads_ok_def)

text \<open>The invariant does not depend on the fields that concern the life of the workers.\<close>

lemma tasks_ok_other [simp]:
  "tasks_ok (s\<lparr>workers := x\<rparr>) = tasks_ok s" "tasks_ok (s\<lparr>registered := i\<rparr>) = tasks_ok s"
  "tasks_ok (s\<lparr>is_shutdown := b\<rparr>) = tasks_ok s" "tasks_ok (s\<lparr>freed_workers := x\<rparr>) = tasks_ok s"
  "tasks_ok (s\<lparr>pool_freed := b\<rparr>) = tasks_ok s" "tasks_ok (s\<lparr>pool_fault := e\<rparr>) = tasks_ok s"
  by (simp_all add: tasks_ok_def)

lemma frame_thread: "tasks_ok s \<Longrightarrow> stack s t \<noteq> [] \<Longrightarrow> t \<le> nthreads s"
  using not_le by (auto simp: tasks_ok_def threads_ok_def)

subsection \<open>Changes of one component\<close>

lemma held_ok_same:
  assumes "held_ok xs st" "held fs = held (st t)"
  shows "held_ok xs (st(t := fs))"
proof -
  have "held ((st(t := fs)) u) = held (st u)" for u
    using assms(2) by simp
  with assms(1) show ?thesis
    unfolding held_ok_def by presburger
qed

lemma frames_ok_upd: "frames_ok xs st \<Longrightarrow> list_all (frame_ok xs) fs \<Longrightarrow> frames_ok xs (st(t := fs))"
  by (simp add: frames_ok_def list_all_iff)

lemma frames_ok_at: "frames_ok xs st \<Longrightarrow> list_all (frame_ok xs) (st t)"
  by (simp add: frames_ok_def list_all_iff)

lemma threads_ok_upd:
  "threads_ok n st loc \<Longrightarrow> t \<le> n \<Longrightarrow> Starting \<notin> set fs \<Longrightarrow> threads_ok n (st(t := fs)) loc"
  by (simp add: threads_ok_def)

lemma threads_ok_local:
  "threads_ok n st loc \<Longrightarrow> fs = [] \<or> Starting \<notin> set (st w) \<Longrightarrow> threads_ok n st (loc(w := fs))"
  by (auto simp: threads_ok_def)

lemma no_Start_above:
  assumes "threads_ok n st loc" "st t = x # fs"
  shows "Starting \<notin> set fs"
proof
  assume "Starting \<in> set fs"
  then have "Starting \<in> set (st t)"
    using assms(2) by simp
  then have "st t = [Starting]"
    using assms(1) by (simp add: threads_ok_def)
  with assms(2) \<open>Starting \<in> set fs\<close> show False
    by simp
qed

text \<open>A thread moves between places where it holds no task, or leaves one.\<close>

fun plain_frame :: "frame \<Rightarrow> bool" where
  "plain_frame (Exec f k) = False"
| "plain_frame (Stored f k) = False"
| "plain_frame (Blocked f) = False"
| "plain_frame Starting = False"
| "plain_frame x = True"

lemma tasks_ok_goto:
  assumes s: "tasks_ok s" and old: "stack s t = x # fs" "exec_of x = []" "stored_of x = []"
    and new: "list_all plain_frame ys"
  shows "tasks_ok (goto t (ys @ fs) s)"
proof -
  have "\<forall>y \<in> set ys. exec_of y = [] \<and> stored_of y = [] \<and> y \<noteq> Starting \<and> frame_ok (futures s) y"
    using new by (auto simp: list_all_iff elim!: plain_frame.elims)
  moreover have "Starting \<notin> set fs"
    using s old(1) by (auto simp: tasks_ok_def dest: no_Start_above)
  moreover have "list_all (frame_ok (futures s)) fs"
    using s old(1) frames_ok_at [of "futures s" "stack s" t] by (simp add: tasks_ok_def)
  moreover have "t \<le> nthreads s"
    using frame_thread [OF s, of t] old by simp
  moreover have "held (ys @ fs) = held (stack s t)"
    using calculation(1) old by (simp add: held_def)
  ultimately have "Starting \<notin> set (ys @ fs)" "list_all (frame_ok (futures s)) (ys @ fs)"
    "t \<le> nthreads s" "held (ys @ fs) = held (stack s t)"
    by (auto simp: list_all_iff)
  then show ?thesis
    using s unfolding tasks_ok_def goto_def
    by (simp add: held_ok_same frames_ok_upd threads_ok_upd del: list_all_append set_append)
qed

text \<open>The state of one future changes.\<close>

definition with_state :: "future list \<Rightarrow> nat \<Rightarrow> status_t \<Rightarrow> future list" where
  "with_state xs f st = xs[f := (xs ! f)\<lparr>fut_state := st\<rparr>]"

lemma with_state_length [simp]: "length (with_state xs f st) = length xs"
  by (simp add: with_state_def)

lemma nth_update: "xs[f := y] ! g = (if f < length xs \<and> g = f then y else xs ! g)"
  by (cases "f < length xs") (auto simp: list_update_beyond)

lemma with_state_nth:
  "with_state xs f st ! g = (if f < length xs \<and> g = f then (xs ! g)\<lparr>fut_state := st\<rparr> else xs ! g)"
  by (simp add: with_state_def nth_update)

lemma with_state_fields [simp]:
  "fut_result (with_state xs f st ! g) = fut_result (xs ! g)"
  "fut_worker (with_state xs f st ! g) = fut_worker (xs ! g)"
  "fut_freed (with_state xs f st ! g) = fut_freed (xs ! g)"
  by (simp_all add: with_state_nth)

lemma in_phase_state:
  "in_phase (with_state xs f st) st' g =
     (if g = f then f < length xs \<and> st' = st else in_phase xs st' g)"
  by (auto simp: in_phase_def with_state_nth)

lemma list_ok_take:
  "list_ok xs p fs \<Longrightarrow> distinct gs \<Longrightarrow> set gs = set fs - {f} \<Longrightarrow> st \<noteq> WAITING \<Longrightarrow>
    list_ok (with_state xs f st) p gs"
  by (auto simp: list_ok_def in_phase_state)

lemma list_ok_other:
  "list_ok xs p fs \<Longrightarrow> f \<notin> set fs \<Longrightarrow> st \<noteq> WAITING \<Longrightarrow> list_ok (with_state xs f st) p fs"
  by (auto simp: list_ok_def in_phase_state)

lemma list_ok_owner: "list_ok xs p fs \<Longrightarrow> f \<in> set fs \<Longrightarrow> in_phase xs WAITING f \<and> fut_worker (xs ! f) = p"
  by (simp add: list_ok_def)

lemma in_phase_eq: "in_phase xs st f \<Longrightarrow> in_phase xs st' f = (st' = st)"
  by (auto simp: in_phase_def)

text \<open>Which tasks are held after the frames of one thread have changed.\<close>

lemma held_upd:
  "(\<exists>u. g \<in> set (held ((st(t := fs)) u))) \<longleftrightarrow> g \<in> set (held fs) \<or> (\<exists>u. u \<noteq> t \<and> g \<in> set (held (st u)))"
  by (metis fun_upd_other fun_upd_same)

lemma held_split:
  "(\<exists>u. g \<in> set (held (st u))) \<longleftrightarrow> g \<in> set (held (st t)) \<or> (\<exists>u. u \<noteq> t \<and> g \<in> set (held (st u)))"
  by metis

lemma held_okI:
  assumes "\<And>t. distinct (held (st t))"
    and "\<And>t u f. f \<in> set (held (st t)) \<Longrightarrow> f \<in> set (held (st u)) \<Longrightarrow> t = u"
    and "\<And>f. (\<exists>t. f \<in> set (held (st t))) = in_phase xs RUNNING f"
  shows "held_ok xs st"
  using assms unfolding held_ok_def by blast

lemma held_okD:
  assumes "held_ok xs st"
  shows "distinct (held (st t))" "f \<in> set (held (st t)) \<Longrightarrow> f \<in> set (held (st u)) \<Longrightarrow> t = u"
    "(\<exists>t. f \<in> set (held (st t))) = in_phase xs RUNNING f"
    "f \<in> set (held (st t)) \<Longrightarrow> in_phase xs RUNNING f"
  using assms unfolding held_ok_def by blast+

lemma held_ok_take:
  assumes h: "held_ok xs st" and f: "in_phase xs WAITING f"
  shows "held_ok (with_state xs f RUNNING) (st(t := Exec f k # st t))"
proof (rule held_okI)
  have 1: "f \<notin> set (held (st u))" for u
    using held_okD(4) [OF h] in_phase_eq [OF f, of RUNNING] by auto
  have 2: "f < length xs"
    using f by (simp add: in_phase_def)
  fix u v g
  show "distinct (held ((st(t := Exec f k # st t)) u))"
    using 1 held_okD(1) [OF h] by simp
  show "g \<in> set (held ((st(t := Exec f k # st t)) u)) \<Longrightarrow>
      g \<in> set (held ((st(t := Exec f k # st t)) v)) \<Longrightarrow> u = v"
    using 1 held_okD(2) [OF h, of g] by (auto split: if_splits)
  show "(\<exists>u. g \<in> set (held ((st(t := Exec f k # st t)) u))) = in_phase (with_state xs f RUNNING) RUNNING g"
    unfolding held_upd in_phase_state using 2 held_okD(3) [OF h, of g] held_split [of g st t] by auto
qed

lemma held_ok_finish:
  assumes h: "held_ok xs st" and t: "st t = Stored f k # fs"
  shows "held_ok (with_state xs f FINISHED) (st(t := fs))"
proof (rule held_okI)
  have 1: "f \<notin> set (held fs)" "distinct (held fs)"
    using held_okD(1) [OF h, of t] t by simp_all
  have 2: "held (st t) = f # held fs"
    using t by simp
  have 3: "f \<notin> set (held (st u))" if "u \<noteq> t" for u
    using held_okD(2) [OF h, of f u t] that 2 by auto
  have 4: "set (held ((st(t := fs)) u)) \<subseteq> set (held (st u))" for u
    using 2 by auto
  fix u v g
  show "distinct (held ((st(t := fs)) u))"
    using 1 held_okD(1) [OF h] by simp
  show "g \<in> set (held ((st(t := fs)) u)) \<Longrightarrow> g \<in> set (held ((st(t := fs)) v)) \<Longrightarrow> u = v"
    using 4 [of u] 4 [of v] held_okD(2) [OF h, of g u v] by blast
  show "(\<exists>u. g \<in> set (held ((st(t := fs)) u))) = in_phase (with_state xs f FINISHED) RUNNING g"
  proof (cases "g = f")
    case True
    then show ?thesis
      using 1 3 unfolding held_upd in_phase_state by auto
  next
    case False
    then have "g \<in> set (held (st t)) \<longleftrightarrow> g \<in> set (held fs)"
      using 2 by simp
    then show ?thesis
      using False held_okD(3) [OF h, of g] unfolding held_upd in_phase_state held_split [of g st t]
      by simp
  qed
qed

lemma results_ok_state:
  assumes "results_ok xs" "in_phase xs WAITING f \<and> st = RUNNING \<or> fut_result (xs ! f) \<noteq> None \<and> st = FINISHED"
  shows "results_ok (with_state xs f st)"
  using assms by (auto simp: results_ok_def in_phase_state)

lemma getting_ok_state: "getting_ok xs a \<Longrightarrow> st \<noteq> WAITING \<Longrightarrow> getting_ok (with_state xs f st) a"
  by (auto simp: getting_ok_def with_state_nth)

lemma frame_ok_state: "frame_ok xs x \<Longrightarrow> st \<noteq> WAITING \<Longrightarrow> frame_ok (with_state xs f st) x"
  by (cases x) (auto simp: getting_ok_state)

lemma frames_ok_state: "frames_ok xs st \<Longrightarrow> ph \<noteq> WAITING \<Longrightarrow> frames_ok (with_state xs f ph) st"
  by (simp add: frames_ok_def frame_ok_state)

lemma log_ok_state:
  assumes l: "log_ok xs es" and st: "in_phase xs WAITING f \<and> st = RUNNING \<or> st = FINISHED"
  shows "log_ok (with_state xs f st) es"
proof -
  have "got_ok (with_state xs f st ! g) r" if "Got g r \<in> set es" for g r
  proof -
    have "g < length xs" "got_ok (xs ! g) r"
      using l that by (auto simp: log_ok_def)
    then show ?thesis
      using st by (auto simp: got_ok_def with_state_nth in_phase_def)
  qed
  then show ?thesis
    using l by (simp add: log_ok_def returned_def)
qed

subsection \<open>The changes that operations are made of\<close>

text \<open>A waiting task is taken from its list and run.\<close>

lemma set_state_futures: "set_state f st s = s\<lparr>futures := with_state (futures s) f st\<rparr>"
  by (simp add: set_state_def upd_future_def with_state_def)

lemma take_common:
  fixes t f k s
  assumes "tasks_ok s" "in_phase (futures s) WAITING f" "\<And>a. k = Getting a \<Longrightarrow> getting_ok (with_state (futures s) f RUNNING) a"
  defines "xs \<equiv> with_state (futures s) f RUNNING" and "st \<equiv> (stack s)(t := Exec f k # stack s t)"
  assumes "t \<le> nthreads s" "Starting \<notin> set (stack s t)"
  shows "held_ok xs st" "results_ok xs" "frames_ok xs st" "log_ok xs (log s)"
    "threads_ok (nthreads s) st (local_tasks_list s)"
proof -
  note s = assms(1) [unfolded tasks_ok_def]
  show "held_ok xs st"
    unfolding xs_def st_def using s assms(2) by (simp add: held_ok_take)
  show "results_ok xs"
    unfolding xs_def using s assms(2) by (simp add: results_ok_state)
  have "fut_result (futures s ! f) = None" "f < length (futures s)"
    using s assms(2) by (simp_all add: results_ok_def in_phase_def)
  moreover have "frames_ok xs (stack s)"
    unfolding xs_def using s by (simp add: frames_ok_state)
  ultimately show "frames_ok xs st"
    unfolding st_def using assms(3) frames_ok_at [of xs "stack s" t]
    by (auto intro!: frames_ok_upd simp: xs_def)
  show "log_ok xs (log s)"
    unfolding xs_def using s assms(2) by (simp add: log_ok_state)
  show "threads_ok (nthreads s) st (local_tasks_list s)"
    unfolding st_def using s assms by (simp add: threads_ok_upd)
qed

lemma waiting_global:
  "tasks_ok s \<Longrightarrow> f \<in> set (global_tasks_list s) \<Longrightarrow>
    in_phase (futures s) WAITING f \<and> fut_worker (futures s ! f) = None"
  unfolding tasks_ok_def by (blast dest: list_ok_owner)

lemma waiting_local:
  "tasks_ok s \<Longrightarrow> f \<in> set (local_tasks_list s w) \<Longrightarrow>
    in_phase (futures s) WAITING f \<and> fut_worker (futures s ! f) = Some w"
  unfolding tasks_ok_def by (blast dest: list_ok_owner)

lemma tasks_ok_take_global:
  assumes s: "tasks_ok s" and f: "f \<in> set (global_tasks_list s)"
    and gs: "distinct gs" "set gs = set (global_tasks_list s) - {f}"
    and t: "t \<le> nthreads s" "Starting \<notin> set (stack s t)" and k: "\<And>a. k \<noteq> Getting a"
  shows "tasks_ok (goto t (Exec f k # stack s t) (set_state f RUNNING (s\<lparr>global_tasks_list := gs\<rparr>)))"
proof -
  have w: "in_phase (futures s) WAITING f" "fut_worker (futures s ! f) = None"
    using waiting_global [OF s f] by simp_all
  have "list_ok (with_state (futures s) f RUNNING) (Some v) (local_tasks_list s v)" for v
    using s w waiting_local [OF s, of f v] by (intro list_ok_other) (auto simp: tasks_ok_def)
  moreover have "list_ok (with_state (futures s) f RUNNING) None gs"
    using s by (intro list_ok_take [OF _ gs]) (simp_all add: tasks_ok_def)
  moreover have k': "getting_ok (with_state (futures s) f RUNNING) a" if "k = Getting a" for a
    using k [of a] that by simp
  ultimately show ?thesis
    using s take_common [OF s w(1) k' t] unfolding tasks_ok_def goto_def set_state_futures
    by simp
qed

lemma tasks_ok_take_local:
  assumes s: "tasks_ok s" and f: "f \<in> set (local_tasks_list s w)"
    and gs: "distinct gs" "set gs = set (local_tasks_list s w) - {f}"
    and t: "t \<le> nthreads s" "Starting \<notin> set (stack s t)"
    and k: "\<And>a. k = Getting a \<Longrightarrow> a = f \<or> getting_ok (futures s) a"
  shows "tasks_ok (goto t (Exec f k # stack s t) (set_state f RUNNING (set_local w gs s)))"
proof -
  let ?xs = "with_state (futures s) f RUNNING"
  have w: "in_phase (futures s) WAITING f" "fut_worker (futures s ! f) = Some w"
    using waiting_local [OF s f] by simp_all
  have g: "list_ok ?xs None (global_tasks_list s)"
    using s w waiting_global [OF s, of f] by (intro list_ok_other) (auto simp: tasks_ok_def)
  have l: "list_ok ?xs (Some v) ((((local_tasks_list s))(w := gs)) v)" for v
  proof (cases "v = w")
    case True
    then show ?thesis
      using s list_ok_take [OF _ gs, of "futures s" "Some w" RUNNING] by (simp add: tasks_ok_def)
  next
    case False
    then have "f \<notin> set (local_tasks_list s v)"
      using waiting_local [OF s, of f v] w by auto
    then show ?thesis
      using s False by (simp add: tasks_ok_def list_ok_other)
  qed
  have k': "getting_ok ?xs a" if "k = Getting a" for a
    using k [OF that] w by (auto simp: getting_ok_state getting_ok_def in_phase_def with_state_nth)
  have "Starting \<notin> set (stack s w)"
    using s f by (auto simp: tasks_ok_def threads_ok_def)
  then have "threads_ok (nthreads s) ((stack s)(t := Exec f k # stack s t)) ((local_tasks_list s)(w := gs))"
    using take_common(5) [OF s w(1) k' t] t(2) by (intro threads_ok_local) auto
  then show ?thesis
    using s take_common [OF s w(1) k' t] g l unfolding tasks_ok_def goto_def set_state_futures set_local_def
    by simp
qed

text \<open>The result of a task is stored.\<close>

lemma tasks_ok_store:
  assumes s: "tasks_ok s" and t: "stack s t = Exec f k # fs"
  shows "tasks_ok (add_log (Returned f v) (goto t (Stored f k # fs)
           (upd_future f (\<lambda>x. x\<lparr>fut_result := Some v\<rparr>) s)))"
proof -
  note ok = s [unfolded tasks_ok_def]
  let ?xs = "(futures s)[f := (futures s ! f)\<lparr>fut_result := Some v\<rparr>]"
  let ?st = "(stack s)(t := Stored f k # fs)"
  have held: "held_ok (futures s) (stack s)"
    using ok by simp
  have run: "in_phase (futures s) RUNNING f"
    using held_okD(4) [OF held, of f t] t by simp
  then have len: "f < length (futures s)"
    by (simp add: in_phase_def)
  have ph: "in_phase ?xs = in_phase (futures s)"
    by (rule ext)+ (auto simp: in_phase_def nth_update)
  have old: "frame_ok (futures s) (Exec f k)"
    using ok t frames_ok_at [of "futures s" "stack s" t] by simp
  have lists: "list_ok ?xs p gs = list_ok (futures s) p gs" for p gs
    by (auto simp: list_ok_def ph nth_update)
  have "held_ok (futures s) ?st"
    using held t by (intro held_ok_same) simp_all
  then have 1: "held_ok ?xs ?st"
    unfolding held_ok_def ph .
  have 2: "results_ok ?xs"
  proof -
    have "results_ok (futures s)"
      using ok by simp
    then show ?thesis
      using in_phase_eq [OF run, of WAITING] in_phase_eq [OF run, of FINISHED]
      by (auto simp: results_ok_def ph nth_update)
  qed
  have keep: "frame_ok ?xs x" if "frame_ok (futures s) x" "f \<notin> set (exec_of x)" for x
    using that len by (cases x) (auto simp: nth_update getting_ok_def)
  have top: "f \<notin> set (held fs)"
    using held_okD(1) [OF held, of t] t by simp
  have rest: "f \<notin> set (held (stack s u))" if "u \<noteq> t" for u
    using held_okD(2) [OF held, of f u t] that t by auto
  have none: "f \<notin> set (exec_of x)" if "x \<in> set gs" "f \<notin> set (held gs)" for x gs
    using that by (auto simp: held_def)
  have frames: "frames_ok ?xs ?st"
    unfolding frames_ok_def
  proof (intro allI ballI)
    fix u x assume x: "x \<in> set (?st u)"
    show "frame_ok ?xs x"
    proof (cases "x = Stored f k")
      case True
      then show ?thesis
        using old len by (auto simp: getting_ok_def nth_update)
    next
      case False
      then have "x \<in> set (stack s u)" "f \<notin> set (exec_of x)"
        using x t top rest [of u] none by (auto split: if_splits)
      then show ?thesis
        using ok by (intro keep) (auto simp: frames_ok_def)
    qed
  qed
  have "fut_worker (futures s ! f) \<noteq> None" if "Got f r \<in> set (log s)" for r
    using log_okD [OF _ that, of "futures s"] ok run by (auto simp: got_ok_def in_phase_def)
  then have log: "log_ok ?xs (log s @ [Returned f v])"
    using ok old run len by (auto simp: log_ok_def returned_def nth_update got_ok_def in_phase_def)
  have "threads_ok (nthreads s) ?st (local_tasks_list s)"
    using ok t frame_thread [OF s, of t] by (intro threads_ok_upd) (auto dest: no_Start_above)
  then show ?thesis
    using ok 1 2 frames log by (simp add: tasks_ok_def pool_changes lists)
qed

text \<open>A task ends.\<close>

lemma tasks_ok_finish:
  assumes s: "tasks_ok s" and t: "stack s t = Stored f k # fs"
  shows "tasks_ok (goto t fs (set_state f FINISHED s))"
proof -
  note ok = s [unfolded tasks_ok_def]
  let ?xs = "with_state (futures s) f FINISHED"
  have run: "in_phase (futures s) RUNNING f"
    using held_okD(4) [of "futures s" "stack s" f t] ok t by simp
  have "frame_ok (futures s) (Stored f k)"
    using ok t frames_ok_at [of "futures s" "stack s" t] by simp
  then have 1: "results_ok ?xs"
    using ok by (simp add: results_ok_state)
  have "frames_ok ?xs (stack s)"
    using ok by (simp add: frames_ok_state)
  then have 2: "frames_ok ?xs ((stack s)(t := fs))"
    using frames_ok_at [of ?xs "stack s" t] t by (intro frames_ok_upd) simp_all
  have "f \<notin> set (global_tasks_list s)" "f \<notin> set (local_tasks_list s w)" for w
    using waiting_global [OF s, of f] waiting_local [OF s, of f w] in_phase_eq [OF run, of WAITING] by auto
  then have 3: "list_ok ?xs None (global_tasks_list s)" "list_ok ?xs (Some w) (local_tasks_list s w)" for w
    using ok by (simp_all add: list_ok_other)
  have "threads_ok (nthreads s) ((stack s)(t := fs)) (local_tasks_list s)"
    using ok t frame_thread [OF s, of t] by (intro threads_ok_upd) (auto dest: no_Start_above)
  then show ?thesis
    using ok 1 2 3 held_ok_finish [of "futures s" "stack s" t f k fs] t
    by (simp add: tasks_ok_def goto_def set_state_futures log_ok_state)
qed

text \<open>\<open>future_get\<close> returns.\<close>

lemma tasks_ok_got:
  assumes "tasks_ok s" "f < length (futures s)" "got_ok (futures s ! f) r"
  shows "tasks_ok (add_log (Got f r) s)"
  using assms by (auto simp: tasks_ok_def add_log_def log_ok_def)

text \<open>A thread starts to wait for a future of the first thread.\<close>

lemma tasks_ok_block:
  assumes s: "tasks_ok s" and f: "frame_ok (futures s) (Blocked f)" and t: "t \<le> nthreads s" "Starting \<notin> set (stack s t)"
  shows "tasks_ok (goto t (Blocked f # stack s t) s)"
  using assms frames_ok_at [of "futures s" "stack s" t]
  by (simp add: tasks_ok_def goto_def held_ok_same frames_ok_upd threads_ok_upd del: frame_ok.simps(3))

text \<open>A client frees a future that \<open>future_get\<close> has returned for.\<close>

lemma tasks_ok_free:
  assumes s: "tasks_ok s" and f: "got f (log s)" "\<not> awaited f s"
  shows "tasks_ok (future_free f s)"
proof -
  note ok = s [unfolded tasks_ok_def]
  let ?xs = "(futures s)[f := (futures s ! f)\<lparr>fut_freed := True\<rparr>]"
  have ph: "in_phase ?xs = in_phase (futures s)"
    by (rule ext)+ (auto simp: in_phase_def nth_update)
  have lists: "list_ok ?xs p gs = list_ok (futures s) p gs" for p gs
    by (auto simp: list_ok_def ph nth_update)
  have 1: "held_ok ?xs (stack s)" "results_ok ?xs"
    using ok by (auto simp: held_ok_def results_ok_def ph nth_update)
  have frames: "frames_ok ?xs (stack s)"
    unfolding frames_ok_def
  proof (intro allI ballI)
    fix t x assume x: "x \<in> set (stack s t)"
    then have "t \<le> nthreads s"
      using frame_thread [OF s, of t] by (cases "stack s t") auto
    then have "x \<noteq> Blocked f"
      using x f(2) by (auto simp: awaited_def less_Suc_eq_le)
    moreover have "frame_ok (futures s) x"
      using ok x by (auto simp: frames_ok_def)
    ultimately show "frame_ok ?xs x"
      by (cases x) (auto simp: nth_update getting_ok_def)
  qed
  have "log_ok ?xs (log s)"
    using ok f(1) by (auto simp: log_ok_def got_iff returned_def nth_update got_ok_def)
  then show ?thesis
    using ok 1 frames by (simp add: tasks_ok_def future_free_def upd_future_def lists)
qed

text \<open>A new future is appended and put in front of the list of its submitter.\<close>

lemma in_phase_snoc:
  "in_phase (xs @ [x]) st f \<longleftrightarrow> in_phase xs st f \<or> f = length xs \<and> fut_state x = st"
  by (auto simp: in_phase_def nth_append)

lemma in_phase_length: "in_phase xs st f \<Longrightarrow> f < length xs"
  by (simp add: in_phase_def)

lemma list_ok_snoc:
  assumes "list_ok xs p fs" "fut_state x = WAITING"
  shows "list_ok (xs @ [x]) p (if fut_worker x = p then length xs # fs else fs)"
proof -
  have "in_phase (xs @ [x]) WAITING f \<and> fut_worker ((xs @ [x]) ! f) = p \<longleftrightarrow>
      in_phase xs WAITING f \<and> fut_worker (xs ! f) = p \<or> f = length xs \<and> fut_worker x = p" for f
    using assms(2) by (cases "f = length xs") (simp_all add: in_phase_snoc in_phase_def nth_append)
  then show ?thesis
    using assms(1) by (simp add: list_ok_def in_phase_def) blast
qed

lemma frame_ok_snoc: "frame_ok xs y \<Longrightarrow> frame_ok (xs @ [x]) y"
  by (cases y) (auto simp: nth_append getting_ok_def)

lemma log_ok_snoc:
  assumes l: "log_ok xs es" and "fut_result x = None" "\<not> fut_freed x"
  shows "log_ok (xs @ [x]) es"
proof -
  have "returned (xs @ [x]) f = returned xs f" for f
    using assms by (auto simp: returned_def nth_append less_Suc_eq)
  then show ?thesis
    using assms by (auto simp: log_ok_def nth_append less_Suc_eq)
qed

lemma tasks_ok_submit:
  assumes s: "tasks_ok s" and t: "Starting \<notin> set (stack s t)"
  shows "tasks_ok (thread_pool_submit t task data s)"
proof -
  note ok = s [unfolded tasks_ok_def]
  define x where "x = \<lparr>fut_task = task, fut_args = data, fut_worker = curr_worker t,
    fut_result = None, fut_state = WAITING, fut_freed = False\<rparr>"
  have x: "fut_worker x = curr_worker t" "fut_state x = WAITING" "fut_result x = None" "\<not> fut_freed x"
    by (simp_all add: x_def)
  let ?xs = "futures s @ [x]"
  have 1: "held_ok ?xs (stack s)" "results_ok ?xs"
    using ok x by (auto simp: held_ok_def results_ok_def in_phase_snoc nth_append dest: in_phase_length)
  have 2: "frames_ok ?xs (stack s)" "log_ok ?xs (log s)"
    using ok x by (simp_all add: frames_ok_def frame_ok_snoc log_ok_snoc)
  have 3: "list_ok ?xs p (if curr_worker t = p then length (futures s) # fs else fs)"
    if "list_ok (futures s) p fs" for p fs
    using list_ok_snoc [OF that x(2)] x by simp
  have g: "list_ok ?xs None (if curr_worker t = None then length (futures s) # global_tasks_list s
      else global_tasks_list s)"
    using ok by (intro 3) simp
  have l: "list_ok ?xs (Some w) (if curr_worker t = Some w then length (futures s) # local_tasks_list s w
      else local_tasks_list s w)" for w
    using ok by (intro 3) simp
  have th: "threads_ok (nthreads s) (stack s) ((local_tasks_list s)(t := fs))" for fs
    using ok t by (intro threads_ok_local) simp_all
  show ?thesis
  proof (cases "t = 0")
    case True
    then show ?thesis
      using ok 1 2 g l unfolding tasks_ok_def thread_pool_submit_def Let_def x_def [symmetric]
      by (simp add: curr_worker_def)
  next
    case False
    then have "list_ok ?xs (Some w) (((local_tasks_list s)(t := length (futures s) # local_tasks_list s t)) w)" for w
      using l [of w] by (auto simp: curr_worker_def split: if_splits)
    then show ?thesis
      using False ok 1 2 g th unfolding tasks_ok_def thread_pool_submit_def Let_def x_def [symmetric]
      by (simp add: curr_worker_def set_local_def)
  qed
qed

text \<open>A worker starts.\<close>

lemma tasks_ok_register:
  assumes s: "tasks_ok s" and t: "stack s t = [Starting]"
  shows "tasks_ok (register_worker t s)"
proof -
  have "local_tasks_list s t = []"
    using s t by (simp add: tasks_ok_def threads_ok_def)
  then have "set_local t [] s = s"
    by (simp add: set_local_def fun_upd_idem)
  moreover have "tasks_ok (goto t ([Barrier] @ []) s)"
    using s t by (intro tasks_ok_goto [where x = Starting]) simp_all
  ultimately show ?thesis
    using s by (simp add: register_worker_def fault_at_def goto_def tasks_ok_def)
qed

subsection \<open>Every step keeps the invariant\<close>

lemma tasks_ok_fault [simp]: "tasks_ok (fault_at e s) = tasks_ok s"
  by (simp add: fault_at_def)

lemma goto_goto [simp]: "goto t fs (goto t gs s) = goto t fs s"
  by (simp add: goto_def)

lemma goto_same: "stack s t = fs \<Longrightarrow> goto t fs s = s"
  by (auto simp: goto_def)

lemma plain_search: "plain_frame (search_after w ws)" "plain_frame (search_begin s)"
  by (induction w ws rule: search_after.induct) (auto simp: search_begin_def split: list.split)

lemma distinct_butlast_set: "distinct xs \<Longrightarrow> xs \<noteq> [] \<Longrightarrow> set (butlast xs) = set xs - {last xs}"
  by (cases xs rule: rev_cases) auto

lemma tasks_distinct:
  "tasks_ok s \<Longrightarrow> distinct (global_tasks_list s)" "tasks_ok s \<Longrightarrow> distinct (local_tasks_list s w)"
  by (simp_all add: tasks_ok_def list_ok_def)

lemma tasks_ok_move:
  assumes "tasks_ok s" "stack s t = [x]" "exec_of x = []" "stored_of x = []" "plain_frame y"
  shows "tasks_ok (goto t [y] s)"
  using tasks_ok_goto [of s t x "[]" "[y]"] assms by simp

lemma tasks_ok_find_global:
  assumes s: "tasks_ok s" and x: "stack s t = [x]" "exec_of x = []" "stored_of x = []"
  shows "tasks_ok (find_global t idle s)"
proof -
  let ?s = "goto t [Top] s"
  let ?f = "last (global_tasks_list s)"
  have top: "tasks_ok ?s" "tasks_ok (goto t [Waiting] s)" "tasks_ok (goto t [search_begin s] s)"
    using tasks_ok_move [OF s x] plain_search by simp_all
  have "tasks_ok (goto t [Exec ?f Global, Top] (set_state ?f RUNNING
      (s\<lparr>global_tasks_list := butlast (global_tasks_list s)\<rparr>)))" if "global_tasks_list s \<noteq> []"
  proof -
    have "tasks_ok (goto t (Exec ?f Global # stack ?s t)
        (set_state ?f RUNNING (?s\<lparr>global_tasks_list := butlast (global_tasks_list s)\<rparr>)))"
      using tasks_ok_take_global [OF top(1), of ?f "butlast (global_tasks_list s)" t Global]
        frame_thread [OF s, of t] x that tasks_distinct(1) [OF s]
      by (simp add: goto_def distinct_butlast distinct_butlast_set)
    then show ?thesis
      by (simp add: goto_def set_state_def upd_future_def)
  qed
  then show ?thesis
    using top by (simp add: find_global_def Let_def)
qed

lemma tasks_ok_search_step:
  assumes s: "tasks_ok s" and x: "stack s t = [Search w]"
  shows "tasks_ok (search_step t w s)"
proof -
  let ?s = "goto t [Top] s"
  let ?f = "last (local_tasks_list s w)"
  have top: "tasks_ok ?s" "tasks_ok (goto t [search_after w (workers s)] s)"
    using tasks_ok_move [OF s x] plain_search by simp_all
  have "tasks_ok (goto t [Exec ?f (Stolen w), Top] (set_state ?f RUNNING
      (set_local w (butlast (local_tasks_list s w)) s)))" if "local_tasks_list s w \<noteq> []"
  proof -
    have "tasks_ok (goto t (Exec ?f (Stolen w) # stack ?s t)
        (set_state ?f RUNNING (set_local w (butlast (local_tasks_list s w)) ?s)))"
      using tasks_ok_take_local [OF top(1), of ?f w "butlast (local_tasks_list s w)" t "Stolen w"]
        frame_thread [OF s, of t] x that tasks_distinct(2) [OF s, of w]
      by (simp add: goto_def distinct_butlast distinct_butlast_set)
    then show ?thesis
      by (simp add: goto_def set_state_def upd_future_def set_local_def)
  qed
  then show ?thesis
    using top s by (simp add: search_step_def Let_def)
qed

lemma tasks_ok_thread_function:
  "tasks_ok s \<Longrightarrow> thread_function t idle s = Some s' \<Longrightarrow> tasks_ok s'"
  unfolding thread_function_def
  by (auto split: list.splits frame.splits if_splits simp: plain_search
      intro: tasks_ok_register tasks_ok_find_global tasks_ok_search_step tasks_ok_move)

lemma client_thread:
  assumes s: "tasks_ok s" and c: "in_client (stack s t)"
  shows "t \<le> nthreads s" "Starting \<notin> set (stack s t)"
proof -
  obtain x fs where x: "stack s t = x # fs" "x \<noteq> Starting"
    using c by (cases "stack s t" rule: in_client.cases) simp_all
  then show "t \<le> nthreads s"
    using frame_thread [OF s, of t] by simp
  have "threads_ok (nthreads s) (stack s) (local_tasks_list s)"
    using s by (simp add: tasks_ok_def)
  then have "Starting \<notin> set fs"
    using x(1) by (rule no_Start_above)
  then show "Starting \<notin> set (stack s t)"
    using x by simp
qed

lemma tasks_ok_future_get:
  assumes s: "tasks_ok s" and c: "in_client (stack s t)" and f: "f < length (futures s)" "\<not> fut_freed (futures s ! f)"
  shows "tasks_ok (future_get t f s)"
proof (cases "fut_worker (futures s ! f)")
  case None
  then show ?thesis
    using tasks_ok_block [OF s, of f t] client_thread [OF s c] f by (simp add: future_get_def Let_def)
next
  case (Some w)
  show ?thesis
  proof (cases "fut_state (futures s ! f)")
    case WAITING
    then have "f \<in> set (local_tasks_list s w)"
      using s f Some by (auto simp: tasks_ok_def list_ok_def in_phase_def)
    then have "tasks_ok (goto t (Exec f (Getting f) # stack s t)
        (set_state f RUNNING (set_local w (remove1 f (local_tasks_list s w)) s)))"
      using tasks_ok_take_local [OF s, of f w "remove1 f (local_tasks_list s w)" t "Getting f"]
        client_thread [OF s c] tasks_distinct(2) [OF s, of w] by simp
    then show ?thesis
      using s Some WAITING by (simp add: future_get_def Let_def)
  next
    case RUNNING
    show ?thesis
    proof (cases "local_tasks_list s w")
      case Nil
      then show ?thesis
        using s f Some RUNNING by (simp add: future_get_def Let_def tasks_ok_got got_ok_def)
    next
      case (Cons g gs)
      then have "g \<notin> set gs" "distinct gs"
        using tasks_distinct(2) [OF s, of w] by simp_all
      then have "tasks_ok (goto t (Exec g (Getting f) # stack s t) (set_state g RUNNING (set_local w gs s)))"
        using Cons f Some RUNNING client_thread [OF s c]
        by (intro tasks_ok_take_local [OF s]) (auto simp: getting_ok_def)
      then show ?thesis
        using s Some RUNNING Cons by (simp add: future_get_def Let_def)
    qed
  next
    case FINISHED
    then show ?thesis
      using s f Some by (simp add: future_get_def Let_def tasks_ok_got got_ok_def)
  qed
qed

lemma tasks_ok_finish_task:
  assumes s: "tasks_ok s" and step: "finish_task t s = Some s'"
  shows "tasks_ok s'"
proof -
  obtain f k fs where t: "stack s t = Stored f k # fs"
    using step by (auto simp: finish_task_def split: list.splits frame.splits)
  let ?s = "goto t fs (set_state f FINISHED s)"
  have fin: "tasks_ok ?s"
    by (rule tasks_ok_finish [OF s t])
  have fut: "futures ?s = with_state (futures s) f FINISHED"
    by (simp add: goto_def set_state_futures)
  have "tasks_ok (add_log (Got a (fut_result (futures s ! f))) ?s)" if "k = Getting a" for a
  proof -
    have "frame_ok (futures s) (Stored f k)"
      using s t frames_ok_at [of "futures s" "stack s" t] by (simp add: tasks_ok_def)
    then have "getting_ok (futures s) a"
      using that by simp
    then have "getting_ok (with_state (futures s) f FINISHED) a"
      by (simp add: getting_ok_state)
    then show ?thesis
      using fin by (intro tasks_ok_got) (auto simp: fut getting_ok_def got_ok_def)
  qed
  then show ?thesis
    using step t s fin by (auto simp: finish_task_def Let_def split: if_splits option.splits origin.splits)
qed

lemma tasks_ok_wake:
  assumes s: "tasks_ok s" and step: "wake_get t s = Some s'"
  shows "tasks_ok s'"
proof -
  obtain f fs where t: "stack s t = Blocked f # fs"
    using step by (auto simp: wake_get_def split: list.splits frame.splits)
  have f: "frame_ok (futures s) (Blocked f)"
    using s t frames_ok_at [of "futures s" "stack s" t] by (simp add: tasks_ok_def)
  have pop: "tasks_ok (goto t fs s)"
    using tasks_ok_goto [OF s t, of "[]"] by simp
  have "tasks_ok (add_log (Got f (fut_result (futures s ! f))) (goto t fs s))"
    if "fut_state (futures s ! f) = FINISHED"
    using pop that f by (intro tasks_ok_got) (simp_all add: got_ok_def goto_def)
  then show ?thesis
    using step t s by (auto simp: wake_get_def split: if_splits)
qed

lemma tasks_ok_join:
  assumes s: "tasks_ok s" and step: "join_step s = Some s'"
  shows "tasks_ok s'"
proof -
  have *: "goto t fs (s\<lparr>pool_freed := b\<rparr>) = (goto t fs s)\<lparr>pool_freed := b\<rparr>"
    "goto t fs (s\<lparr>workers := ws, freed_workers := vs\<rparr>) = (goto t fs s)\<lparr>workers := ws, freed_workers := vs\<rparr>"
    for t fs b ws vs by (simp_all add: goto_def)
  show ?thesis
    using step s unfolding join_step_def *
    by (auto split: list.splits frame.splits if_splits
        simp: tasks_ok_move [where x = Join] tasks_ok_move [where x = "Joining w" for w])
qed

lemma tasks_ok_step:
  assumes s: "tasks_ok s" and step: "pool_step a s = Some s'"
  shows "tasks_ok s'"
proof (cases a)
  case (Store t v)
  then show ?thesis
    using s step by (auto simp: store_result_def split: list.splits frame.splits if_splits intro: tasks_ok_store)
next
  case Shutdown
  then have "stack s 0 = [Client]" "s' = (goto 0 [Join] s)\<lparr>is_shutdown := True\<rparr>"
    using step by (auto simp: thread_pool_shutdown_def goto_def split: if_splits)
  then show ?thesis
    using tasks_ok_move [OF s, of 0 Client Join] by simp
qed (use s step client_thread(2) [OF s] in \<open>auto split: if_splits
       intro: tasks_ok_thread_function tasks_ok_finish_task tasks_ok_submit tasks_ok_future_get
         tasks_ok_wake tasks_ok_free tasks_ok_join\<close>)

lemma reach_tasks_ok: "pool_reach n s \<Longrightarrow> tasks_ok s"
  by (induction rule: pool_reach.induct) (auto intro: tasks_ok_new tasks_ok_step)

end
