(* ===== verification/Threadpool_Spec.thy ===== *)
theory Threadpool_Spec
  imports Threadpool_Inv
begin

text \<open>
  The second invariant of the thread pool, on the life of its workers, and the properties of the pool:
  where each future is, what \<open>future_get\<close> returns, what may be used after it was freed, and that the
  shutdown waits for every worker that has registered.
\<close>

subsection \<open>The life of the workers\<close>

text \<open>What each frame may say of its thread: only the first thread shuts the pool down, only workers
  take tasks from the global list, and a thread that joins waits for the last worker of the list.\<close>

fun life_frame :: "pool \<Rightarrow> nat \<Rightarrow> frame \<Rightarrow> bool" where
  "life_frame s t Starting \<longleftrightarrow> t \<noteq> 0 \<and> t \<notin> set (workers s @ freed_workers s)"
| "life_frame s t (Exec f k) \<longleftrightarrow> (k = Global \<longrightarrow> t \<noteq> 0)"
| "life_frame s t (Stored f k) \<longleftrightarrow> (k = Global \<longrightarrow> t \<noteq> 0)"
| "life_frame s t Join \<longleftrightarrow> t = 0 \<and> is_shutdown s"
| "life_frame s t (Joining w) \<longleftrightarrow> t = 0 \<and> is_shutdown s \<and> workers s \<noteq> [] \<and> w = last (workers s)"
| "life_frame s t x \<longleftrightarrow> True"

definition life_ok :: "pool \<Rightarrow> bool" where
  "life_ok s \<longleftrightarrow>
     (\<forall>t. list_all (life_frame s t) (stack s t)) \<and>
     (\<forall>t. 0 < t \<and> t \<le> nthreads s \<longrightarrow> stack s t = [Starting] \<or> t \<in> set (workers s @ freed_workers s)) \<and>
     (\<forall>t. nthreads s < t \<longrightarrow> stack s t = []) \<and>
     distinct (workers s @ freed_workers s) \<and>
     (\<forall>w \<in> set (freed_workers s). stack s w = [Exited]) \<and>
     (freed_workers s \<noteq> [] \<longrightarrow> is_shutdown s) \<and>
     (pool_freed s \<longrightarrow> is_shutdown s \<and> workers s = [])"

text \<open>The fields that this invariant reads besides the stacks.\<close>

definition same_life :: "pool \<Rightarrow> pool \<Rightarrow> bool" where
  "same_life s s' \<longleftrightarrow> workers s' = workers s \<and> freed_workers s' = freed_workers s \<and>
     is_shutdown s' = is_shutdown s \<and> pool_freed s' = pool_freed s \<and> nthreads s' = nthreads s"

lemma life_frame_same:
  assumes "same_life s s'" shows "life_frame s' t = life_frame s t"
proof
  show "life_frame s' t x = life_frame s t x" for x
    using assms by (cases x) (simp_all add: same_life_def)
qed

lemma life_frames: "life_ok s \<Longrightarrow> list_all (life_frame s t) (stack s t)"
  by (simp add: life_ok_def)

lemma life_ok_upd:
  assumes s: "life_ok s" and same: "same_life s s'" and st: "stack s' = (stack s)(t := fs)"
    and fs: "list_all (life_frame s t) fs"
    and old: "stack s t \<noteq> []" "stack s t \<noteq> [Exited]" "stack s t \<noteq> [Starting]"
  shows "life_ok s'"
proof -
  have "list_all (life_frame s' u) (stack s' u)" for u
    using life_frames [OF s, of u] fs st by (simp add: life_frame_same [OF same])
  moreover have "\<forall>w \<in> set (freed_workers s). stack s' w = [Exited]"
    using s old(2) st by (auto simp: life_ok_def)
  moreover have "t \<le> nthreads s"
    using s old(1) not_le by (auto simp: life_ok_def)
  ultimately show ?thesis
    using s same old(3) unfolding life_ok_def same_life_def st by auto
qed

lemma life_ok_same:
  assumes s: "life_ok s" and same: "same_life s s'" and st: "stack s' = stack s"
  shows "life_ok s'"
proof -
  have "list_all (life_frame s' u) (stack s' u)" for u
    using life_frames [OF s, of u] st by (simp add: life_frame_same [OF same])
  then show ?thesis
    using s same st unfolding life_ok_def same_life_def by simp
qed

lemma life_ok_new: "life_ok (thread_pool_new n)"
  by (auto simp: life_ok_def thread_pool_new_def)

lemma same_life_simps [simp]:
  "same_life s (goto t fs s') = same_life s s'" "same_life s (set_state f st s') = same_life s s'"
  "same_life s (set_local w gs s') = same_life s s'" "same_life s (add_log e s') = same_life s s'"
  "same_life s (upd_future f h s') = same_life s s'" "same_life s (fault_at c s') = same_life s s'"
  "same_life s (s'\<lparr>global_tasks_list := gs\<rparr>) = same_life s s'" "same_life s s"
  by (simp_all add: same_life_def pool_changes)

lemma stack_simps [simp]:
  "stack (goto t fs s) = (stack s)(t := fs)" "stack (set_state f st s) = stack s"
  "stack (set_local w gs s) = stack s" "stack (add_log e s) = stack s"
  "stack (upd_future f h s) = stack s" "stack (fault_at c s) = stack s"
  by (simp_all add: pool_changes)

lemma life_frame_plain: "life_frame s t (search_after w ws)" "life_frame s t (search_begin s')"
  by (induction w ws rule: search_after.induct) (auto simp: search_begin_def split: list.split)

lemma life_tail: "life_ok s \<Longrightarrow> stack s t = x # fs \<Longrightarrow> life_frame s t x \<and> list_all (life_frame s t) fs"
  using life_frames [of s t] by simp

lemma life_ok_register:
  assumes s: "life_ok s" and t: "stack s t = [Starting]"
  shows "life_ok (register_worker t s)"
proof (cases "pool_freed s")
  case True
  then show ?thesis
    using s by (simp add: register_worker_def life_ok_same)
next
  case False
  have new: "t \<noteq> 0" "t \<notin> set (workers s @ freed_workers s)" "t \<le> nthreads s"
    using life_tail [OF s t] s t not_le by (auto simp: life_ok_def)
  let ?s = "register_worker t s"
  have "life_frame ?s u x" if "x \<in> set (stack ?s u)" for u x
  proof -
    have old: "life_frame s u x \<or> u = t \<and> x = Barrier"
      using life_frames [OF s, of u] that False by (auto simp: register_worker_def list_all_iff split: if_splits)
    show ?thesis
      using old that False t
      by (cases x) (auto simp: register_worker_def goto_def set_local_def split: if_splits)
  qed
  moreover have "workers ?s = t # workers s" "freed_workers ?s = freed_workers s"
    "pool_freed ?s = False" "is_shutdown ?s = is_shutdown s" "nthreads ?s = nthreads s"
    "stack ?s = (stack s)(t := [Barrier])"
    using False by (simp_all add: register_worker_def goto_def set_local_def)
  ultimately show ?thesis
    using s new t unfolding life_ok_def list_all_iff by auto
qed

lemma life_ok_shutdown:
  assumes s: "life_ok s" and t: "stack s 0 = [Client]"
  shows "life_ok (thread_pool_shutdown s)"
proof -
  let ?s = "s\<lparr>is_shutdown := True\<rparr>"
  have "life_frame ?s u x" if "life_frame s u x" for u x
    using that by (cases x) auto
  then have "life_ok ?s"
    using s unfolding life_ok_def list_all_iff by simp
  then show ?thesis
    unfolding thread_pool_shutdown_def by (rule life_ok_upd [where t = 0]) (use t in auto)
qed

lemma life_ok_join:
  assumes s: "life_ok s" and step: "join_step s = Some s'"
  shows "life_ok s'"
proof -
  consider (free) "stack s 0 = [Join]" "workers s = []" "s' = goto 0 [Destroyed] (s\<lparr>pool_freed := True\<rparr>)"
    | (peek) "stack s 0 = [Join]" "workers s \<noteq> []" "s' = goto 0 [Joining (last (workers s))] s"
    | (join) w where "stack s 0 = [Joining w]" "stack s w = [Exited]"
        "s' = goto 0 [Join] (s\<lparr>workers := butlast (workers s), freed_workers := w # freed_workers s\<rparr>)"
    using step by (auto simp: join_step_def split: list.splits frame.splits if_splits)
  then show ?thesis
  proof cases
    case free
    have "is_shutdown s"
      using life_tail [OF s free(1)] by simp
    moreover have "life_frame (s\<lparr>pool_freed := True\<rparr>) t x = life_frame s t x" for t x
      by (cases x) auto
    ultimately have "life_ok (s\<lparr>pool_freed := True\<rparr>)"
      using s free(2) by (simp add: life_ok_def list_all_iff)
    then show ?thesis
      unfolding free(3) by (rule life_ok_upd [where t = 0]) (use free in auto)
  next
    case peek
    then show ?thesis
      using life_tail [OF s peek(1)] by (intro life_ok_upd [OF s, where t = 0]) auto
  next
    case (join w)
    have w: "is_shutdown s" "workers s \<noteq> []" "w = last (workers s)"
      using life_tail [OF s join(1)] by simp_all
    then obtain vs where vs: "workers s = vs @ [w]"
      by (metis append_butlast_last_id)
    have s': "workers s' = vs" "freed_workers s' = w # freed_workers s" "nthreads s' = nthreads s"
        "is_shutdown s'" "pool_freed s' = pool_freed s" "stack s' = (stack s)(0 := [Join])"
      using vs w(1) by (simp_all add: join(3) goto_def)
    have ok: "distinct (vs @ w # freed_workers s)" "\<not> pool_freed s"
        "\<And>v. v \<in> set (freed_workers s) \<Longrightarrow> stack s v = [Exited]" "w \<noteq> 0" "0 \<notin> set (freed_workers s)"
      using s vs join(1,2) by (auto simp: life_ok_def)
    have "life_frame s' u x" if x: "x \<in> set (stack s' u)" for u x
    proof (cases "u = 0")
      case True
      then show ?thesis
        using x s' by simp
    next
      case False
      then have "life_frame s u x"
        using life_frames [OF s, of u] x s' by (simp add: list_all_iff)
      then show ?thesis
        using False vs s' by (cases x) auto
    qed
    moreover have "stack s' t = [Starting] \<or> t \<in> set (workers s' @ freed_workers s')"
      if "0 < t" "t \<le> nthreads s'" for t
      using s that vs s' by (auto simp: life_ok_def)
    moreover have "stack s' t = []" if "nthreads s' < t" for t
      using s that s' by (simp add: life_ok_def)
    moreover have "stack s' v = [Exited]" if "v \<in> set (freed_workers s')" for v
      using ok(3) [of v] ok(4,5) join(2) that s' by (cases "v = 0") auto
    ultimately show ?thesis
      using ok(1,2) s'(1,2,4,5) unfolding life_ok_def list_all_iff by simp
  qed
qed

lemma life_ok_move:
  assumes "life_ok s" "same_life s s'" "stack s' = (stack s)(t := y # fs)" "stack s t = x # fs"
    and "life_frame s t y" "x \<noteq> Exited" "x \<noteq> Starting"
  shows "life_ok s'"
  using assms life_tail [OF assms(1,4)] by (intro life_ok_upd [OF assms(1-3)]) auto

lemma life_ok_find_global:
  assumes "life_ok s" "stack s t = [x]" "x \<noteq> Exited" "x \<noteq> Starting" "t \<noteq> 0"
  shows "life_ok (find_global t idle s)"
  using assms life_frame_plain
  by (intro life_ok_upd [OF assms(1), where t = t and fs = "stack (find_global t idle s) t"])
    (auto simp: find_global_def Let_def)

lemma life_ok_fault [simp]: "life_ok s \<Longrightarrow> life_ok (fault_at e s)"
  by (erule life_ok_same) simp_all

lemma life_ok_thread_function:
  assumes s: "life_ok s" and t: "t \<noteq> 0" and step: "thread_function t idle s = Some s'"
  shows "life_ok s'"
proof -
  have move: "life_ok (goto t [y] s)" if "stack s t = [x]" "x \<noteq> Exited" "x \<noteq> Starting" "life_frame s t y" for x y
    using that by (intro life_ok_move [OF s]) simp_all
  have "life_ok (search_step t w s)" if "stack s t = [Search w]" for w
    using s that life_frame_plain
    by (intro life_ok_upd [OF s, where t = t and fs = "stack (search_step t w s) t"] life_ok_fault)
      (auto simp: search_step_def Let_def intro!: life_ok_fault)
  then show ?thesis
    using assms unfolding thread_function_def
    by (auto split: list.splits frame.splits if_splits simp: life_frame_plain
        intro: life_ok_register life_ok_find_global move)
qed

lemma life_ok_client:
  assumes "life_ok s" "in_client (stack s t)" "same_life s s'" "stack s' = (stack s)(t := x # stack s t)"
    "life_frame s t x"
  shows "life_ok s'"
  using assms life_frames [OF assms(1), of t] by (intro life_ok_upd [OF assms(1,3,4)]) auto

lemma life_ok_future_get:
  assumes s: "life_ok s" and c: "in_client (stack s t)"
  shows "life_ok (future_get t f s)"
proof -
  let ?x = "hd (stack (future_get t f s) t)"
  have "same_life s (future_get t f s) \<and> (stack (future_get t f s) = stack s \<or>
      life_frame s t ?x \<and> stack (future_get t f s) = (stack s)(t := ?x # stack s t))"
    unfolding future_get_def Let_def by (auto split: option.split status_t.split list.split)
  then show ?thesis
    using life_ok_same [OF s] life_ok_client [OF s c] by blast
qed

lemma life_ok_pop:
  assumes "life_ok s" "same_life s s'" "stack s' = (stack s)(t := fs)" "stack s t = x # fs"
    "x \<noteq> Exited" "x \<noteq> Starting"
  shows "life_ok s'"
  using assms life_tail [OF assms(1,4)] by (intro life_ok_upd [OF assms(1-3)]) auto

lemma life_ok_step:
  assumes s: "life_ok s" and step: "pool_step a s = Some s'"
  shows "life_ok s'"
proof (cases a)
  case (Store t v)
  then obtain f k fs where t: "stack s t = Exec f k # fs"
    using step by (auto simp: store_result_def split: list.splits frame.splits)
  then show ?thesis
    using s step Store life_tail [OF s t]
    by (auto simp: store_result_def split: if_splits intro: life_ok_fault life_ok_move [OF s _ _ t])
next
  case (Finish t)
  then obtain f k fs where t: "stack s t = Stored f k # fs"
    using step by (auto simp: finish_task_def split: list.splits frame.splits)
  then show ?thesis
    using s step Finish
    by (auto simp: finish_task_def Let_def split: if_splits option.splits origin.splits
        intro: life_ok_fault life_ok_pop [OF s _ _ t])
next
  case (Wake t)
  then obtain f fs where t: "stack s t = Blocked f # fs"
    using step by (auto simp: wake_get_def split: list.splits frame.splits)
  then show ?thesis
    using s step Wake
    by (auto simp: wake_get_def split: if_splits intro: life_ok_fault life_ok_pop [OF s _ _ t])
next
  case (Submit t task data)
  then show ?thesis
    using step by (intro life_ok_same [OF s])
      (auto simp: thread_pool_submit_def same_life_def curr_worker_def Let_def set_local_def split: if_splits)
next
  case (Free t f)
  then show ?thesis
    using step by (intro life_ok_same [OF s]) (auto simp: future_free_def split: if_splits)
qed (use s step in \<open>auto split: if_splits
       intro: life_ok_thread_function life_ok_future_get life_ok_shutdown life_ok_join\<close>)

lemma reach_life_ok: "pool_reach n s \<Longrightarrow> life_ok s"
  by (induction rule: pool_reach.induct) (auto intro: life_ok_new life_ok_step)

subsection \<open>Properties of the thread pool\<close>

lemma run_reach: "pool_run as (thread_pool_new n) \<noteq> None \<Longrightarrow> pool_reach n (the (pool_run as (thread_pool_new n)))"
  by (auto intro: pool_run_reach [OF pool_reach.init])

lemmas pool_eval = thread_pool_new_def thread_function_def register_worker_def find_global_def search_begin_def
  search_step_def store_result_def finish_task_def lock_fault_def curr_worker_def thread_pool_submit_def
  future_get_def wake_get_def future_free_def thread_pool_shutdown_def join_step_def awaited_def pool_changes
  Let_def

lemma reach_nthreads: "pool_reach n s \<Longrightarrow> nthreads s = n"
proof (induction rule: pool_reach.induct)
  case (step s a s')
  have "nthreads s' = nthreads s" if "pool_step a s = Some s'" for a
    using that by (cases a) (auto simp: pool_eval split: list.splits frame.splits if_splits option.splits
        origin.splits status_t.splits)
  then show ?case
    using step by simp
qed (simp add: thread_pool_new_def)

text \<open>Runs of the machine: a worker runs a task of the first thread; worker 1 runs a task, and submits a
  task that worker 2 steals.\<close>

definition one_task :: "int \<Rightarrow> action list" where
  "one_task v = [Submit 0 0 0, Get 0 0, Thread 1 True, Thread 1 True, Thread 1 True, Store 1 v, Finish 1, Wake 0]"

definition stolen_task :: "action list" where
  "stolen_task = [Submit 0 0 0, Thread 1 True, Thread 2 True, Thread 1 True, Thread 2 True, Thread 1 True,
     Submit 1 1 0, Thread 2 False, Thread 2 False, Thread 2 False]"

text \<open>C9: In every reachable state, and for every order of the steps of the threads, the global list
  holds exactly the futures that the first thread submitted and that still wait, the local list of
  each worker exactly those that it submitted and that still wait, no list holds a future twice, and
  each running task is in exactly one place of one thread.\<close>

theorem tasks_in_one_place:
  assumes "pool_reach n s"
  shows "list_ok (futures s) None (global_tasks_list s) \<and>
    (\<forall>w. list_ok (futures s) (Some w) (local_tasks_list s w)) \<and> held_ok (futures s) (stack s)"
  using reach_tasks_ok [OF assms] by (simp add: tasks_ok_def)

theorem tasks_in_one_place_witness:
  "held_ok (futures (the (pool_run stolen_task (thread_pool_new 2))))
     (stack (the (pool_run stolen_task (thread_pool_new 2))))"
proof -
  have "pool_run stolen_task (thread_pool_new 2) \<noteq> None"
    by (simp add: stolen_task_def pool_eval)
  from tasks_in_one_place [OF run_reach [OF this]] show ?thesis
    by blast
qed

text \<open>C10: No task returns twice, and what \<open>future_get\<close> returns for a future of the first thread is the
  value that its task has returned.\<close>

theorem task_result:
  assumes "pool_reach n s"
  shows "(\<forall>f. length (returns f (log s)) \<le> 1) \<and>
    (\<forall>f r. Got f r \<in> set (log s) \<longrightarrow> fut_worker (futures s ! f) = None \<longrightarrow>
       (\<exists>v. r = Some v \<and> returns f (log s) = [v]))"
proof -
  have log: "log_ok (futures s) (log s)" and res: "results_ok (futures s)"
    using reach_tasks_ok [OF assms] by (simp_all add: tasks_ok_def)
  have "length (returns f (log s)) \<le> 1" for f
    using log by (auto simp: log_ok_def returned_def split: option.split)
  moreover have "\<exists>v. r = Some v \<and> returns f (log s) = [v]"
    if "Got f r \<in> set (log s)" "fut_worker (futures s ! f) = None" for f r
  proof -
    have f: "in_phase (futures s) FINISHED f" "r = fut_result (futures s ! f)"
      using log_okD [OF log that(1)] that(2) by (simp_all add: got_ok_def in_phase_def)
    then obtain v where "r = Some v"
      using res by (auto simp: results_ok_def)
    then show ?thesis
      using log f by (auto simp: log_ok_def returned_def in_phase_def split: option.splits)
  qed
  ultimately show ?thesis
    by blast
qed

theorem task_result_witness:
  "\<exists>v. Some 42 = Some v \<and> returns 0 (log (the (pool_run (one_task 42) (thread_pool_new 1)))) = [v]"
proof -
  have run: "pool_run (one_task 42) (thread_pool_new 1) \<noteq> None"
    "Got 0 (Some 42) \<in> set (log (the (pool_run (one_task 42) (thread_pool_new 1))))"
    "fut_worker (futures (the (pool_run (one_task 42) (thread_pool_new 1))) ! 0) = None"
    by (simp_all add: one_task_def pool_eval)
  from task_result [OF run_reach [OF run(1)]] run(2,3) show ?thesis
    by blast
qed

text \<open>Why a fault can happen: a thread starts after the pool was destroyed, the worker was joined and
  freed, the future was submitted by a worker.\<close>

fun fault_cause :: "pool \<Rightarrow> fault \<Rightarrow> bool" where
  "fault_cause s Pool_freed \<longleftrightarrow> pool_freed s \<and> (\<exists>t. stack s t = [Starting])"
| "fault_cause s (Worker_freed w) \<longleftrightarrow> w \<in> set (freed_workers s)"
| "fault_cause s (Future_freed f) \<longleftrightarrow> fut_worker (futures s ! f) \<noteq> None"

lemma running_freed:
  assumes s: "tasks_ok s" and f: "f \<in> set (held (stack s t))" "fut_freed (futures s ! f)"
  shows "fut_worker (futures s ! f) \<noteq> None"
proof -
  have run: "in_phase (futures s) RUNNING f" and log: "log_ok (futures s) (log s)"
    using s f(1) held_okD(4) by (auto simp: tasks_ok_def)
  then obtain r where "Got f r \<in> set (log s)"
    using f(2) by (auto simp: log_ok_def in_phase_def)
  from log_okD [OF log this] show ?thesis
    using run by (auto simp: got_ok_def in_phase_def)
qed

lemma no_global_after_free:
  assumes s: "life_ok s" and st: "stack s t = Stored f Global # fs"
  shows "\<not> pool_freed s"
proof
  assume free: "pool_freed s"
  have "t \<noteq> 0" "t \<le> nthreads s"
    using life_tail [OF s st] s st not_le by (auto simp: life_ok_def)
  then have "t \<in> set (freed_workers s)"
    using s free st by (auto simp: life_ok_def)
  then show False
    using s st by (simp add: life_ok_def)
qed

lemma lock_fault_cause:
  assumes "life_ok s" "stack s t = Stored f k # fs" "lock_fault f k s = Some e"
  shows "fault_cause s e"
  using assms no_global_after_free [OF assms(1), of t f fs]
  by (cases k) (auto simp: lock_fault_def Let_def split: if_splits option.splits)

lemma step_fault:
  assumes s: "tasks_ok s" "life_ok s" "pool_fault s = None" and step: "pool_step a s = Some s'"
    and e: "pool_fault s' = Some e"
  shows "s' = fault_at e s \<and> fault_cause s e"
proof (cases a)
  case (Thread t idle)
  then show ?thesis
    using s step e by (auto simp: thread_function_def register_worker_def find_global_def search_step_def
        pool_changes Let_def split: list.splits frame.splits if_splits)
next
  case (Store t v)
  then obtain f k fs where t: "stack s t = Exec f k # fs"
    using step by (auto simp: store_result_def split: list.splits frame.splits)
  then show ?thesis
    using s step e Store running_freed [OF s(1), of f t]
    by (auto simp: store_result_def pool_changes split: if_splits)
next
  case (Finish t)
  then obtain f k fs where t: "stack s t = Stored f k # fs"
    using step by (auto simp: finish_task_def split: list.splits frame.splits)
  then show ?thesis
    using s step e Finish running_freed [OF s(1), of f t] lock_fault_cause [OF s(2) t]
    by (auto simp: finish_task_def pool_changes Let_def split: if_splits option.splits origin.splits)
next
  case (Wake t)
  then obtain f fs where t: "stack s t = Blocked f # fs"
    using step by (auto simp: wake_get_def split: list.splits frame.splits)
  have "frame_ok (futures s) (Blocked f)"
    using s(1) t frames_ok_at [of "futures s" "stack s" t] by (simp add: tasks_ok_def)
  then show ?thesis
    using s(3) step e Wake t by (auto simp: wake_get_def pool_changes split: if_splits)
next
  case (Submit t task data)
  then show ?thesis
    using s(3) step e by (auto simp: thread_pool_submit_def curr_worker_def Let_def set_local_def split: if_splits)
next
  case (Get t f)
  then show ?thesis
    using s(3) step e by (auto simp: future_get_def Let_def pool_changes
        split: if_splits option.splits status_t.splits list.splits)
qed (use s(3) step e in \<open>auto simp: future_free_def thread_pool_shutdown_def join_step_def pool_changes
       split: if_splits list.splits frame.splits\<close>)

lemma fault_cause_fault [simp]: "fault_cause (fault_at e' s) e = fault_cause s e"
  by (cases e) (simp_all add: fault_at_def)

lemma reach_fault: "pool_reach n s \<Longrightarrow> pool_fault s = Some e \<Longrightarrow> fault_cause s e"
proof (induction rule: pool_reach.induct)
  case (step s a s')
  then show ?case
    using step_fault [OF reach_tasks_ok reach_life_ok, of n s n a s' e] by simp
qed (simp add: thread_pool_new_def)




text \<open>The shutdown does not wait for workers that have not registered, and frees a worker whose list
  another worker still has to lock after the task that it stole.\<close>

lemma shutdown_faults:
  "(\<exists>s. pool_run [Shutdown, Join_step, Thread 1 True] (thread_pool_new 1) = Some s
      \<and> pool_fault s = Some Pool_freed) \<and>
   (\<exists>s. pool_run (stolen_task @ [Store 1 v, Finish 1, Shutdown, Join_step, Thread 1 False, Join_step,
        Store 2 v, Finish 2]) (thread_pool_new 2) = Some s
      \<and> pool_fault s = Some (Worker_freed 1))"
  by (simp add: stolen_task_def pool_eval)

end
